(* ===== verification/Prelude.thy ===== *)
theory Prelude
  imports Main "HOL-Library.Word"
begin

text \<open>
  Shared base of the development: the widths of the C++ integer types, the collections of
  simplification rules, and the lemmas on words, lists and options that several components use.

  Conventions of the whole library. A \<open>uint8_t\<close>, \<open>uint16_t\<close>, \<open>uint32_t\<close> or \<open>uint64_t\<close> is a word of
  that width, so that arithmetic wraps as in C++. A \<open>size_t\<close> that counts objects in memory is a
  \<open>nat\<close>. A \<open>::string\<close> is a HOL \<open>string\<close>, a list of 8-bit characters. A function that may run into
  undefined behaviour (a read outside a buffer, a shift by the width) or may not return has an
  \<open>option\<close> result, and \<open>None\<close> is that outcome.
\<close>

unbundle bit_operations_syntax

type_synonym u8 = "8 word"
type_synonym u16 = "16 word"
type_synonym u32 = "32 word"
type_synonym u64 = "64 word"

named_theorems ops_defs \<open>unfolding rules of operations that are plain definitions\<close>

subsection \<open>Words\<close>

lemma unat_drop_bit_less:
  fixes v :: "'a::len word"
  assumes "drop_bit k v \<noteq> 0" and "0 < k"
  shows "unat (drop_bit k v) < unat v"
proof -
  have e: "unat (drop_bit k v) = unat v div 2 ^ k"
    using unat_drop_bit_eq [of k v] drop_bit_eq_div [of k "unat v"] by (rule trans)
  have "0 < unat (drop_bit k v)"
    using assms(1) by (simp add: unat_gt_0)
  then have "unat v \<noteq> 0" using e by (cases "unat v = 0") simp_all
  moreover have "(1::nat) < 2 ^ k" using assms(2) by (intro one_less_power) simp_all
  ultimately show ?thesis unfolding e by (intro div_less_dividend) simp_all
qed

lemma unat_less_2_32: "unat (v :: u32) < 2 ^ 32"
proof -
  have "unat v < 2 ^ LENGTH(32)" by (rule unsigned_less)
  then show ?thesis by simp
qed

lemma unat_of_nat_u32 [simp]: "n < 2 ^ 32 \<Longrightarrow> unat (of_nat n :: u32) = n"
  by (simp add: unat_of_nat)

lemma of_nat_le_u32_iff: "n < 2 ^ 32 \<Longrightarrow> m < 2 ^ 32 \<Longrightarrow> (of_nat n :: u32) \<le> of_nat m \<longleftrightarrow> n \<le> m"
  by (simp add: word_le_nat_alt)

lemma of_nat_less_u32_iff: "n < 2 ^ 32 \<Longrightarrow> m < 2 ^ 32 \<Longrightarrow> (of_nat n :: u32) < of_nat m \<longleftrightarrow> n < m"
  by (simp add: word_less_nat_alt)

lemma unat_plus_1: "(x :: u32) < y \<Longrightarrow> unat (x + 1) = Suc (unat x)"
proof -
  assume "x < y"
  then have "unat x + 1 < 2 ^ 32" using unat_less_2_32 [of y] by (simp add: word_less_nat_alt)
  then show ?thesis by (simp add: unat_plus_if')
qed

lemma word_less_max_iff: "(x::u32) < - 1 \<longleftrightarrow> x \<noteq> - 1"
  by (simp add: word_order.not_eq_extremum)

lemma unat_drop_bit_div: "unat (drop_bit k v) = unat (v :: 'a::len word) div 2 ^ k"
  using unat_drop_bit_eq [of k v] drop_bit_eq_div [of k "unat v"] by (rule trans)

lemma disjCI2: "(\<not> P \<Longrightarrow> Q) \<Longrightarrow> P \<or> Q"
  by blast

lemma mod_shift_inj:
  assumes "(f + i) mod c = (f + j) mod (c :: nat)" and "i < c" and "j < c"
  shows "i = j"
  using assms
proof (induction i j rule: linorder_wlog)
  case (le i j)
  then have "c dvd (f + j) - (f + i)" by (metis mod_eq_dvd_iff_nat add_le_cancel_left)
  then have "c dvd j - i" by simp
  then show ?case using le by (metis dvd_imp_le diff_is_0_eq le_antisym less_imp_diff_less not_le zero_less_diff)
next
  case (sym i j)
  then show ?case by simp
qed

subsection \<open>Lists\<close>

lemma sorted_dropWhile_less:
  fixes xs :: "'a::linorder list"
  assumes "sorted_wrt (<) xs"
  shows "set (dropWhile (\<lambda>x. x < t) xs) = {x \<in> set xs. t \<le> x}"
  using assms
proof (induction xs)
  case Nil
  then show ?case by simp
next
  case (Cons a xs)
  then show ?case by (cases "a < t") (auto simp: not_less intro: less_imp_le)
qed

lemma sorted_wrt_dropWhile: "sorted_wrt P xs \<Longrightarrow> sorted_wrt P (dropWhile Q xs)"
  by (induction xs) auto

lemma sorted_wrt_less_set_eqI:
  fixes xs ys :: "'a::linorder list"
  assumes "sorted_wrt (<) xs" and "sorted_wrt (<) ys" and "set xs = set ys"
  shows "xs = ys"
  using assms by (metis sorted_list_of_set.idem_if_sorted_distinct strict_sorted_iff)

lemma dropWhile_nth_first:
  assumes "\<forall>j < k. P (xs ! j)" and "k \<le> length xs" and "k < length xs \<Longrightarrow> \<not> P (xs ! k)"
  shows "dropWhile P xs = drop k xs"
  using assms
proof (induction k arbitrary: xs)
  case 0
  then show ?case by (cases xs) auto
next
  case (Suc k)
  then obtain a ys where xs: "xs = a # ys" by (cases xs) auto
  have "P a" using Suc.prems(1) xs by force
  moreover have "dropWhile P ys = drop k ys"
    using Suc.prems xs by (intro Suc.IH) auto
  ultimately show ?case by (simp add: xs)
qed

lemma strict_sorted_list_of_set: "sorted_wrt (<) (sorted_list_of_set A)"
  by (simp add: strict_sorted_iff)

lemma set_tl_sorted: "sorted_wrt (<) xs \<Longrightarrow> xs \<noteq> [] \<Longrightarrow> set (tl xs) = set xs - {hd xs :: 'a::linorder}"
  by (cases xs) auto

lemma hd_le_sorted: "sorted_wrt (<) xs \<Longrightarrow> x \<in> set xs \<Longrightarrow> hd xs \<le> (x :: 'a::linorder)"
  by (cases xs) (auto intro: less_imp_le)

lemma sorted_wrt_tl: "sorted_wrt P xs \<Longrightarrow> sorted_wrt P (tl xs)"
  by (cases xs) simp_all

subsection \<open>A loop that runs a partial operation over the elements of a vector\<close>

primrec traverse :: "('a \<Rightarrow> 'b option) \<Rightarrow> 'a list \<Rightarrow> 'b list option" where
  "traverse f [] = Some []"
| "traverse f (x # xs) =
     (case f x of None \<Rightarrow> None | Some y \<Rightarrow> map_option ((#) y) (traverse f xs))"

lemma traverse_all2:
  assumes "\<And>x. x \<in> set xs \<Longrightarrow> \<exists>y. f x = Some y \<and> P x y"
  shows "\<exists>ys. traverse f xs = Some ys \<and> list_all2 P xs ys"
  using assms
proof (induction xs)
  case Nil
  then show ?case by simp
next
  case (Cons x xs)
  obtain y where "f x = Some y" "P x y" using Cons.prems by auto
  moreover obtain ys where "traverse f xs = Some ys" "list_all2 P xs ys"
    using Cons.IH Cons.prems by auto
  ultimately show ?case by auto
qed

lemma list_all2_UN_set:
  assumes "list_all2 (\<lambda>x y. g y = h x) xs ys"
  shows "(\<Union>y \<in> set ys. g y) = (\<Union>x \<in> set xs. h x)"
  using assms by (induction rule: list_all2_induct) auto

lemma list_all2_ball: "list_all2 (\<lambda>x y. P y) xs ys \<Longrightarrow> \<forall>y \<in> set ys. P y"
  by (induction rule: list_all2_induct) auto

end
