(* ===== verification/VByte.thy ===== *)
theory VByte
  imports Prelude
begin

text \<open>
  The variable-byte code of \<open>src/index/src/lib/vbyte.cpp\<close>: one 32-bit value as one to five bytes
  of seven bits, and a posting list as the code of the differences of its locations.
  \<open>encode\<close> and \<open>decode\<close> are the two loops over a value, \<open>encodeDeltaList\<close> and \<open>decodeDeltaList\<close>
  the loops over a list. A reader runs over the bytes from its pointer on; running off the end and
  shifting by 32 bits or more are \<open>None\<close>. The lemmas are the two round trips and the length bounds.
\<close>

subsection \<open>One value\<close>

function encode :: "u32 \<Rightarrow> u8 list" where
  "encode value =
     (let byte = (ucast (value AND 0x7F) :: u8);
          value' = drop_bit 7 value
      in if value' \<noteq> 0 then (byte OR 0x80) # encode value' else [byte])"
  by pat_completeness auto
termination
  by (relation "measure unat") (auto simp: unat_drop_bit_less)

declare encode.simps [simp del]

fun decode_loop :: "u8 list \<Rightarrow> u32 \<Rightarrow> nat \<Rightarrow> (u32 \<times> u8 list) option" where
  "decode_loop [] result shift = None"
| "decode_loop (b # bs) result shift =
     (if 32 \<le> shift then None
      else let result' = result OR push_bit shift (ucast (b AND 0x7F))
           in if b AND 0x80 = 0 then Some (result', bs) else decode_loop bs result' (shift + 7))"

definition decode :: "u8 list \<Rightarrow> (u32 \<times> u8 list) option" where
  "decode bs = decode_loop bs 0 0"

text \<open>\<open>decode\<close> takes its pointer by reference and moves it: here the pointer is an offset into the
  bytes it points into.\<close>

definition decode_at :: "u8 list \<Rightarrow> nat \<Rightarrow> (u32 \<times> nat) option" where
  "decode_at mem cur =
     (case decode (drop cur mem) of
        None \<Rightarrow> None
      | Some (value, rest) \<Rightarrow> Some (value, length mem - length rest))"

subsection \<open>Lists of locations\<close>

fun encode_deltas :: "u32 \<Rightarrow> u32 list \<Rightarrow> u8 list" where
  "encode_deltas prev [] = []"
| "encode_deltas prev (l # ls) = encode (l - prev) @ encode_deltas l ls"

definition encodeDeltaList :: "u32 list \<Rightarrow> u8 list" where
  "encodeDeltaList locations = encode_deltas 0 locations"

fun decode_deltas :: "nat \<Rightarrow> u32 \<Rightarrow> u8 list \<Rightarrow> u32 list option" where
  "decode_deltas 0 prev bs = Some []"
| "decode_deltas (Suc n) prev bs =
     (case decode bs of
        None \<Rightarrow> None
      | Some (delta, bs') \<Rightarrow> map_option ((#) (prev + delta)) (decode_deltas n (prev + delta) bs'))"

definition decodeDeltaList :: "u8 list \<Rightarrow> nat \<Rightarrow> u32 list option" where
  "decodeDeltaList data count = decode_deltas count 0 data"

subsection \<open>Round trip of one value\<close>

lemma mask_7F: "(0x7F :: 'a::len word) = mask 7"
  by (simp add: mask_eq_exp_minus_1)

lemma bit_80_int: "bit (128 :: int) n \<longleftrightarrow> n = 7"
proof -
  have "(128 :: int) = push_bit 7 1" by (simp add: push_bit_eq_mult)
  then have "bit (128 :: int) n \<longleftrightarrow> bit (push_bit 7 1 :: int) n" by (rule arg_cong)
  also have "\<dots> \<longleftrightarrow> n = 7" by (simp only: bit_push_bit_iff bit_1_iff) auto
  finally show ?thesis .
qed

lemma encode_decode_step:
  fixes v r :: u32
  shows "(r OR push_bit s (ucast ((ucast (v AND 0x7F) :: u8) AND 0x7F)))
           OR push_bit (s + 7) (drop_bit 7 v) = r OR push_bit s v"
proof (rule bit_word_eqI)
  fix n assume "n < LENGTH(32)"
  have *: "bit v (7 + (n - (s + 7))) = bit v (n - s)" if "s + 7 \<le> n"
    using that by (simp add: add.commute)
  show "bit ((r OR push_bit s (ucast ((ucast (v AND 0x7F) :: u8) AND 0x7F)))
           OR push_bit (s + 7) (drop_bit 7 v)) n \<longleftrightarrow> bit (r OR push_bit s v) n"
    using \<open>n < LENGTH(32)\<close> unfolding mask_7F
    by (cases "s + 7 \<le> n") (auto simp: bit_or_iff bit_and_iff bit_push_bit_iff bit_drop_bit_eq
        bit_mask_iff bit_unsigned_iff *)
qed

lemma encode_byte_cont: "((ucast (v AND 0x7F) :: u8) OR 0x80) AND 0x80 \<noteq> 0"
proof -
  have "bit (((ucast (v AND 0x7F) :: u8) OR 0x80) AND 0x80) 7"
    by (auto simp: bit_simps bit_80_int)
  then show ?thesis by auto
qed

lemma encode_byte_last: "(ucast (v AND 0x7F) :: u8) AND 0x80 = 0"
  unfolding mask_7F
  by (rule bit_word_eqI) (auto simp: bit_and_iff bit_mask_iff bit_unsigned_iff bit_80_int)

lemma encode_byte_payload: "((b OR 0x80) AND 0x7F :: u8) = b AND 0x7F"
  unfolding mask_7F
  by (rule bit_word_eqI) (auto simp: bit_and_iff bit_or_iff bit_mask_iff bit_80_int)

lemma drop_bit_0_push_last:
  fixes v r :: u32
  assumes "drop_bit 7 v = 0"
  shows "r OR push_bit s (ucast ((ucast (v AND 0x7F) :: u8) AND 0x7F)) = r OR push_bit s v"
  using encode_decode_step [of r s v] assms by simp

lemma decode_loop_encode:
  assumes "unat v < 2 ^ (32 - s)" and "s < 32"
  shows "decode_loop (encode v @ rest) r s = Some (r OR push_bit s v, rest)"
  using assms
proof (induction v arbitrary: r s rule: encode.induct)
  case (1 v)
  show ?case
  proof (cases "drop_bit 7 v = 0")
    case True
    then show ?thesis using "1.prems"
      by (simp add: encode.simps [of v] encode_byte_last drop_bit_0_push_last)
  next
    case False
    have gt: "128 \<le> unat v"
    proof (rule ccontr)
      assume "\<not> 128 \<le> unat v"
      then have "unat (drop_bit 7 v) = 0" by (simp add: unat_drop_bit_div)
      with False show False by (simp add: unat_eq_zero)
    qed
    have "(2::nat) ^ 7 < 2 ^ (32 - s)" using gt "1.prems"(1) by simp
    then have s: "s + 7 < 32" by (subst (asm) power_strict_increasing_iff) simp_all
    have "unat v < 2 ^ (32 - (s + 7)) * 2 ^ 7"
    proof -
      have "32 - s = (32 - (s + 7)) + 7" using s by simp
      then show ?thesis using "1.prems"(1) by (metis power_add)
    qed
    then have "unat (drop_bit 7 v) < 2 ^ (32 - (s + 7))"
      unfolding unat_drop_bit_div by (rule less_mult_imp_div_less)
    then have IH: "decode_loop (encode (drop_bit 7 v) @ rest) r' (s + 7)
          = Some (r' OR push_bit (s + 7) (drop_bit 7 v), rest)" for r'
      using "1.IH" [OF refl refl False] s by blast
    show ?thesis using False "1.prems"(2)
      by (simp add: encode.simps [of v] encode_byte_cont encode_byte_payload IH encode_decode_step)
  qed
qed

lemma decode_encode [simp]: "decode (encode v @ rest) = Some (v, rest)"
  using decode_loop_encode [of v 0 rest 0] unat_less_2_32 [of v] by (simp add: decode_def)

lemma encode_nonempty [simp]: "encode v \<noteq> []"
  by (subst encode.simps) (simp add: Let_def)

lemma length_encode_bound: "unat v < 2 ^ (7 * k) \<Longrightarrow> 0 < k \<Longrightarrow> length (encode v) \<le> k"
proof (induction v arbitrary: k rule: encode.induct)
  case (1 v)
  show ?case
  proof (cases "drop_bit 7 v = 0")
    case True
    then show ?thesis using "1.prems" by (simp add: encode.simps [of v])
  next
    case False
    show ?thesis
    proof (cases "k = 1")
      case True
      then have "unat (drop_bit 7 v) = 0" using "1.prems"(1) by (simp add: unat_drop_bit_div)
      with False show ?thesis by (simp add: unat_eq_zero)
    next
      case k: False
      then obtain j where j: "k = Suc j" "0 < j" using "1.prems"(2) by (cases k) auto
      have "unat v < 2 ^ (7 * j) * 2 ^ 7" using "1.prems"(1) j by (simp add: power_add mult.commute)
      then have "unat (drop_bit 7 v) < 2 ^ (7 * j)"
        unfolding unat_drop_bit_div by (rule less_mult_imp_div_less)
      then have "length (encode (drop_bit 7 v)) \<le> j" using "1.IH" [OF refl refl False] j by blast
      with False j show ?thesis by (simp add: encode.simps [of v])
    qed
  qed
qed

lemma length_encode: "length (encode v) \<le> 5"
proof (rule length_encode_bound)
  have "unat v < 2 ^ 32" by (rule unat_less_2_32)
  also have "(2::nat) ^ 32 \<le> 2 ^ (7 * 5)" by simp
  finally show "unat v < 2 ^ (7 * 5)" .
qed simp

subsection \<open>Round trip of a list\<close>

lemma decode_deltas_encode_deltas:
  "decode_deltas (length ls) prev (encode_deltas prev ls @ rest) = Some ls"
  by (induction ls arbitrary: prev) simp_all

subsection \<open>Walking over an encoded posting list\<close>

text \<open>\<open>stream_off ls k\<close> is the offset at which the \<open>k\<close>-th value starts, \<open>loc_before ls k\<close> the running
  location there. One \<open>decode\<close> at that offset yields the next difference and the next offset.\<close>

definition stream_off :: "u32 list \<Rightarrow> nat \<Rightarrow> nat" where
  "stream_off ls k = length (encode_deltas 0 (take k ls))"

definition loc_before :: "u32 list \<Rightarrow> nat \<Rightarrow> u32" where
  "loc_before ls k = last (0 # take k ls)"

lemma encode_deltas_append:
  "encode_deltas prev (xs @ ys) = encode_deltas prev xs @ encode_deltas (last (prev # xs)) ys"
  by (induction xs arbitrary: prev) auto

lemma stream_off_0 [simp]: "stream_off ls 0 = 0"
  by (simp add: stream_off_def)

lemma loc_before_0 [simp]: "loc_before ls 0 = 0"
  by (simp add: loc_before_def)

lemma loc_before_Suc [simp]: "k < length ls \<Longrightarrow> loc_before ls (Suc k) = ls ! k"
  by (simp add: loc_before_def take_Suc_conv_app_nth)

lemma stream_off_Suc:
  "k < length ls \<Longrightarrow>
     stream_off ls (Suc k) = stream_off ls k + length (encode (ls ! k - loc_before ls k))"
  by (simp add: stream_off_def loc_before_def take_Suc_conv_app_nth encode_deltas_append)

lemma stream_off_less_Suc: "k < length ls \<Longrightarrow> stream_off ls k < stream_off ls (Suc k)"
  by (simp add: stream_off_Suc)

lemma stream_off_mono: "i \<le> j \<Longrightarrow> j \<le> length ls \<Longrightarrow> stream_off ls i \<le> stream_off ls j"
proof (induction j)
  case 0
  then show ?case by simp
next
  case (Suc j)
  show ?case
  proof (cases "i = Suc j")
    case False
    then have "stream_off ls i \<le> stream_off ls j" using Suc by simp
    also have "\<dots> \<le> stream_off ls (Suc j)"
      using Suc.prems by (intro less_imp_le stream_off_less_Suc) simp
    finally show ?thesis .
  qed simp
qed

lemma stream_off_strict_mono:
  assumes "i < j" and "j \<le> length ls"
  shows "stream_off ls i < stream_off ls j"
proof -
  have "stream_off ls i < stream_off ls (Suc i)" using assms by (intro stream_off_less_Suc) simp
  also have "\<dots> \<le> stream_off ls j" using assms by (intro stream_off_mono) simp_all
  finally show ?thesis .
qed

lemma stream_off_length [simp]: "stream_off ls (length ls) = length (encodeDeltaList ls)"
  by (simp add: stream_off_def encodeDeltaList_def)

lemma drop_stream:
  assumes "k \<le> length ls"
  shows "drop (stream_off ls k) (encodeDeltaList ls @ junk)
           = encode_deltas (loc_before ls k) (drop k ls) @ junk"
proof -
  have "encodeDeltaList ls = encode_deltas 0 (take k ls @ drop k ls)"
    by (simp add: encodeDeltaList_def)
  also have "\<dots> = encode_deltas 0 (take k ls) @ encode_deltas (loc_before ls k) (drop k ls)"
    by (simp only: encode_deltas_append loc_before_def)
  finally show ?thesis by (simp add: stream_off_def)
qed

lemma decode_stream:
  assumes "k < length ls"
  shows "decode (drop (stream_off ls k) (encodeDeltaList ls @ junk))
           = Some (ls ! k - loc_before ls k,
                   drop (stream_off ls (Suc k)) (encodeDeltaList ls @ junk))"
proof -
  have "drop k ls = ls ! k # drop (Suc k) ls" using assms by (simp add: Cons_nth_drop_Suc)
  then show ?thesis using assms
    by (simp add: drop_stream [of k] drop_stream [of "Suc k"] del: drop_append)
qed

lemma stream_off_le: "k \<le> length ls \<Longrightarrow> stream_off ls k \<le> length (encodeDeltaList ls)"
  using stream_off_mono [of k "length ls" ls] by simp

text \<open>The same step for a pointer that is an offset into the mapped bytes.\<close>

lemma decode_at_stream [simp]:
  assumes "k < length ls"
  shows "decode_at (encodeDeltaList ls @ junk) (stream_off ls k)
           = Some (ls ! k - loc_before ls k, stream_off ls (Suc k))"
  using stream_off_le [of "Suc k" ls] assms
  by (simp add: decode_at_def decode_stream del: drop_append)

lemma length_encode_deltas: "length (encode_deltas prev ls) \<le> 5 * length ls"
proof (induction ls arbitrary: prev)
  case (Cons l ls)
  then show ?case using add_mono [OF length_encode [of "l - prev"] Cons.IH] by simp
qed simp

lemma length_encodeDeltaList: "length (encodeDeltaList ls) \<le> 5 * length ls"
  by (simp add: encodeDeltaList_def length_encode_deltas)

text \<open>C24. Decoding as many values as were encoded gives the list back, whatever the list (the
  differences wrap at 32 bits, so it need not be sorted) and whatever bytes follow it.\<close>

theorem decodeDeltaList_encodeDeltaList:
  "decodeDeltaList (encodeDeltaList ls @ rest) (length ls) = Some ls"
  by (simp add: decodeDeltaList_def encodeDeltaList_def decode_deltas_encode_deltas)

end
