(* ===== verification/ByteCodec.thy ===== *)
theory ByteCodec
  imports Prelude
begin

text \<open>
  Fixed-width integers as bytes. The chunk writer copies objects to the file and the reader maps
  them back (\<open>memcpy\<close>, \<open>writePOD\<close>, \<open>readPOD\<close>), on hosts that are little endian: the least
  significant byte comes first. \<open>le_bytes n\<close> writes the low \<open>n\<close> bytes of a word, \<open>le_value\<close> reads
  bytes back, and the round trip is exact as soon as \<open>n\<close> bytes hold the word.
\<close>

primrec le_bytes :: "nat \<Rightarrow> 'a::len word \<Rightarrow> u8 list" where
  "le_bytes 0 w = []"
| "le_bytes (Suc n) w = ucast w # le_bytes n (drop_bit 8 w)"

primrec le_value :: "u8 list \<Rightarrow> 'a::len word" where
  "le_value [] = 0"
| "le_value (b # bs) = ucast b OR push_bit 8 (le_value bs)"

lemma length_le_bytes [simp]: "length (le_bytes n w) = n"
  by (induction n arbitrary: w) simp_all

lemma le_value_le_bytes_take: "le_value (le_bytes n w) = take_bit (8 * n) w"
proof (induction n arbitrary: w)
  case 0
  then show ?case by simp
next
  case (Suc n)
  have "ucast (ucast w :: u8) OR push_bit 8 (take_bit (8 * n) (drop_bit 8 w))
      = take_bit (8 * Suc n) w"
  proof (rule bit_word_eqI)
    fix i assume i: "i < LENGTH('a)"
    show "bit (ucast (ucast w :: u8) OR push_bit 8 (take_bit (8 * n) (drop_bit 8 w))) i
        = bit (take_bit (8 * Suc n) w) i"
      using i by (cases "i < 8") (auto simp: bit_simps not_less)
  qed
  then show ?case by (simp add: Suc)
qed

lemma le_value_le_bytes:
  fixes w :: "'a::len word"
  assumes "LENGTH('a) \<le> 8 * n"
  shows "le_value (le_bytes n w) = w"
proof -
  have "take_bit (8 * n) w = w"
    by (rule bit_word_eqI) (use assms in \<open>auto simp: bit_simps\<close>)
  then show ?thesis by (simp add: le_value_le_bytes_take)
qed

lemma le_value_le_bytes_simps [simp]:
  "le_value (le_bytes (Suc 0) (w1 :: u8)) = w1"
  "le_value (le_bytes 2 (w2 :: u16)) = w2"
  "le_value (le_bytes 4 (w4 :: u32)) = w4"
  "le_value (le_bytes 8 (w8 :: u64)) = w8"
  by (auto intro!: le_value_le_bytes)

subsection \<open>Reading at an offset\<close>

text \<open>\<open>read_at n off mem\<close>: the word in the \<open>n\<close> bytes at offset \<open>off\<close>, \<open>None\<close> when they are not all
  inside the memory.\<close>

definition read_at :: "nat \<Rightarrow> nat \<Rightarrow> u8 list \<Rightarrow> 'a::len word option" where
  "read_at n off mem =
     (if off + n \<le> length mem then Some (le_value (take n (drop off mem))) else None)"

lemma read_at_skip: "length pre = k \<Longrightarrow> read_at n (k + off) (pre @ mem) = read_at n off mem"
  by (simp add: read_at_def)

lemma read_at_le_bytes [simp]:
  "read_at (Suc 0) 0 (le_bytes (Suc 0) (w1 :: u8) @ post) = Some w1"
  "read_at 2 0 (le_bytes 2 (w2 :: u16) @ post) = Some w2"
  "read_at 4 0 (le_bytes 4 (w4 :: u32) @ post) = Some w4"
  "read_at 8 0 (le_bytes 8 (w8 :: u64) @ post) = Some w8"
  using le_value_le_bytes_simps by (simp_all add: read_at_def del: le_bytes.simps)

end
