(* ===== verification/SeekTable.thy ===== *)
theory SeekTable
  imports VByte ByteCodec
begin

text \<open>
  The seek table of \<open>src/index/src/lib/seek_table.h\<close> and \<open>seek_table.cpp\<close>: 256 entries, one for each
  value of the top eight bits of a location, that lead from a target location to a place in the
  encoded posting list from which a linear scan finds it. A \<open>SeekTable\<close> is the list of its
  entries. A pointer to encoded bytes is \<open>None\<close> (the null pointer) or the bytes from it to the end
  of the mapping, which may go on after the \<open>data_size\<close> bytes of the posting list.
\<close>

subsection \<open>State\<close>

record SeekTableEntry =
  byte_offset :: u32
  base_location :: u32
  posting_index :: u32

datatype seek_error =
    InvalidArgument   \<comment> \<open>\<open>std::invalid_argument\<close>\<close>
  | TruncatedData     \<comment> \<open>\<open>std::runtime_error\<close>\<close>
  | ReadPastBuffer    \<comment> \<open>\<open>decode\<close> runs off the mapped bytes\<close>

type_synonym SeekTable = "SeekTableEntry list"

definition IndexBits :: nat where "IndexBits = 8"
definition EntryCount :: nat where "EntryCount = 256"
definition BuildThreshold :: nat where "BuildThreshold = 512"
definition NoPosting :: u32 where "NoPosting = - 1"
definition SerializedSize :: nat where "SerializedSize = EntryCount * 8"

definition default_entry :: SeekTableEntry where
  "default_entry = \<lparr>byte_offset = 0, base_location = 0, posting_index = NoPosting\<rparr>"

definition empty_table :: SeekTable where
  "empty_table = replicate EntryCount default_entry"

definition shouldBuild :: "nat \<Rightarrow> bool" where
  "shouldBuild num_postings \<longleftrightarrow> num_postings > BuildThreshold"

definition extractIndex :: "u32 \<Rightarrow> nat" where
  "extractIndex location = unat (ucast (drop_bit (32 - IndexBits) location) :: u8)"

definition entryForIndex :: "SeekTable \<Rightarrow> nat \<Rightarrow> SeekTableEntry" where
  "entryForIndex table index = table ! index"

definition entryForLocation :: "SeekTable \<Rightarrow> u32 \<Rightarrow> SeekTableEntry" where
  "entryForLocation table location = entryForIndex table (extractIndex location)"

subsection \<open>Building\<close>

text \<open>\<open>build_loop\<close> is the first loop of \<open>SeekTable::build\<close>: \<open>n\<close> postings are left, \<open>posting_idx\<close>
  is the loop variable, \<open>cur\<close> the offset of the read pointer.\<close>

fun build_loop :: "u8 list \<Rightarrow> nat \<Rightarrow> nat \<Rightarrow> nat \<Rightarrow> nat \<Rightarrow> u32 \<Rightarrow> SeekTable \<Rightarrow> bool list
    \<Rightarrow> seek_error + (SeekTable \<times> bool list)" where
  "build_loop enc data_size 0 posting_idx cur current_location tbl initialized
     = Inr (tbl, initialized)"
| "build_loop enc data_size (Suc n) posting_idx cur current_location tbl initialized =
     (if cur \<ge> data_size then Inl TruncatedData
      else case decode_at enc cur of
        None \<Rightarrow> Inl ReadPastBuffer
      | Some (delta, cur') \<Rightarrow>
          let location' = current_location + delta;
              index = extractIndex location'
          in if \<not> initialized ! index
             then build_loop enc data_size n (Suc posting_idx) cur' location'
                    (tbl[index := \<lparr>byte_offset = of_nat cur', base_location = location',
                                   posting_index = of_nat posting_idx\<rparr>])
                    (initialized[index := True])
             else build_loop enc data_size n (Suc posting_idx) cur' location' tbl initialized)"

text \<open>The second loop: an entry that was not set takes the value of the closest one before it.\<close>

fun forward_fill :: "SeekTable \<Rightarrow> bool list \<Rightarrow> SeekTableEntry option \<Rightarrow> SeekTable" where
  "forward_fill (e # es) (i # ins) prev =
     (if i then e # forward_fill es ins (Some e)
      else (case prev of None \<Rightarrow> e | Some p \<Rightarrow> p) # forward_fill es ins prev)"
| "forward_fill es ins prev = es"

definition build :: "u8 list option \<Rightarrow> nat \<Rightarrow> nat \<Rightarrow> seek_error + SeekTable" where
  "build encoded_deltas data_size num_postings =
     (if num_postings = 0 \<or> data_size = 0 then Inr empty_table
      else case encoded_deltas of
        None \<Rightarrow> Inl InvalidArgument
      | Some enc \<Rightarrow>
          (case build_loop enc data_size num_postings 0 0 0 empty_table (replicate EntryCount False) of
             Inl e \<Rightarrow> Inl e
           | Inr (tbl, initialized) \<Rightarrow> Inr (forward_fill tbl initialized None)))"

subsection \<open>Serialization\<close>

definition serialize_entry :: "SeekTableEntry \<Rightarrow> u8 list" where
  "serialize_entry e = le_bytes 4 (byte_offset e) @ le_bytes 4 (base_location e)"

definition serialize :: "SeekTable \<Rightarrow> u8 list" where
  "serialize table = concat (map serialize_entry table)"

fun read_entries :: "nat \<Rightarrow> u8 list \<Rightarrow> SeekTable option" where
  "read_entries 0 mem = Some []"
| "read_entries (Suc n) mem =
     (case (read_at 4 0 mem, read_at 4 4 mem) of
        (Some off, Some base) \<Rightarrow>
          map_option ((#) \<lparr>byte_offset = off, base_location = base, posting_index = NoPosting\<rparr>)
            (read_entries n (drop 8 mem))
      | _ \<Rightarrow> None)"

text \<open>The inner \<open>while\<close> of \<open>addPostingIndexes\<close>: all entries that stand for this posting.\<close>

function mark_entries :: "SeekTable \<Rightarrow> nat \<Rightarrow> u32 \<Rightarrow> u32 \<Rightarrow> u32 \<Rightarrow> SeekTable \<times> nat" where
  "mark_entries tbl entry_idx off location posting_idx =
     (if entry_idx < length tbl \<and> byte_offset (tbl ! entry_idx) = off
         \<and> base_location (tbl ! entry_idx) = location
      then mark_entries (tbl[entry_idx := (tbl ! entry_idx)\<lparr>posting_index := posting_idx\<rparr>])
             (Suc entry_idx) off location posting_idx
      else (tbl, entry_idx))"
  by pat_completeness auto
termination
  by (relation "measure (\<lambda>(tbl, i, _). length tbl - i)") auto

declare mark_entries.simps [simp del]

fun posting_index_loop :: "u8 list \<Rightarrow> nat \<Rightarrow> nat \<Rightarrow> nat \<Rightarrow> nat \<Rightarrow> u32 \<Rightarrow> nat \<Rightarrow> SeekTable
    \<Rightarrow> seek_error + SeekTable" where
  "posting_index_loop enc data_size 0 posting_idx cur location entry_idx tbl = Inr tbl"
| "posting_index_loop enc data_size (Suc n) posting_idx cur location entry_idx tbl =
     (if entry_idx \<ge> length tbl then Inr tbl
      else if cur \<ge> data_size then Inl TruncatedData
      else case decode_at enc cur of
        None \<Rightarrow> Inl ReadPastBuffer
      | Some (delta, cur') \<Rightarrow>
          let location' = location + delta;
              (tbl', entry_idx') =
                mark_entries tbl entry_idx (of_nat cur') location' (of_nat posting_idx)
          in posting_index_loop enc data_size n (Suc posting_idx) cur' location' entry_idx' tbl')"

definition addPostingIndexes ::
    "SeekTable \<Rightarrow> u8 list option \<Rightarrow> nat \<Rightarrow> nat \<Rightarrow> seek_error + SeekTable" where
  "addPostingIndexes table encoded_deltas data_size num_postings =
     (case encoded_deltas of
        None \<Rightarrow> Inr table
      | Some enc \<Rightarrow>
          if data_size = 0 \<or> num_postings = 0 then Inr table
          else posting_index_loop enc data_size num_postings 0 0 0 0 table)"

definition deserialize ::
    "u8 list option \<Rightarrow> u8 list option \<Rightarrow> nat \<Rightarrow> nat \<Rightarrow> nat \<Rightarrow> seek_error + SeekTable" where
  "deserialize data encoded_deltas data_size num_postings serialized_size =
     (case data of
        None \<Rightarrow> Inl InvalidArgument
      | Some mem \<Rightarrow>
          if serialized_size \<noteq> SerializedSize then Inl InvalidArgument
          else case read_entries EntryCount mem of
            None \<Rightarrow> Inl ReadPastBuffer
          | Some table \<Rightarrow> addPostingIndexes table encoded_deltas data_size num_postings)"

subsection \<open>What a table must contain\<close>

text \<open>\<open>entry_of ls j\<close> is the entry that describes posting \<open>j\<close> of \<open>ls\<close>. \<open>table_spec ls\<close> says that
  entry \<open>i\<close> describes the first posting of the last non-empty bucket up to \<open>i\<close>, and is the default
  entry when all postings lie in later buckets.\<close>

definition entry_of :: "u32 list \<Rightarrow> nat \<Rightarrow> SeekTableEntry" where
  "entry_of ls j = \<lparr>byte_offset = of_nat (stream_off ls (Suc j)), base_location = ls ! j,
                    posting_index = of_nat j\<rparr>"

definition leads_bucket :: "u32 list \<Rightarrow> nat \<Rightarrow> nat \<Rightarrow> bool" where
  "leads_bucket ls i j \<longleftrightarrow> j < length ls \<and> extractIndex (ls ! j) \<le> i
     \<and> (\<forall>j' < j. extractIndex (ls ! j') < extractIndex (ls ! j))
     \<and> (\<forall>j' < length ls. extractIndex (ls ! j') \<le> i
           \<longrightarrow> extractIndex (ls ! j') \<le> extractIndex (ls ! j))"

definition table_spec :: "u32 list \<Rightarrow> SeekTable \<Rightarrow> bool" where
  "table_spec ls tbl \<longleftrightarrow> length tbl = EntryCount
     \<and> (\<forall>i < EntryCount.
           (\<exists>j. leads_bucket ls i j \<and> tbl ! i = entry_of ls j)
         \<or> ((\<forall>j < length ls. i < extractIndex (ls ! j)) \<and> tbl ! i = default_entry))"

lemma table_specD:
  assumes "table_spec ls tbl" and "i < EntryCount"
  shows "(\<exists>j. leads_bucket ls i j \<and> tbl ! i = entry_of ls j)
       \<or> ((\<forall>j < length ls. i < extractIndex (ls ! j)) \<and> tbl ! i = default_entry)"
  using assms by (simp add: table_spec_def)

lemma extractIndex_div: "extractIndex x = unat x div 2 ^ 24"
proof -
  have "unat x div 2 ^ 24 < 2 ^ 8"
    using unat_less_2_32 [of x] by (intro less_mult_imp_div_less) simp
  then have "unat x div 2 ^ 24 mod 2 ^ 8 = unat x div 2 ^ 24" by simp
  then show ?thesis
    by (simp add: extractIndex_def IndexBits_def unsigned_ucast_eq take_bit_eq_mod unat_drop_bit_div)
qed

lemma extractIndex_less: "extractIndex x < EntryCount"
  using unat_less_2_32 [of x] by (simp add: extractIndex_div EntryCount_def less_mult_imp_div_less)

lemma extractIndex_mono: "x \<le> y \<Longrightarrow> extractIndex x \<le> extractIndex y"
  by (simp add: extractIndex_div word_le_nat_alt div_le_mono)

lemma offset_inj:
  assumes "length (encodeDeltaList ls) < 2 ^ 32" and "i \<le> length ls" and "j \<le> length ls"
    and "of_nat (stream_off ls i) = (of_nat (stream_off ls j) :: u32)"
  shows "i = j"
proof -
  have "stream_off ls i = stream_off ls j"
    using assms stream_off_le [of i ls] stream_off_le [of j ls]
    by (simp add: word_of_nat_eq_iff take_bit_nat_eq_self)
  then show ?thesis
    using assms(2,3) stream_off_strict_mono [of i j ls] stream_off_strict_mono [of j i ls]
    by (cases i j rule: linorder_cases) auto
qed

subsection \<open>The table that \<open>build\<close> returns\<close>

definition build_inv :: "u32 list \<Rightarrow> nat \<Rightarrow> SeekTable \<Rightarrow> bool list \<Rightarrow> bool" where
  "build_inv ls k tbl initialized \<longleftrightarrow>
     length tbl = EntryCount \<and> length initialized = EntryCount
     \<and> (\<forall>i < EntryCount.
           if initialized ! i
           then \<exists>j < k. extractIndex (ls ! j) = i \<and> (\<forall>j' < j. extractIndex (ls ! j') \<noteq> i)
                       \<and> tbl ! i = entry_of ls j
           else (\<forall>j < k. extractIndex (ls ! j) \<noteq> i) \<and> tbl ! i = default_entry)"

lemma build_inv_0: "build_inv ls 0 empty_table (replicate EntryCount False)"
  by (simp add: build_inv_def empty_table_def)

lemma build_inv_seen:
  assumes "build_inv ls k tbl ini" and "ini ! extractIndex (ls ! k)"
  shows "build_inv ls (Suc k) tbl ini"
  using assms extractIndex_less [of "ls ! k"]
  by (auto simp: build_inv_def less_Suc_eq split: if_splits)

lemma build_inv_new:
  assumes "build_inv ls k tbl ini" and "\<not> ini ! extractIndex (ls ! k)"
  shows "build_inv ls (Suc k) (tbl[extractIndex (ls ! k) := entry_of ls k])
           (ini[extractIndex (ls ! k) := True])"
  unfolding build_inv_def
proof (intro conjI allI impI)
  fix i assume i: "i < EntryCount"
  show "if ini[extractIndex (ls ! k) := True] ! i
        then \<exists>j < Suc k. extractIndex (ls ! j) = i \<and> (\<forall>j' < j. extractIndex (ls ! j') \<noteq> i)
               \<and> tbl[extractIndex (ls ! k) := entry_of ls k] ! i = entry_of ls j
        else (\<forall>j < Suc k. extractIndex (ls ! j) \<noteq> i)
               \<and> tbl[extractIndex (ls ! k) := entry_of ls k] ! i = default_entry"
  proof (cases "i = extractIndex (ls ! k)")
    case True
    then show ?thesis using assms i by (auto simp: build_inv_def)
  next
    case False
    then show ?thesis using assms(1) i
      by (auto simp: build_inv_def less_Suc_eq split: if_splits)
  qed
qed (use assms in \<open>simp_all add: build_inv_def\<close>)

lemma build_loop_ok:
  assumes "k + n = length ls" and "build_inv ls k tbl ini"
  shows "\<exists>tbl' ini'. build_loop (encodeDeltaList ls @ junk) (length (encodeDeltaList ls)) n k
             (stream_off ls k) (loc_before ls k) tbl ini = Inr (tbl', ini')
           \<and> build_inv ls (length ls) tbl' ini'"
  using assms
proof (induction n arbitrary: k tbl ini)
  case 0
  then show ?case by simp
next
  case (Suc n)
  then have k: "k < length ls" by simp
  have cur: "stream_off ls k < length (encodeDeltaList ls)"
    using stream_off_strict_mono [of k "length ls" ls] k by simp
  show ?case
  proof (cases "ini ! extractIndex (ls ! k)")
    case True
    then show ?thesis
      using Suc.IH [OF _ build_inv_seen [OF Suc.prems(2)]] Suc.prems k cur
      by (simp del: length_append)
  next
    case False
    then show ?thesis
      using Suc.IH [OF _ build_inv_new [OF Suc.prems(2)]] Suc.prems k cur
      by (simp add: entry_of_def Let_def del: length_append)
  qed
qed

lemma forward_fill_nth:
  assumes "length es = length ini" and "i < length es"
  shows "(\<exists>b \<le> i. ini ! b \<and> (\<forall>b'. b < b' \<and> b' \<le> i \<longrightarrow> \<not> ini ! b')
             \<and> forward_fill es ini prev ! i = es ! b)
       \<or> ((\<forall>b \<le> i. \<not> ini ! b)
             \<and> forward_fill es ini prev ! i = (case prev of None \<Rightarrow> es ! i | Some p \<Rightarrow> p))"
  using assms
proof (induction es ini prev arbitrary: i rule: forward_fill.induct)
  case (1 e es b ini prev)
  show ?case
  proof (cases i)
    case 0
    then show ?thesis by (auto split: option.splits)
  next
    case (Suc k)
    let ?prev = "if b then Some e else prev"
    have ff: "forward_fill (e # es) (b # ini) prev ! i = forward_fill es ini ?prev ! k"
      using Suc by simp
    have "(\<exists>c \<le> k. ini ! c \<and> (\<forall>b'. c < b' \<and> b' \<le> k \<longrightarrow> \<not> ini ! b')
             \<and> forward_fill es ini ?prev ! k = es ! c)
       \<or> ((\<forall>c \<le> k. \<not> ini ! c)
             \<and> forward_fill es ini ?prev ! k = (case ?prev of None \<Rightarrow> es ! k | Some p \<Rightarrow> p))"
      using 1 Suc by (cases b) auto
    then show ?thesis
    proof
      assume "\<exists>c \<le> k. ini ! c \<and> (\<forall>b'. c < b' \<and> b' \<le> k \<longrightarrow> \<not> ini ! b')
             \<and> forward_fill es ini ?prev ! k = es ! c"
      then obtain c where c: "c \<le> k" "ini ! c" "\<forall>b'. c < b' \<and> b' \<le> k \<longrightarrow> \<not> ini ! b'"
        "forward_fill es ini ?prev ! k = es ! c" by blast
      then have "\<not> (b # ini) ! b'" if "Suc c < b'" "b' \<le> i" for b'
        using that Suc by (cases b') auto
      then show ?thesis unfolding ff using c Suc by (intro disjI1 exI [of _ "Suc c"]) auto
    next
      assume none: "(\<forall>c \<le> k. \<not> ini ! c)
             \<and> forward_fill es ini ?prev ! k = (case ?prev of None \<Rightarrow> es ! k | Some p \<Rightarrow> p)"
      then have later: "\<not> (b # ini) ! b'" if "0 < b'" "b' \<le> i" for b'
        using that Suc by (cases b') auto
      show ?thesis
      proof (cases b)
        case True
        then show ?thesis unfolding ff using none later Suc by (intro disjI1 exI [of _ 0]) auto
      next
        case False
        then have "\<not> (b # ini) ! b'" if "b' \<le> i" for b'
          using that later [of b'] by (cases "b' = 0") auto
        then show ?thesis unfolding ff using none False Suc
          by (intro disjI2) (auto split: option.splits)
      qed
    qed
  qed
qed simp_all

lemma length_forward_fill [simp]: "length (forward_fill es ini prev) = length es"
  by (induction es ini prev rule: forward_fill.induct) (simp_all split: option.splits)

lemma leads_bucketI:
  assumes "sorted_wrt (<) ls" and "j < length ls" and "extractIndex (ls ! j) = b" and "b \<le> i"
    and "\<forall>j' < j. extractIndex (ls ! j') \<noteq> b"
    and "\<forall>j' < length ls. \<not> (b < extractIndex (ls ! j') \<and> extractIndex (ls ! j') \<le> i)"
  shows "leads_bucket ls i j"
proof -
  have "extractIndex (ls ! j') < extractIndex (ls ! j)" if "j' < j" for j'
  proof -
    have "ls ! j' < ls ! j" using assms(1,2) that by (simp add: sorted_wrt_nth_less)
    then have "extractIndex (ls ! j') \<le> extractIndex (ls ! j)"
      by (intro extractIndex_mono) simp
    moreover have "extractIndex (ls ! j') \<noteq> extractIndex (ls ! j)" using assms(3,5) that by simp
    ultimately show ?thesis by simp
  qed
  then show ?thesis using assms by (auto simp: leads_bucket_def not_less)
qed

lemma build_ok:
  assumes "sorted_wrt (<) ls" and "ls \<noteq> []"
  shows "\<exists>tbl. build (Some (encodeDeltaList ls @ junk)) (length (encodeDeltaList ls)) (length ls)
                 = Inr tbl \<and> table_spec ls tbl"
proof -
  obtain tbl ini where loop: "build_loop (encodeDeltaList ls @ junk) (length (encodeDeltaList ls))
        (length ls) 0 0 0 empty_table (replicate EntryCount False) = Inr (tbl, ini)"
    and inv: "build_inv ls (length ls) tbl ini"
    using build_loop_ok [of 0 "length ls" ls empty_table "replicate EntryCount False" junk]
      build_inv_0 [of ls] by auto
  have len: "length tbl = EntryCount" "length ini = EntryCount" using inv by (auto simp: build_inv_def)
  have set: "\<exists>j < length ls. extractIndex (ls ! j) = i \<and> (\<forall>j' < j. extractIndex (ls ! j') \<noteq> i)
               \<and> tbl ! i = entry_of ls j" if "i < EntryCount" "ini ! i" for i
    using inv that by (simp add: build_inv_def)
  have unset: "\<forall>j < length ls. extractIndex (ls ! j) \<noteq> i" "tbl ! i = default_entry"
    if "i < EntryCount" "\<not> ini ! i" for i
    using inv that by (simp_all add: build_inv_def)
  have "table_spec ls (forward_fill tbl ini None)"
    unfolding table_spec_def
  proof (intro conjI allI impI)
    fix i assume i: "i < EntryCount"
    from forward_fill_nth [of tbl ini i None] len i
    consider b where "b \<le> i" "ini ! b" "\<forall>b'. b < b' \<and> b' \<le> i \<longrightarrow> \<not> ini ! b'"
        "forward_fill tbl ini None ! i = tbl ! b"
      | "\<forall>b \<le> i. \<not> ini ! b" "forward_fill tbl ini None ! i = tbl ! i" by auto
    then show "(\<exists>j. leads_bucket ls i j \<and> forward_fill tbl ini None ! i = entry_of ls j)
         \<or> ((\<forall>j < length ls. i < extractIndex (ls ! j))
              \<and> forward_fill tbl ini None ! i = default_entry)"
    proof cases
      case 1
      then obtain j where j: "j < length ls" "extractIndex (ls ! j) = b"
          "\<forall>j' < j. extractIndex (ls ! j') \<noteq> b" "tbl ! b = entry_of ls j"
        using set [of b] i by auto
      have "\<forall>j' < length ls. \<not> (b < extractIndex (ls ! j') \<and> extractIndex (ls ! j') \<le> i)"
        using 1(3) unset(1) extractIndex_less by blast
      then have "leads_bucket ls i j" using leads_bucketI assms(1) j 1(1) by blast
      then show ?thesis using 1 j by auto
    next
      case 2
      have "i < extractIndex (ls ! j)" if "j < length ls" for j
      proof (rule ccontr)
        assume "\<not> i < extractIndex (ls ! j)"
        then have "\<not> ini ! extractIndex (ls ! j)" using 2(1) by simp
        then show False using unset(1) [OF extractIndex_less] that by blast
      qed
      moreover have "forward_fill tbl ini None ! i = default_entry"
        using 2 unset(2) [OF i] by simp
      ultimately show ?thesis by blast
    qed
  qed (simp add: len)
  moreover have "encodeDeltaList ls \<noteq> []"
    using assms(2) by (cases ls) (simp_all add: encodeDeltaList_def)
  ultimately show ?thesis using loop assms(2) by (simp add: build_def)
qed

subsection \<open>Reading a table back\<close>

definition clear_index :: "SeekTableEntry \<Rightarrow> SeekTableEntry" where
  "clear_index e = e\<lparr>posting_index := NoPosting\<rparr>"

lemma read_entries_serialize:
  "read_entries (length tbl) (serialize tbl @ junk) = Some (map clear_index tbl)"
proof (induction tbl)
  case Nil
  then show ?case by simp
next
  case (Cons e tbl)
  have mem: "serialize (e # tbl) @ junk
      = le_bytes 4 (byte_offset e) @ le_bytes 4 (base_location e) @ serialize tbl @ junk"
    by (simp add: serialize_def serialize_entry_def)
  have "read_at 4 0 (serialize (e # tbl) @ junk) = Some (byte_offset e)"
    unfolding mem by simp
  moreover have "read_at 4 4 (serialize (e # tbl) @ junk) = Some (base_location e)"
    unfolding mem by (simp add: read_at_skip [of "le_bytes 4 (byte_offset e)" 4 4 0, simplified])
  moreover have "drop 8 (serialize (e # tbl) @ junk) = serialize tbl @ junk"
    unfolding mem by simp
  ultimately show ?case using Cons by (simp add: clear_index_def)
qed

text \<open>\<open>marked tbl e\<close> is the table half way through \<open>addPostingIndexes\<close>: entries before \<open>e\<close> have their
  posting index back. \<open>J i\<close> below is the posting that entry \<open>i\<close> describes.\<close>

definition marked :: "SeekTable \<Rightarrow> nat \<Rightarrow> SeekTable" where
  "marked tbl e = take e tbl @ map clear_index (drop e tbl)"

lemma length_marked [simp]: "length (marked tbl e) = length tbl"
  by (simp add: marked_def)

lemma marked_nth: "e < length tbl \<Longrightarrow> marked tbl e ! e = clear_index (tbl ! e)"
  by (simp add: marked_def nth_append)

lemma marked_update:
  assumes "e < length tbl"
  shows "(marked tbl e)[e := tbl ! e] = marked tbl (Suc e)"
proof -
  have "drop e tbl = tbl ! e # drop (Suc e) tbl" using assms by (simp add: Cons_nth_drop_Suc)
  then show ?thesis using assms
    by (simp add: marked_def list_update_append take_Suc_conv_app_nth)
qed

definition describes :: "u32 list \<Rightarrow> SeekTable \<Rightarrow> (nat \<Rightarrow> nat) \<Rightarrow> bool" where
  "describes ls tbl J \<longleftrightarrow> length (encodeDeltaList ls) < 2 ^ 32
     \<and> (\<forall>i < length tbl. J i < length ls \<and> tbl ! i = entry_of ls (J i))
     \<and> (\<forall>i i'. i \<le> i' \<and> i' < length tbl \<longrightarrow> J i \<le> J i')"

lemma describes_iff:
  assumes "describes ls tbl J" and "i < length tbl" and "k < length ls"
  shows "byte_offset (tbl ! i) = of_nat (stream_off ls (Suc k)) \<and> base_location (tbl ! i) = ls ! k
           \<longleftrightarrow> J i = k"
proof -
  have "J i = k" if "byte_offset (tbl ! i) = of_nat (stream_off ls (Suc k))"
  proof -
    have "J i < length ls" using assms by (simp add: describes_def)
    then have "Suc (J i) = Suc k"
      using offset_inj [of ls "Suc (J i)" "Suc k"] that assms
      by (simp add: describes_def entry_of_def)
    then show ?thesis by simp
  qed
  then show ?thesis using assms by (auto simp: describes_def entry_of_def)
qed

lemma mark_entries_marked:
  assumes "describes ls tbl J" and "k < length ls" and "e \<le> length tbl"
    and "\<forall>i < e. J i \<le> k" and "\<forall>i. e \<le> i \<and> i < length tbl \<longrightarrow> k \<le> J i"
  shows "\<exists>e'. mark_entries (marked tbl e) e (of_nat (stream_off ls (Suc k))) (ls ! k) (of_nat k)
                = (marked tbl e', e') \<and> e' \<le> length tbl
             \<and> (\<forall>i < e'. J i \<le> k) \<and> (\<forall>i. e' \<le> i \<and> i < length tbl \<longrightarrow> Suc k \<le> J i)"
  using assms(3-5)
proof (induction "length tbl - e" arbitrary: e)
  case 0
  then show ?case by (subst mark_entries.simps) auto
next
  case (Suc n)
  then have e: "e < length tbl" by simp
  have nth: "marked tbl e ! e = clear_index (tbl ! e)" using e by (rule marked_nth)
  have eq: "byte_offset (marked tbl e ! e) = byte_offset (tbl ! e)"
    "base_location (marked tbl e ! e) = base_location (tbl ! e)"
    by (simp_all add: nth clear_index_def)
  show ?case
  proof (cases "J e = k")
    case True
    have "(clear_index (tbl ! e))\<lparr>posting_index := of_nat k\<rparr> = tbl ! e"
      using assms(1) e True by (simp add: describes_def clear_index_def entry_of_def)
    then have step: "mark_entries (marked tbl e) e (of_nat (stream_off ls (Suc k))) (ls ! k) (of_nat k)
        = mark_entries (marked tbl (Suc e)) (Suc e) (of_nat (stream_off ls (Suc k))) (ls ! k) (of_nat k)"
      using describes_iff [OF assms(1) e assms(2)] True e
      by (subst mark_entries.simps) (simp add: nth eq marked_update clear_index_def)
    show ?thesis unfolding step
      using Suc.hyps(2) Suc.prems e True by (intro Suc.hyps(1)) (auto simp: less_Suc_eq)
  next
    case False
    then have "mark_entries (marked tbl e) e (of_nat (stream_off ls (Suc k))) (ls ! k) (of_nat k)
        = (marked tbl e, e)"
      using describes_iff [OF assms(1) e assms(2)] by (subst mark_entries.simps) (auto simp: eq)
    moreover have "Suc k \<le> J i" if "e \<le> i" "i < length tbl" for i
    proof -
      have "k < J e" using False Suc.prems(3) e by (simp add: nat_less_le)
      also have "J e \<le> J i" using assms(1) that by (simp add: describes_def)
      finally show ?thesis by simp
    qed
    ultimately show ?thesis using Suc.prems by auto
  qed
qed

lemma posting_index_loop_marked:
  assumes "describes ls tbl J" and "k + n = length ls" and "e \<le> length tbl"
    and "\<forall>i < e. J i < k" and "\<forall>i. e \<le> i \<and> i < length tbl \<longrightarrow> k \<le> J i"
  shows "posting_index_loop (encodeDeltaList ls @ junk) (length (encodeDeltaList ls)) n k
           (stream_off ls k) (loc_before ls k) e (marked tbl e) = Inr tbl"
  using assms(2-)
proof (induction n arbitrary: k e)
  case 0
  have "e = length tbl"
  proof (rule ccontr)
    assume "e \<noteq> length tbl"
    then have "J e < length ls" "k \<le> J e" using assms(1) 0 by (auto simp: describes_def)
    then show False using 0 by simp
  qed
  then show ?case by (simp add: marked_def)
next
  case (Suc n)
  then have k: "k < length ls" by simp
  have cur: "stream_off ls k < length (encodeDeltaList ls)"
    using stream_off_strict_mono [of k "length ls" ls] k by simp
  obtain e' where e': "mark_entries (marked tbl e) e (of_nat (stream_off ls (Suc k))) (ls ! k) (of_nat k)
        = (marked tbl e', e')" "e' \<le> length tbl" "\<forall>i < e'. J i \<le> k"
      "\<forall>i. e' \<le> i \<and> i < length tbl \<longrightarrow> Suc k \<le> J i"
    using mark_entries_marked [OF assms(1) k, of e] Suc.prems by (auto simp: less_imp_le)
  have rec: "posting_index_loop (encodeDeltaList ls @ junk) (length (encodeDeltaList ls)) n (Suc k)
           (stream_off ls (Suc k)) (ls ! k) e' (marked tbl e') = Inr tbl"
    using Suc.IH [of "Suc k" e'] Suc.prems(1) e' k by (simp add: less_Suc_eq_le)
  show ?case
  proof (cases "e < length tbl")
    case True
    then show ?thesis using rec e'(1) k cur by simp
  next
    case False
    then show ?thesis by (simp add: marked_def)
  qed
qed

lemma leads_bucket_mono:
  assumes "leads_bucket ls i j" and "leads_bucket ls i' j'" and "i \<le> i'"
  shows "j \<le> j'"
proof (rule ccontr)
  assume "\<not> j \<le> j'"
  then have "extractIndex (ls ! j') < extractIndex (ls ! j)" using assms(1) by (simp add: leads_bucket_def)
  moreover have "extractIndex (ls ! j) \<le> extractIndex (ls ! j')"
    using assms by (simp add: leads_bucket_def)
  ultimately show False by simp
qed

lemma table_spec_describes:
  assumes "table_spec ls tbl" and "ls \<noteq> []" and "extractIndex (hd ls) = 0"
    and "length (encodeDeltaList ls) < 2 ^ 32"
  shows "\<exists>J. describes ls tbl J"
proof -
  have "\<exists>j. leads_bucket ls i j \<and> tbl ! i = entry_of ls j" if "i < length tbl" for i
  proof -
    have "\<not> (\<forall>j < length ls. i < extractIndex (ls ! j))"
      using assms(2,3) by (metis gr0I hd_conv_nth length_greater_0_conv not_less0)
    then show ?thesis using assms(1) that unfolding table_spec_def by auto
  qed
  then obtain J where J: "\<And>i. i < length tbl \<Longrightarrow> leads_bucket ls i (J i) \<and> tbl ! i = entry_of ls (J i)"
    by metis
  then have "describes ls tbl J"
    using assms(4) leads_bucket_mono unfolding describes_def
    by (metis le_less_trans leads_bucket_def)
  then show ?thesis by blast
qed

lemma deserialize_full:
  assumes "table_spec ls tbl" and "ls \<noteq> []" and "extractIndex (hd ls) = 0"
    and "length (encodeDeltaList ls) < 2 ^ 32"
  shows "deserialize (Some (serialize tbl @ junk')) (Some (encodeDeltaList ls @ junk))
           (length (encodeDeltaList ls)) (length ls) SerializedSize = Inr tbl"
proof -
  obtain J where J: "describes ls tbl J" using table_spec_describes [OF assms] by blast
  have len: "length tbl = EntryCount" using assms(1) by (simp add: table_spec_def)
  have ne: "encodeDeltaList ls \<noteq> []"
    using assms(2) by (cases ls) (simp_all add: encodeDeltaList_def)
  have "posting_index_loop (encodeDeltaList ls @ junk) (length (encodeDeltaList ls)) (length ls) 0
      0 0 0 (map clear_index tbl) = Inr tbl"
    using posting_index_loop_marked [OF J, of 0 "length ls" 0 junk] by (simp add: marked_def)
  then show ?thesis
    using read_entries_serialize [of tbl junk'] ne assms(2)
    by (simp add: deserialize_def addPostingIndexes_def len)
qed

lemma posting_index_loop_stuck:
  assumes "k + n = length ls" and "tbl \<noteq> []" and "byte_offset (tbl ! 0) = 0"
    and "length (encodeDeltaList ls) < 2 ^ 32"
  shows "posting_index_loop (encodeDeltaList ls @ junk) (length (encodeDeltaList ls)) n k
           (stream_off ls k) (loc_before ls k) 0 tbl = Inr tbl"
  using assms(1)
proof (induction n arbitrary: k)
  case 0
  then show ?case by simp
next
  case (Suc n)
  then have k: "k < length ls" by simp
  have cur: "stream_off ls k < length (encodeDeltaList ls)"
    using stream_off_strict_mono [of k "length ls" ls] k by simp
  have "of_nat (stream_off ls (Suc k)) \<noteq> (0 :: u32)"
    using offset_inj [OF assms(4), of "Suc k" 0] k by auto
  then have "mark_entries tbl 0 (of_nat (stream_off ls (Suc k))) (ls ! k) (of_nat k) = (tbl, 0)"
    using assms(3) by (subst mark_entries.simps) auto
  then show ?case using Suc.IH [of "Suc k"] Suc.prems k cur assms(2) by simp
qed

lemma deserialize_empty_first_bucket:
  assumes "table_spec ls tbl" and "ls \<noteq> []" and "sorted_wrt (<) ls" and "0 < extractIndex (hd ls)"
    and "length (encodeDeltaList ls) < 2 ^ 32"
  shows "deserialize (Some (serialize tbl @ junk')) (Some (encodeDeltaList ls @ junk))
           (length (encodeDeltaList ls)) (length ls) SerializedSize = Inr (map clear_index tbl)"
proof -
  have len: "length tbl = EntryCount" using assms(1) by (simp add: table_spec_def)
  have ne: "encodeDeltaList ls \<noteq> []"
    using assms(2) by (cases ls) (simp_all add: encodeDeltaList_def)
  have "extractIndex (hd ls) \<le> extractIndex (ls ! j)" if "j < length ls" for j
  proof (intro extractIndex_mono)
    show "hd ls \<le> ls ! j"
      using assms(2,3) that by (cases ls; cases j) (auto intro: less_imp_le)
  qed
  then have "\<nexists>j. leads_bucket ls 0 j" using assms(4) by (fastforce simp: leads_bucket_def)
  then have "tbl ! 0 = default_entry"
    using table_specD [OF assms(1), of 0] by (auto simp: EntryCount_def)
  then have "byte_offset (map clear_index tbl ! 0) = 0" and nil: "map clear_index tbl \<noteq> []"
    using len by (auto simp: default_entry_def clear_index_def EntryCount_def)
  then have "posting_index_loop (encodeDeltaList ls @ junk) (length (encodeDeltaList ls)) (length ls) 0
      0 0 0 (map clear_index tbl) = Inr (map clear_index tbl)"
    using posting_index_loop_stuck [of 0 "length ls" ls "map clear_index tbl" junk] assms(5) by simp
  then show ?thesis
    using read_entries_serialize [of tbl junk'] ne assms(2)
    by (simp add: deserialize_def addPostingIndexes_def len)
qed

text \<open>\<open>build\<close> succeeds on the encoding of any strictly increasing posting list, whatever follows it in
  the mapping, and each of the 256 entries of its table describes the first posting of the last
  bucket that is not empty up to the bucket of the entry, or is unset when there is none.\<close>

theorem build_table_spec:
  assumes "sorted_wrt (<) ls" and "ls \<noteq> []"
  shows "\<exists>tbl. build (Some (encodeDeltaList ls @ junk)) (length (encodeDeltaList ls)) (length ls)
                 = Inr tbl \<and> table_spec ls tbl"
  using assms by (rule build_ok)

theorem build_table_spec_witness:
  "\<exists>tbl. build (Some (encodeDeltaList [3, 20, 40000000] @ [7])) (length (encodeDeltaList [3, 20, 40000000]))
       (length [3, 20, 40000000 :: u32]) = Inr tbl \<and> table_spec [3, 20, 40000000] tbl"
  by (rule build_table_spec) simp_all

lemma small_encodeDeltaList: "5 * length ls < 2 ^ 32 \<Longrightarrow> length (encodeDeltaList ls) < 2 ^ 32"
  using length_encodeDeltaList [of ls] by simp

text \<open>C23. Reading back a serialized seek table of a posting list whose first location lies in the first
  bucket gives the table: the posting indexes, which are not written, are recovered by a walk over the
  encoded posting list.\<close>

theorem deserialize_serialize:
  assumes "table_spec ls tbl" and "ls \<noteq> []" and "extractIndex (hd ls) = 0"
    and "length (encodeDeltaList ls) < 2 ^ 32"
  shows "deserialize (Some (serialize tbl @ junk')) (Some (encodeDeltaList ls @ junk))
           (length (encodeDeltaList ls)) (length ls) SerializedSize = Inr tbl"
  using assms by (rule deserialize_full)

theorem deserialize_serialize_witness:
  "\<exists>tbl. table_spec [3, 40000000] tbl
     \<and> deserialize (Some (serialize tbl @ [])) (Some (encodeDeltaList [3, 40000000] @ []))
         (length (encodeDeltaList [3, 40000000])) (length [3, 40000000 :: u32]) SerializedSize = Inr tbl"
proof -
  obtain tbl where tbl: "table_spec [3, 40000000] tbl" using build_ok [of "[3, 40000000]"] by auto
  have "extractIndex (hd [3, 40000000]) = 0" by (simp add: extractIndex_div)
  from deserialize_serialize [OF tbl _ this] small_encodeDeltaList [of "[3, 40000000]"] tbl
  show ?thesis by fastforce
qed

text \<open>When the first location lies beyond the first bucket, the walk waits for a posting at byte
  offset 0 and never marks an entry: the table comes back without any posting index, and no seek can
  use it any more.\<close>

theorem deserialize_serialize_empty_first_bucket:
  assumes "table_spec ls tbl" and "ls \<noteq> []" and "sorted_wrt (<) ls" and "0 < extractIndex (hd ls)"
    and "length (encodeDeltaList ls) < 2 ^ 32"
  shows "deserialize (Some (serialize tbl @ junk')) (Some (encodeDeltaList ls @ junk))
           (length (encodeDeltaList ls)) (length ls) SerializedSize = Inr (map clear_index tbl)"
  using assms by (rule deserialize_empty_first_bucket)

theorem deserialize_serialize_empty_first_bucket_witness:
  "\<exists>tbl. table_spec [40000000] tbl \<and> tbl ! 3 = entry_of [40000000] 0
     \<and> deserialize (Some (serialize tbl @ [])) (Some (encodeDeltaList [40000000] @ []))
         (length (encodeDeltaList [40000000])) (length [40000000 :: u32]) SerializedSize
       = Inr (map clear_index tbl)"
proof -
  obtain tbl where tbl: "table_spec [40000000] tbl" using build_ok [of "[40000000]"] by auto
  have "0 < extractIndex (hd [40000000])" by (simp add: extractIndex_div)
  from deserialize_serialize_empty_first_bucket [OF tbl _ _ this, of "[]" "[]"]
    small_encodeDeltaList [of "[40000000]"]
  have "deserialize (Some (serialize tbl @ [])) (Some (encodeDeltaList [40000000] @ []))
         (length (encodeDeltaList [40000000])) (length [40000000 :: u32]) SerializedSize
       = Inr (map clear_index tbl)" by simp
  moreover have "tbl ! 3 = entry_of [40000000] 0"
    using table_specD [OF tbl, of 3] by (auto simp: leads_bucket_def extractIndex_div EntryCount_def)
  ultimately show ?thesis using tbl by blast
qed

subsection \<open>What a seek may rely on\<close>

text \<open>Every usable entry that a target location leads to describes a posting all of whose
  predecessors lie before the target.\<close>

definition table_ok :: "u32 list \<Rightarrow> SeekTable \<Rightarrow> bool" where
  "table_ok ls tbl \<longleftrightarrow> (\<forall>t. let e = entryForLocation tbl t in
     posting_index e = NoPosting
     \<or> (\<exists>j < length ls. e = entry_of ls j \<and> (\<forall>j' < j. ls ! j' < t)))"

lemma leads_bucket_before:
  assumes "leads_bucket ls (extractIndex t) j" and "j' < j"
  shows "ls ! j' < t"
proof (rule ccontr)
  assume "\<not> ls ! j' < t"
  then have "extractIndex t \<le> extractIndex (ls ! j')" by (intro extractIndex_mono) simp
  then show False using assms by (force simp: leads_bucket_def)
qed

lemma table_ok_spec:
  assumes "table_spec ls tbl"
  shows "table_ok ls tbl"
  unfolding table_ok_def Let_def
proof
  fix t
  have e: "entryForLocation tbl t = tbl ! extractIndex t"
    by (simp add: entryForLocation_def entryForIndex_def)
  from table_specD [OF assms extractIndex_less, of t]
  show "posting_index (entryForLocation tbl t) = NoPosting
      \<or> (\<exists>j < length ls. entryForLocation tbl t = entry_of ls j \<and> (\<forall>j' < j. ls ! j' < t))"
    unfolding e
  proof (elim disjE exE conjE)
    fix j assume j: "leads_bucket ls (extractIndex t) j" "tbl ! extractIndex t = entry_of ls j"
    then have "j < length ls" by (simp add: leads_bucket_def)
    with j leads_bucket_before [OF j(1)]
    show "posting_index (tbl ! extractIndex t) = NoPosting
      \<or> (\<exists>j < length ls. tbl ! extractIndex t = entry_of ls j \<and> (\<forall>j' < j. ls ! j' < t))" by blast
  qed (simp add: default_entry_def)
qed

lemma table_ok_cleared:
  assumes "table_spec ls tbl"
  shows "table_ok ls (map clear_index tbl)"
proof -
  have "length tbl = EntryCount" using assms by (simp add: table_spec_def)
  then show ?thesis using extractIndex_less
    by (simp add: table_ok_def Let_def entryForLocation_def entryForIndex_def clear_index_def)
qed

text \<open>Whatever the first bucket, what is read back is sound.\<close>

lemma deserialize_sound:
  assumes "table_spec ls tbl" and "ls \<noteq> []" and "sorted_wrt (<) ls" and "length (encodeDeltaList ls) < 2 ^ 32"
  shows "\<exists>tbl'. deserialize (Some (serialize tbl @ junk')) (Some (encodeDeltaList ls @ junk))
           (length (encodeDeltaList ls)) (length ls) SerializedSize = Inr tbl' \<and> table_ok ls tbl'"
proof (cases "extractIndex (hd ls) = 0")
  case True
  then show ?thesis using deserialize_full [OF assms(1,2) True assms(4)] table_ok_spec [OF assms(1)] by blast
next
  case False
  then show ?thesis
    using deserialize_empty_first_bucket [OF assms(1,2,3) _ assms(4)] table_ok_cleared [OF assms(1)] by blast
qed

end
