(* ===== verification/Types.thy ===== *)
theory Types
  imports Prelude
begin

text \<open>
  The data of the index library, \<open>src/index/src/lib/types.h\<close>: the records that the tokenizer, the
  in-memory index, the chunk writer and the chunk reader exchange, with the constants of the chunk
  format. Field names are the source's; a prefix is added where two structures share one.
\<close>

subsection \<open>Constants\<close>

definition magic :: u32 where "magic = 0x49445831"
definition version :: u32 where "version = 2"
definition ISRSentinel :: u32 where "ISRSentinel = - 1"
definition docEndToken :: string where "docEndToken = ''#DocEnd''"

subsection \<open>Document features\<close>

datatype DocumentFeatureFlag =
  kFeaturesPresent | kHttps | kSawBodyTag | kSawCloseHtmlTag | kHtmlTruncated | kHasOpenDiscardSection

fun flag_bit :: "DocumentFeatureFlag \<Rightarrow> u8" where
  "flag_bit kFeaturesPresent = push_bit 0 1"
| "flag_bit kHttps = push_bit 1 1"
| "flag_bit kSawBodyTag = push_bit 2 1"
| "flag_bit kSawCloseHtmlTag = push_bit 3 1"
| "flag_bit kHtmlTruncated = push_bit 4 1"
| "flag_bit kHasOpenDiscardSection = push_bit 5 1"

record DocumentFeatures =
  flags :: u8
  base_domain_length :: u8
  url_length :: u16
  path_length :: u16
  path_depth :: u8
  query_param_count :: u8
  numeric_path_char_count :: u8
  domain_hyphen_count :: u8
  outgoing_link_count :: u16
  outgoing_anchor_word_count :: u16
  raw_tld :: string

definition empty_features :: DocumentFeatures where
  "empty_features = \<lparr>flags = 0, base_domain_length = 0, url_length = 0, path_length = 0,
     path_depth = 0, query_param_count = 0, numeric_path_char_count = 0, domain_hyphen_count = 0,
     outgoing_link_count = 0, outgoing_anchor_word_count = 0, raw_tld = []\<rparr>"

subsection \<open>Tokens, documents, posting lists\<close>

record TokenOutput =
  tok_term :: string
  tok_location :: u32

record DocEndOutput =
  de_location :: u32
  de_url :: string
  de_word_count :: u32
  de_title_word_count :: u16
  de_doc_start_loc :: u32
  de_seed_distance :: u8
  de_features :: DocumentFeatures

record PostingList =
  locations :: "u32 list"
  doc_frequency :: u32
  collection_frequency :: u64

record DocumentRecord =
  doc_url :: string
  start_location :: u32
  end_location :: u32
  word_count :: u32
  title_word_count :: u16
  seed_distance :: u8
  features :: DocumentFeatures

subsection \<open>Headers of the chunk file\<close>

record FileHeader =
  h_magic :: u32
  h_version :: u32
  num_documents :: u32
  h_total_locations :: u64
  num_unique_terms :: u32
  dict_offset :: u64
  postings_offset :: u64
  doctable_offset :: u64
  global_loc_base :: u64

record BucketDisk =
  occupied :: u8
  string_offset :: u32
  string_length :: u16
  posting_offset :: u64
  b_doc_frequency :: u32
  b_collection_frequency :: u64

record PostingListHeader =
  pl_num_postings :: u32
  has_seek_table :: u8
  data_size :: u32

end
