(* ===== verification/Isr.thy ===== *)
theory Isr
  imports SeekTable Types
begin

text \<open>
  Index stream readers, \<open>src/index/src/lib/isr.h\<close> and \<open>isr.cpp\<close>. An ISR walks over the increasing
  locations at which something occurs. \<open>isr_ops\<close> is its virtual interface, \<open>isr_contract\<close> the laws a
  reader promises to whoever holds it: the locations that are left (\<open>rest\<close>) are increasing, \<open>next\<close>
  drops the first one and \<open>seek\<close> drops those before the target. \<open>isr_word\<close> is the reader of one
  posting list, with its seek table; its interpretation of the contract says that the jump through
  the table never changes the result of the linear scan.
\<close>

subsection \<open>The interface\<close>

record 's isr_ops =
  op_next :: "'s \<Rightarrow> ('s \<times> u32) option"
  op_seek :: "'s \<Rightarrow> u32 \<Rightarrow> ('s \<times> u32) option"
  op_loc :: "'s \<Rightarrow> u32"
  op_done :: "'s \<Rightarrow> bool"

definition front :: "u32 list \<Rightarrow> u32" where
  "front xs = (case xs of [] \<Rightarrow> ISRSentinel | x # _ \<Rightarrow> x)"

definition from_loc :: "u32 \<Rightarrow> u32 list \<Rightarrow> u32 list" where
  "from_loc t xs = dropWhile (\<lambda>x. x < t) xs"

text \<open>Some readers work document by document: they promise the law of \<open>seek\<close> only for targets at
  which a document begins, which is what \<open>aligned\<close> is for. Readers of words promise it everywhere.\<close>

locale isr_contract =
  fixes ops :: "'s isr_ops"
    and aligned :: "u32 \<Rightarrow> bool"
    and ok :: "'s \<Rightarrow> bool"
    and rest :: "'s \<Rightarrow> u32 list"
  assumes rest_sorted: "ok s \<Longrightarrow> sorted_wrt (<) (rest s)"
    and rest_proper: "ok s \<Longrightarrow> x \<in> set (rest s) \<Longrightarrow> x \<noteq> ISRSentinel"
    and done_iff: "ok s \<Longrightarrow> op_done ops s \<longleftrightarrow> rest s = []"
    and loc_hd: "ok s \<Longrightarrow> rest s \<noteq> [] \<Longrightarrow> op_loc ops s = hd (rest s)"
    and next_ex: "ok s \<Longrightarrow> \<exists>s'. op_next ops s = Some (s', front (tl (rest s)))
                    \<and> ok s' \<and> rest s' = tl (rest s)"
    and seek_ex: "ok s \<Longrightarrow> aligned t \<Longrightarrow> \<exists>s'. op_seek ops s t = Some (s', front (from_loc t (rest s)))
                    \<and> ok s' \<and> rest s' = from_loc t (rest s)"

text \<open>A client that calls \<open>next\<close> and \<open>seek\<close> in any order, and the answers it gets: from a reader, and
  from the list of the locations that are left. They agree for a reader that keeps the contract.\<close>

datatype isr_call = CallNext | CallSeek u32

fun isr_run :: "'s isr_ops \<Rightarrow> isr_call list \<Rightarrow> 's \<Rightarrow> u32 list option" where
  "isr_run ops [] s = Some []"
| "isr_run ops (c # cs) s =
     (case (case c of CallNext \<Rightarrow> op_next ops s | CallSeek t \<Rightarrow> op_seek ops s t) of
        None \<Rightarrow> None
      | Some (s', loc) \<Rightarrow> map_option ((#) loc) (isr_run ops cs s'))"

fun list_run :: "isr_call list \<Rightarrow> u32 list \<Rightarrow> u32 list" where
  "list_run [] xs = []"
| "list_run (CallNext # cs) xs = front (tl xs) # list_run cs (tl xs)"
| "list_run (CallSeek t # cs) xs = front (from_loc t xs) # list_run cs (from_loc t xs)"

lemma front_simps [simp]: "front [] = ISRSentinel" "front (x # xs) = x"
  by (simp_all add: front_def)

lemma front_hd: "xs \<noteq> [] \<Longrightarrow> front xs = hd xs"
  by (cases xs) simp_all

lemma set_from_loc: "sorted_wrt (<) xs \<Longrightarrow> set (from_loc t xs) = {x \<in> set xs. t \<le> x}"
  by (simp add: from_loc_def sorted_dropWhile_less)

lemma sorted_from_loc: "sorted_wrt (<) xs \<Longrightarrow> sorted_wrt (<) (from_loc t xs)"
  by (simp add: from_loc_def sorted_wrt_dropWhile)

lemma from_loc_Nil [simp]: "from_loc t [] = []"
  by (simp add: from_loc_def)

lemma from_loc_Cons [simp]: "from_loc t (x # xs) = (if x < t then from_loc t xs else x # xs)"
  by (simp add: from_loc_def)

lemma from_loc_id: "xs = [] \<or> t \<le> hd xs \<Longrightarrow> from_loc t xs = xs"
  by (cases xs) (auto simp: from_loc_def)

lemma from_loc_from_loc: "t0 \<le> t1 \<Longrightarrow> from_loc t1 (from_loc t0 xs) = from_loc t1 xs"
  by (induction xs) auto

lemma length_from_loc: "length (from_loc t xs) \<le> length xs"
  by (simp add: from_loc_def length_dropWhile_le)

lemma length_from_loc_less: "xs \<noteq> [] \<Longrightarrow> hd xs < t \<Longrightarrow> length (from_loc t xs) < length xs"
  using length_from_loc [of t "tl xs"] by (cases xs) auto

context isr_contract
begin

lemma run_spec:
  assumes "ok s" and "\<And>t. CallSeek t \<in> set cs \<Longrightarrow> aligned t"
  shows "isr_run ops cs s = Some (list_run cs (rest s))"
  using assms
proof (induction cs arbitrary: s)
  case (Cons c cs)
  show ?case
  proof (cases c)
    case CallNext
    obtain s' where "op_next ops s = Some (s', front (tl (rest s)))" "ok s'" "rest s' = tl (rest s)"
      using next_ex [OF Cons.prems(1)] by blast
    then show ?thesis using CallNext Cons by simp
  next
    case (CallSeek t)
    have "aligned t" using Cons.prems(2) [of t] CallSeek by simp
    then obtain s' where "op_seek ops s t = Some (s', front (from_loc t (rest s)))" "ok s'"
      "rest s' = from_loc t (rest s)" using seek_ex [OF Cons.prems(1)] by blast
    then show ?thesis using CallSeek Cons by simp
  qed
qed simp

end

subsection \<open>\<open>ISRWord\<close>\<close>

record isr_word =
  num_postings :: u32
  current_index :: u32
  current_loc :: u32
  data :: "u8 list"
  current_ptr :: nat
  seek_table :: "SeekTable option"
  is_exhausted :: bool

definition word_done :: "isr_word \<Rightarrow> bool" where
  "word_done w = is_exhausted w"

definition word_next :: "isr_word \<Rightarrow> (isr_word \<times> u32) option" where
  "word_next w =
     (if word_done w then Some (w, ISRSentinel)
      else if current_index w \<ge> num_postings w
      then Some (w\<lparr>is_exhausted := True, current_loc := ISRSentinel\<rparr>, ISRSentinel)
      else case decode_at (data w) (current_ptr w) of
        None \<Rightarrow> None
      | Some (delta, ptr) \<Rightarrow>
          Some (w\<lparr>current_ptr := ptr, current_loc := current_loc w + delta,
                 current_index := current_index w + 1\<rparr>, current_loc w + delta))"

definition word_init :: "u8 list \<Rightarrow> u32 \<Rightarrow> SeekTable option \<Rightarrow> isr_word option" where
  "word_init d n table =
     (let w = \<lparr>num_postings = n, current_index = 0, current_loc = 0, data = d, current_ptr = 0,
               seek_table = table, is_exhausted = (n = 0)\<rparr>
      in if is_exhausted w then Some w else map_option fst (word_next w))"

text \<open>The linear scan at the end of \<open>ISRWord::seek\<close>. A step that reads a location below the target
  has moved \<open>current_index\<close> up, so the scan ends.\<close>

lemma word_next_progress:
  assumes "word_next w = Some (w', loc)" and "\<not> word_done w" and "loc \<noteq> ISRSentinel"
  shows "unat (num_postings w') - unat (current_index w') < unat (num_postings w) - unat (current_index w)"
proof -
  from assms have lt: "current_index w < num_postings w"
    by (auto simp: word_next_def split: if_splits option.splits)
  then have w': "num_postings w' = num_postings w" "current_index w' = current_index w + 1"
    using assms(1,2) by (auto simp: word_next_def not_le [symmetric] split: option.splits)
  have "unat (current_index w + 1) = Suc (unat (current_index w))"
    using lt by (rule unat_plus_1)
  then show ?thesis using lt by (simp add: w' word_less_nat_alt)
qed

function word_scan :: "isr_word \<Rightarrow> u32 \<Rightarrow> (isr_word \<times> u32) option" where
  "word_scan w target =
     (if word_done w then Some (w, ISRSentinel)
      else case word_next w of
        None \<Rightarrow> None
      | Some (w', loc) \<Rightarrow> if loc \<ge> target then Some (w', loc) else word_scan w' target)"
  by pat_completeness auto
termination
proof (relation "measure (\<lambda>(w, t). unat (num_postings w) - unat (current_index w))")
  fix w target x a loc
  assume "\<not> word_done w" "word_next w = Some x" "(a, loc) = x" "\<not> target \<le> loc"
  moreover from this have "loc \<noteq> ISRSentinel" by (auto simp: ISRSentinel_def)
  ultimately show "((a, target), w, target) \<in> measure (\<lambda>(w, t). unat (num_postings w) - unat (current_index w))"
    using word_next_progress [of w a loc] by simp
qed simp

declare word_scan.simps [simp del]

definition word_seek :: "isr_word \<Rightarrow> u32 \<Rightarrow> (isr_word \<times> u32) option" where
  "word_seek w target =
     (if is_exhausted w then Some (w, ISRSentinel)
      else if current_loc w \<ge> target \<and> current_index w > 0 then Some (w, current_loc w)
      else case seek_table w of
        None \<Rightarrow> word_scan w target
      | Some table \<Rightarrow>
          let entry = entryForLocation table target
          in if posting_index entry \<noteq> NoPosting \<and> posting_index entry + 1 > current_index w
             then let w' = w\<lparr>current_ptr := unat (byte_offset entry),
                            current_loc := base_location entry,
                            current_index := posting_index entry + 1\<rparr>
                  in if current_loc w' \<ge> target then Some (w', current_loc w')
                     else word_scan w' target
             else word_scan w target)"

definition word_remaining :: "isr_word \<Rightarrow> u32" where
  "word_remaining w = num_postings w - current_index w"

definition word_ops :: "isr_word isr_ops" where
  "word_ops = \<lparr>op_next = word_next, op_seek = word_seek, op_loc = current_loc, op_done = word_done\<rparr>"

subsection \<open>Its contract\<close>

text \<open>\<open>word_locations\<close> is the posting list the reader was opened on, \<open>word_rest\<close> what is left of it.
  A reader is well formed when its pointer, index and location are those of one posting.\<close>

definition word_locations :: "isr_word \<Rightarrow> u32 list" where
  "word_locations w = the (decodeDeltaList (data w) (unat (num_postings w)))"

definition word_rest :: "isr_word \<Rightarrow> u32 list" where
  "word_rest w = (if is_exhausted w then [] else drop (unat (current_index w) - 1) (word_locations w))"

definition posting_list :: "u32 list \<Rightarrow> bool" where
  "posting_list ls \<longleftrightarrow> sorted_wrt (<) ls \<and> ISRSentinel \<notin> set ls
     \<and> length ls < 2 ^ 32 - 1 \<and> length (encodeDeltaList ls) < 2 ^ 32"

lemma posting_listI:
  "sorted_wrt (<) ls \<Longrightarrow> ISRSentinel \<notin> set ls \<Longrightarrow> 5 * length ls < 2 ^ 32 \<Longrightarrow> posting_list ls"
  using length_encodeDeltaList [of ls] by (simp add: posting_list_def)

definition word_at :: "u32 list \<Rightarrow> nat \<Rightarrow> isr_word \<Rightarrow> bool" where
  "word_at ls k w \<longleftrightarrow> k < length ls \<and> current_index w = of_nat (Suc k)
     \<and> current_loc w = ls ! k \<and> current_ptr w = stream_off ls (Suc k)"

definition word_over :: "u32 list \<Rightarrow> isr_word \<Rightarrow> bool" where
  "word_over ls w \<longleftrightarrow> posting_list ls \<and> num_postings w = of_nat (length ls)
     \<and> (\<exists>junk. data w = encodeDeltaList ls @ junk)
     \<and> (\<forall>table. seek_table w = Some table \<longrightarrow> table_ok ls table)"

definition word_inv :: "isr_word \<Rightarrow> bool" where
  "word_inv w \<longleftrightarrow> (\<exists>ls. word_over ls w \<and> (is_exhausted w \<or> (\<exists>k. word_at ls k w)))"

lemma from_loc_skip:
  assumes "\<forall>i. k \<le> i \<and> i < j \<longrightarrow> ls ! i < t" and "k \<le> j" and "j \<le> length ls"
  shows "from_loc t (drop k ls) = from_loc t (drop j ls)"
  using assms(2,1,3)
proof (induction rule: dec_induct)
  case (step n)
  then have "drop n ls = ls ! n # drop (Suc n) ls" by (simp add: Cons_nth_drop_Suc)
  moreover have "ls ! n < t" using step by simp
  ultimately show ?case using step by simp
qed simp

lemma posting_list_sorted: "posting_list ls \<Longrightarrow> sorted_wrt (<) ls"
  by (simp add: posting_list_def)

lemma word_locations_over: "word_over ls w \<Longrightarrow> word_locations w = ls"
  using decode_deltas_encode_deltas [of ls 0]
  by (auto simp: word_over_def word_locations_def posting_list_def decodeDeltaList_def encodeDeltaList_def)

lemma word_rest_at:
  assumes "word_over ls w" and "word_at ls k w" and "\<not> is_exhausted w"
  shows "word_rest w = drop k ls"
  using assms word_locations_over [OF assms(1)]
  by (simp add: word_rest_def word_at_def word_over_def posting_list_def del: of_nat_Suc)

lemma word_rest_exhausted: "is_exhausted w \<Longrightarrow> word_rest w = []"
  by (simp add: word_rest_def)

lemma word_over_update:
  assumes "word_over ls w" and "num_postings w' = num_postings w" and "data w' = data w"
    and "seek_table w' = seek_table w"
  shows "word_over ls w'"
  using assms by (simp add: word_over_def)

text \<open>The outcome of one operation: the value is the first location left.\<close>

definition word_yields :: "u32 list \<Rightarrow> u32 list \<Rightarrow> (isr_word \<times> u32) option \<Rightarrow> bool" where
  "word_yields ls xs r \<longleftrightarrow> (\<exists>w'. r = Some (w', front xs) \<and> word_over ls w' \<and> word_rest w' = xs
     \<and> (is_exhausted w' \<or> (\<exists>k. word_at ls k w')))"

lemma word_next_at:
  assumes "word_over ls w" and "word_at ls k w" and "\<not> is_exhausted w"
  shows "word_yields ls (drop (Suc k) ls) (word_next w)"
    and "Suc k < length ls \<Longrightarrow> \<exists>w'. word_next w = Some (w', ls ! Suc k) \<and> word_over ls w'
           \<and> word_at ls (Suc k) w' \<and> \<not> is_exhausted w'"
proof -
  from assms(1) obtain junk where data: "data w = encodeDeltaList ls @ junk"
    and num: "num_postings w = of_nat (length ls)" and pl: "posting_list ls"
    by (auto simp: word_over_def)
  have bounds: "length ls < 2 ^ 32" "Suc k < 2 ^ 32" "k < length ls"
    using pl assms(2) by (auto simp: posting_list_def word_at_def)
  have more: "num_postings w \<le> current_index w \<longleftrightarrow> length ls \<le> Suc k"
    using of_nat_le_u32_iff [of "length ls" "Suc k"] bounds assms(2) by (simp add: num word_at_def del: of_nat_Suc)
  show step: "\<exists>w'. word_next w = Some (w', ls ! Suc k) \<and> word_over ls w' \<and> word_at ls (Suc k) w'
      \<and> \<not> is_exhausted w'" if "Suc k < length ls"
    using that assms more bounds
    by (auto simp: word_next_def word_done_def data word_at_def intro: word_over_update)
  show "word_yields ls (drop (Suc k) ls) (word_next w)"
  proof (cases "Suc k < length ls")
    case True
    from step [OF True] word_rest_at show ?thesis
      using True by (auto simp: word_yields_def front_hd hd_drop_conv_nth)
  next
    case False
    then show ?thesis using assms more word_over_update [OF assms(1)]
      by (simp add: word_yields_def word_next_def word_done_def word_rest_def)
  qed
qed

lemma word_scan_at:
  assumes "word_over ls w" and "word_at ls k w" and "\<not> is_exhausted w"
  shows "word_yields ls (from_loc t (drop (Suc k) ls)) (word_scan w t)"
  using assms
proof (induction "length ls - k" arbitrary: w k rule: less_induct)
  case less
  note next_at = word_next_at [OF less.prems]
  show ?case
  proof (cases "Suc k < length ls")
    case True
    then obtain w' where w': "word_next w = Some (w', ls ! Suc k)" "word_over ls w'"
      "word_at ls (Suc k) w'" "\<not> is_exhausted w'" using next_at(2) by blast
    have ls: "drop (Suc k) ls = ls ! Suc k # drop (Suc (Suc k)) ls"
      using True by (simp add: Cons_nth_drop_Suc)
    show ?thesis
    proof (cases "t \<le> ls ! Suc k")
      case t: True
      then have "from_loc t (drop (Suc k) ls) = drop (Suc k) ls" by (simp add: ls)
      moreover have "word_scan w t = word_next w"
        using w'(1) less.prems(3) t by (subst word_scan.simps) (simp add: word_done_def)
      ultimately show ?thesis using next_at(1) by simp
    next
      case False
      have "word_scan w t = word_scan w' t"
        using w'(1) less.prems(3) False by (subst word_scan.simps) (simp add: word_done_def)
      moreover have "word_yields ls (from_loc t (drop (Suc (Suc k)) ls)) (word_scan w' t)"
        using True w' by (intro less.hyps) auto
      ultimately show ?thesis using False by (simp add: ls not_le)
    qed
  next
    case False
    then have "word_yields ls [] (word_next w)" using next_at(1) by simp
    moreover from this have "word_scan w t = word_next w"
      using less.prems(3) by (subst word_scan.simps) (auto simp: word_yields_def word_done_def ISRSentinel_def)
    ultimately show ?thesis using False by simp
  qed
qed

lemma word_seek_at:
  assumes "word_over ls w" and "word_at ls k w" and "\<not> is_exhausted w"
  shows "word_yields ls (from_loc t (drop k ls)) (word_seek w t)"
proof -
  from assms(1) have pl: "posting_list ls" by (simp add: word_over_def)
  have k: "k < length ls" "Suc k < 2 ^ 32" "current_index w = of_nat (Suc k)" "current_loc w = ls ! k"
    using assms(2) pl by (auto simp: word_at_def posting_list_def)
  have dk: "drop k ls = ls ! k # drop (Suc k) ls" using k by (simp add: Cons_nth_drop_Suc)
  have idx: "0 < current_index w"
    using k(2,3) of_nat_less_u32_iff [of 0 "Suc k"] by (simp del: of_nat_Suc)
  show ?thesis
  proof (cases "t \<le> ls ! k")
    case True
    then have "from_loc t (drop k ls) = drop k ls" by (simp add: dk)
    then show ?thesis using assms True idx k word_rest_at [OF assms]
      by (auto simp: word_yields_def word_seek_def dk)
  next
    case False
    then have here: "from_loc t (drop k ls) = from_loc t (drop (Suc k) ls)" by (simp add: dk)
    have scan: "word_yields ls (from_loc t (drop k ls)) (word_scan w t)"
      unfolding here by (rule word_scan_at [OF assms])
    show ?thesis
    proof (cases "\<exists>table. seek_table w = Some table
        \<and> posting_index (entryForLocation table t) \<noteq> NoPosting
        \<and> posting_index (entryForLocation table t) + 1 > current_index w")
      case False
      then show ?thesis using scan assms(3) \<open>\<not> t \<le> ls ! k\<close> k
        by (auto simp: word_seek_def Let_def split: option.splits)
    next
      case True
      then obtain table where table: "seek_table w = Some table"
          "posting_index (entryForLocation table t) \<noteq> NoPosting"
          "posting_index (entryForLocation table t) + 1 > current_index w" by blast
      let ?e = "entryForLocation table t"
      have "table_ok ls table" using assms(1) table(1) by (simp add: word_over_def)
      then obtain j where j: "j < length ls" "?e = entry_of ls j" "\<forall>j' < j. ls ! j' < t"
        using table(2) by (auto simp: table_ok_def Let_def)
      have j32: "Suc j < 2 ^ 32" "stream_off ls (Suc j) < 2 ^ 32"
        using j(1) pl stream_off_le [of "Suc j" ls] by (auto simp: posting_list_def)
      have pidx: "posting_index ?e + 1 = of_nat (Suc j)" by (simp add: j(2) entry_of_def)
      have "k < j"
        using table(3) k j32(1) of_nat_less_u32_iff [of "Suc k" "Suc j"] unfolding pidx by simp
      define w' where "w' = w\<lparr>current_ptr := unat (byte_offset ?e), current_loc := base_location ?e,
                             current_index := posting_index ?e + 1\<rparr>"
      have over: "word_over ls w'" using assms(1) by (rule word_over_update) (simp_all add: w'_def)
      have at: "word_at ls j w'"
        using j(1) j32(2) unfolding word_at_def w'_def pidx by (simp add: j(2) entry_of_def)
      have live: "\<not> is_exhausted w'" using assms(3) by (simp add: w'_def)
      have skip: "from_loc t (drop k ls) = from_loc t (drop j ls)"
        using j \<open>k < j\<close> by (intro from_loc_skip) auto
      have dj: "drop j ls = ls ! j # drop (Suc j) ls" using j(1) by (simp add: Cons_nth_drop_Suc)
      have locj: "current_loc w' = ls ! j" using at by (simp add: word_at_def)
      have seek: "word_seek w t = (if ls ! j \<ge> t then Some (w', ls ! j) else word_scan w' t)"
        using assms(3) \<open>\<not> t \<le> ls ! k\<close> k table locj
        by (simp add: word_seek_def Let_def w'_def [symmetric])
      show ?thesis
      proof (cases "t \<le> ls ! j")
        case True
        then have "from_loc t (drop k ls) = drop j ls" by (simp add: skip dj)
        then show ?thesis using True over at live word_rest_at [OF over at live]
          by (auto simp: word_yields_def seek dj)
      next
        case False
        then have "from_loc t (drop k ls) = from_loc t (drop (Suc j) ls)"
          by (simp add: skip dj)
        then show ?thesis using False word_scan_at [OF over at live] by (simp add: seek)
      qed
    qed
  qed
qed

lemma word_invI: "word_over ls w \<Longrightarrow> is_exhausted w \<or> (\<exists>k. word_at ls k w) \<Longrightarrow> word_inv w"
  unfolding word_inv_def by blast

lemma word_yields_ex:
  assumes "word_yields ls xs r"
  shows "\<exists>w'. r = Some (w', front xs) \<and> word_inv w' \<and> word_rest w' = xs"
  using assms word_invI by (auto simp: word_yields_def)

lemma word_cases [consumes 1, case_names exhausted at]:
  assumes "word_inv w"
  obtains ls where "is_exhausted w" "word_over ls w"
  | ls k where "\<not> is_exhausted w" "word_over ls w" "word_at ls k w" "word_rest w = drop k ls" "k < length ls"
  using assms word_rest_at by (auto simp: word_inv_def word_at_def)

lemma posting_list_drop:
  assumes "posting_list ls"
  shows "sorted_wrt (<) (drop k ls)" and "x \<in> set (drop k ls) \<Longrightarrow> x \<noteq> ISRSentinel"
proof -
  have "sorted_wrt (<) (take k ls @ drop k ls)" using assms by (simp add: posting_list_def)
  then show "sorted_wrt (<) (drop k ls)" by (simp only: sorted_wrt_append)
  show "x \<noteq> ISRSentinel" if "x \<in> set (drop k ls)"
    using assms in_set_dropD [OF that] by (auto simp: posting_list_def)
qed

interpretation word: isr_contract word_ops "\<lambda>_. True" word_inv word_rest
proof
  fix w x assume inv: "word_inv w"
  then show "sorted_wrt (<) (word_rest w)"
    by (cases rule: word_cases) (auto simp: word_rest_exhausted word_over_def intro: posting_list_drop)
  show "x \<noteq> ISRSentinel" if "x \<in> set (word_rest w)"
    using inv that
    by (cases rule: word_cases) (auto simp: word_rest_exhausted word_over_def dest: posting_list_drop(2))
  show "op_done word_ops w \<longleftrightarrow> word_rest w = []"
    using inv by (cases rule: word_cases) (auto simp: word_ops_def word_done_def word_rest_exhausted)
  show "word_rest w \<noteq> [] \<Longrightarrow> op_loc word_ops w = hd (word_rest w)"
    using inv by (cases rule: word_cases) (auto simp: word_ops_def word_rest_exhausted word_at_def hd_drop_conv_nth)
  show "\<exists>w'. op_next word_ops w = Some (w', front (tl (word_rest w))) \<and> word_inv w'
          \<and> word_rest w' = tl (word_rest w)"
    using inv
  proof (cases rule: word_cases)
    case (at ls k)
    then show ?thesis using word_yields_ex [OF word_next_at(1)]
      by (simp add: word_ops_def drop_Suc tl_drop)
  qed (use inv in \<open>auto simp: word_ops_def word_next_def word_done_def word_rest_exhausted\<close>)
  fix t
  show "\<exists>w'. op_seek word_ops w t = Some (w', front (from_loc t (word_rest w))) \<and> word_inv w'
          \<and> word_rest w' = from_loc t (word_rest w)"
    using inv
  proof (cases rule: word_cases)
    case (at ls k)
    then show ?thesis using word_yields_ex [OF word_seek_at] by (simp add: word_ops_def)
  qed (use inv in \<open>auto simp: word_ops_def word_seek_def word_rest_exhausted\<close>)
qed

text \<open>A reader opened on an encoded posting list stands at its first location.\<close>

lemma word_init_ok:
  assumes "posting_list ls" and "\<forall>tbl. table = Some tbl \<longrightarrow> table_ok ls tbl"
  shows "\<exists>w. word_init (encodeDeltaList ls @ junk) (of_nat (length ls)) table = Some w
           \<and> word_inv w \<and> word_rest w = ls \<and> word_locations w = ls"
proof -
  let ?w = "\<lparr>num_postings = of_nat (length ls), current_index = 0, current_loc = 0,
              data = encodeDeltaList ls @ junk, current_ptr = 0, seek_table = table,
              is_exhausted = (of_nat (length ls) = (0::u32))\<rparr>"
  have len: "length ls < 2 ^ 32" using assms(1) by (simp add: posting_list_def)
  have over: "word_over ls ?w" using assms by (simp add: word_over_def)
  have exh: "of_nat (length ls) = (0::u32) \<longleftrightarrow> ls = []"
    using unat_eq_zero [of "of_nat (length ls) :: u32"] unat_of_nat_u32 [OF len] by simp
  show ?thesis
  proof (cases ls)
    case Nil
    then show ?thesis using word_invI [OF over] word_locations_over [OF over]
      by (simp add: word_init_def Let_def word_rest_def)
  next
    case (Cons l ls')
    have dec: "decode_at (encodeDeltaList ls @ junk) 0 = Some (ls ! 0, stream_off ls (Suc 0))"
      using decode_at_stream [of 0 ls junk] Cons by simp
    have pos: "\<not> (of_nat (length ls) :: u32) \<le> 0"
      using of_nat_le_u32_iff [of "length ls" 0] len Cons by simp
    define w where "w = ?w\<lparr>current_ptr := stream_off ls (Suc 0), current_loc := ls ! 0,
                          current_index := 1\<rparr>"
    have "word_init (encodeDeltaList ls @ junk) (of_nat (length ls)) table = Some w"
      using pos exh Cons dec by (simp add: word_init_def Let_def word_next_def word_done_def w_def)
    moreover have "word_over ls w" using over by (rule word_over_update) (simp_all add: w_def)
    moreover have "word_at ls 0 w" using Cons by (simp add: word_at_def w_def)
    moreover have "\<not> is_exhausted w" using exh Cons by (simp add: w_def)
    ultimately show ?thesis
      using word_invI word_rest_at [of ls w 0] word_locations_over by auto
  qed
qed

text \<open>C18. A reader opened on the encoding of a posting list, with any sound seek table or none,
  answers every sequence of calls to \<open>next\<close> and \<open>seek\<close> as the list of its locations does: the jump
  through the seek table never changes an answer, only how fast it comes.\<close>

theorem word_reader_run:
  assumes "posting_list ls" and "\<forall>tbl. table = Some tbl \<longrightarrow> table_ok ls tbl"
  shows "\<exists>w. word_init (encodeDeltaList ls @ junk) (of_nat (length ls)) table = Some w
           \<and> current_loc w = (if ls = [] then 0 else hd ls)
           \<and> isr_run word_ops cs w = Some (list_run cs ls)"
proof -
  obtain w where w: "word_init (encodeDeltaList ls @ junk) (of_nat (length ls)) table = Some w"
    "word_inv w" "word_rest w = ls" using word_init_ok [OF assms] by blast
  moreover have "current_loc w = (if ls = [] then 0 else hd ls)"
  proof (cases "ls = []")
    case True
    then show ?thesis using w(1) by (auto simp: word_init_def Let_def)
  next
    case False
    then show ?thesis using word.loc_hd [OF w(2)] w(3) by (simp add: word_ops_def)
  qed
  ultimately show ?thesis using word.run_spec [OF w(2)] by auto
qed

theorem word_reader_run_witness:
  "\<exists>w. word_init (encodeDeltaList [3, 20, 40000000] @ [9]) (of_nat (length [3, 20, 40000000 :: u32]))
           (Some empty_table) = Some w
     \<and> current_loc w = (if [3, 20, 40000000 :: u32] = [] then 0 else hd [3, 20, 40000000])
     \<and> isr_run word_ops [CallSeek 4, CallNext, CallNext] w
         = Some (list_run [CallSeek 4, CallNext, CallNext] [3, 20, 40000000])"
proof (rule word_reader_run)
  show "posting_list [3, 20, 40000000]"
    by (rule posting_listI) (simp_all add: ISRSentinel_def)
qed (simp add: table_ok_def entryForLocation_def entryForIndex_def extractIndex_less empty_table_def default_entry_def)

text \<open>A reader on a list of locations, for the inputs at which the theorems are evaluated.\<close>

definition word_of_list :: "u32 list \<Rightarrow> isr_word" where
  "word_of_list ls = the (word_init (encodeDeltaList ls) (of_nat (length ls)) None)"

lemma word_of_list:
  assumes "posting_list ls"
  shows "word_inv (word_of_list ls)" and "word_rest (word_of_list ls) = ls"
    and "word_locations (word_of_list ls) = ls"
  using word_init_ok [OF assms, of None "[]"] by (auto simp: word_of_list_def)

end
