(* ===== verification/IsrDoc.thy ===== *)
theory IsrDoc
  imports Isr
begin

text \<open>
  What the readers that work document by document (\<open>IsrAnd\<close>, \<open>IsrContainer\<close>) rely on: the locations
  of \<open>#DocEnd\<close> are the ends \<open>E\<close> of the documents, \<open>getDocument\<close> gives the start \<open>S ! i\<close> of document
  \<open>i\<close>, and the documents do not overlap. A target is \<open>doc_aligned\<close> when it cuts no document in two.
\<close>

definition doc_table :: "(u32 \<Rightarrow> DocumentRecord option) \<Rightarrow> u32 list \<Rightarrow> u32 list \<Rightarrow> bool" where
  "doc_table getDoc S E \<longleftrightarrow> posting_list E \<and> length S = length E
     \<and> (\<forall>i < length E. S ! i \<le> E ! i \<and> (Suc i < length E \<longrightarrow> E ! i < S ! Suc i)
          \<and> (\<exists>d. getDoc (of_nat i) = Some d \<and> start_location d = S ! i))"

definition doc_aligned :: "u32 list \<Rightarrow> u32 list \<Rightarrow> u32 \<Rightarrow> bool" where
  "doc_aligned S E t \<longleftrightarrow> (\<forall>i < length E. \<not> (S ! i < t \<and> t \<le> E ! i))"

lemma doc_table_ends: "doc_table getDoc S E \<Longrightarrow> sorted_wrt (<) E"
  by (simp add: doc_table_def posting_list_def)

lemma doc_end_less_start:
  assumes "doc_table getDoc S E" and "i < j" and "j < length E"
  shows "E ! i < S ! j"
proof -
  obtain k where k: "j = Suc k" using assms(2) by (cases j) auto
  have "E ! i \<le> E ! k"
    using doc_table_ends [OF assms(1)] assms k by (cases "i = k") (auto simp: sorted_wrt_iff_nth_less intro: less_imp_le)
  also have "E ! k < S ! j" using assms k by (simp add: doc_table_def)
  finally show ?thesis .
qed

lemma doc_start_le_end: "doc_table getDoc S E \<Longrightarrow> i < length E \<Longrightarrow> S ! i \<le> E ! i"
  by (simp add: doc_table_def)

lemma doc_end_less_end:
  "doc_table getDoc S E \<Longrightarrow> i < j \<Longrightarrow> j < length E \<Longrightarrow> E ! i < E ! j"
  using doc_end_less_start doc_start_le_end by (meson less_le_trans)

lemma doc_start_less_start:
  "doc_table getDoc S E \<Longrightarrow> i < j \<Longrightarrow> j < length E \<Longrightarrow> S ! i < S ! j"
  using doc_end_less_start doc_start_le_end by (meson le_less_trans less_trans order.strict_trans1)

lemma doc_end_proper: "doc_table getDoc S E \<Longrightarrow> i < length E \<Longrightarrow> E ! i \<noteq> ISRSentinel"
  using nth_mem [of i E] by (auto simp: doc_table_def posting_list_def simp del: nth_mem)

lemma end_plus_1_le_iff:
  assumes "doc_table getDoc S E" and "i < length E"
  shows "E ! i + 1 \<le> x \<longleftrightarrow> E ! i < x"
proof -
  have "E ! i \<noteq> - 1" using doc_end_proper [OF assms] by (simp add: ISRSentinel_def)
  then have "E ! i < - 1" by (simp add: word_less_max_iff)
  then have "unat (E ! i + 1) = Suc (unat (E ! i))" by (rule unat_plus_1)
  then show ?thesis by (auto simp: word_le_nat_alt word_less_nat_alt)
qed

lemma aligned_start:
  assumes "doc_table getDoc S E" and "j < length E"
  shows "doc_aligned S E (S ! j)"
  unfolding doc_aligned_def
proof (intro allI impI notI)
  fix i assume i: "i < length E" and "S ! i < S ! j \<and> S ! j \<le> E ! i"
  then show False
    using doc_end_less_start [OF assms(1), of i j] doc_start_less_start [OF assms(1), of j i] assms(2)
    by (cases i j rule: linorder_cases) auto
qed

lemma aligned_after_end:
  assumes "doc_table getDoc S E" and "j < length E"
  shows "doc_aligned S E (E ! j + 1)"
  unfolding doc_aligned_def
proof (intro allI impI notI)
  fix i assume i: "i < length E" and h: "S ! i < E ! j + 1 \<and> E ! j + 1 \<le> E ! i"
  then have "E ! j < E ! i" using end_plus_1_le_iff [OF assms] by blast
  then have "j < i"
    using doc_end_less_end [OF assms(1), of i j] assms(2) i by (cases i j rule: linorder_cases) auto
  then have "E ! j + 1 \<le> S ! i"
    using doc_end_less_start [OF assms(1)] i end_plus_1_le_iff [OF assms] by blast
  with h show False by (simp add: leD)
qed

subsection \<open>The \<open>#DocEnd\<close> reader\<close>

definition doc_end_ok :: "u32 list \<Rightarrow> isr_word \<Rightarrow> bool" where
  "doc_end_ok E w \<longleftrightarrow> word_inv w \<and> word_locations w = E"

lemma word_inv_over: "word_inv w \<Longrightarrow> word_over (word_locations w) w"
  using word_locations_over by (auto simp: word_inv_def)

lemma doc_end_rest:
  assumes "doc_end_ok E w"
  shows "\<exists>k \<le> length E. word_rest w = drop k E"
proof -
  from assms have "word_inv w" by (simp add: doc_end_ok_def)
  then show ?thesis
  proof (cases rule: word_cases)
    case (at ls k)
    then show ?thesis
      using assms word_locations_over by (auto simp: doc_end_ok_def intro!: exI [of _ k])
  qed (auto simp: word_rest_exhausted)
qed

lemma doc_end_seek:
  assumes "doc_end_ok E w"
  shows "\<exists>w'. word_seek w t = Some (w', front (from_loc t (word_rest w))) \<and> doc_end_ok E w'
           \<and> word_rest w' = from_loc t (word_rest w)"
proof -
  from assms have "word_inv w" and E: "word_locations w = E" by (simp_all add: doc_end_ok_def)
  from this(1) show ?thesis
  proof (cases rule: word_cases)
    case (at ls k)
    moreover have "ls = E" using at(2) E word_locations_over by simp
    ultimately have "word_yields E (from_loc t (word_rest w)) (word_seek w t)"
      using word_seek_at by simp
    then show ?thesis
      using word_invI word_locations_over unfolding word_yields_def doc_end_ok_def by blast
  qed (use assms in \<open>simp add: word_seek_def word_rest_exhausted\<close>)
qed

lemma doc_end_index:
  assumes "doc_end_ok E w" and "word_rest w = drop j E" and "j < length E"
  shows "current_index w - 1 = of_nat j"
proof -
  from assms have "word_inv w" by (simp add: doc_end_ok_def)
  then show ?thesis
  proof (cases rule: word_cases)
    case (at ls k)
    then have "ls = E" using assms(1) word_locations_over by (auto simp: doc_end_ok_def)
    then have "length E - k = length E - j" using at assms(2) by (metis length_drop)
    then have "k = j" using at(5) assms(3) \<open>ls = E\<close> by simp
    then show ?thesis using at(3) by (simp add: word_at_def)
  qed (use assms in \<open>simp add: word_rest_exhausted\<close>)
qed

lemma from_loc_drop:
  "\<exists>j \<le> length xs. k \<le> j \<and> from_loc t (drop k xs) = drop j xs \<and> (\<forall>i. k \<le> i \<and> i < j \<longrightarrow> xs ! i < t)
     \<and> (j < length xs \<longrightarrow> t \<le> xs ! j)" if "k \<le> length xs"
  using that
proof (induction "length xs - k" arbitrary: k)
  case 0
  then show ?case by auto
next
  case (Suc n)
  then have dk: "drop k xs = xs ! k # drop (Suc k) xs" by (simp add: Cons_nth_drop_Suc)
  show ?case
  proof (cases "xs ! k < t")
    case True
    have "\<exists>j \<le> length xs. Suc k \<le> j \<and> from_loc t (drop (Suc k) xs) = drop j xs
        \<and> (\<forall>i. Suc k \<le> i \<and> i < j \<longrightarrow> xs ! i < t) \<and> (j < length xs \<longrightarrow> t \<le> xs ! j)"
      using Suc by (intro Suc.hyps(1)) auto
    then obtain j where j: "j \<le> length xs" "Suc k \<le> j" "from_loc t (drop (Suc k) xs) = drop j xs"
      "\<forall>i. Suc k \<le> i \<and> i < j \<longrightarrow> xs ! i < t" "j < length xs \<longrightarrow> t \<le> xs ! j" by blast
    then have "\<forall>i. k \<le> i \<and> i < j \<longrightarrow> xs ! i < t" using True by (metis Suc_leI le_neq_implies_less)
    then show ?thesis using j True dk by (intro exI [of _ j]) simp
  next
    case False
    then show ?thesis using Suc(3) dk by (intro exI [of _ k]) auto
  qed
qed

text \<open>Where a seek of the \<open>#DocEnd\<close> reader lands: at the first document that ends at or after the
  target, or nowhere.\<close>

lemma doc_end_seek_cases:
  assumes "doc_end_ok E w" and "ISRSentinel \<notin> set E" and "word_rest w = drop k E" and "k \<le> length E"
  obtains w' where "word_seek w t = Some (w', ISRSentinel)" "\<forall>i. k \<le> i \<and> i < length E \<longrightarrow> E ! i < t"
  | w' j where "word_seek w t = Some (w', E ! j)" "E ! j \<noteq> ISRSentinel" "k \<le> j" "j < length E"
      "doc_end_ok E w'" "word_rest w' = drop j E" "current_index w' - 1 = of_nat j"
      "\<forall>i. k \<le> i \<and> i < j \<longrightarrow> E ! i < t" "t \<le> E ! j"
proof -
  obtain w' where w': "word_seek w t = Some (w', front (from_loc t (drop k E)))" "doc_end_ok E w'"
    "word_rest w' = from_loc t (drop k E)" using doc_end_seek [OF assms(1)] assms(3) by auto
  obtain j where j: "j \<le> length E" "k \<le> j" "from_loc t (drop k E) = drop j E"
    "\<forall>i. k \<le> i \<and> i < j \<longrightarrow> E ! i < t" "j < length E \<longrightarrow> t \<le> E ! j"
    using from_loc_drop [OF assms(4)] by blast
  show thesis
  proof (cases "j < length E")
    case True
    then have "front (drop j E) = E ! j" by (simp add: front_hd hd_drop_conv_nth)
    moreover have "E ! j \<noteq> ISRSentinel" using assms(2) nth_mem [OF True] by metis
    ultimately show thesis
      using that(2) [of w' j] w' j True doc_end_index [OF w'(2)] by auto
  next
    case False
    then show thesis using that(1) w' j by auto
  qed
qed

lemma doc_end_ok_word_of_list: "posting_list E \<Longrightarrow> doc_end_ok E (word_of_list E)"
  by (simp add: doc_end_ok_def word_of_list)

text \<open>A chunk of three documents, for the inputs at which the theorems are evaluated.\<close>

definition doc_span :: "u32 \<Rightarrow> u32 \<Rightarrow> DocumentRecord" where
  "doc_span s e = \<lparr>doc_url = [], start_location = s, end_location = e, word_count = 0,
     title_word_count = 0, seed_distance = 0, features = empty_features\<rparr>"

definition three_docs :: "u32 \<Rightarrow> DocumentRecord option" where
  "three_docs i = (if i = 0 then Some (doc_span 0 4) else if i = 1 then Some (doc_span 5 8)
     else if i = 2 then Some (doc_span 9 15) else None)"

lemma three_docs: "doc_table three_docs [0, 5, 9] [4, 8, 15]"
proof -
  have "posting_list [4, 8, 15]" by (rule posting_listI) (simp_all add: ISRSentinel_def)
  then show ?thesis by (auto simp: doc_table_def three_docs_def doc_span_def less_Suc_eq)
qed

end
