(* ===== verification/IsrAnd.thy ===== *)
theory IsrAnd
  imports IsrDoc
begin

text \<open>
  The conjunction of readers, \<open>src/index/src/lib/isr_and.cpp\<close>: it stands at the ends of the documents
  in which every child occurs. The reader of \<open>#DocEnd\<close> is its own, \<open>getDoc\<close> is
  \<open>DiskChunkReader::getDocument\<close>. The loop of \<open>advanceToNextMatch\<close> is \<open>and_advance\<close>; that it ends,
  and where, is part of the contract proved in the last section. \<open>current_loc_\<close> has no initial value
  in the code and is not read before it is set; the model starts it at 0.
\<close>

record 's and_state =
  and_terms :: "'s list"
  and_doc_end :: "isr_word option"
  and_loc :: u32
  and_exhausted :: bool
  and_doc :: "DocumentRecord option"

definition and_done :: "'s and_state \<Rightarrow> bool" where
  "and_done s = and_exhausted s"

text \<open>The first loop of the body: \<open>None\<close> when some child is exhausted.\<close>

fun and_max_loc :: "'s isr_ops \<Rightarrow> 's list \<Rightarrow> u32 \<Rightarrow> u32 option" where
  "and_max_loc ops [] max_loc = Some max_loc"
| "and_max_loc ops (t # ts) max_loc =
     (if op_done ops t then None else and_max_loc ops ts (max max_loc (op_loc ops t)))"

datatype and_status = TermExhausted | TermBehind | AllInDoc

text \<open>The second loop: every child moves to the start of the document, until one is past its end.\<close>

fun and_seek_doc :: "'s isr_ops \<Rightarrow> u32 \<Rightarrow> u32 \<Rightarrow> 's list \<Rightarrow> ('s list \<times> and_status) option" where
  "and_seek_doc ops doc_start doc_end [] = Some ([], AllInDoc)"
| "and_seek_doc ops doc_start doc_end (t # ts) =
     (case op_seek ops t doc_start of
        None \<Rightarrow> None
      | Some (t', loc) \<Rightarrow>
          if loc = ISRSentinel then Some (t' # ts, TermExhausted)
          else if loc > doc_end then Some (t' # ts, TermBehind)
          else map_option (\<lambda>(ts', st). (t' # ts', st)) (and_seek_doc ops doc_start doc_end ts))"

definition seek_all :: "'s isr_ops \<Rightarrow> u32 \<Rightarrow> 's list \<Rightarrow> 's list option" where
  "seek_all ops target terms = traverse (\<lambda>t. map_option fst (op_seek ops t target)) terms"

partial_function (option) and_advance ::
    "'s isr_ops \<Rightarrow> (u32 \<Rightarrow> DocumentRecord option) \<Rightarrow> 's and_state \<Rightarrow> ('s and_state \<times> u32) option" where
  "and_advance ops getDoc s =
     (case and_max_loc ops (and_terms s) 0 of
        None \<Rightarrow> Some (s\<lparr>and_exhausted := True\<rparr>, ISRSentinel)
      | Some max_loc \<Rightarrow>
     (case and_doc_end s of
        None \<Rightarrow> None
      | Some de \<Rightarrow>
     (case word_seek de max_loc of
        None \<Rightarrow> None
      | Some (de', doc_end_loc) \<Rightarrow>
          if doc_end_loc = ISRSentinel
          then Some (s\<lparr>and_doc_end := Some de', and_exhausted := True\<rparr>, ISRSentinel)
          else (case getDoc (current_index de' - 1) of
             None \<Rightarrow> Some (s\<lparr>and_doc_end := Some de', and_exhausted := True\<rparr>, ISRSentinel)
           | Some doc \<Rightarrow>
          (case and_seek_doc ops (start_location doc) doc_end_loc (and_terms s) of
             None \<Rightarrow> None
           | Some (terms, status) \<Rightarrow>
          (case status of
             TermExhausted \<Rightarrow>
               Some (s\<lparr>and_terms := terms, and_doc_end := Some de', and_exhausted := True\<rparr>, ISRSentinel)
           | AllInDoc \<Rightarrow>
               Some (s\<lparr>and_terms := terms, and_doc_end := Some de', and_loc := doc_end_loc,
                       and_doc := Some doc\<rparr>, doc_end_loc)
           | TermBehind \<Rightarrow>
          (case seek_all ops (doc_end_loc + 1) terms of
             None \<Rightarrow> None
           | Some terms' \<Rightarrow>
               and_advance ops getDoc (s\<lparr>and_terms := terms', and_doc_end := Some de'\<rparr>))))))))"

definition and_init ::
    "'s isr_ops \<Rightarrow> (u32 \<Rightarrow> DocumentRecord option) \<Rightarrow> 's list \<Rightarrow> isr_word option \<Rightarrow> 's and_state option" where
  "and_init ops getDoc terms de =
     (if terms = [] \<or> de = None
      then Some \<lparr>and_terms = terms, and_doc_end = de, and_loc = ISRSentinel, and_exhausted = True,
                 and_doc = None\<rparr>
      else map_option fst (and_advance ops getDoc
             \<lparr>and_terms = terms, and_doc_end = de, and_loc = 0, and_exhausted = False, and_doc = None\<rparr>))"

definition and_next ::
    "'s isr_ops \<Rightarrow> (u32 \<Rightarrow> DocumentRecord option) \<Rightarrow> 's and_state \<Rightarrow> ('s and_state \<times> u32) option" where
  "and_next ops getDoc s =
     (if and_exhausted s then Some (s, ISRSentinel)
      else case seek_all ops (and_loc s + 1) (and_terms s) of
        None \<Rightarrow> None
      | Some terms \<Rightarrow> and_advance ops getDoc (s\<lparr>and_terms := terms\<rparr>))"

definition and_seek ::
    "'s isr_ops \<Rightarrow> (u32 \<Rightarrow> DocumentRecord option) \<Rightarrow> 's and_state \<Rightarrow> u32 \<Rightarrow> ('s and_state \<times> u32) option" where
  "and_seek ops getDoc s target =
     (if and_exhausted s then Some (s, ISRSentinel)
      else if and_loc s \<ge> target then Some (s, and_loc s)
      else case seek_all ops target (and_terms s) of
        None \<Rightarrow> None
      | Some terms \<Rightarrow> and_advance ops getDoc (s\<lparr>and_terms := terms\<rparr>))"

definition and_ops :: "'s isr_ops \<Rightarrow> (u32 \<Rightarrow> DocumentRecord option) \<Rightarrow> 's and_state isr_ops" where
  "and_ops ops getDoc = \<lparr>op_next = and_next ops getDoc, op_seek = and_seek ops getDoc,
     op_loc = and_loc, op_done = and_done\<rparr>"

subsection \<open>Its contract\<close>

text \<open>\<open>common_docs\<close>: the ends of the documents in which every child still has a location.\<close>

definition in_doc :: "u32 list \<Rightarrow> u32 list \<Rightarrow> ('s \<Rightarrow> u32 list) \<Rightarrow> 's \<Rightarrow> nat \<Rightarrow> bool" where
  "in_doc S E rest t i \<longleftrightarrow> (\<exists>x \<in> set (rest t). S ! i \<le> x \<and> x \<le> E ! i)"

definition common_docs :: "u32 list \<Rightarrow> u32 list \<Rightarrow> ('s \<Rightarrow> u32 list) \<Rightarrow> 's list \<Rightarrow> u32 list" where
  "common_docs S E rest ts = map ((!) E) (filter (\<lambda>i. \<forall>t \<in> set ts. in_doc S E rest t i) [0..<length E])"

definition and_rest :: "u32 list \<Rightarrow> u32 list \<Rightarrow> ('s \<Rightarrow> u32 list) \<Rightarrow> 's and_state \<Rightarrow> u32 list" where
  "and_rest S E rest s = (if and_exhausted s then [] else common_docs S E rest (and_terms s))"

text \<open>\<open>and_ready\<close> is the state in which the loop runs: no document before the position of the
  \<open>#DocEnd\<close> reader is a match any more.\<close>

definition and_ready :: "u32 list \<Rightarrow> u32 list \<Rightarrow> ('s \<Rightarrow> bool) \<Rightarrow> ('s \<Rightarrow> u32 list) \<Rightarrow> 's and_state \<Rightarrow> bool" where
  "and_ready S E ok rest s \<longleftrightarrow> \<not> and_exhausted s \<and> and_terms s \<noteq> [] \<and> (\<forall>t \<in> set (and_terms s). ok t)
     \<and> (\<exists>de k. and_doc_end s = Some de \<and> doc_end_ok E de \<and> k \<le> length E \<and> word_rest de = drop k E
          \<and> (\<forall>i < k. \<not> (\<forall>t \<in> set (and_terms s). in_doc S E rest t i)))"

definition and_inv :: "u32 list \<Rightarrow> u32 list \<Rightarrow> ('s \<Rightarrow> bool) \<Rightarrow> ('s \<Rightarrow> u32 list) \<Rightarrow> 's and_state \<Rightarrow> bool" where
  "and_inv S E ok rest s \<longleftrightarrow> and_exhausted s
     \<or> (and_ready S E ok rest s \<and> common_docs S E rest (and_terms s) \<noteq> []
          \<and> and_loc s = hd (common_docs S E rest (and_terms s)))"

lemma set_common_docs:
  "set (common_docs S E rest ts) = {E ! i | i. i < length E \<and> (\<forall>t \<in> set ts. in_doc S E rest t i)}"
  by (auto simp: common_docs_def)

lemma sorted_common_docs:
  assumes "doc_table getDoc S E"
  shows "sorted_wrt (<) (common_docs S E rest ts)"
  unfolding common_docs_def sorted_wrt_map
proof (rule sorted_wrt_mono_rel)
  show "sorted_wrt (<) (filter (\<lambda>i. \<forall>t \<in> set ts. in_doc S E rest t i) [0..<length E])"
    by (simp add: sorted_wrt_filter)
  show "E ! i < E ! j" if "j \<in> set (filter (\<lambda>i. \<forall>t \<in> set ts. in_doc S E rest t i) [0..<length E])"
    "i < j" for i j
    using that doc_end_less_end [OF assms] by simp
qed

text \<open>\<open>moved ts ts' t0\<close>: the children after a move to \<open>t0\<close>, keeping the locations from \<open>t0\<close> on.\<close>

definition moved :: "('s \<Rightarrow> bool) \<Rightarrow> ('s \<Rightarrow> u32 list) \<Rightarrow> u32 \<Rightarrow> 's list \<Rightarrow> 's list \<Rightarrow> bool" where
  "moved ok rest t0 ts ts' \<longleftrightarrow>
     list_all2 (\<lambda>t t'. ok t' \<and> rest t' = from_loc t0 (rest t)) ts ts'"

context isr_contract
begin

lemma in_doc_from_loc:
  assumes "ok t" and "rest t' = from_loc t0 (rest t)" and "t0 \<le> S ! i"
  shows "in_doc S E rest t' i \<longleftrightarrow> in_doc S E rest t i"
  using assms set_from_loc [OF rest_sorted [OF assms(1)], of t0] order_trans
  by (auto simp: in_doc_def)

lemma common_docs_moved:
  assumes "doc_table getDoc S E" and "doc_aligned S E t0" and "moved ok rest t0 ts ts'"
    and "\<forall>t \<in> set ts. ok t" and "ts \<noteq> []"
  shows "common_docs S E rest ts' = from_loc t0 (common_docs S E rest ts)"
proof (rule sorted_wrt_less_set_eqI)
  have len: "length ts = length ts'" and
    m: "\<And>n. n < length ts \<Longrightarrow> ok (ts' ! n) \<and> rest (ts' ! n) = from_loc t0 (rest (ts ! n))"
    using assms(3) by (auto simp: moved_def list_all2_conv_all_nth)
  have all: "(\<forall>t \<in> set us. P t) \<longleftrightarrow> (\<forall>n < length us. P (us ! n))" for us and P :: "'a \<Rightarrow> bool"
    by (metis in_set_conv_nth)
  have iff: "(\<forall>t \<in> set ts'. in_doc S E rest t i) \<longleftrightarrow> t0 \<le> E ! i \<and> (\<forall>t \<in> set ts. in_doc S E rest t i)"
    if i: "i < length E" for i
  proof (cases "t0 \<le> E ! i")
    case True
    then have "t0 \<le> S ! i" using assms(2) i by (auto simp: doc_aligned_def not_less)
    then have "in_doc S E rest (ts' ! n) i \<longleftrightarrow> in_doc S E rest (ts ! n) i" if "n < length ts" for n
      using m [OF that] assms(4) that by (intro in_doc_from_loc [of _ _ t0]) auto
    then show ?thesis using True len by (auto simp: all)
  next
    case False
    have "\<not> in_doc S E rest (ts' ! 0) i"
      using m [of 0] assms(4,5) False set_from_loc [OF rest_sorted, of "ts ! 0" t0]
      by (force simp: in_doc_def)
    then show ?thesis using False assms(5) len by (auto simp: all intro!: exI [of _ 0])
  qed
  show "set (common_docs S E rest ts') = set (from_loc t0 (common_docs S E rest ts))"
    unfolding set_from_loc [OF sorted_common_docs [OF assms(1)]] set_common_docs using iff by blast
qed (use sorted_common_docs [OF assms(1)] sorted_from_loc in blast)+

lemma seek_all_moved:
  assumes "\<forall>t \<in> set ts. ok t" and "aligned t0"
  shows "\<exists>ts'. seek_all ops t0 ts = Some ts' \<and> moved ok rest t0 ts ts'"
  unfolding seek_all_def moved_def
proof (rule traverse_all2)
  fix t assume "t \<in> set ts"
  then show "\<exists>t'. map_option fst (op_seek ops t t0) = Some t' \<and> ok t' \<and> rest t' = from_loc t0 (rest t)"
    using seek_ex [of t t0] assms by auto
qed

lemma and_max_loc_None: "and_max_loc ops ts m = None \<Longrightarrow> \<exists>t \<in> set ts. op_done ops t"
  by (induction ts arbitrary: m) (auto split: if_splits)

lemma and_max_loc_Some:
  assumes "and_max_loc ops ts m = Some r"
  shows "(\<forall>t \<in> set ts. \<not> op_done ops t) \<and> m \<le> r \<and> (\<forall>t \<in> set ts. op_loc ops t \<le> r)
     \<and> (r = m \<or> (\<exists>t \<in> set ts. r = op_loc ops t))"
  using assms
proof (induction ts arbitrary: m)
  case (Cons t ts)
  then have "\<not> op_done ops t" and "and_max_loc ops ts (max m (op_loc ops t)) = Some r"
    by (auto split: if_splits)
  with Cons.IH [OF this(2)] show ?case by (auto simp: max_def split: if_splits)
qed simp

lemma and_max_loc_attained:
  assumes "and_max_loc ops ts 0 = Some r" and "ts \<noteq> []" and "\<forall>t \<in> set ts. ok t"
  shows "\<exists>t \<in> set ts. rest t \<noteq> [] \<and> hd (rest t) = r"
proof -
  note r = and_max_loc_Some [OF assms(1)]
  have live: "rest t \<noteq> [] \<and> hd (rest t) = op_loc ops t" if "t \<in> set ts" for t
    using r that assms(3) done_iff loc_hd by auto
  show ?thesis
  proof (cases "\<exists>t \<in> set ts. r = op_loc ops t")
    case True
    then show ?thesis using live by auto
  next
    case False
    then have "r = 0" using r by blast
    moreover obtain t where t: "t \<in> set ts" using assms(2) by (cases ts) auto
    ultimately have "op_loc ops t = r" using r by (simp add: word_le_0_iff)
    then show ?thesis using live t by auto
  qed
qed

lemma and_seek_doc_cases:
  assumes "\<forall>t \<in> set ts. ok t" and "aligned ds"
  obtains ts' where "and_seek_doc ops ds de ts = Some (ts', TermExhausted)"
      "\<exists>t \<in> set ts. from_loc ds (rest t) = []"
  | ts' where "and_seek_doc ops ds de ts = Some (ts', AllInDoc)" "moved ok rest ds ts ts'"
      "\<forall>t' \<in> set ts'. rest t' \<noteq> [] \<and> hd (rest t') \<le> de"
  | ts' where "and_seek_doc ops ds de ts = Some (ts', TermBehind)"
      "list_all2 (\<lambda>t t'. ok t' \<and> (rest t' = rest t \<or> rest t' = from_loc ds (rest t))) ts ts'"
      "\<exists>t \<in> set ts. from_loc ds (rest t) \<noteq> [] \<and> de < hd (from_loc ds (rest t))"
  using assms
proof (induction ts arbitrary: thesis)
  case Nil
  then show ?case by (simp add: moved_def)
next
  case (Cons t ts)
  obtain t' where t': "op_seek ops t ds = Some (t', front (from_loc ds (rest t)))" "ok t'"
    "rest t' = from_loc ds (rest t)" using seek_ex [of t ds] Cons.prems by auto
  have same: "list_all2 (\<lambda>t t'. ok t' \<and> (rest t' = rest t \<or> rest t' = from_loc ds (rest t))) us us"
    if "\<forall>u \<in> set us. ok u" for us
    using that by (induction us) auto
  consider "from_loc ds (rest t) = []"
    | "from_loc ds (rest t) \<noteq> []" "de < hd (from_loc ds (rest t))"
    | "from_loc ds (rest t) \<noteq> []" "hd (from_loc ds (rest t)) \<le> de" by force
  then show ?case
  proof cases
    case 1
    then show ?thesis using Cons.prems(1) t' by simp
  next
    case 2
    moreover have "hd (from_loc ds (rest t)) \<noteq> ISRSentinel"
      using 2(1) rest_proper [OF t'(2)] t'(3) by (metis hd_in_set)
    ultimately show ?thesis
      using Cons.prems t' same [of ts] by (intro Cons.prems(3)) (auto simp: front_hd)
  next
    case 3
    have "hd (from_loc ds (rest t)) \<noteq> ISRSentinel"
      using 3(1) rest_proper [OF t'(2)] t'(3) by (metis hd_in_set)
    then have step: "and_seek_doc ops ds de (t # ts) =
        map_option (\<lambda>(ts', st). (t' # ts', st)) (and_seek_doc ops ds de ts)"
      using 3 t'(1) by (auto simp: front_hd)
    show ?thesis
    proof (rule Cons.IH)
      fix ts' assume "and_seek_doc ops ds de ts = Some (ts', TermExhausted)"
        "\<exists>t \<in> set ts. from_loc ds (rest t) = []"
      then show ?thesis by (intro Cons.prems(1) [of "t' # ts'"]) (auto simp: step simp del: and_seek_doc.simps)
    next
      fix ts' assume "and_seek_doc ops ds de ts = Some (ts', AllInDoc)" "moved ok rest ds ts ts'"
        "\<forall>t' \<in> set ts'. rest t' \<noteq> [] \<and> hd (rest t') \<le> de"
      then show ?thesis using 3 t' by (intro Cons.prems(2) [of "t' # ts'"]) (auto simp: step moved_def simp del: and_seek_doc.simps)
    next
      fix ts' assume "and_seek_doc ops ds de ts = Some (ts', TermBehind)"
        "list_all2 (\<lambda>t t'. ok t' \<and> (rest t' = rest t \<or> rest t' = from_loc ds (rest t))) ts ts'"
        "\<exists>t \<in> set ts. from_loc ds (rest t) \<noteq> [] \<and> de < hd (from_loc ds (rest t))"
      then show ?thesis using t' by (intro Cons.prems(3) [of "t' # ts'"]) (auto simp: step simp del: and_seek_doc.simps)
    qed (use Cons.prems in auto)
  qed
qed

lemma moved_ok: "moved ok rest t0 ts ts' \<Longrightarrow> \<forall>t' \<in> set ts'. ok t'"
  unfolding moved_def by (rule list_all2_ball [of _ ts]) (auto elim: list_all2_mono)

lemma moved_length: "moved ok rest t0 ts ts' \<Longrightarrow> length ts' = length ts"
  by (auto simp: moved_def dest: list_all2_lengthD)

lemma moved_twice:
  assumes "list_all2 (\<lambda>t t'. ok t' \<and> (rest t' = rest t \<or> rest t' = from_loc ds (rest t))) ts ts1"
    and "moved ok rest t1 ts1 ts2" and "ds \<le> t1"
  shows "moved ok rest t1 ts ts2"
proof -
  have "list_all2 (\<lambda>t t'. ok t' \<and> rest t' = from_loc t1 (rest t)) ts ts2"
    using assms(1,2) unfolding moved_def
    by (rule list_all2_trans [rotated]) (use assms(3) from_loc_from_loc in auto)
  then show ?thesis by (simp add: moved_def)
qed

lemma moved_from:
  assumes "moved ok rest t0 ts ts'" and "t' \<in> set ts'"
  shows "\<exists>t \<in> set ts. rest t' = from_loc t0 (rest t)"
  using assms unfolding moved_def by (induction rule: list_all2_induct) auto

lemma moved_no_doc:
  assumes "moved ok rest t0 ts ts'" and "\<forall>t \<in> set ts. ok t" and "t' \<in> set ts'" and "E ! i < t0"
  shows "\<not> in_doc S E rest t' i"
proof -
  obtain t where "t \<in> set ts" "rest t' = from_loc t0 (rest t)"
    using moved_from [OF assms(1,3)] by blast
  then show ?thesis
    using assms(2,4) set_from_loc [OF rest_sorted, of t t0] by (force simp: in_doc_def)
qed

lemma moved_shorter:
  assumes "moved ok rest t0 ts ts'" and "t \<in> set ts" and "rest t \<noteq> []" and "hd (rest t) < t0"
  shows "sum_list (map (\<lambda>t. length (rest t)) ts') < sum_list (map (\<lambda>t. length (rest t)) ts)"
  using assms
proof (induction ts arbitrary: ts')
  case (Cons u us)
  from Cons.prems(1) obtain u' us' where ts': "ts' = u' # us'" "rest u' = from_loc t0 (rest u)"
    "moved ok rest t0 us us'" by (auto simp: moved_def list_all2_Cons1)
  have le: "sum_list (map (\<lambda>t. length (rest t)) us') \<le> sum_list (map (\<lambda>t. length (rest t)) us)"
    using ts'(3) unfolding moved_def
    by (induction rule: list_all2_induct) (auto intro: add_mono length_from_loc)
  show ?case
  proof (cases "t \<in> set us")
    case True
    then have "sum_list (map (\<lambda>t. length (rest t)) us') < sum_list (map (\<lambda>t. length (rest t)) us)"
      using Cons.IH [OF ts'(3)] Cons.prems by simp
    then show ?thesis using ts'(1,2) length_from_loc [of t0 "rest u"] by simp
  next
    case False
    then have "length (from_loc t0 (rest u)) < length (rest u)"
      using Cons.prems by (intro length_from_loc_less) auto
    then show ?thesis using ts'(1,2) le by simp
  qed
qed simp

lemma common_docs_empty:
  "(\<And>i. i < length E \<Longrightarrow> \<exists>t \<in> set ts. \<not> in_doc S E rest t i) \<Longrightarrow> common_docs S E rest ts = []"
  by (force simp: common_docs_def filter_empty_conv)

lemma common_docs_from:
  assumes "doc_table getDoc S E" and "j < length E"
    and "\<And>i. i < j \<Longrightarrow> \<exists>t \<in> set ts. \<not> in_doc S E rest t i"
    and t0: "t0 \<le> E ! j"
  shows "from_loc t0 (common_docs S E rest ts) = common_docs S E rest ts"
proof (rule from_loc_id, rule disjCI2)
  assume ne: "common_docs S E rest ts \<noteq> []"
  then obtain i where i: "hd (common_docs S E rest ts) = E ! i" "i < length E"
    "\<forall>t \<in> set ts. in_doc S E rest t i"
    using hd_in_set [OF ne] unfolding set_common_docs by blast
  then have "j \<le> i" using assms(3) not_less by blast
  then have "E ! j \<le> E ! i"
    using doc_end_less_end [OF assms(1), of j i] i(2) by (cases "j = i") (auto intro: less_imp_le)
  then show "t0 \<le> hd (common_docs S E rest ts)" using t0 i(1) by simp
qed

lemma common_docs_match:
  assumes "doc_table getDoc S E" and "j < length E" and "\<forall>t \<in> set ts. in_doc S E rest t j"
    and "\<And>i. i < j \<Longrightarrow> \<exists>t \<in> set ts. \<not> in_doc S E rest t i"
  shows "common_docs S E rest ts \<noteq> [] \<and> hd (common_docs S E rest ts) = E ! j"
proof -
  have mem: "E ! j \<in> set (common_docs S E rest ts)" using assms by (auto simp: set_common_docs)
  then have ne: "common_docs S E rest ts \<noteq> []" by auto
  have "hd (common_docs S E rest ts) \<le> E ! j"
    using hd_le_sorted [OF sorted_common_docs [OF assms(1)] mem] .
  moreover have "E ! j \<le> hd (common_docs S E rest ts)"
  proof -
    have "from_loc (E ! j) (common_docs S E rest ts) = common_docs S E rest ts"
      using common_docs_from [OF assms(1,2,4) order_refl] by blast
    then have "hd (common_docs S E rest ts) \<in> {x \<in> set (common_docs S E rest ts). E ! j \<le> x}"
      using set_from_loc [OF sorted_common_docs [OF assms(1)]] hd_in_set [OF ne] by metis
    then show ?thesis by simp
  qed
  ultimately show ?thesis using ne by simp
qed

lemma in_doc_head:
  assumes "ok t" and "rest t = from_loc (S ! j) xs" and "sorted_wrt (<) xs" and "rest t \<noteq> []"
    and "hd (rest t) \<le> E ! j"
  shows "in_doc S E rest t j"
  using assms hd_in_set [OF assms(4)] set_from_loc [OF assms(3), of "S ! j"] by (auto simp: in_doc_def)

lemma and_advance_spec:
  assumes dt: "doc_table getDoc S E" and al: "\<And>t. doc_aligned S E t \<Longrightarrow> aligned t"
    and "and_ready S E ok rest s"
  shows "\<exists>s'. and_advance ops getDoc s = Some (s', front (common_docs S E rest (and_terms s)))
     \<and> and_inv S E ok rest s' \<and> and_rest S E rest s' = common_docs S E rest (and_terms s)"
  using assms(3)
proof (induction "sum_list (map (\<lambda>t. length (rest t)) (and_terms s))" arbitrary: s rule: less_induct)
  case less
  let ?ts = "and_terms s"
  let ?C = "common_docs S E rest ?ts"
  from less.prems obtain de k where live: "\<not> and_exhausted s" and ne: "?ts \<noteq> []"
    and oks: "\<forall>t \<in> set ?ts. ok t" and de: "and_doc_end s = Some de" "doc_end_ok E de"
      "k \<le> length E" "word_rest de = drop k E"
    and before: "\<And>i. i < k \<Longrightarrow> \<exists>t \<in> set ?ts. \<not> in_doc S E rest t i"
    by (auto simp: and_ready_def)
  have stop: ?case if "?C = []" "and_advance ops getDoc s = Some (s', ISRSentinel)" "and_exhausted s'" for s'
    using that by (simp add: and_inv_def and_rest_def)
  show ?case
  proof (cases "and_max_loc ops ?ts 0")
    case None
    then obtain t where "t \<in> set ?ts" "rest t = []"
      using and_max_loc_None oks done_iff by blast
    then have "?C = []" by (intro common_docs_empty bexI [of _ t]) (auto simp: in_doc_def)
    then show ?thesis using None by (intro stop) (auto simp: and_advance.simps [of ops getDoc s])
  next
    case (Some m)
    obtain t where t: "t \<in> set ?ts" "rest t \<noteq> []" "hd (rest t) = m"
      using and_max_loc_attained [OF Some ne oks] by blast
    have late: "\<not> in_doc S E rest t i" if "E ! i < m" for i
      using that t(3) hd_le_sorted [OF rest_sorted] oks t(1) by (force simp: in_doc_def)
    have sent: "ISRSentinel \<notin> set E" using dt by (simp add: doc_table_def posting_list_def)
    show ?thesis
    proof (rule doc_end_seek_cases [OF de(2) sent de(4) de(3), of m])
      fix de' assume seek: "word_seek de m = Some (de', ISRSentinel)"
        and all: "\<forall>i. k \<le> i \<and> i < length E \<longrightarrow> E ! i < m"
      have "?C = []" using before late all t(1) by (intro common_docs_empty) (meson not_le)
      then show ?thesis using Some de(1) seek
        by (intro stop) (auto simp: and_advance.simps [of ops getDoc s])
    next
      fix de' j assume seek: "word_seek de m = Some (de', E ! j)" "E ! j \<noteq> ISRSentinel"
        and j: "k \<le> j" "j < length E"
        and de': "doc_end_ok E de'" "word_rest de' = drop j E" "current_index de' - 1 = of_nat j"
        and gap: "\<forall>i. k \<le> i \<and> i < j \<longrightarrow> E ! i < m" and m: "m \<le> E ! j"
      obtain d where d: "getDoc (of_nat j) = Some d" "start_location d = S ! j"
        using dt j(2) by (auto simp: doc_table_def)
      have before_j: "\<exists>t \<in> set ?ts. \<not> in_doc S E rest t i" if "i < j" for i
        using before late gap t(1) that by (meson not_le)
      have als: "aligned (S ! j)" using al aligned_start [OF dt j(2)] by blast
      note body = and_advance.simps [of ops getDoc s] Some de(1) seek de'(3) d
      show ?thesis
      proof (rule and_seek_doc_cases [OF oks als, of "E ! j"])
        fix ts' assume sd: "and_seek_doc ops (S ! j) (E ! j) ?ts = Some (ts', TermExhausted)"
          and ex: "\<exists>t \<in> set ?ts. from_loc (S ! j) (rest t) = []"
        then obtain u where u: "u \<in> set ?ts" "from_loc (S ! j) (rest u) = []" by blast
        then have "\<forall>x \<in> set (rest u). x < S ! j"
          using set_from_loc [OF rest_sorted, of u "S ! j"] oks by (auto simp: not_le)
        moreover have "S ! j \<le> S ! i" if "j \<le> i" "i < length E" for i
          using doc_start_less_start [OF dt, of j i] that by (cases "i = j") (auto intro: less_imp_le)
        ultimately have "\<not> in_doc S E rest u i" if "j \<le> i" "i < length E" for i
          using that by (force simp: in_doc_def)
        then have "?C = []" using before_j u(1) by (intro common_docs_empty) (meson not_le)
        then show ?thesis using sd by (intro stop) (auto simp: body)
      next
        fix ts' assume sd: "and_seek_doc ops (S ! j) (E ! j) ?ts = Some (ts', AllInDoc)"
          and mv: "moved ok rest (S ! j) ?ts ts'"
          and hds: "\<forall>t' \<in> set ts'. rest t' \<noteq> [] \<and> hd (rest t') \<le> E ! j"
        let ?s = "s\<lparr>and_terms := ts', and_doc_end := Some de', and_loc := E ! j, and_doc := Some d\<rparr>"
        have ts': "ts' \<noteq> []" "\<forall>t \<in> set ts'. ok t" using mv ne moved_length moved_ok by fastforce+
        have C': "common_docs S E rest ts' = from_loc (S ! j) ?C"
          by (rule common_docs_moved [OF dt aligned_start [OF dt j(2)] mv oks ne])
        also have "\<dots> = ?C" using common_docs_from [OF dt j(2) before_j doc_start_le_end [OF dt j(2)]] by blast
        finally have C': "common_docs S E rest ts' = ?C" .
        have "in_doc S E rest t' j" if mem: "t' \<in> set ts'" for t'
        proof -
          obtain u where "u \<in> set ?ts" "rest t' = from_loc (S ! j) (rest u)"
            using moved_from [OF mv mem] by blast
          then show ?thesis using hds mem ts'(2) oks rest_sorted by (intro in_doc_head) auto
        qed
        moreover have none: "\<exists>t \<in> set ts'. \<not> in_doc S E rest t i" if "i < j" for i
          using moved_no_doc [OF mv oks] doc_end_less_start [OF dt that j(2)] ts'(1)
          by (metis hd_in_set)
        ultimately have hdC: "?C \<noteq> [] \<and> hd ?C = E ! j"
          using common_docs_match [OF dt j(2), of ts'] C' by simp
        have "and_ready S E ok rest ?s"
          using live ts' de' j(2) none by (auto simp: and_ready_def intro!: exI [of _ j])
        then have "and_inv S E ok rest ?s" using hdC C' by (simp add: and_inv_def)
        moreover have "and_advance ops getDoc s = Some (?s, E ! j)" by (simp add: body sd)
        ultimately show ?thesis using hdC C' live by (simp add: and_rest_def front_hd)
      next
        fix ts1 assume sd: "and_seek_doc ops (S ! j) (E ! j) ?ts = Some (ts1, TermBehind)"
          and mv1: "list_all2 (\<lambda>t t'. ok t' \<and> (rest t' = rest t \<or> rest t' = from_loc (S ! j) (rest t))) ?ts ts1"
          and behind: "\<exists>t \<in> set ?ts. from_loc (S ! j) (rest t) \<noteq> [] \<and> E ! j < hd (from_loc (S ! j) (rest t))"
        have ok1: "\<forall>t \<in> set ts1. ok t"
          by (rule list_all2_ball [of _ ?ts]) (use mv1 in \<open>auto elim: list_all2_mono\<close>)
        obtain ts' where sa: "seek_all ops (E ! j + 1) ts1 = Some ts'"
          and mv2: "moved ok rest (E ! j + 1) ts1 ts'"
          using seek_all_moved [OF ok1 al [OF aligned_after_end [OF dt j(2)]]] by blast
        have "E ! j < E ! j + 1" using end_plus_1_le_iff [OF dt j(2), of "E ! j + 1"] by blast
        then have "S ! j \<le> E ! j + 1"
          using doc_start_le_end [OF dt j(2)] by (meson less_imp_le order_trans)
        then have mv: "moved ok rest (E ! j + 1) ?ts ts'" using moved_twice mv1 mv2 by blast
        have ts': "ts' \<noteq> []" "\<forall>t \<in> set ts'. ok t" using mv ne moved_length moved_ok by fastforce+
        from behind obtain u where u: "u \<in> set ?ts" "from_loc (S ! j) (rest u) \<noteq> []"
          "E ! j < hd (from_loc (S ! j) (rest u))" by blast
        have "\<not> in_doc S E rest u j"
        proof
          assume "in_doc S E rest u j"
          then obtain x where x: "x \<in> set (rest u)" "S ! j \<le> x" "x \<le> E ! j" by (auto simp: in_doc_def)
          then have "x \<in> set (from_loc (S ! j) (rest u))"
            using set_from_loc [OF rest_sorted, of u "S ! j"] oks u(1) by simp
          then have "hd (from_loc (S ! j) (rest u)) \<le> x"
            using hd_le_sorted [OF sorted_from_loc [OF rest_sorted]] oks u(1) by blast
          then show False using u(3) x(3) by simp
        qed
        then have no: "\<exists>t \<in> set ?ts. \<not> in_doc S E rest t i" if "i \<le> j" for i
          using before_j u(1) that by (metis le_neq_implies_less)
        have C': "common_docs S E rest ts' = from_loc (E ! j + 1) ?C"
          by (rule common_docs_moved [OF dt aligned_after_end [OF dt j(2)] mv oks ne])
        also have "\<dots> = ?C"
        proof (rule from_loc_id, rule disjCI2)
          assume neC: "?C \<noteq> []"
          then obtain i where i: "hd ?C = E ! i" "i < length E" "\<forall>t \<in> set ?ts. in_doc S E rest t i"
            using hd_in_set [OF neC] unfolding set_common_docs by blast
          then have "j < i" using no not_less by blast
          then show "E ! j + 1 \<le> hd ?C"
            using doc_end_less_end [OF dt] i end_plus_1_le_iff [OF dt j(2)] by simp
        qed
        finally have C': "common_docs S E rest ts' = ?C" .
        let ?s = "s\<lparr>and_terms := ts', and_doc_end := Some de'\<rparr>"
        have "\<exists>t \<in> set ts'. \<not> in_doc S E rest t i" if "i < j" for i
        proof -
          have "E ! i < E ! j" by (rule doc_end_less_end [OF dt that j(2)])
          also have "E ! j < E ! j + 1" using end_plus_1_le_iff [OF dt j(2), of "E ! j + 1"] by blast
          finally show ?thesis using moved_no_doc [OF mv oks] hd_in_set [OF ts'(1)] by blast
        qed
        then have ready: "and_ready S E ok rest ?s"
          using live ts' de' j(2) by (auto simp: and_ready_def intro!: exI [of _ j])
        have "hd (rest t) < E ! j + 1"
          using t(3) m end_plus_1_le_iff [OF dt j(2), of m] by (simp add: not_le [symmetric])
        then have "sum_list (map (\<lambda>t. length (rest t)) (and_terms ?s)) < sum_list (map (\<lambda>t. length (rest t)) ?ts)"
          using moved_shorter [OF mv t(1,2)] by simp
        from less.hyps [OF this ready] C'
        obtain s' where "and_advance ops getDoc ?s = Some (s', front ?C)" "and_inv S E ok rest s'"
          "and_rest S E rest s' = ?C" by auto
        moreover have "and_advance ops getDoc s = and_advance ops getDoc ?s" by (simp add: body sd sa)
        ultimately show ?thesis by simp
      qed
    qed
  qed
qed

lemma and_init_spec:
  assumes dt: "doc_table getDoc S E" and al: "\<And>t. doc_aligned S E t \<Longrightarrow> aligned t"
    and "\<forall>t \<in> set terms. ok t" and "terms \<noteq> []" and "doc_end_ok E de" and "word_rest de = E"
  shows "\<exists>s. and_init ops getDoc terms (Some de) = Some s \<and> and_inv S E ok rest s
           \<and> and_rest S E rest s = common_docs S E rest terms"
proof -
  let ?s = "\<lparr>and_terms = terms, and_doc_end = Some de, and_loc = 0, and_exhausted = False, and_doc = None\<rparr>"
  have "and_ready S E ok rest ?s"
    using assms(3-6) by (auto simp: and_ready_def intro!: exI [of _ 0])
  from and_advance_spec [OF dt al this] show ?thesis using assms(4) by (auto simp: and_init_def)
qed

lemma and_step_spec:
  assumes dt: "doc_table getDoc S E" and al: "\<And>t. doc_aligned S E t \<Longrightarrow> aligned t"
    and ready: "and_ready S E ok rest s" and t: "doc_aligned S E t"
  shows "\<exists>s'. (case seek_all ops t (and_terms s) of None \<Rightarrow> None
             | Some terms \<Rightarrow> and_advance ops getDoc (s\<lparr>and_terms := terms\<rparr>))
         = Some (s', front (from_loc t (common_docs S E rest (and_terms s))))
     \<and> and_inv S E ok rest s' \<and> and_rest S E rest s' = from_loc t (common_docs S E rest (and_terms s))"
proof -
  from ready have oks: "\<forall>t \<in> set (and_terms s). ok t" and ne: "and_terms s \<noteq> []"
    by (auto simp: and_ready_def)
  obtain ts where ts: "seek_all ops t (and_terms s) = Some ts" "moved ok rest t (and_terms s) ts"
    using seek_all_moved [OF oks al [OF t]] by blast
  have C: "common_docs S E rest ts = from_loc t (common_docs S E rest (and_terms s))"
    by (rule common_docs_moved [OF dt t ts(2) oks ne])
  from ready obtain de k where de: "and_doc_end s = Some de" "doc_end_ok E de" "k \<le> length E"
    "word_rest de = drop k E" and before: "\<And>i. i < k \<Longrightarrow> \<exists>t \<in> set (and_terms s). \<not> in_doc S E rest t i"
    by (auto simp: and_ready_def)
  have "\<exists>t \<in> set ts. \<not> in_doc S E rest t i" if i: "i < k" for i
  proof (rule ccontr)
    assume "\<not> (\<exists>t \<in> set ts. \<not> in_doc S E rest t i)"
    then have "E ! i \<in> set (common_docs S E rest ts)" using i de(3) by (auto simp: set_common_docs)
    then have "E ! i \<in> set (common_docs S E rest (and_terms s))"
      unfolding C set_from_loc [OF sorted_common_docs [OF dt]] by blast
    then obtain i' where "E ! i = E ! i'" "i' < length E" "\<forall>t \<in> set (and_terms s). in_doc S E rest t i'"
      unfolding set_common_docs by blast
    moreover from this have "i' = i"
      using doc_end_less_end [OF dt, of i i'] doc_end_less_end [OF dt, of i' i] i de(3)
      by (cases i i' rule: linorder_cases) auto
    ultimately show False using before [OF i] by blast
  qed
  moreover have "ts \<noteq> []" "\<forall>t \<in> set ts. ok t" using ts(2) ne moved_length moved_ok by fastforce+
  moreover have "\<not> and_exhausted s" using ready by (simp add: and_ready_def)
  ultimately have "and_ready S E ok rest (s\<lparr>and_terms := ts\<rparr>)"
    using de by (auto simp: and_ready_def)
  from and_advance_spec [OF dt al this] show ?thesis using ts(1) C by simp
qed

lemma and_isr:
  assumes dt: "doc_table getDoc S E" and al: "\<And>t. doc_aligned S E t \<Longrightarrow> aligned t"
  shows "isr_contract (and_ops ops getDoc) (doc_aligned S E) (and_inv S E ok rest) (and_rest S E rest)"
proof
  fix s assume s: "and_inv S E ok rest s"
  have live: "and_ready S E ok rest s" "common_docs S E rest (and_terms s) \<noteq> []"
    "and_loc s = hd (common_docs S E rest (and_terms s))"
    "and_rest S E rest s = common_docs S E rest (and_terms s)" if "\<not> and_exhausted s"
    using that s by (auto simp: and_inv_def and_rest_def)
  show "sorted_wrt (<) (and_rest S E rest s)"
    by (simp add: and_rest_def sorted_common_docs [OF dt])
  show "x \<noteq> ISRSentinel" if "x \<in> set (and_rest S E rest s)" for x
    using that doc_end_proper [OF dt] by (auto simp: and_rest_def set_common_docs split: if_splits)
  show "op_done (and_ops ops getDoc) s \<longleftrightarrow> and_rest S E rest s = []"
    using live by (cases "and_exhausted s") (auto simp: and_ops_def and_done_def and_rest_def)
  show "and_rest S E rest s \<noteq> [] \<Longrightarrow> op_loc (and_ops ops getDoc) s = hd (and_rest S E rest s)"
    using live by (cases "and_exhausted s") (auto simp: and_ops_def and_rest_def)
  show "\<exists>s'. op_next (and_ops ops getDoc) s = Some (s', front (tl (and_rest S E rest s)))
          \<and> and_inv S E ok rest s' \<and> and_rest S E rest s' = tl (and_rest S E rest s)"
  proof (cases "and_exhausted s")
    case True
    then show ?thesis using s by (simp add: and_ops_def and_next_def and_rest_def)
  next
    case False
    let ?C = "common_docs S E rest (and_terms s)"
    obtain i where i: "i < length E" "and_loc s = E ! i"
      using hd_in_set [OF live(2) [OF False]] live(3) [OF False] unfolding set_common_docs by auto
    have "from_loc (and_loc s + 1) ?C = tl ?C"
    proof (rule sorted_wrt_less_set_eqI)
      have "set (from_loc (and_loc s + 1) ?C) = {x \<in> set ?C. and_loc s < x}"
        unfolding set_from_loc [OF sorted_common_docs [OF dt]] i(2) end_plus_1_le_iff [OF dt i(1)] ..
      also have "\<dots> = set ?C - {hd ?C}"
        using hd_le_sorted [OF sorted_common_docs [OF dt]] live(3) [OF False] by (auto simp: less_le)
      also have "\<dots> = set (tl ?C)"
        using set_tl_sorted [OF sorted_common_docs [OF dt] live(2) [OF False]] by simp
      finally show "set (from_loc (and_loc s + 1) ?C) = set (tl ?C)" .
    qed (use sorted_common_docs [OF dt] sorted_from_loc sorted_wrt_tl in blast)+
    moreover have "doc_aligned S E (and_loc s + 1)" using aligned_after_end [OF dt i(1)] i(2) by simp
    note and_step_spec [OF dt al live(1) [OF False] this]
    ultimately show ?thesis
      using False live(4) [OF False]
      by (simp add: and_ops_def and_next_def)
  qed
  fix t assume t: "doc_aligned S E t"
  show "\<exists>s'. op_seek (and_ops ops getDoc) s t = Some (s', front (from_loc t (and_rest S E rest s)))
          \<and> and_inv S E ok rest s' \<and> and_rest S E rest s' = from_loc t (and_rest S E rest s)"
  proof (cases "and_exhausted s")
    case True
    then show ?thesis using s by (simp add: and_ops_def and_seek_def and_rest_def)
  next
    case False
    show ?thesis
    proof (cases "t \<le> and_loc s")
      case True
      then have "from_loc t (and_rest S E rest s) = and_rest S E rest s"
        using live False by (intro from_loc_id) auto
      then show ?thesis using True False live [OF False] s by (simp add: and_ops_def and_seek_def front_hd)
    next
      case t': False
      then show ?thesis using and_step_spec [OF dt al live(1) [OF False] t] False live(4) [OF False]
        by (simp add: and_ops_def and_seek_def)
    qed
  qed
qed

end

text \<open>C4. The conjunction of readers of words, over a chunk whose documents do not overlap, answers every
  sequence of calls whose targets cut no document in two as the list of the ends of the documents in
  which all of them have a location. In particular its loop always ends.\<close>

theorem and_reader_run:
  assumes "doc_table getDoc S E" and "ts \<noteq> []" and "\<forall>t \<in> set ts. word_inv t"
    and "\<forall>t. CallSeek t \<in> set cs \<longrightarrow> doc_aligned S E t"
  shows "\<exists>s. and_init word_ops getDoc ts (Some (word_of_list E)) = Some s
           \<and> isr_run (and_ops word_ops getDoc) cs s = Some (list_run cs (common_docs S E word_rest ts))"
proof -
  have "posting_list E" using assms(1) by (simp add: doc_table_def)
  note de = doc_end_ok_word_of_list [OF this] word_of_list(2) [OF this]
  from word.and_init_spec [OF assms(1) _ assms(3,2) de] obtain s
    where s: "and_init word_ops getDoc ts (Some (word_of_list E)) = Some s"
      "and_inv S E word_inv word_rest s" "and_rest S E word_rest s = common_docs S E word_rest ts" by auto
  show ?thesis
    using s isr_contract.run_spec [OF word.and_isr [OF assms(1)] s(2), of cs] assms(4) by auto
qed

theorem and_reader_run_witness:
  "\<exists>s. and_init word_ops three_docs [word_of_list [1, 3, 6, 12], word_of_list [2, 10, 11]]
          (Some (word_of_list [4, 8, 15])) = Some s
     \<and> isr_run (and_ops word_ops three_docs) [CallNext, CallSeek 9, CallNext] s = Some [15, 15, ISRSentinel]"
proof -
  have p: "posting_list [1, 3, 6, 12]" "posting_list [2, 10, 11]"
    by (rule posting_listI; simp add: ISRSentinel_def)+
  let ?ts = "[word_of_list [1, 3, 6, 12], word_of_list [2, 10, 11]]" and ?cs = "[CallNext, CallSeek 9, CallNext]"
  have al: "\<forall>t. CallSeek t \<in> set ?cs \<longrightarrow> doc_aligned [0, 5, 9] [4, 8, 15] t"
    by (auto simp: doc_aligned_def less_Suc_eq)
  have "common_docs [0, 5, 9] [4, 8, 15] word_rest ?ts = [4, 15]"
    by (simp add: common_docs_def in_doc_def word_of_list p)
  then show ?thesis
    using and_reader_run [OF three_docs _ _ al, of ?ts] by (simp add: word_of_list p)
qed

end
