(* ===== verification/IsrContainer.thy ===== *)
theory IsrContainer
  imports IsrDoc
begin

text \<open>
  Exclusion, \<open>src/index/src/lib/isr_container.cpp\<close>: the locations of a positive reader that lie in
  documents in which no negative reader occurs. Positive and negative readers may be of different
  kinds, so each has its own interface. The contract proved here needs the seeks of both only at
  document boundaries.
\<close>

record ('p, 'n) con_state =
  con_positive :: 'p
  con_negatives :: "'n list"
  con_doc_end :: "isr_word option"
  con_loc :: u32
  con_exhausted :: bool

definition con_done :: "('p, 'n) con_state \<Rightarrow> bool" where
  "con_done s = con_exhausted s"

text \<open>The loop over the negative readers: does one of them occur in the document? It stops at the
  first that does.\<close>

fun con_excluded :: "'n isr_ops \<Rightarrow> u32 \<Rightarrow> u32 \<Rightarrow> 'n list \<Rightarrow> ('n list \<times> bool) option" where
  "con_excluded nops doc_start doc_end [] = Some ([], False)"
| "con_excluded nops doc_start doc_end (n # ns) =
     (if op_done nops n
      then map_option (\<lambda>(ns', ex). (n # ns', ex)) (con_excluded nops doc_start doc_end ns)
      else case op_seek nops n doc_start of
        None \<Rightarrow> None
      | Some (n', neg_loc) \<Rightarrow>
          if neg_loc \<noteq> ISRSentinel \<and> neg_loc \<le> doc_end then Some (n' # ns, True)
          else map_option (\<lambda>(ns', ex). (n' # ns', ex)) (con_excluded nops doc_start doc_end ns))"

partial_function (option) con_advance ::
    "'p isr_ops \<Rightarrow> 'n isr_ops \<Rightarrow> (u32 \<Rightarrow> DocumentRecord option) \<Rightarrow> ('p, 'n) con_state
      \<Rightarrow> (('p, 'n) con_state \<times> u32) option" where
  "con_advance pops nops getDoc s =
     (if op_done pops (con_positive s) then Some (s\<lparr>con_exhausted := True\<rparr>, ISRSentinel)
      else
     (case con_doc_end s of
        None \<Rightarrow> None
      | Some de \<Rightarrow>
     (case word_seek de (op_loc pops (con_positive s)) of
        None \<Rightarrow> None
      | Some (de', doc_end_loc) \<Rightarrow>
          if doc_end_loc = ISRSentinel
          then Some (s\<lparr>con_doc_end := Some de', con_exhausted := True\<rparr>, ISRSentinel)
          else (case getDoc (current_index de' - 1) of
             None \<Rightarrow> Some (s\<lparr>con_doc_end := Some de', con_exhausted := True\<rparr>, ISRSentinel)
           | Some doc \<Rightarrow>
          (case con_excluded nops (start_location doc) doc_end_loc (con_negatives s) of
             None \<Rightarrow> None
           | Some (negs, is_excluded) \<Rightarrow>
               if \<not> is_excluded
               then Some (s\<lparr>con_negatives := negs, con_doc_end := Some de',
                            con_loc := op_loc pops (con_positive s)\<rparr>, op_loc pops (con_positive s))
               else (case op_seek pops (con_positive s) (doc_end_loc + 1) of
                  None \<Rightarrow> None
                | Some (p, _) \<Rightarrow>
                    con_advance pops nops getDoc
                      (s\<lparr>con_positive := p, con_negatives := negs, con_doc_end := Some de'\<rparr>)))))))"

text \<open>The constructor; a null positive reader is \<open>None\<close> and leaves the state exhausted, with no
  positive reader to keep.\<close>

definition con_init ::
    "'p isr_ops \<Rightarrow> 'n isr_ops \<Rightarrow> (u32 \<Rightarrow> DocumentRecord option) \<Rightarrow> 'p \<Rightarrow> 'n list \<Rightarrow> isr_word option
      \<Rightarrow> ('p, 'n) con_state option" where
  "con_init pops nops getDoc p negs de =
     (if op_done pops p \<or> de = None
      then Some \<lparr>con_positive = p, con_negatives = negs, con_doc_end = de,
                 con_loc = ISRSentinel, con_exhausted = True\<rparr>
      else map_option fst (con_advance pops nops getDoc
             \<lparr>con_positive = p, con_negatives = negs, con_doc_end = de,
              con_loc = 0, con_exhausted = False\<rparr>))"

definition con_next ::
    "'p isr_ops \<Rightarrow> 'n isr_ops \<Rightarrow> (u32 \<Rightarrow> DocumentRecord option) \<Rightarrow> ('p, 'n) con_state
      \<Rightarrow> (('p, 'n) con_state \<times> u32) option" where
  "con_next pops nops getDoc s =
     (if con_exhausted s then Some (s, ISRSentinel)
      else case op_next pops (con_positive s) of
        None \<Rightarrow> None
      | Some (p, _) \<Rightarrow> con_advance pops nops getDoc (s\<lparr>con_positive := p\<rparr>))"

definition con_seek ::
    "'p isr_ops \<Rightarrow> 'n isr_ops \<Rightarrow> (u32 \<Rightarrow> DocumentRecord option) \<Rightarrow> ('p, 'n) con_state \<Rightarrow> u32
      \<Rightarrow> (('p, 'n) con_state \<times> u32) option" where
  "con_seek pops nops getDoc s target =
     (if con_exhausted s then Some (s, ISRSentinel)
      else if con_loc s \<ge> target then Some (s, con_loc s)
      else case op_seek pops (con_positive s) target of
        None \<Rightarrow> None
      | Some (p, _) \<Rightarrow> con_advance pops nops getDoc (s\<lparr>con_positive := p\<rparr>))"

definition con_ops ::
    "'p isr_ops \<Rightarrow> 'n isr_ops \<Rightarrow> (u32 \<Rightarrow> DocumentRecord option) \<Rightarrow> ('p, 'n) con_state isr_ops" where
  "con_ops pops nops getDoc = \<lparr>op_next = con_next pops nops getDoc, op_seek = con_seek pops nops getDoc,
     op_loc = con_loc, op_done = con_done\<rparr>"

subsection \<open>Its contract\<close>

text \<open>\<open>kept S E nrest ns x\<close>: the first document that ends at or after \<open>x\<close> has none of the negatives.\<close>

definition kept :: "u32 list \<Rightarrow> u32 list \<Rightarrow> ('n \<Rightarrow> u32 list) \<Rightarrow> 'n list \<Rightarrow> u32 \<Rightarrow> bool" where
  "kept S E nrest ns x \<longleftrightarrow> (\<exists>j < length E. x \<le> E ! j \<and> (\<forall>i < j. E ! i < x)
     \<and> (\<forall>n \<in> set ns. \<forall>y \<in> set (nrest n). \<not> (S ! j \<le> y \<and> y \<le> E ! j)))"

definition con_rest ::
    "u32 list \<Rightarrow> u32 list \<Rightarrow> ('p \<Rightarrow> u32 list) \<Rightarrow> ('n \<Rightarrow> u32 list) \<Rightarrow> ('p, 'n) con_state \<Rightarrow> u32 list" where
  "con_rest S E prest nrest s =
     (if con_exhausted s then []
      else filter (kept S E nrest (con_negatives s)) (prest (con_positive s)))"

definition con_ready :: "u32 list \<Rightarrow> ('p \<Rightarrow> bool) \<Rightarrow> ('p \<Rightarrow> u32 list) \<Rightarrow> ('n \<Rightarrow> bool)
    \<Rightarrow> ('p, 'n) con_state \<Rightarrow> bool" where
  "con_ready E pok prest nok s \<longleftrightarrow> \<not> con_exhausted s \<and> pok (con_positive s)
     \<and> (\<forall>n \<in> set (con_negatives s). nok n)
     \<and> (\<exists>de k. con_doc_end s = Some de \<and> doc_end_ok E de \<and> k \<le> length E \<and> word_rest de = drop k E
          \<and> (\<forall>i < k. \<forall>x \<in> set (prest (con_positive s)). E ! i < x))"

definition con_inv :: "u32 list \<Rightarrow> u32 list \<Rightarrow> ('p \<Rightarrow> bool) \<Rightarrow> ('p \<Rightarrow> u32 list) \<Rightarrow> ('n \<Rightarrow> bool)
    \<Rightarrow> ('n \<Rightarrow> u32 list) \<Rightarrow> ('p, 'n) con_state \<Rightarrow> bool" where
  "con_inv S E pok prest nok nrest s \<longleftrightarrow> con_exhausted s
     \<or> (con_ready E pok prest nok s \<and> prest (con_positive s) \<noteq> []
          \<and> con_loc s = hd (prest (con_positive s))
          \<and> kept S E nrest (con_negatives s) (hd (prest (con_positive s))))"

text \<open>The negatives after the loop: each keeps its locations from the start of the document on.\<close>

definition trimmed :: "('n \<Rightarrow> bool) \<Rightarrow> ('n \<Rightarrow> u32 list) \<Rightarrow> u32 \<Rightarrow> 'n list \<Rightarrow> 'n list \<Rightarrow> bool" where
  "trimmed nok nrest t ns ns' \<longleftrightarrow>
     list_all2 (\<lambda>n n'. nok n' \<and> (nrest n' = nrest n \<or> nrest n' = from_loc t (nrest n))) ns ns'"

lemma filter_from_loc:
  assumes "sorted_wrt (<) xs"
  shows "filter P (from_loc t xs) = from_loc t (filter P xs)"
  using assms
proof (induction xs)
  case (Cons x xs)
  show ?case
  proof (cases "x < t")
    case True
    then show ?thesis using Cons by simp
  next
    case False
    then have "\<forall>y \<in> set (filter P (x # xs)). t \<le> y"
      using Cons.prems by (auto intro: order_trans less_imp_le)
    then have "from_loc t (filter P (x # xs)) = filter P (x # xs)"
      by (intro from_loc_id disjCI2) (metis hd_in_set)
    then show ?thesis using False by simp
  qed
qed simp

lemma doc_of_unique:
  fixes x :: u32
  assumes "x \<le> E ! j" and "\<forall>i < j. E ! i < x" and "x \<le> E ! j'" and "\<forall>i < j'. E ! i < x"
  shows "j = j'"
proof (rule ccontr)
  assume "j \<noteq> j'"
  then have "E ! j < x \<or> E ! j' < x" using assms(2,4) by (cases "j < j'") auto
  then show False using assms(1,3) by (auto dest: leD)
qed

lemma kept_at:
  assumes "j < length E" and "x \<le> E ! j" and "\<forall>i < j. E ! i < x"
  shows "kept S E nrest ns x \<longleftrightarrow> (\<forall>n \<in> set ns. \<forall>y \<in> set (nrest n). \<not> (S ! j \<le> y \<and> y \<le> E ! j))"
proof
  assume "kept S E nrest ns x"
  then obtain j' where j': "x \<le> E ! j'" "\<forall>i < j'. E ! i < x"
    "\<forall>n \<in> set ns. \<forall>y \<in> set (nrest n). \<not> (S ! j' \<le> y \<and> y \<le> E ! j')"
    unfolding kept_def by blast
  then have "j' = j" using doc_of_unique assms(2,3) by blast
  then show "\<forall>n \<in> set ns. \<forall>y \<in> set (nrest n). \<not> (S ! j \<le> y \<and> y \<le> E ! j)" using j' by simp
next
  assume "\<forall>n \<in> set ns. \<forall>y \<in> set (nrest n). \<not> (S ! j \<le> y \<and> y \<le> E ! j)"
  then show "kept S E nrest ns x" using assms unfolding kept_def by blast
qed

context isr_contract
begin

text \<open>In this block the contract is that of the negatives.\<close>

lemma con_excluded_spec:
  assumes "\<forall>n \<in> set ns. ok n" and "aligned ds"
  shows "\<exists>ns' ex. con_excluded ops ds de ns = Some (ns', ex) \<and> trimmed ok rest ds ns ns'
     \<and> (ex \<longleftrightarrow> (\<exists>n \<in> set ns. \<exists>y \<in> set (rest n). ds \<le> y \<and> y \<le> de))"
  using assms(1)
proof (induction ns)
  case Nil
  then show ?case by (auto simp: trimmed_def)
next
  case (Cons n ns)
  then obtain ns' ex where IH: "con_excluded ops ds de ns = Some (ns', ex)" "trimmed ok rest ds ns ns'"
    "ex \<longleftrightarrow> (\<exists>n \<in> set ns. \<exists>y \<in> set (rest n). ds \<le> y \<and> y \<le> de)" by auto
  show ?case
  proof (cases "op_done ops n")
    case True
    then have "rest n = []" using Cons.prems done_iff by simp
    then show ?thesis using True IH Cons.prems by (simp add: trimmed_def)
  next
    case False
    obtain n' where n': "op_seek ops n ds = Some (n', front (from_loc ds (rest n)))" "ok n'"
      "rest n' = from_loc ds (rest n)" using seek_ex [of n ds] Cons.prems assms(2) by auto
    have set: "set (from_loc ds (rest n)) = {x \<in> set (rest n). ds \<le> x}"
      using set_from_loc rest_sorted Cons.prems by simp
    have same: "trimmed ok rest ds ns ns"
      using Cons.prems by (auto simp: trimmed_def list_all2_same)
    show ?thesis
    proof (cases "from_loc ds (rest n) \<noteq> [] \<and> hd (from_loc ds (rest n)) \<le> de")
      case True
      then have "hd (from_loc ds (rest n)) \<in> {x \<in> set (rest n). ds \<le> x}" using set hd_in_set by metis
      moreover have "front (from_loc ds (rest n)) \<noteq> ISRSentinel"
        using True rest_proper [OF n'(2)] n'(3) by (simp add: front_hd)
      ultimately show ?thesis
        using True \<open>\<not> op_done ops n\<close> n' same by (auto simp: trimmed_def front_hd)
    next
      case out: False
      then have "\<not> (\<exists>y \<in> set (rest n). ds \<le> y \<and> y \<le> de)"
        using hd_le_sorted [OF sorted_from_loc [OF rest_sorted [of n]], of _ ds] Cons.prems set
        by (metis (mono_tags, lifting) empty_iff list.set(1) list.set_intros(1) mem_Collect_eq order_trans)
      moreover have "\<not> (front (from_loc ds (rest n)) \<noteq> ISRSentinel \<and> front (from_loc ds (rest n)) \<le> de)"
        using out by (cases "from_loc ds (rest n)") auto
      ultimately show ?thesis using False n' IH by (auto simp: trimmed_def)
    qed
  qed
qed

lemma kept_trimmed:
  assumes "doc_table getDoc S E" and "j < length E" and "trimmed ok rest (S ! j) ns ns'"
    and "\<forall>n \<in> set ns. ok n" and "\<forall>i < j. E ! i < x"
  shows "kept S E rest ns' x \<longleftrightarrow> kept S E rest ns x"
proof -
  have "(\<forall>n \<in> set ns'. \<forall>y \<in> set (rest n). \<not> (S ! j' \<le> y \<and> y \<le> E ! j'))
      \<longleftrightarrow> (\<forall>n \<in> set ns. \<forall>y \<in> set (rest n). \<not> (S ! j' \<le> y \<and> y \<le> E ! j'))"
    if "j' < length E" "x \<le> E ! j'" for j'
  proof -
    have "j \<le> j'" using that assms(5) not_less leD by metis
    then have le: "S ! j \<le> S ! j'"
      using doc_start_less_start [OF assms(1)] that by (cases "j = j'") (auto intro: less_imp_le)
    from assms(3) [unfolded trimmed_def] assms(4) show ?thesis
    proof (induction rule: list_all2_induct)
      case (Cons n ns n' ns')
      have "set (from_loc (S ! j) (rest n)) = {x \<in> set (rest n). S ! j \<le> x}"
        using set_from_loc rest_sorted Cons.prems by simp
      then have same: "y \<in> set (rest n') \<longleftrightarrow> y \<in> set (rest n)" if "S ! j' \<le> y" for y
        using Cons.hyps(1) order_trans [OF le that] by auto
      have IH: "(\<forall>n \<in> set ns'. \<forall>y \<in> set (rest n). \<not> (S ! j' \<le> y \<and> y \<le> E ! j'))
          \<longleftrightarrow> (\<forall>n \<in> set ns. \<forall>y \<in> set (rest n). \<not> (S ! j' \<le> y \<and> y \<le> E ! j'))"
        using Cons.IH Cons.prems by simp
      show ?case unfolding list.set(2) ball_simps(7) IH using same by blast
    qed simp
  qed
  then show ?thesis unfolding kept_def by (intro ex_cong1 conj_cong refl)
qed

end

text \<open>A positive and a negative reader together.\<close>

locale isr_pair =
  pos: isr_contract pops paligned pok prest + neg: isr_contract nops naligned nok nrest
  for pops :: "'p isr_ops" and paligned and pok :: "'p \<Rightarrow> bool" and prest
    and nops :: "'n isr_ops" and naligned and nok :: "'n \<Rightarrow> bool" and nrest
begin

lemma con_advance_spec:
  assumes dt: "doc_table getDoc S E" and alp: "\<And>t. doc_aligned S E t \<Longrightarrow> paligned t"
    and aln: "\<And>t. doc_aligned S E t \<Longrightarrow> naligned t" and "con_ready E pok prest nok s"
  shows "\<exists>s'. con_advance pops nops getDoc s
        = Some (s', front (filter (kept S E nrest (con_negatives s)) (prest (con_positive s))))
     \<and> con_inv S E pok prest nok nrest s'
     \<and> con_rest S E prest nrest s' = filter (kept S E nrest (con_negatives s)) (prest (con_positive s))"
  using assms(4)
proof (induction "length (prest (con_positive s))" arbitrary: s rule: less_induct)
  case less
  let ?p = "con_positive s" and ?ns = "con_negatives s"
  let ?R = "filter (kept S E nrest ?ns) (prest ?p)"
  from less.prems obtain de k where live: "\<not> con_exhausted s" and pok: "pok ?p"
    and noks: "\<forall>n \<in> set ?ns. nok n" and de: "con_doc_end s = Some de" "doc_end_ok E de"
      "k \<le> length E" "word_rest de = drop k E"
    and before: "\<And>i x. i < k \<Longrightarrow> x \<in> set (prest ?p) \<Longrightarrow> E ! i < x"
    unfolding con_ready_def by blast
  have stop: ?case if "?R = []" "con_advance pops nops getDoc s = Some (s', ISRSentinel)" "con_exhausted s'" for s'
    using that by (simp add: con_inv_def con_rest_def)
  show ?case
  proof (cases "op_done pops ?p")
    case True
    then have "prest ?p = []" using pok pos.done_iff by simp
    then show ?thesis using True by (intro stop) (auto simp: con_advance.simps [of pops nops getDoc s])
  next
    case False
    define x where "x = op_loc pops ?p"
    have ne: "prest ?p \<noteq> []" and x: "x = hd (prest ?p)"
      using False pok pos.done_iff pos.loc_hd by (auto simp: x_def)
    have xle: "x \<le> y" if "y \<in> set (prest ?p)" for y
      using hd_le_sorted [OF pos.rest_sorted [OF pok] that] x by simp
    have xmem: "x \<in> set (prest ?p)" using ne x by simp
    have sent: "ISRSentinel \<notin> set E" using dt by (simp add: doc_table_def posting_list_def)
    note body = con_advance.simps [of pops nops getDoc s] x_def [symmetric] False de(1)
    show ?thesis
    proof (rule doc_end_seek_cases [OF de(2) sent de(4) de(3), of x])
      fix de' assume seek: "word_seek de x = Some (de', ISRSentinel)"
        and all: "\<forall>i. k \<le> i \<and> i < length E \<longrightarrow> E ! i < x"
      have "\<not> kept S E nrest ?ns y" if "y \<in> set (prest ?p)" for y
      proof -
        have "E ! i < y" if "i < length E" for i
          using all before [of i x] xmem xle [OF \<open>y \<in> set (prest ?p)\<close>] that
          by (cases "k \<le> i") (auto intro: less_le_trans)
        then show ?thesis unfolding kept_def by (meson leD)
      qed
      then have "?R = []" by (simp add: filter_empty_conv)
      then show ?thesis using seek by (intro stop) (auto simp: body)
    next
      fix de' j assume seek: "word_seek de x = Some (de', E ! j)" "E ! j \<noteq> ISRSentinel"
        and j: "k \<le> j" "j < length E"
        and de': "doc_end_ok E de'" "word_rest de' = drop j E" "current_index de' - 1 = of_nat j"
        and gap: "\<forall>i. k \<le> i \<and> i < j \<longrightarrow> E ! i < x" and xj: "x \<le> E ! j"
      obtain d where d: "getDoc (of_nat j) = Some d" "start_location d = S ! j"
        using dt j(2) by (auto simp: doc_table_def)
      have beforej: "\<forall>i < j. E ! i < y" if "y \<in> set (prest ?p)" for y
        using gap before [OF _ xmem] xle [OF that] by (meson less_le_trans not_le)
      obtain ns' ex where ex: "con_excluded nops (S ! j) (E ! j) ?ns = Some (ns', ex)"
        "trimmed nok nrest (S ! j) ?ns ns'"
        "ex \<longleftrightarrow> (\<exists>n \<in> set ?ns. \<exists>y \<in> set (nrest n). S ! j \<le> y \<and> y \<le> E ! j)"
        using neg.con_excluded_spec [OF noks aln [OF aligned_start [OF dt j(2)]]] by blast
      have nok': "\<forall>n \<in> set ns'. nok n"
        by (rule list_all2_ball [of _ ?ns]) (use ex(2) in \<open>auto simp: trimmed_def elim: list_all2_mono\<close>)
      have kept': "kept S E nrest ns' y \<longleftrightarrow> kept S E nrest ?ns y" if "y \<in> set (prest ?p)" for y
        by (rule neg.kept_trimmed [OF dt j(2) ex(2) noks beforej [OF that]])
      have keptj: "kept S E nrest ?ns y \<longleftrightarrow> \<not> ex" if "y \<in> set (prest ?p)" "y \<le> E ! j" for y
        unfolding kept_at [OF j(2) that(2) beforej [OF that(1)]] ex(3) by simp
      note body' = body seek de'(3) d ex(1)
      show ?thesis
      proof (cases ex)
        case False
        let ?s = "s\<lparr>con_negatives := ns', con_doc_end := Some de', con_loc := x\<rparr>"
        have R: "filter (kept S E nrest ns') (prest ?p) = ?R"
          using kept' by (intro filter_cong) simp_all
        have kx: "kept S E nrest ?ns x" using keptj [OF xmem xj] False by simp
        then have "front ?R = x" using ne x by (cases "prest ?p") auto
        moreover have "con_advance pops nops getDoc s = Some (?s, x)"
          using False by (simp add: body')
        moreover have "con_ready E pok prest nok ?s"
          using live pok nok' de' j(2) beforej by (auto simp: con_ready_def intro!: exI [of _ j])
        ultimately show ?thesis
          using live R ne x kx kept' [OF xmem] by (simp add: con_inv_def con_rest_def)
      next
        case True
        obtain p' v where p': "op_seek pops ?p (E ! j + 1) = Some (p', v)" "pok p'"
          "prest p' = from_loc (E ! j + 1) (prest ?p)"
          using pos.seek_ex [OF pok alp [OF aligned_after_end [OF dt j(2)]]] by blast
        let ?s = "s\<lparr>con_positive := p', con_negatives := ns', con_doc_end := Some de'\<rparr>"
        have sub: "set (prest p') \<subseteq> set (prest ?p)"
          unfolding p'(3) set_from_loc [OF pos.rest_sorted [OF pok]] by blast
        have "filter (kept S E nrest ns') (prest p') = filter (kept S E nrest ?ns) (prest p')"
          using kept' sub by (intro filter_cong) auto
        also have "\<dots> = from_loc (E ! j + 1) ?R"
          unfolding p'(3) by (rule filter_from_loc [OF pos.rest_sorted [OF pok]])
        also have "\<dots> = ?R"
        proof (rule from_loc_id, rule disjCI2)
          assume "?R \<noteq> []"
          then have "hd ?R \<in> set ?R" by (rule hd_in_set)
          then have "hd ?R \<in> set (prest ?p)" "kept S E nrest ?ns (hd ?R)"
            unfolding set_filter by blast+
          then have "\<not> hd ?R \<le> E ! j" using keptj True by blast
          then show "E ! j + 1 \<le> hd ?R" using end_plus_1_le_iff [OF dt j(2)] by simp
        qed
        finally have R: "filter (kept S E nrest ns') (prest p') = ?R" .
        have ready: "con_ready E pok prest nok ?s"
          using live p'(2) nok' de' j(2) beforej sub by (auto simp: con_ready_def intro!: exI [of _ j])
        have "hd (prest ?p) < E ! j + 1"
          using end_plus_1_le_iff [OF dt j(2), of x] xj x by (simp add: not_le [symmetric])
        then have "length (prest (con_positive ?s)) < length (prest ?p)"
          using length_from_loc_less [OF ne] p'(3) by simp
        from less.hyps [OF this ready] R
        obtain s' where "con_advance pops nops getDoc ?s = Some (s', front ?R)"
          "con_inv S E pok prest nok nrest s'" "con_rest S E prest nrest s' = ?R" by auto
        moreover have "con_advance pops nops getDoc s = con_advance pops nops getDoc ?s"
          using True p'(1) by (simp add: body')
        ultimately show ?thesis by simp
      qed
    qed
  qed
qed

lemma con_init_spec:
  assumes dt: "doc_table getDoc S E" and alp: "\<And>t. doc_aligned S E t \<Longrightarrow> paligned t"
    and aln: "\<And>t. doc_aligned S E t \<Longrightarrow> naligned t"
    and p: "pok p" and ns: "\<forall>n \<in> set ns. nok n" and de: "doc_end_ok E de" "word_rest de = E"
  shows "\<exists>s. con_init pops nops getDoc p ns (Some de) = Some s \<and> con_inv S E pok prest nok nrest s
           \<and> con_rest S E prest nrest s = filter (kept S E nrest ns) (prest p)"
proof (cases "op_done pops p")
  case True
  then show ?thesis using p pos.done_iff by (simp add: con_init_def con_inv_def con_rest_def)
next
  case False
  let ?s = "\<lparr>con_positive = p, con_negatives = ns, con_doc_end = Some de, con_loc = 0, con_exhausted = False\<rparr>"
  have "con_ready E pok prest nok ?s"
    using p ns de by (auto simp: con_ready_def intro!: exI [of _ 0])
  from con_advance_spec [OF dt alp aln this] show ?thesis using False by (auto simp: con_init_def)
qed

lemma con_ready_positive:
  assumes "con_ready E pok prest nok s" and "pok p" and "set (prest p) \<subseteq> set (prest (con_positive s))"
  shows "con_ready E pok prest nok (s\<lparr>con_positive := p\<rparr>)"
proof -
  obtain de k where de: "con_doc_end s = Some de" "doc_end_ok E de" "k \<le> length E" "word_rest de = drop k E"
    "\<forall>i < k. \<forall>x \<in> set (prest (con_positive s)). E ! i < x"
    using assms(1) unfolding con_ready_def by blast
  then have "\<forall>i < k. \<forall>x \<in> set (prest p). E ! i < x" using assms(3) by blast
  then have "\<exists>de k. con_doc_end s = Some de \<and> doc_end_ok E de \<and> k \<le> length E \<and> word_rest de = drop k E
      \<and> (\<forall>i < k. \<forall>x \<in> set (prest p). E ! i < x)" using de(1-4) by blast
  then show ?thesis using assms(1,2) unfolding con_ready_def by simp
qed

lemma con_isr:
  assumes dt: "doc_table getDoc S E" and alp: "\<And>t. doc_aligned S E t \<Longrightarrow> paligned t"
    and aln: "\<And>t. doc_aligned S E t \<Longrightarrow> naligned t"
  shows "isr_contract (con_ops pops nops getDoc) (doc_aligned S E)
           (con_inv S E pok prest nok nrest) (con_rest S E prest nrest)"
proof
  fix s assume s: "con_inv S E pok prest nok nrest s"
  let ?p = "con_positive s" and ?K = "kept S E nrest (con_negatives s)"
  have live: "con_ready E pok prest nok s" "prest ?p \<noteq> []" "con_loc s = hd (prest ?p)"
    "?K (hd (prest ?p))" "con_rest S E prest nrest s = filter ?K (prest ?p)" if "\<not> con_exhausted s"
    using that s unfolding con_inv_def con_rest_def by simp_all
  moreover have "pok ?p" if "\<not> con_exhausted s"
    using live(1) [OF that] by (simp add: con_ready_def)
  moreover have "con_rest S E prest nrest s = hd (prest ?p) # filter ?K (tl (prest ?p))" if "\<not> con_exhausted s"
    unfolding live(5) [OF that] using live(2,4) [OF that] by (cases "prest ?p") simp_all
  ultimately have live: "con_ready E pok prest nok s" "prest ?p \<noteq> []" "con_loc s = hd (prest ?p)"
    "?K (hd (prest ?p))" "con_rest S E prest nrest s = filter ?K (prest ?p)" "pok ?p"
    "con_rest S E prest nrest s = hd (prest ?p) # filter ?K (tl (prest ?p))" if "\<not> con_exhausted s"
    using that by blast+
  show "sorted_wrt (<) (con_rest S E prest nrest s)"
    using live(5,6) pos.rest_sorted by (cases "con_exhausted s") (auto simp: con_rest_def sorted_wrt_filter)
  show "x \<noteq> ISRSentinel" if "x \<in> set (con_rest S E prest nrest s)" for x
    using that live(5,6) pos.rest_proper by (cases "con_exhausted s") (auto simp: con_rest_def)
  show "op_done (con_ops pops nops getDoc) s \<longleftrightarrow> con_rest S E prest nrest s = []"
    using live(7) by (cases "con_exhausted s") (auto simp: con_ops_def con_done_def con_rest_def)
  show "con_rest S E prest nrest s \<noteq> [] \<Longrightarrow> op_loc (con_ops pops nops getDoc) s = hd (con_rest S E prest nrest s)"
    using live(3,7) by (cases "con_exhausted s") (auto simp: con_ops_def con_rest_def)
  have step: "\<exists>s'. con_advance pops nops getDoc (s\<lparr>con_positive := p\<rparr>) = Some (s', front (filter ?K (prest p)))
      \<and> con_inv S E pok prest nok nrest s' \<and> con_rest S E prest nrest s' = filter ?K (prest p)"
    if "\<not> con_exhausted s" "pok p" "set (prest p) \<subseteq> set (prest ?p)" for p
    using con_advance_spec [OF dt alp aln con_ready_positive [OF live(1) [OF that(1)] that(2,3)]] by simp
  show "\<exists>s'. op_next (con_ops pops nops getDoc) s = Some (s', front (tl (con_rest S E prest nrest s)))
          \<and> con_inv S E pok prest nok nrest s' \<and> con_rest S E prest nrest s' = tl (con_rest S E prest nrest s)"
  proof (cases "con_exhausted s")
    case True
    then show ?thesis using s by (simp add: con_ops_def con_next_def con_rest_def)
  next
    case False
    obtain p v where p: "op_next pops ?p = Some (p, v)" "pok p" "prest p = tl (prest ?p)"
      using pos.next_ex [OF live(6) [OF False]] by blast
    have "set (prest p) \<subseteq> set (prest ?p)" unfolding p(3) by (rule list.set_sel(2) [THEN subsetI, OF live(2) [OF False]])
    from step [OF False p(2) this] show ?thesis
      using False p(1,3) live(7) [OF False] by (simp add: con_ops_def con_next_def)
  qed
  fix t assume t: "doc_aligned S E t"
  show "\<exists>s'. op_seek (con_ops pops nops getDoc) s t = Some (s', front (from_loc t (con_rest S E prest nrest s)))
          \<and> con_inv S E pok prest nok nrest s'
          \<and> con_rest S E prest nrest s' = from_loc t (con_rest S E prest nrest s)"
  proof (cases "con_exhausted s")
    case True
    then show ?thesis using s by (simp add: con_ops_def con_seek_def con_rest_def)
  next
    case False
    show ?thesis
    proof (cases "t \<le> con_loc s")
      case True
      then have "from_loc t (con_rest S E prest nrest s) = con_rest S E prest nrest s"
        using live(3,7) [OF False] by (intro from_loc_id disjI2) simp
      then show ?thesis using True False s live(3,7) [OF False] by (simp add: con_ops_def con_seek_def)
    next
      case late: False
      obtain p v where p: "op_seek pops ?p t = Some (p, v)" "pok p" "prest p = from_loc t (prest ?p)"
        using pos.seek_ex [OF live(6) [OF False] alp [OF t]] by blast
      have "set (prest p) \<subseteq> set (prest ?p)"
        unfolding p(3) set_from_loc [OF pos.rest_sorted [OF live(6) [OF False]]] by blast
      moreover have "filter ?K (prest p) = from_loc t (con_rest S E prest nrest s)"
        unfolding p(3) live(5) [OF False] by (rule filter_from_loc [OF pos.rest_sorted [OF live(6) [OF False]]])
      ultimately show ?thesis using step [OF False p(2)] False late p(1) by (simp add: con_ops_def con_seek_def)
    qed
  qed
qed

end

interpretation word_pair: isr_pair word_ops "\<lambda>_. True" word_inv word_rest
  word_ops "\<lambda>_. True" word_inv word_rest
  by unfold_locales



end
