(* ===== verification/IsrPhrase.thy ===== *)
theory IsrPhrase
  imports IsrDoc
begin

text \<open>
  The phrase reader, \<open>src/index/src/lib/isr_phrase.cpp\<close>: it stands at the last location of every run
  of consecutive locations at which its terms occur in order. \<open>implied_start\<close> is computed in 32 bits,
  as in the code: a term that occurs before its own position in the phrase makes it wrap. The
  contract is proved for terms that do not, which the last section shows to be necessary.
\<close>

record 's phrase_state =
  phrase_terms :: "'s list"
  phrase_loc :: u32
  phrase_exhausted :: bool

definition phrase_done :: "'s phrase_state \<Rightarrow> bool" where
  "phrase_done s = phrase_exhausted s"

text \<open>The first loop of the body, from term \<open>i\<close> on: \<open>None\<close> when some term is exhausted.\<close>

fun phrase_max_start :: "'s isr_ops \<Rightarrow> nat \<Rightarrow> 's list \<Rightarrow> u32 \<Rightarrow> u32 option" where
  "phrase_max_start ops i [] m = Some m"
| "phrase_max_start ops i (t # ts) m =
     (if op_done ops t then None
      else phrase_max_start ops (Suc i) ts (max m (op_loc ops t - of_nat i)))"

datatype phrase_status = PhraseExhausted | PhraseMismatch | PhraseMatch

text \<open>The second loop: every term moves to its place behind \<open>start\<close>, until one is not there.\<close>

fun phrase_seek_terms :: "'s isr_ops \<Rightarrow> u32 \<Rightarrow> nat \<Rightarrow> 's list \<Rightarrow> ('s list \<times> phrase_status) option" where
  "phrase_seek_terms ops start i [] = Some ([], PhraseMatch)"
| "phrase_seek_terms ops start i (t # ts) =
     (case op_seek ops t (start + of_nat i) of
        None \<Rightarrow> None
      | Some (t', loc) \<Rightarrow>
          if loc = ISRSentinel then Some (t' # ts, PhraseExhausted)
          else if loc \<noteq> start + of_nat i then Some (t' # ts, PhraseMismatch)
          else map_option (\<lambda>(ts', st). (t' # ts', st)) (phrase_seek_terms ops start (Suc i) ts))"

partial_function (option) phrase_advance :: "'s isr_ops \<Rightarrow> 's phrase_state \<Rightarrow> ('s phrase_state \<times> u32) option" where
  "phrase_advance ops s =
     (case phrase_max_start ops 0 (phrase_terms s) 0 of
        None \<Rightarrow> Some (s\<lparr>phrase_exhausted := True\<rparr>, ISRSentinel)
      | Some start \<Rightarrow>
     (case phrase_seek_terms ops start 0 (phrase_terms s) of
        None \<Rightarrow> None
      | Some (terms, status) \<Rightarrow>
     (case status of
        PhraseExhausted \<Rightarrow> Some (s\<lparr>phrase_terms := terms, phrase_exhausted := True\<rparr>, ISRSentinel)
      | PhraseMatch \<Rightarrow>
          let loc = start + of_nat (length terms - 1)
          in Some (s\<lparr>phrase_terms := terms, phrase_loc := loc\<rparr>, loc)
      | PhraseMismatch \<Rightarrow> phrase_advance ops (s\<lparr>phrase_terms := terms\<rparr>))))"

definition phrase_init :: "'s isr_ops \<Rightarrow> 's list \<Rightarrow> 's phrase_state option" where
  "phrase_init ops terms =
     (if terms = [] then Some \<lparr>phrase_terms = terms, phrase_loc = ISRSentinel, phrase_exhausted = True\<rparr>
      else map_option fst (phrase_advance ops
             \<lparr>phrase_terms = terms, phrase_loc = 0, phrase_exhausted = False\<rparr>))"

definition phrase_next :: "'s isr_ops \<Rightarrow> 's phrase_state \<Rightarrow> ('s phrase_state \<times> u32) option" where
  "phrase_next ops s =
     (if phrase_exhausted s then Some (s, ISRSentinel)
      else case op_next ops (phrase_terms s ! 0) of
        None \<Rightarrow> None
      | Some (t, loc) \<Rightarrow> phrase_advance ops (s\<lparr>phrase_terms := (phrase_terms s)[0 := t]\<rparr>))"

definition phrase_seek :: "'s isr_ops \<Rightarrow> 's phrase_state \<Rightarrow> u32 \<Rightarrow> ('s phrase_state \<times> u32) option" where
  "phrase_seek ops s target =
     (if phrase_exhausted s then Some (s, ISRSentinel)
      else if phrase_loc s \<ge> target then Some (s, phrase_loc s)
      else case op_seek ops (phrase_terms s ! 0) target of
        None \<Rightarrow> None
      | Some (t, loc) \<Rightarrow> phrase_advance ops (s\<lparr>phrase_terms := (phrase_terms s)[0 := t]\<rparr>))"

definition phrase_ops :: "'s isr_ops \<Rightarrow> 's phrase_state isr_ops" where
  "phrase_ops ops = \<lparr>op_next = phrase_next ops, op_seek = phrase_seek ops,
     op_loc = phrase_loc, op_done = phrase_done\<rparr>"

subsection \<open>Its contract\<close>

definition phrase_at :: "('s \<Rightarrow> u32 list) \<Rightarrow> 's list \<Rightarrow> u32 \<Rightarrow> bool" where
  "phrase_at rest ts x \<longleftrightarrow> (\<forall>i < length ts. x + of_nat i \<in> set (rest (ts ! i)))"

definition phrase_starts :: "('s \<Rightarrow> u32 list) \<Rightarrow> 's list \<Rightarrow> u32 list" where
  "phrase_starts rest ts = filter (phrase_at rest ts) (rest (hd ts))"

definition phrase_ends :: "('s \<Rightarrow> u32 list) \<Rightarrow> 's list \<Rightarrow> u32 list" where
  "phrase_ends rest ts = map (\<lambda>x. x + of_nat (length ts - 1)) (phrase_starts rest ts)"

definition phrase_rest :: "('s \<Rightarrow> u32 list) \<Rightarrow> 's phrase_state \<Rightarrow> u32 list" where
  "phrase_rest rest s = (if phrase_exhausted s then [] else phrase_ends rest (phrase_terms s))"

text \<open>\<open>phrase_fit\<close>: no term occurs before its place in the phrase, and no occurrence of the phrase
  lies across one of the targets to which its client moves it.\<close>

definition phrase_fit :: "(u32 \<Rightarrow> bool) \<Rightarrow> ('s \<Rightarrow> u32 list) \<Rightarrow> 's list \<Rightarrow> bool" where
  "phrase_fit al rest ts \<longleftrightarrow> length ts < 2 ^ 32
     \<and> (\<forall>i < length ts. \<forall>x \<in> set (rest (ts ! i)). of_nat i \<le> x)
     \<and> (\<forall>t x. al t \<longrightarrow> phrase_at rest ts x \<longrightarrow> x < t \<longrightarrow> x + of_nat (length ts - 1) < t)"

definition phrase_ready :: "(u32 \<Rightarrow> bool) \<Rightarrow> ('s \<Rightarrow> bool) \<Rightarrow> ('s \<Rightarrow> u32 list) \<Rightarrow> 's phrase_state \<Rightarrow> bool" where
  "phrase_ready al ok rest s \<longleftrightarrow> \<not> phrase_exhausted s \<and> phrase_terms s \<noteq> []
     \<and> (\<forall>t \<in> set (phrase_terms s). ok t) \<and> phrase_fit al rest (phrase_terms s)"

definition phrase_inv :: "(u32 \<Rightarrow> bool) \<Rightarrow> ('s \<Rightarrow> bool) \<Rightarrow> ('s \<Rightarrow> u32 list) \<Rightarrow> 's phrase_state \<Rightarrow> bool" where
  "phrase_inv al ok rest s \<longleftrightarrow> phrase_exhausted s
     \<or> (phrase_ready al ok rest s \<and> phrase_starts rest (phrase_terms s) \<noteq> []
          \<and> hd (rest (hd (phrase_terms s))) = hd (phrase_starts rest (phrase_terms s))
          \<and> phrase_loc s = hd (phrase_ends rest (phrase_terms s)))"

lemma phrase_fit_place: "phrase_fit al rest ts \<Longrightarrow> i < length ts \<Longrightarrow> x \<in> set (rest (ts ! i)) \<Longrightarrow> of_nat i \<le> x"
  by (simp add: phrase_fit_def)

lemma set_from_loc_sub: "set (from_loc t xs) \<subseteq> set xs"
  unfolding from_loc_def by (rule subsetI) (erule set_dropWhileD)

text \<open>Adding a place in the phrase to a location that does not wrap.\<close>

lemma unat_add_place:
  fixes x :: u32
  assumes "i < 2 ^ 32" and "of_nat i \<le> x + of_nat i"
  shows "unat (x + of_nat i) = unat x + i"
  using assms by (metis (no_types, lifting) no_olen_add_nat add.commute unat_of_nat_u32 unat_plus_simple)

lemma le_add_place:
  fixes x y :: u32
  assumes "i < 2 ^ 32" and "of_nat i \<le> y + of_nat i" and "x \<le> y"
  shows "x + of_nat i \<le> y + of_nat i"
proof -
  have "unat (y + of_nat i) = unat y + i" using assms(1,2) by (rule unat_add_place)
  moreover have "unat (x + of_nat i) \<le> unat x + i"
    using unat_add_lem [of x "of_nat i"] assms(1) by (metis unat_of_nat_u32 unat_word_ariths(1) mod_less_eq_dividend)
  ultimately show ?thesis using assms(3) by (simp add: word_le_nat_alt)
qed

lemma unat_add_no_sentinel:
  fixes m :: u32
  assumes "\<forall>j < k. m + of_nat j \<noteq> ISRSentinel"
  shows "unat (m + of_nat k) = unat m + k"
  using assms
proof (induction k)
  case (Suc k)
  then have "m + of_nat k < - 1" by (simp add: ISRSentinel_def word_less_max_iff)
  then have "unat ((m + of_nat k) + 1) = Suc (unat (m + of_nat k))" by (rule unat_plus_1)
  then show ?case using Suc by (simp add: ac_simps)
qed simp

lemma diff_place_le:
  fixes h x :: u32
  assumes "i < 2 ^ 32" and "of_nat i \<le> h" and "h \<le> x + of_nat i"
  shows "h - of_nat i \<le> x"
proof -
  have "of_nat i \<le> x + of_nat i" using assms(2,3) by simp
  then have "unat (x + of_nat i) = unat x + i" by (rule unat_add_place [OF assms(1)])
  then show ?thesis using assms by (simp add: word_le_nat_alt unat_sub)
qed

context isr_contract
begin

lemma phrase_max_start_spec:
  assumes "\<forall>t \<in> set ts. ok t"
  shows "if \<exists>t \<in> set ts. rest t = [] then phrase_max_start ops i ts m = None
     else \<exists>M. phrase_max_start ops i ts m = Some M \<and> m \<le> M
            \<and> (\<forall>k < length ts. hd (rest (ts ! k)) - of_nat (i + k) \<le> M)
            \<and> (M = m \<or> (\<exists>k < length ts. M = hd (rest (ts ! k)) - of_nat (i + k)))"
  using assms
proof (induction ts arbitrary: i m)
  case (Cons t ts)
  let ?h = "hd (rest t) - of_nat i"
  show ?case
  proof (cases "rest t = []")
    case True
    then show ?thesis using Cons.prems done_iff by simp
  next
    case False
    then have eq: "phrase_max_start ops i (t # ts) m = phrase_max_start ops (Suc i) ts (max m ?h)"
      using Cons.prems done_iff loc_hd by simp
    note IH = Cons.IH [of "Suc i" "max m ?h"]
    show ?thesis
    proof (cases "\<exists>t \<in> set ts. rest t = []")
      case True
      then show ?thesis using IH Cons.prems unfolding eq by simp
    next
      case none: False
      then obtain M where M: "phrase_max_start ops (Suc i) ts (max m ?h) = Some M" "max m ?h \<le> M"
        "\<forall>k < length ts. hd (rest (ts ! k)) - of_nat (Suc i + k) \<le> M"
        "M = max m ?h \<or> (\<exists>k < length ts. M = hd (rest (ts ! k)) - of_nat (Suc i + k))"
        using IH Cons.prems by auto
      have "\<forall>k < length (t # ts). hd (rest ((t # ts) ! k)) - of_nat (i + k) \<le> M"
        using M(2,3) by (auto simp: less_Suc_eq_0_disj simp del: of_nat_add of_nat_Suc)
      moreover have "M = m \<or> (\<exists>k < length (t # ts). M = hd (rest ((t # ts) ! k)) - of_nat (i + k))"
      proof (cases "\<exists>k < length ts. M = hd (rest (ts ! k)) - of_nat (Suc i + k)")
        case True
        then obtain k where "k < length ts" "M = hd (rest (ts ! k)) - of_nat (Suc i + k)" by blast
        then show ?thesis by (intro disjI2 exI [of _ "Suc k"]) simp
      next
        case False
        then have "M = m \<or> M = ?h" using M(4) by (auto simp: max_def)
        then show ?thesis by (auto intro!: exI [of _ 0])
      qed
      ultimately show ?thesis using M(1,2) none False unfolding eq by simp
    qed
  qed
qed simp

text \<open>What the second loop leaves behind, for the terms from place \<open>i\<close> on.\<close>

definition placed :: "u32 \<Rightarrow> nat \<Rightarrow> 's list \<Rightarrow> 's list \<Rightarrow> bool" where
  "placed start i ts ts' \<longleftrightarrow> length ts' = length ts \<and> (\<forall>k < length ts. ok (ts' ! k)
     \<and> (rest (ts' ! k) = rest (ts ! k) \<or> rest (ts' ! k) = from_loc (start + of_nat (i + k)) (rest (ts ! k))))"

fun placed_status :: "u32 \<Rightarrow> nat \<Rightarrow> 's list \<Rightarrow> 's list \<Rightarrow> phrase_status \<Rightarrow> bool" where
  "placed_status start i ts ts' PhraseMatch \<longleftrightarrow>
     (\<forall>k < length ts. rest (ts' ! k) \<noteq> [] \<and> hd (rest (ts' ! k)) = start + of_nat (i + k))"
| "placed_status start i ts ts' PhraseExhausted \<longleftrightarrow>
     (\<exists>k < length ts. from_loc (start + of_nat (i + k)) (rest (ts ! k)) = [])"
| "placed_status start i ts ts' PhraseMismatch \<longleftrightarrow>
     (\<exists>k < length ts. (\<forall>j < k. start + of_nat (i + j) \<noteq> ISRSentinel) \<and> rest (ts' ! k) \<noteq> []
        \<and> rest (ts' ! k) = from_loc (start + of_nat (i + k)) (rest (ts ! k))
        \<and> hd (rest (ts' ! k)) \<noteq> start + of_nat (i + k))"

lemma placed_Cons:
  assumes "ok t'" and "rest t' = rest t \<or> rest t' = from_loc (start + of_nat i) (rest t)"
    and "placed start (Suc i) ts ts'"
  shows "placed start i (t # ts) (t' # ts')"
  using assms by (auto simp: placed_def less_Suc_eq_0_disj simp del: of_nat_add of_nat_Suc)

lemma placed_refl: "\<forall>t \<in> set ts. ok t \<Longrightarrow> placed start i ts ts"
  by (simp add: placed_def)

lemma phrase_seek_terms_spec:
  assumes "\<forall>t \<in> set ts. ok t" and all: "\<And>t. aligned t"
  shows "\<exists>ts' st. phrase_seek_terms ops start i ts = Some (ts', st)
           \<and> placed start i ts ts' \<and> placed_status start i ts ts' st"
  using assms(1)
proof (induction ts arbitrary: i)
  case Nil
  then show ?case by (simp add: placed_def)
next
  case (Cons t ts)
  let ?p = "start + of_nat i"
  obtain t' where t': "op_seek ops t ?p = Some (t', front (from_loc ?p (rest t)))" "ok t'"
    "rest t' = from_loc ?p (rest t)" using seek_ex [OF _ all] Cons.prems by fastforce
  have same: "placed start i (t # ts) (t' # ts)"
    using t' Cons.prems by (intro placed_Cons placed_refl) auto
  show ?case
  proof (cases "rest t' = []")
    case True
    then have "placed_status start i (t # ts) (t' # ts) PhraseExhausted"
      using t'(3) by (auto intro!: exI [of _ 0])
    then show ?thesis using True t' same by simp
  next
    case ne: False
    then have fr: "front (from_loc ?p (rest t)) = hd (rest t')" "hd (rest t') \<noteq> ISRSentinel"
      using t' front_hd rest_proper hd_in_set by metis+
    show ?thesis
    proof (cases "hd (rest t') = ?p")
      case False
      then have "placed_status start i (t # ts) (t' # ts) PhraseMismatch"
        using t'(3) ne by (auto intro!: exI [of _ 0])
      then show ?thesis using False t' same fr by simp
    next
      case True
      obtain ts' st where IH: "phrase_seek_terms ops start (Suc i) ts = Some (ts', st)"
        "placed start (Suc i) ts ts'" "placed_status start (Suc i) ts ts' st"
        using Cons.IH [of "Suc i"] Cons.prems by (metis list.set_intros(2))
      have step: "phrase_seek_terms ops start i (t # ts) = Some (t' # ts', st)"
        using True t'(1) fr IH(1) by simp
      have pl: "placed start i (t # ts) (t' # ts')" using t' IH(2) by (intro placed_Cons) auto
      have "placed_status start i (t # ts) (t' # ts') st"
      proof (cases st)
        case PhraseMatch
        then show ?thesis
          using IH(3) True ne by (auto simp: less_Suc_eq_0_disj simp del: of_nat_add of_nat_Suc)
      next
        case PhraseExhausted
        then obtain k where "k < length ts" "from_loc (start + of_nat (Suc i + k)) (rest (ts ! k)) = []"
          using IH(3) by auto
        then show ?thesis
          unfolding PhraseExhausted placed_status.simps by (intro exI [of _ "Suc k"]) simp
      next
        case PhraseMismatch
        then obtain k where k: "k < length ts" "\<forall>j < k. start + of_nat (Suc i + j) \<noteq> ISRSentinel"
          "rest (ts' ! k) \<noteq> []" "rest (ts' ! k) = from_loc (start + of_nat (Suc i + k)) (rest (ts ! k))"
          "hd (rest (ts' ! k)) \<noteq> start + of_nat (Suc i + k)" using IH(3) by auto
        have "\<forall>j < Suc k. start + of_nat (i + j) \<noteq> ISRSentinel"
          using k(2) True fr(2) by (auto simp: less_Suc_eq_0_disj simp del: of_nat_add of_nat_Suc)
        then show ?thesis
          using k unfolding PhraseMismatch placed_status.simps
          by (intro exI [of _ "Suc k"]) (simp add: ac_simps)
      qed
      then show ?thesis using step pl by blast
    qed
  qed
qed

lemma placed_sub:
  assumes "placed start i ts ts'" and "k < length ts"
  shows "set (rest (ts' ! k)) \<subseteq> set (rest (ts ! k))" and "length (rest (ts' ! k)) \<le> length (rest (ts ! k))"
proof -
  have "rest (ts' ! k) = rest (ts ! k) \<or> rest (ts' ! k) = from_loc (start + of_nat (i + k)) (rest (ts ! k))"
    using assms by (simp add: placed_def)
  then obtain t where "rest (ts' ! k) = rest (ts ! k) \<or> rest (ts' ! k) = from_loc t (rest (ts ! k))" by blast
  then show "set (rest (ts' ! k)) \<subseteq> set (rest (ts ! k))" "length (rest (ts' ! k)) \<le> length (rest (ts ! k))"
    using set_from_loc_sub [of t "rest (ts ! k)"] length_from_loc [of t "rest (ts ! k)"] by auto
qed

lemma phrase_at_sub:
  assumes "phrase_at rest ts' x" and "length ts' = length ts"
    and "\<And>i. i < length ts \<Longrightarrow> set (rest (ts' ! i)) \<subseteq> set (rest (ts ! i))"
  shows "phrase_at rest ts x"
  unfolding phrase_at_def
proof (intro allI impI)
  fix i assume i: "i < length ts"
  then have "x + of_nat i \<in> set (rest (ts' ! i))" using assms(1,2) by (simp add: phrase_at_def)
  then show "x + of_nat i \<in> set (rest (ts ! i))" using assms(3) [OF i] by blast
qed

lemma phrase_fit_sub:
  assumes "phrase_fit al rest ts" and len: "length ts' = length ts"
    and sub: "\<And>i. i < length ts \<Longrightarrow> set (rest (ts' ! i)) \<subseteq> set (rest (ts ! i))"
  shows "phrase_fit al rest ts'"
proof -
  have "\<forall>i < length ts. \<forall>x \<in> set (rest (ts' ! i)). of_nat i \<le> x"
    using assms(1) sub unfolding phrase_fit_def by blast
  moreover have "\<forall>t x. al t \<longrightarrow> phrase_at rest ts' x \<longrightarrow> x < t \<longrightarrow> x + of_nat (length ts - 1) < t"
    using assms(1) phrase_at_sub [OF _ len sub] unfolding phrase_fit_def by blast
  ultimately show ?thesis using assms(1) len unfolding phrase_fit_def by simp
qed

lemma phrase_start_le:
  assumes "phrase_fit al rest ts" and "\<forall>t \<in> set ts. ok t"
    and "phrase_max_start ops 0 ts 0 = Some M" and "phrase_at rest ts x"
  shows "M \<le> x"
proof -
  have "M = 0 \<or> (\<exists>k < length ts. M = hd (rest (ts ! k)) - of_nat k)"
    using phrase_max_start_spec [OF assms(2), of 0 0] assms(3) by (auto split: if_splits)
  then show ?thesis
  proof
    assume "\<exists>k < length ts. M = hd (rest (ts ! k)) - of_nat k"
    then obtain k where k: "k < length ts" "M = hd (rest (ts ! k)) - of_nat k" by blast
    have in_rest: "x + of_nat k \<in> set (rest (ts ! k))" using assms(4) k(1) by (simp add: phrase_at_def)
    then have "hd (rest (ts ! k)) \<in> set (rest (ts ! k))" by (intro hd_in_set) auto
    then have "of_nat k \<le> hd (rest (ts ! k))" by (rule phrase_fit_place [OF assms(1) k(1)])
    moreover have "hd (rest (ts ! k)) \<le> x + of_nat k"
      using in_rest assms(2) k(1) by (intro hd_le_sorted rest_sorted) auto
    moreover have "k < 2 ^ 32" using assms(1) k(1) by (simp add: phrase_fit_def)
    ultimately show ?thesis unfolding k(2) by (intro diff_place_le)
  qed simp
qed

lemma phrase_at_placed:
  assumes "phrase_fit al rest ts" and "\<forall>t \<in> set ts. ok t" and "M \<le> x" and "placed M 0 ts ts'"
  shows "phrase_at rest ts' x \<longleftrightarrow> phrase_at rest ts x"
proof
  have len: "length ts' = length ts" using assms(4) by (simp add: placed_def)
  show "phrase_at rest ts x" if "phrase_at rest ts' x"
    using that len placed_sub(1) [OF assms(4)] by (rule phrase_at_sub)
  show "phrase_at rest ts' x" if at: "phrase_at rest ts x"
    unfolding phrase_at_def
  proof (intro allI impI)
    fix k assume "k < length ts'"
    then have k: "k < length ts" "k < 2 ^ 32" using assms(1) len by (simp_all add: phrase_fit_def)
    have mem: "x + of_nat k \<in> set (rest (ts ! k))" using at k by (simp add: phrase_at_def)
    then have "M + of_nat k \<le> x + of_nat k"
      using phrase_fit_place [OF assms(1) k(1)] assms(3) k(2) by (intro le_add_place)
    moreover have "rest (ts' ! k) = rest (ts ! k) \<or> rest (ts' ! k) = from_loc (M + of_nat k) (rest (ts ! k))"
      using assms(4) k(1) by (simp add: placed_def)
    ultimately show "x + of_nat k \<in> set (rest (ts' ! k))"
      using mem set_from_loc [OF rest_sorted] assms(2) k(1) by auto
  qed
qed

lemma set_phrase_starts:
  assumes "ts \<noteq> []"
  shows "set (phrase_starts rest ts) = {x. phrase_at rest ts x}"
proof -
  have "x \<in> set (rest (hd ts))" if "phrase_at rest ts x" for x
    using that [unfolded phrase_at_def, rule_format, of 0] assms by (simp add: hd_conv_nth)
  then show ?thesis unfolding phrase_starts_def by auto
qed

lemma sorted_phrase_starts: "ts \<noteq> [] \<Longrightarrow> \<forall>t \<in> set ts. ok t \<Longrightarrow> sorted_wrt (<) (phrase_starts rest ts)"
  by (simp add: phrase_starts_def rest_sorted sorted_wrt_filter)

lemma phrase_starts_eqI:
  assumes "ts \<noteq> []" and "ts' \<noteq> []" and "\<forall>t \<in> set ts. ok t" and "\<forall>t \<in> set ts'. ok t"
    and "\<And>x. phrase_at rest ts' x \<longleftrightarrow> phrase_at rest ts x"
  shows "phrase_starts rest ts' = phrase_starts rest ts"
  using assms by (intro sorted_wrt_less_set_eqI sorted_phrase_starts) (simp_all add: set_phrase_starts)

lemma phrase_end_less:
  assumes "phrase_fit al rest ts" and "ts \<noteq> []" and "phrase_at rest ts x" and "phrase_at rest ts y" and "x < y"
  shows "x + of_nat (length ts - 1) < y + of_nat (length ts - 1)"
proof -
  have n: "length ts - 1 < length ts" "length ts - 1 < 2 ^ 32"
    using assms(1,2) by (auto simp: phrase_fit_def)
  have "unat (z + of_nat (length ts - 1)) = unat z + (length ts - 1)" if "phrase_at rest ts z" for z
    using that n(1) phrase_fit_place [OF assms(1) n(1)] unfolding phrase_at_def
    by (intro unat_add_place [OF n(2)]) blast
  then show ?thesis using assms(3-5) by (simp add: word_less_nat_alt)
qed

lemma sorted_phrase_ends:
  assumes "phrase_fit al rest ts" and "ts \<noteq> []" and "\<forall>t \<in> set ts. ok t"
  shows "sorted_wrt (<) (phrase_ends rest ts)"
  unfolding phrase_ends_def sorted_wrt_map
proof (rule sorted_wrt_mono_rel [OF _ sorted_phrase_starts [OF assms(2,3)]])
  show "x + of_nat (length ts - 1) < y + of_nat (length ts - 1)"
    if "x \<in> set (phrase_starts rest ts)" "y \<in> set (phrase_starts rest ts)" "x < y" for x y
    using that phrase_end_less [OF assms(1,2)] set_phrase_starts [OF assms(2)] by blast
qed

lemma phrase_ends_proper:
  assumes "ts \<noteq> []" and "\<forall>t \<in> set ts. ok t" and "e \<in> set (phrase_ends rest ts)"
  shows "e \<noteq> ISRSentinel"
proof -
  obtain x where "e = x + of_nat (length ts - 1)" "phrase_at rest ts x"
    using assms(3) set_phrase_starts [OF assms(1)] by (auto simp: phrase_ends_def)
  then have "e \<in> set (rest (ts ! (length ts - 1)))" using assms(1) by (simp add: phrase_at_def)
  then show ?thesis using rest_proper assms(1,2) by (metis diff_less length_greater_0_conv nth_mem zero_less_one)
qed

lemma phrase_mismatch_decreases:
  assumes fit: "phrase_fit al rest ts" and ok: "\<forall>t \<in> set ts. ok t"
    and M: "\<forall>k < length ts. hd (rest (ts ! k)) - of_nat k \<le> M"
    and ne: "\<forall>t \<in> set ts. rest t \<noteq> []"
    and pl: "placed M 0 ts ts'" and st: "placed_status M 0 ts ts' PhraseMismatch"
  shows "sum_list (map (length \<circ> rest) ts') < sum_list (map (length \<circ> rest) ts)"
proof -
  from st obtain k where k: "k < length ts" "\<forall>j < k. M + of_nat j \<noteq> ISRSentinel"
    "rest (ts' ! k) = from_loc (M + of_nat k) (rest (ts ! k))" "hd (rest (ts' ! k)) \<noteq> M + of_nat k" by auto
  let ?h = "hd (rest (ts ! k))"
  have h: "of_nat k \<le> ?h" "?h - of_nat k \<le> M"
    using fit k(1) ne M by (auto simp: phrase_fit_def intro!: hd_in_set)
  have "k < 2 ^ 32" using fit k(1) by (simp add: phrase_fit_def)
  then have le: "?h \<le> M + of_nat k"
    using h unat_add_no_sentinel [OF k(2)] by (simp add: word_le_nat_alt unat_sub)
  have "?h < M + of_nat k"
  proof (rule ccontr)
    assume "\<not> ?h < M + of_nat k"
    then have "?h = M + of_nat k" using le by simp
    then show False using k(3,4) from_loc_id [of "rest (ts ! k)"] by simp
  qed
  then have "length (rest (ts' ! k)) < length (rest (ts ! k))"
    unfolding k(3) using ne k(1) by (intro length_from_loc_less) auto
  moreover have "length ts' = length ts" using pl by (simp add: placed_def)
  ultimately show ?thesis
    using k(1) placed_sub(2) [OF pl] unfolding sum_list_sum_nth
    by (auto intro!: sum_strict_mono_ex1)
qed

lemma phrase_ends_Nil: "phrase_ends rest ts = [] \<longleftrightarrow> phrase_starts rest ts = []"
  by (simp add: phrase_ends_def)

lemma hd_phrase_ends:
  "phrase_starts rest ts \<noteq> [] \<Longrightarrow> hd (phrase_ends rest ts) = hd (phrase_starts rest ts) + of_nat (length ts - 1)"
  by (simp add: phrase_ends_def hd_map)

lemma phrase_advance_spec:
  assumes all: "\<And>t. aligned t" and "phrase_ready al ok rest s"
  shows "\<exists>s'. phrase_advance ops s = Some (s', front (phrase_ends rest (phrase_terms s)))
     \<and> phrase_inv al ok rest s' \<and> phrase_rest rest s' = phrase_ends rest (phrase_terms s)"
  using assms(2)
proof (induction "sum_list (map (length \<circ> rest) (phrase_terms s))" arbitrary: s rule: less_induct)
  case less
  let ?ts = "phrase_terms s"
  from less.prems have live: "\<not> phrase_exhausted s" and ne: "?ts \<noteq> []" and ok: "\<forall>t \<in> set ?ts. ok t"
    and fit: "phrase_fit al rest ?ts" by (auto simp: phrase_ready_def)
  note body = phrase_advance.simps [of ops s]
  note max = phrase_max_start_spec [OF ok, of 0 0]
  show ?case
  proof (cases "\<exists>t \<in> set ?ts. rest t = []")
    case True
    then obtain k where "k < length ?ts" "rest (?ts ! k) = []" by (metis in_set_conv_nth)
    then have "\<not> phrase_at rest ?ts x" for x unfolding phrase_at_def by (metis empty_iff list.set(1))
    then have "phrase_starts rest ?ts = []" by (simp add: phrase_starts_def)
    then show ?thesis
      using True max by (simp add: body phrase_ends_def phrase_inv_def phrase_rest_def)
  next
    case False
    then obtain M where M: "phrase_max_start ops 0 ?ts 0 = Some M"
      "\<forall>k < length ?ts. hd (rest (?ts ! k)) - of_nat k \<le> M" using max by auto
    note start_le = phrase_start_le [OF fit ok M(1)]
    obtain ts' st where ts': "phrase_seek_terms ops M 0 ?ts = Some (ts', st)" "placed M 0 ?ts ts'"
      "placed_status M 0 ?ts ts' st" using phrase_seek_terms_spec [OF ok all] by blast
    have len: "length ts' = length ?ts" and ok': "\<forall>t \<in> set ts'. ok t"
      using ts'(2) by (auto simp: placed_def in_set_conv_nth)
    have ne': "ts' \<noteq> []" using ne len by auto
    have at: "phrase_at rest ts' x \<longleftrightarrow> phrase_at rest ?ts x" for x
      using phrase_at_placed [OF fit ok _ ts'(2)] phrase_at_sub [OF _ len placed_sub(1) [OF ts'(2)]] start_le
      by blast
    have starts: "phrase_starts rest ts' = phrase_starts rest ?ts"
      by (rule phrase_starts_eqI [OF ne ne' ok ok' at])
    have ends: "phrase_ends rest ts' = phrase_ends rest ?ts" by (simp add: phrase_ends_def starts len)
    have ready: "phrase_ready al ok rest (s\<lparr>phrase_terms := ts'\<rparr>)"
      using live ne' ok' phrase_fit_sub [OF fit len placed_sub(1) [OF ts'(2)]] by (simp add: phrase_ready_def)
    show ?thesis
    proof (cases st)
      case PhraseExhausted
      then obtain k where k: "k < length ?ts" "from_loc (M + of_nat k) (rest (?ts ! k)) = []"
        using ts'(3) by auto
      have "\<not> phrase_at rest ?ts x" for x
      proof
        assume x: "phrase_at rest ?ts x"
        then have "phrase_at rest ?ts x \<and> x + of_nat k \<in> set (rest (?ts ! k))" using k(1) by (simp add: phrase_at_def)
        moreover have "k < 2 ^ 32" using fit k(1) by (simp add: phrase_fit_def)
        ultimately have "M + of_nat k \<le> x + of_nat k"
          using phrase_fit_place [OF fit k(1)] start_le by (intro le_add_place) auto
        then have "x + of_nat k \<in> set (from_loc (M + of_nat k) (rest (?ts ! k)))"
          using \<open>phrase_at rest ?ts x \<and> _\<close> set_from_loc [OF rest_sorted] ok k(1) by auto
        then show False using k(2) by simp
      qed
      then have "phrase_starts rest ?ts = []" by (simp add: phrase_starts_def)
      then show ?thesis
        using M(1) ts'(1) PhraseExhausted by (simp add: body phrase_ends_def phrase_inv_def phrase_rest_def)
    next
      case PhraseMatch
      then have here: "rest (ts' ! k) \<noteq> []" "hd (rest (ts' ! k)) = M + of_nat k" if "k < length ?ts" for k
        using ts'(3) that by auto
      have "phrase_at rest ts' M"
        unfolding phrase_at_def using here len by (metis hd_in_set)
      then have mem: "M \<in> set (phrase_starts rest ?ts)" using at set_phrase_starts [OF ne] by blast
      then have "hd (phrase_starts rest ?ts) \<le> M"
        by (rule hd_le_sorted [OF sorted_phrase_starts [OF ne ok]])
      moreover have "M \<le> hd (phrase_starts rest ?ts)"
        using start_le set_phrase_starts [OF ne] mem hd_in_set by (metis empty_iff list.set(1) mem_Collect_eq)
      ultimately have hd: "hd (phrase_starts rest ?ts) = M" by simp
      have ne_starts: "phrase_starts rest ?ts \<noteq> []" using mem by auto
      let ?s = "s\<lparr>phrase_terms := ts', phrase_loc := M + of_nat (length ts' - 1)\<rparr>"
      have "phrase_advance ops s = Some (?s, M + of_nat (length ts' - 1))"
        using M(1) ts'(1) PhraseMatch by (simp add: body Let_def)
      moreover have "front (phrase_ends rest ?ts) = M + of_nat (length ts' - 1)"
        using hd_phrase_ends [OF ne_starts] ne_starts hd len by (simp add: front_hd phrase_ends_Nil)
      moreover have "hd (rest (hd ts')) = M" using here [of 0] ne ne' len by (simp add: hd_conv_nth)
      ultimately show ?thesis
        using ready live starts ends ne_starts hd hd_phrase_ends [OF ne_starts] len
        by (simp add: phrase_inv_def phrase_ready_def phrase_rest_def)
    next
      case PhraseMismatch
      then have "sum_list (map (length \<circ> rest) ts') < sum_list (map (length \<circ> rest) ?ts)"
        using phrase_mismatch_decreases [OF fit ok M(2) _ ts'(2)] ts'(3) False by simp
      from less.hyps [OF _ ready] this
      obtain s' where "phrase_advance ops (s\<lparr>phrase_terms := ts'\<rparr>) = Some (s', front (phrase_ends rest ts'))"
        "phrase_inv al ok rest s'" "phrase_rest rest s' = phrase_ends rest ts'" by auto
      then show ?thesis using M(1) ts'(1) PhraseMismatch ends by (simp add: body)
    qed
  qed
qed

lemma phrase_init_spec:
  assumes all: "\<And>t. aligned t" and "ts \<noteq> []" and "\<forall>t \<in> set ts. ok t" and "phrase_fit al rest ts"
  shows "\<exists>s. phrase_init ops ts = Some s \<and> phrase_inv al ok rest s \<and> phrase_rest rest s = phrase_ends rest ts"
proof -
  have "phrase_ready al ok rest \<lparr>phrase_terms = ts, phrase_loc = 0, phrase_exhausted = False\<rparr>"
    using assms by (simp add: phrase_ready_def)
  from phrase_advance_spec [OF all this] show ?thesis using assms(2) by (auto simp: phrase_init_def)
qed

text \<open>The first term moved on by \<open>next\<close> or \<open>seek\<close>: the occurrences that are left.\<close>

lemma phrase_first_moved:
  assumes ready: "phrase_ready al ok rest s" and t: "ok t" "set (rest t) = {x \<in> set (rest (hd (phrase_terms s))). P x}"
  shows "phrase_ready al ok rest (s\<lparr>phrase_terms := (phrase_terms s)[0 := t]\<rparr>)"
    and "phrase_ends rest ((phrase_terms s)[0 := t])
       = map (\<lambda>x. x + of_nat (length (phrase_terms s) - 1)) (filter P (phrase_starts rest (phrase_terms s)))"
proof -
  let ?ts = "phrase_terms s" and ?ts' = "(phrase_terms s)[0 := t]"
  have ts: "?ts \<noteq> []" "\<forall>t \<in> set ?ts. ok t" "phrase_fit al rest ?ts"
    using ready by (simp_all add: phrase_ready_def)
  then obtain u us where us: "?ts = u # us" by (cases ?ts) auto
  have sub: "set (rest (?ts' ! i)) \<subseteq> set (rest (?ts ! i))" if "i < length ?ts" for i
    using t(2) us by (cases i) auto
  have ok': "\<forall>t \<in> set ?ts'. ok t" using ts(2) t(1) us by simp
  show "phrase_ready al ok rest (s\<lparr>phrase_terms := ?ts'\<rparr>)"
    using ready ok' phrase_fit_sub [OF ts(3) length_list_update sub] by (simp add: phrase_ready_def us)
  have "phrase_at rest ?ts' x \<longleftrightarrow> phrase_at rest ?ts x \<and> P x" for x
    using t(2) by (auto simp: us phrase_at_def less_Suc_eq_0_disj)
  then have "phrase_starts rest ?ts' = filter P (phrase_starts rest ?ts)"
    using ts ok' us by (intro sorted_wrt_less_set_eqI sorted_wrt_filter sorted_phrase_starts) (auto simp: set_phrase_starts)
  then show "phrase_ends rest ?ts' = map (\<lambda>x. x + of_nat (length ?ts - 1)) (filter P (phrase_starts rest ?ts))"
    by (simp add: phrase_ends_def)
qed

lemma filter_neq_hd: "sorted_wrt (<) xs \<Longrightarrow> filter (\<lambda>x. x \<noteq> hd xs) xs = tl (xs :: u32 list)"
  by (cases xs) (auto intro!: filter_True)

lemma filter_ge_from_loc: "sorted_wrt (<) xs \<Longrightarrow> filter (\<lambda>x. t \<le> x) xs = from_loc t xs"
  by (rule sorted_wrt_less_set_eqI) (auto simp: sorted_from_loc set_from_loc sorted_wrt_filter)

lemma phrase_isr:
  assumes all: "\<And>t. aligned t"
  shows "isr_contract (phrase_ops ops) al (phrase_inv al ok rest) (phrase_rest rest)"
proof
  fix s assume s: "phrase_inv al ok rest s"
  let ?ts = "phrase_terms s" and ?n = "of_nat (length (phrase_terms s) - 1)"
  have live: "phrase_ready al ok rest s" "phrase_starts rest ?ts \<noteq> []"
    "hd (rest (hd ?ts)) = hd (phrase_starts rest ?ts)" "phrase_loc s = hd (phrase_ends rest ?ts)"
    "phrase_rest rest s = phrase_ends rest ?ts" if "\<not> phrase_exhausted s"
    using s that unfolding phrase_inv_def phrase_rest_def by simp_all
  have ts: "?ts \<noteq> []" "\<forall>t \<in> set ?ts. ok t" "phrase_fit al rest ?ts" "ok (hd ?ts)" if "\<not> phrase_exhausted s"
    using live(1) [OF that] by (simp_all add: phrase_ready_def)
  have step: "\<exists>s'. phrase_advance ops (s\<lparr>phrase_terms := ?ts[0 := t]\<rparr>) = Some (s', front xs)
      \<and> phrase_inv al ok rest s' \<and> phrase_rest rest s' = xs"
    if "\<not> phrase_exhausted s" "ok t" "set (rest t) = {x \<in> set (rest (hd ?ts)). P x}"
      "map (\<lambda>x. x + ?n) (filter P (phrase_starts rest ?ts)) = xs" for t P xs
    using phrase_advance_spec [OF all phrase_first_moved(1) [OF live(1) [OF that(1)] that(2,3)]]
      phrase_first_moved(2) [OF live(1) [OF that(1)] that(2,3)] that(4) by simp
  show "sorted_wrt (<) (phrase_rest rest s)"
    using ts live(5) sorted_phrase_ends by (cases "phrase_exhausted s") (auto simp: phrase_rest_def)
  show "x \<noteq> ISRSentinel" if "x \<in> set (phrase_rest rest s)" for x
    using ts live(5) phrase_ends_proper that by (cases "phrase_exhausted s") (auto simp: phrase_rest_def)
  show "op_done (phrase_ops ops) s \<longleftrightarrow> phrase_rest rest s = []"
    using live(2,5) phrase_ends_Nil
    by (cases "phrase_exhausted s") (auto simp: phrase_ops_def phrase_done_def phrase_rest_def)
  show "phrase_rest rest s \<noteq> [] \<Longrightarrow> op_loc (phrase_ops ops) s = hd (phrase_rest rest s)"
    using live(4,5) by (cases "phrase_exhausted s") (auto simp: phrase_ops_def phrase_rest_def)
  show "\<exists>s'. op_next (phrase_ops ops) s = Some (s', front (tl (phrase_rest rest s)))
          \<and> phrase_inv al ok rest s' \<and> phrase_rest rest s' = tl (phrase_rest rest s)"
  proof (cases "phrase_exhausted s")
    case True
    then show ?thesis using s by (simp add: phrase_ops_def phrase_next_def phrase_rest_def)
  next
    case False
    let ?P = "\<lambda>x. x \<noteq> hd (phrase_starts rest ?ts)"
    obtain t v where t: "op_next ops (hd ?ts) = Some (t, v)" "ok t" "rest t = tl (rest (hd ?ts))"
      using next_ex [OF ts(4) [OF False]] by blast
    have "rest (hd ?ts) \<noteq> []" using live(2) [OF False] by (auto simp: phrase_starts_def)
    then have set: "set (rest t) = {x \<in> set (rest (hd ?ts)). ?P x}"
      using set_tl_sorted [OF rest_sorted [OF ts(4) [OF False]]] live(3) [OF False] t(3) by auto
    have "map (\<lambda>x. x + ?n) (filter ?P (phrase_starts rest ?ts)) = tl (phrase_rest rest s)"
      using ts False by (simp add: filter_neq_hd sorted_phrase_starts live(5) phrase_ends_def map_tl)
    from step [OF False t(2) set this] show ?thesis
      using False t(1) ts(1) by (simp add: phrase_ops_def phrase_next_def hd_conv_nth)
  qed
  fix t assume al: "al t"
  show "\<exists>s'. op_seek (phrase_ops ops) s t = Some (s', front (from_loc t (phrase_rest rest s)))
          \<and> phrase_inv al ok rest s' \<and> phrase_rest rest s' = from_loc t (phrase_rest rest s)"
  proof (cases "phrase_exhausted s")
    case True
    then show ?thesis using s by (simp add: phrase_ops_def phrase_seek_def phrase_rest_def)
  next
    case False
    show ?thesis
    proof (cases "t \<le> phrase_loc s")
      case True
      then have "from_loc t (phrase_rest rest s) = phrase_rest rest s"
        using live(4,5) [OF False] by (intro from_loc_id) simp
      then show ?thesis
        using True False s live(2,4,5) [OF False] by (simp add: phrase_ops_def phrase_seek_def front_hd phrase_ends_Nil)
    next
      case late: False
      obtain u v where u: "op_seek ops (hd ?ts) t = Some (u, v)" "ok u" "rest u = from_loc t (rest (hd ?ts))"
        using seek_ex [OF ts(4) [OF False] all] by blast
      have set: "set (rest u) = {x \<in> set (rest (hd ?ts)). t \<le> x}"
        unfolding u(3) by (rule set_from_loc [OF rest_sorted [OF ts(4) [OF False]]])
      have "map (\<lambda>x. x + ?n) (filter ((\<le>) t) (phrase_starts rest ?ts)) = from_loc t (phrase_rest rest s)"
      proof -
        have "t \<le> x \<longleftrightarrow> t \<le> x + ?n" if "x \<in> set (phrase_starts rest ?ts)" for x
        proof -
          have at: "phrase_at rest ?ts x" using that set_phrase_starts [OF ts(1) [OF False]] by blast
          have "length ?ts - 1 < length ?ts" using ts(1) [OF False] by simp
          moreover from this have "length ?ts - 1 < 2 ^ 32" using ts(3) [OF False] by (simp add: phrase_fit_def)
          moreover have "x + ?n \<in> set (rest (?ts ! (length ?ts - 1)))"
            using at calculation(1) unfolding phrase_at_def by blast
          ultimately have "unat (x + ?n) = unat x + (length ?ts - 1)"
            using phrase_fit_place [OF ts(3) [OF False]] by (intro unat_add_place) blast+
          then have "x \<le> x + ?n" by (simp add: word_le_nat_alt)
          moreover have "x < t \<Longrightarrow> x + ?n < t" using ts(3) [OF False] al at by (simp add: phrase_fit_def)
          ultimately show ?thesis by (meson not_le order_trans)
        qed
        then have "map (\<lambda>x. x + ?n) (filter ((\<le>) t) (phrase_starts rest ?ts))
            = filter ((\<le>) t) (phrase_ends rest ?ts)"
          unfolding phrase_ends_def filter_map comp_def by (intro arg_cong [of _ _ "map _"] filter_cong) auto
        also have "\<dots> = from_loc t (phrase_rest rest s)"
          unfolding live(5) [OF False]
          by (rule filter_ge_from_loc [OF sorted_phrase_ends [OF ts(3) ts(1,2)]]) (rule False)+
        finally show ?thesis .
      qed
      from step [OF False u(2) set this] show ?thesis
        using False late u(1) ts(1) by (simp add: phrase_ops_def phrase_seek_def hd_conv_nth)
    qed
  qed
qed

end

text \<open>The phrase of words, over the targets that cut no document of the chunk.\<close>

interpretation phrase_word: isr_contract "phrase_ops word_ops" "doc_aligned S E"
  "phrase_inv (doc_aligned S E) word_inv word_rest" "phrase_rest word_rest" for S E
  by (rule word.phrase_isr) simp





end
