(* ===== verification/IsrOr.thy ===== *)
theory IsrOr
  imports Isr
begin

text \<open>
  The disjunction of readers, \<open>src/index/src/lib/isr_or.cpp\<close>: it stands at the least location of its
  children. The definitions take the children's virtual interface; the theorem of the last section
  turns a contract of the children into the contract of the disjunction, whose remaining locations
  are the union of theirs.
\<close>

record 's or_state =
  or_terms :: "'s list"
  or_loc :: u32
  or_exhausted :: bool

definition or_done :: "'s or_state \<Rightarrow> bool" where
  "or_done s = or_exhausted s"

definition or_min :: "'s isr_ops \<Rightarrow> 's list \<Rightarrow> u32" where
  "or_min ops terms =
     foldl (\<lambda>min_loc t. if \<not> op_done ops t then min min_loc (op_loc ops t) else min_loc)
       ISRSentinel terms"

definition or_advance :: "'s isr_ops \<Rightarrow> 's or_state \<Rightarrow> 's or_state \<times> u32" where
  "or_advance ops s =
     (let min_loc = or_min ops (or_terms s);
          s' = (if min_loc = ISRSentinel then s\<lparr>or_exhausted := True\<rparr> else s)
      in (s'\<lparr>or_loc := min_loc\<rparr>, min_loc))"

definition or_init :: "'s isr_ops \<Rightarrow> 's list \<Rightarrow> 's or_state" where
  "or_init ops terms =
     (if terms = [] then \<lparr>or_terms = terms, or_loc = ISRSentinel, or_exhausted = True\<rparr>
      else fst (or_advance ops \<lparr>or_terms = terms, or_loc = 0, or_exhausted = False\<rparr>))"

definition or_next :: "'s isr_ops \<Rightarrow> 's or_state \<Rightarrow> ('s or_state \<times> u32) option" where
  "or_next ops s =
     (if or_exhausted s then Some (s, ISRSentinel)
      else map_option (\<lambda>terms. or_advance ops (s\<lparr>or_terms := terms\<rparr>))
        (traverse (\<lambda>t. if \<not> op_done ops t \<and> op_loc ops t = or_loc s
                        then map_option fst (op_next ops t) else Some t) (or_terms s)))"

definition or_seek :: "'s isr_ops \<Rightarrow> 's or_state \<Rightarrow> u32 \<Rightarrow> ('s or_state \<times> u32) option" where
  "or_seek ops s target =
     (if or_exhausted s then Some (s, ISRSentinel)
      else if or_loc s \<ge> target then Some (s, or_loc s)
      else map_option (\<lambda>terms. or_advance ops (s\<lparr>or_terms := terms\<rparr>))
        (traverse (\<lambda>t. if \<not> op_done ops t \<and> op_loc ops t < target
                        then map_option fst (op_seek ops t target) else Some t) (or_terms s)))"

definition or_ops :: "'s isr_ops \<Rightarrow> 's or_state isr_ops" where
  "or_ops ops = \<lparr>op_next = or_next ops, op_seek = or_seek ops, op_loc = or_loc, op_done = or_done\<rparr>"

subsection \<open>Its contract\<close>

definition or_rest :: "('s \<Rightarrow> u32 list) \<Rightarrow> 's or_state \<Rightarrow> u32 list" where
  "or_rest rest s = sorted_list_of_set (\<Union>t \<in> set (or_terms s). set (rest t))"

definition or_inv :: "('s \<Rightarrow> bool) \<Rightarrow> ('s \<Rightarrow> u32 list) \<Rightarrow> 's or_state \<Rightarrow> bool" where
  "or_inv ok rest s \<longleftrightarrow> (\<forall>t \<in> set (or_terms s). ok t) \<and> or_loc s = front (or_rest rest s)
     \<and> (or_exhausted s \<longleftrightarrow> or_rest rest s = [])"

lemma set_or_rest [simp]: "set (or_rest rest s) = (\<Union>t \<in> set (or_terms s). set (rest t))"
  by (simp add: or_rest_def)

lemma sorted_or_rest: "sorted_wrt (<) (or_rest rest s)"
  by (simp add: or_rest_def strict_sorted_list_of_set)

context isr_contract
begin

lemma loc_front: "ok s \<Longrightarrow> \<not> op_done ops s \<Longrightarrow> op_loc ops s = front (rest s)"
  by (simp add: done_iff loc_hd front_hd)

lemma loc_in_rest: "ok s \<Longrightarrow> \<not> op_done ops s \<Longrightarrow> op_loc ops s \<in> set (rest s)"
  by (simp add: done_iff loc_hd)

lemma or_min_fold:
  assumes "\<forall>t \<in> set ts. ok t"
  shows "(foldl (\<lambda>m t. if \<not> op_done ops t then min m (op_loc ops t) else m) m ts \<le> m)
     \<and> (\<forall>t \<in> set ts. \<forall>x \<in> set (rest t). foldl (\<lambda>m t. if \<not> op_done ops t then min m (op_loc ops t) else m) m ts \<le> x)
     \<and> (foldl (\<lambda>m t. if \<not> op_done ops t then min m (op_loc ops t) else m) m ts
           \<in> insert m (\<Union>t \<in> set ts. set (rest t)))"
  using assms
proof (induction ts arbitrary: m)
  case Nil
  then show ?case by simp
next
  case (Cons t ts)
  let ?m = "if \<not> op_done ops t then min m (op_loc ops t) else m"
  have le: "?m \<le> m" by simp
  have head: "?m \<le> x" if "x \<in> set (rest t)" for x
    using that Cons.prems rest_sorted [of t] hd_le_sorted [of "rest t" x]
    by (auto simp: done_iff loc_hd min.coboundedI2)
  have mem: "?m \<in> insert m (set (rest t))" using Cons.prems loc_in_rest by (auto simp: min_def)
  define r where "r = foldl (\<lambda>m t. if \<not> op_done ops t then min m (op_loc ops t) else m) ?m ts"
  have IH: "r \<le> ?m" "\<forall>t \<in> set ts. \<forall>x \<in> set (rest t). r \<le> x"
    "r \<in> insert ?m (\<Union>t \<in> set ts. set (rest t))"
    using Cons.IH [of ?m] Cons.prems by (simp_all add: r_def)
  have "r \<le> m" using IH(1) le by (rule order_trans)
  moreover have "\<forall>t' \<in> set (t # ts). \<forall>x \<in> set (rest t'). r \<le> x"
    using IH(2) order_trans [OF IH(1) head] by auto
  moreover have "r \<in> insert m (\<Union>t \<in> set (t # ts). set (rest t))"
    using IH(3) mem by auto
  ultimately show ?case by (simp add: r_def)
qed

lemma or_min_front:
  assumes "\<forall>t \<in> set ts. ok t"
  shows "or_min ops ts = front (sorted_list_of_set (\<Union>t \<in> set ts. set (rest t)))" (is "_ = front ?xs")
proof -
  note fold = or_min_fold [OF assms, of ISRSentinel, folded or_min_def]
  have set: "set ?xs = (\<Union>t \<in> set ts. set (rest t))" by simp
  show ?thesis
  proof (cases ?xs)
    case Nil
    then have "(\<Union>t \<in> set ts. set (rest t)) = {}" using set by (metis list.set(1))
    then show ?thesis using fold Nil by auto
  next
    case (Cons x xs)
    then have x: "x \<in> (\<Union>t \<in> set ts. set (rest t))" using set by (metis list.set_intros(1))
    then have "or_min ops ts \<le> x" using fold by blast
    moreover have "x \<noteq> ISRSentinel" using x assms rest_proper by blast
    moreover have "x \<le> y" if "y \<in> (\<Union>t \<in> set ts. set (rest t))" for y
      using hd_le_sorted [OF strict_sorted_list_of_set, of y] that set Cons by (metis list.sel(1))
    moreover have "or_min ops ts \<in> insert ISRSentinel (\<Union>t \<in> set ts. set (rest t))" using fold by blast
    ultimately have "or_min ops ts = x"
      by (metis ISRSentinel_def antisym insert_iff word_order.extremum_uniqueI)
    then show ?thesis using Cons by simp
  qed
qed

lemma or_advance_spec:
  assumes "\<forall>t \<in> set (or_terms s). ok t" and "\<not> or_exhausted s"
  shows "\<exists>s'. or_advance ops s = (s', front (or_rest rest s)) \<and> or_inv ok rest s'
           \<and> or_rest rest s' = or_rest rest s"
proof -
  have m: "or_min ops (or_terms s) = front (or_rest rest s)"
    using or_min_front [OF assms(1)] by (simp add: or_rest_def)
  have "front (or_rest rest s) = ISRSentinel \<longleftrightarrow> or_rest rest s = []"
  proof (cases "or_rest rest s")
    case (Cons x xs)
    then have "x \<in> (\<Union>t \<in> set (or_terms s). set (rest t))" using set_or_rest [of rest s] by auto
    then show ?thesis using Cons assms(1) rest_proper by auto
  qed simp
  then show ?thesis using assms
    by (auto simp: or_advance_def m Let_def or_inv_def or_rest_def)
qed

lemma or_init_spec:
  assumes "\<forall>t \<in> set terms. ok t"
  shows "or_inv ok rest (or_init ops terms)
     \<and> or_rest rest (or_init ops terms) = sorted_list_of_set (\<Union>t \<in> set terms. set (rest t))"
proof (cases "terms = []")
  case True
  then show ?thesis by (simp add: or_init_def or_inv_def or_rest_def)
next
  case False
  let ?s = "\<lparr>or_terms = terms, or_loc = 0, or_exhausted = False\<rparr>"
  have "\<exists>s'. or_advance ops ?s = (s', front (or_rest rest ?s)) \<and> or_inv ok rest s'
      \<and> or_rest rest s' = or_rest rest ?s"
    using assms by (intro or_advance_spec) simp_all
  then show ?thesis using False by (auto simp: or_init_def or_rest_def)
qed

text \<open>One pass over the children, each of which either does its operation or is left alone.\<close>

lemma or_pass:
  assumes "\<forall>t \<in> set (or_terms s). ok t" and "\<not> or_exhausted s"
    and step: "\<And>t. t \<in> set (or_terms s) \<Longrightarrow> \<exists>t'. f t = Some t' \<and> ok t' \<and> set (rest t') = set (rest t) \<inter> A"
    and xs: "sorted_wrt (<) xs" "set xs = set (or_rest rest s) \<inter> A"
  shows "\<exists>s'. map_option (\<lambda>terms. or_advance ops (s\<lparr>or_terms := terms\<rparr>)) (traverse f (or_terms s))
                = Some (s', front xs) \<and> or_inv ok rest s' \<and> or_rest rest s' = xs"
proof -
  obtain ts where ts: "traverse f (or_terms s) = Some ts"
    "list_all2 (\<lambda>t t'. ok t' \<and> set (rest t') = set (rest t) \<inter> A) (or_terms s) ts"
    using traverse_all2 [of "or_terms s" f "\<lambda>t t'. ok t' \<and> set (rest t') = set (rest t) \<inter> A"] step
    by auto
  let ?s = "s\<lparr>or_terms := ts\<rparr>"
  have ok: "\<forall>t \<in> set ts. ok t"
    by (rule list_all2_ball [of _ "or_terms s"]) (use ts(2) in \<open>auto elim: list_all2_mono\<close>)
  have "(\<Union>t \<in> set ts. set (rest t)) = (\<Union>t \<in> set (or_terms s). set (rest t) \<inter> A)"
    by (rule list_all2_UN_set) (use ts(2) in \<open>auto elim: list_all2_mono\<close>)
  then have "set (or_rest rest ?s) = set xs" using xs(2) by auto
  then have "or_rest rest ?s = xs"
    using xs(1) sorted_or_rest by (intro sorted_wrt_less_set_eqI)
  moreover have "\<exists>s'. or_advance ops ?s = (s', front (or_rest rest ?s)) \<and> or_inv ok rest s'
      \<and> or_rest rest s' = or_rest rest ?s"
    using ok assms(2) by (intro or_advance_spec) simp_all
  ultimately show ?thesis using ts(1) by simp
qed

lemma or_isr: "isr_contract (or_ops ops) aligned (or_inv ok rest) (or_rest rest)"
proof
  fix s assume s: "or_inv ok rest s"
  then have terms: "\<forall>t \<in> set (or_terms s). ok t" by (simp add: or_inv_def)
  show "sorted_wrt (<) (or_rest rest s)" by (rule sorted_or_rest)
  show "x \<noteq> ISRSentinel" if "x \<in> set (or_rest rest s)" for x
    using that terms rest_proper by auto
  show "op_done (or_ops ops) s \<longleftrightarrow> or_rest rest s = []"
    using s by (simp add: or_ops_def or_done_def or_inv_def)
  show "or_rest rest s \<noteq> [] \<Longrightarrow> op_loc (or_ops ops) s = hd (or_rest rest s)"
    using s by (simp add: or_ops_def or_inv_def front_hd)
  have exh: "\<exists>s'. (if or_exhausted s then Some (s, ISRSentinel) else r) = Some (s', front xs)
        \<and> or_inv ok rest s' \<and> or_rest rest s' = xs"
    if "or_exhausted s \<Longrightarrow> xs = []"
      "\<not> or_exhausted s \<Longrightarrow> \<exists>s'. r = Some (s', front xs) \<and> or_inv ok rest s' \<and> or_rest rest s' = xs" for r xs
    using that s by (auto simp: or_inv_def)
  show "\<exists>s'. op_next (or_ops ops) s = Some (s', front (tl (or_rest rest s))) \<and> or_inv ok rest s'
          \<and> or_rest rest s' = tl (or_rest rest s)"
    unfolding or_ops_def isr_ops.simps or_next_def
  proof (rule exh)
    assume live: "\<not> or_exhausted s"
    then have ne: "or_rest rest s \<noteq> []" and loc: "or_loc s = hd (or_rest rest s)"
      using s by (auto simp: or_inv_def front_hd)
    show "\<exists>s'. map_option (\<lambda>terms. or_advance ops (s\<lparr>or_terms := terms\<rparr>))
        (traverse (\<lambda>t. if \<not> op_done ops t \<and> op_loc ops t = or_loc s
            then map_option fst (op_next ops t) else Some t) (or_terms s))
        = Some (s', front (tl (or_rest rest s))) \<and> or_inv ok rest s' \<and> or_rest rest s' = tl (or_rest rest s)"
    proof (rule or_pass [OF terms live, where A = "- {or_loc s}"])
      fix t assume t: "t \<in> set (or_terms s)"
      then have ok: "ok t" using terms by simp
      show "\<exists>t'. (if \<not> op_done ops t \<and> op_loc ops t = or_loc s
            then map_option fst (op_next ops t) else Some t) = Some t'
            \<and> ok t' \<and> set (rest t') = set (rest t) \<inter> - {or_loc s}"
      proof (cases "\<not> op_done ops t \<and> op_loc ops t = or_loc s")
        case True
        then have "rest t \<noteq> []" "hd (rest t) = or_loc s" using ok done_iff loc_hd by auto
        then show ?thesis using True next_ex [OF ok] set_tl_sorted [OF rest_sorted [OF ok]] by auto
      next
        case False
        have "or_loc s \<notin> set (rest t)"
        proof
          assume mem: "or_loc s \<in> set (rest t)"
          then have ne: "rest t \<noteq> []" by auto
          have "hd (rest t) \<le> or_loc s" using hd_le_sorted [OF rest_sorted [OF ok] mem] .
          moreover have "or_loc s \<le> hd (rest t)"
            unfolding loc using hd_in_set [OF ne] t by (intro hd_le_sorted [OF sorted_or_rest]) auto
          ultimately show False using False ne ok done_iff loc_hd by auto
        qed
        then show ?thesis using False ok by auto
      qed
    next
      show "sorted_wrt (<) (tl (or_rest rest s))" using sorted_or_rest by (rule sorted_wrt_tl)
      show "set (tl (or_rest rest s)) = set (or_rest rest s) \<inter> - {or_loc s}"
        using set_tl_sorted [OF sorted_or_rest ne] loc by auto
    qed
  qed (use s in \<open>simp add: or_inv_def\<close>)
  fix target assume al: "aligned target"
  show "\<exists>s'. op_seek (or_ops ops) s target = Some (s', front (from_loc target (or_rest rest s)))
          \<and> or_inv ok rest s' \<and> or_rest rest s' = from_loc target (or_rest rest s)"
    unfolding or_ops_def isr_ops.simps or_seek_def
  proof (rule exh)
    assume live: "\<not> or_exhausted s"
    then have ne: "or_rest rest s \<noteq> []" and loc: "or_loc s = hd (or_rest rest s)"
      using s by (auto simp: or_inv_def front_hd)
    show "\<exists>s'. (if or_loc s \<ge> target then Some (s, or_loc s)
        else map_option (\<lambda>terms. or_advance ops (s\<lparr>or_terms := terms\<rparr>))
        (traverse (\<lambda>t. if \<not> op_done ops t \<and> op_loc ops t < target
            then map_option fst (op_seek ops t target) else Some t) (or_terms s)))
        = Some (s', front (from_loc target (or_rest rest s)))
        \<and> or_inv ok rest s' \<and> or_rest rest s' = from_loc target (or_rest rest s)"
    proof (cases "or_loc s \<ge> target")
      case True
      then have "from_loc target (or_rest rest s) = or_rest rest s"
        unfolding loc by (intro from_loc_id) simp
      then show ?thesis using True s ne loc by (simp add: front_hd)
    next
      case False
      have "\<exists>s'. map_option (\<lambda>terms. or_advance ops (s\<lparr>or_terms := terms\<rparr>))
        (traverse (\<lambda>t. if \<not> op_done ops t \<and> op_loc ops t < target
            then map_option fst (op_seek ops t target) else Some t) (or_terms s))
        = Some (s', front (from_loc target (or_rest rest s)))
        \<and> or_inv ok rest s' \<and> or_rest rest s' = from_loc target (or_rest rest s)"
      proof (rule or_pass [OF terms live, where A = "{x. target \<le> x}"])
        fix t assume t: "t \<in> set (or_terms s)"
        then have ok: "ok t" using terms by simp
        have "set (from_loc target (rest t)) = set (rest t) \<inter> {x. target \<le> x}"
          using set_from_loc [OF rest_sorted [OF ok]] by auto
        moreover have "from_loc target (rest t) = rest t"
          if "\<not> (\<not> op_done ops t \<and> op_loc ops t < target)"
          using that ok loc_hd [OF ok] done_iff [OF ok] by (intro from_loc_id) auto
        moreover obtain t' where "op_seek ops t target = Some (t', front (from_loc target (rest t)))"
          "ok t'" "rest t' = from_loc target (rest t)" using seek_ex [OF ok al] by blast
        ultimately show "\<exists>t'. (if \<not> op_done ops t \<and> op_loc ops t < target
            then map_option fst (op_seek ops t target) else Some t) = Some t'
            \<and> ok t' \<and> set (rest t') = set (rest t) \<inter> {x. target \<le> x}"
          using ok by (cases "\<not> op_done ops t \<and> op_loc ops t < target") simp_all
      next
        show "sorted_wrt (<) (from_loc target (or_rest rest s))" using sorted_or_rest by (rule sorted_from_loc)
        show "set (from_loc target (or_rest rest s)) = set (or_rest rest s) \<inter> {x. target \<le> x}"
          unfolding set_from_loc [OF sorted_or_rest] by auto
      qed
      then show ?thesis using False by simp
    qed
  qed (use s in \<open>simp add: or_inv_def\<close>)
qed

end

text \<open>The disjunction of readers of words, as the compiler builds it for a term of the query.\<close>

interpretation or_word: isr_contract "or_ops word_ops" "\<lambda>_. True" "or_inv word_inv word_rest" "or_rest word_rest"
  by (rule word.or_isr)

text \<open>C19. The disjunction of readers of words answers every sequence of calls to \<open>next\<close> and \<open>seek\<close>
  as the increasing list of the locations of any of them does, each location once.\<close>

theorem or_reader_run:
  assumes "\<forall>t \<in> set ts. word_inv t"
  shows "isr_run (or_ops word_ops) cs (or_init word_ops ts)
       = Some (list_run cs (sorted_list_of_set (\<Union>t \<in> set ts. set (word_rest t))))"
  using or_word.run_spec [of "or_init word_ops ts" cs] word.or_init_spec [OF assms] by simp

theorem or_reader_run_witness:
  "isr_run (or_ops word_ops) [CallNext, CallSeek 6, CallNext, CallNext]
     (or_init word_ops [word_of_list [2, 7], word_of_list [2, 4, 9]]) = Some [4, 7, 9, ISRSentinel]"
proof -
  have p: "posting_list [2, 7]" "posting_list [2, 4, 9]" by (rule posting_listI; simp add: ISRSentinel_def)+
  have set: "sorted_list_of_set {2, 7, 4, 9 :: u32} = [2, 4, 7, 9]"
    by (rule sorted_wrt_less_set_eqI) (auto simp: strict_sorted_list_of_set)
  show ?thesis
    using or_reader_run [of "[word_of_list [2, 7], word_of_list [2, 4, 9]]" "[CallNext, CallSeek 6, CallNext, CallNext]"]
    by (simp add: word_of_list p insert_commute set)
qed

end
