(* ===== verification/Strings.thy ===== *)
theory Strings
  imports Prelude
begin

text \<open>
  The operations of \<open>src/utils/string.hpp\<close> and \<open>string_view.hpp\<close> that the modelled code calls. A
  \<open>::string\<close> is the list of its \<open>_size\<close> characters, \<open>char\<close> is a byte, \<open>npos\<close> is \<open>None\<close>. The buffer ends
  with a NUL, at which the comparisons stop.
\<close>

subsection \<open>Characters\<close>

definition code :: "char \<Rightarrow> nat" where
  "code c = of_char c"

definition isUpperAscii :: "char \<Rightarrow> bool" where
  "isUpperAscii c \<longleftrightarrow> 65 \<le> code c \<and> code c \<le> 90"

definition isAsciiDigit :: "char \<Rightarrow> bool" where
  "isAsciiDigit c \<longleftrightarrow> 48 \<le> code c \<and> code c \<le> 57"

definition toLowerAscii :: "char \<Rightarrow> char" where
  "toLowerAscii c = (if isUpperAscii c then char_of (code c + 32) else c)"

definition lowerAscii :: "string \<Rightarrow> string" where
  "lowerAscii value = map toLowerAscii value"

text \<open>\<open>std::isspace\<close> in the C locale.\<close>

definition isSpace :: "char \<Rightarrow> bool" where
  "isSpace c \<longleftrightarrow> code c = 32 \<or> 9 \<le> code c \<and> code c \<le> 13"

lemma code_char_of [simp]: "code (char_of n) = n mod 256"
  by (simp add: code_def)

lemma code_less: "code c < 256"
  by (simp add: code_def)

lemma code_inject: "code c = code d \<longleftrightarrow> c = d"
  by (simp add: code_def)

lemma toLowerAscii_not_upper [simp]: "\<not> isUpperAscii (toLowerAscii c)"
  by (simp add: toLowerAscii_def isUpperAscii_def)

lemma toLowerAscii_id [simp]: "\<not> isUpperAscii c \<Longrightarrow> toLowerAscii c = c"
  by (simp add: toLowerAscii_def)

lemma lowerAscii_lowerAscii [simp]: "lowerAscii (lowerAscii s) = lowerAscii s"
  by (simp add: lowerAscii_def)

lemma lowerAscii_id: "\<forall>c \<in> set s. \<not> isUpperAscii c \<Longrightarrow> lowerAscii s = s"
  by (simp add: lowerAscii_def map_idI)

lemma toLowerAscii_eq_iff:
  "\<not> isUpperAscii d \<Longrightarrow> \<not> (97 \<le> code d \<and> code d \<le> 122) \<Longrightarrow> toLowerAscii c = d \<longleftrightarrow> c = d"
  using code_less [of c] by (auto simp: toLowerAscii_def isUpperAscii_def)

subsection \<open>Comparison\<close>

definition schar :: "char \<Rightarrow> int" where
  "schar c = (if code c < 128 then int (code c) else int (code c) - 256)"

text \<open>\<open>compareStrings\<close>: the end of the list is the NUL of the buffer.\<close>

fun compareStrings :: "string \<Rightarrow> string \<Rightarrow> int" where
  "compareStrings [] [] = 0"
| "compareStrings [] (b # bs) = (if code b = 0 then 0 else -1)"
| "compareStrings (a # as) [] = (if code a = 0 then 0 else 1)"
| "compareStrings (a # as) (b # bs) =
     (if code a \<noteq> 0 \<and> code b \<noteq> 0
      then (if a \<noteq> b then (if schar a < schar b then -1 else 1) else compareStrings as bs)
      else if code a = 0 \<and> code b = 0 then 0 else if code a = 0 then -1 else 1)"

definition str_eq :: "string \<Rightarrow> string \<Rightarrow> bool" where
  "str_eq s t \<longleftrightarrow> length s = length t \<and> compareStrings s t = 0"

definition str_less :: "string \<Rightarrow> string \<Rightarrow> bool" where
  "str_less s t \<longleftrightarrow> compareStrings s t < 0"

definition nul_free :: "string \<Rightarrow> bool" where
  "nul_free s \<longleftrightarrow> (\<forall>c \<in> set s. code c \<noteq> 0)"

lemma nul_free_simps [simp]: "nul_free []" "nul_free (c # s) \<longleftrightarrow> code c \<noteq> 0 \<and> nul_free s"
  by (simp_all add: nul_free_def)

text \<open>\<open>operator==\<close> with a C string.\<close>

fun cstr_eq :: "string \<Rightarrow> string \<Rightarrow> bool" where
  "cstr_eq [] [] \<longleftrightarrow> True"
| "cstr_eq [] (r # rhs) \<longleftrightarrow> code r = 0"
| "cstr_eq (c # s) [] \<longleftrightarrow> False"
| "cstr_eq (c # s) (r # rhs) \<longleftrightarrow> code r \<noteq> 0 \<and> c = r \<and> cstr_eq s rhs"

lemma cstr_eq_iff: "nul_free rhs \<Longrightarrow> cstr_eq s rhs \<longleftrightarrow> s = rhs"
  by (induction s rhs rule: cstr_eq.induct) auto

lemma schar_inject: "schar c = schar d \<longleftrightarrow> c = d"
  using code_less [of c] code_less [of d] by (auto simp: schar_def code_inject [symmetric])

lemma compareStrings_eq: "nul_free s \<Longrightarrow> nul_free t \<Longrightarrow> compareStrings s t = 0 \<longleftrightarrow> s = t"
  by (induction s t rule: compareStrings.induct) auto

lemma compareStrings_refl [simp]: "compareStrings s s = 0"
  by (induction s) auto

lemma compareStrings_anti: "nul_free s \<Longrightarrow> nul_free t \<Longrightarrow> compareStrings s t < 0 \<longleftrightarrow> compareStrings t s > 0"
proof (induction s t rule: compareStrings.induct)
  case (4 a as b bs)
  then show ?case using schar_inject [of a b] by auto
qed auto

lemma compareStrings_trans:
  "nul_free s \<Longrightarrow> nul_free t \<Longrightarrow> nul_free u \<Longrightarrow> compareStrings s t < 0 \<Longrightarrow> compareStrings t u < 0
     \<Longrightarrow> compareStrings s u < 0"
proof (induction s t arbitrary: u rule: compareStrings.induct)
  case (2 b bs)
  then show ?case by (cases u) auto
next
  case (4 a as b bs)
  then show ?case by (cases u) (auto split: if_splits)
qed auto

lemma str_eq_iff: "nul_free s \<Longrightarrow> nul_free t \<Longrightarrow> str_eq s t \<longleftrightarrow> s = t"
  by (auto simp: str_eq_def compareStrings_eq)

lemma str_less_irrefl: "\<not> str_less s s"
  by (simp add: str_less_def)

lemma str_less_trans:
  "nul_free s \<Longrightarrow> nul_free t \<Longrightarrow> nul_free u \<Longrightarrow> str_less s t \<Longrightarrow> str_less t u \<Longrightarrow> str_less s u"
  unfolding str_less_def by (rule compareStrings_trans)

lemma str_less_linear: "nul_free s \<Longrightarrow> nul_free t \<Longrightarrow> str_less s t \<or> s = t \<or> str_less t s"
  using compareStrings_eq [of s t] compareStrings_anti [of t s] unfolding str_less_def by linarith

text \<open>On strings without NUL, equality is equality of the characters and \<open>operator<\<close> is a strict
  linear order; with a NUL inside, two different strings of one size may compare equal.\<close>

theorem str_order:
  "nul_free s \<and> nul_free t \<and> nul_free u \<longrightarrow>
     (str_eq s t \<longleftrightarrow> s = t) \<and> (str_less s t \<or> s = t \<or> str_less t s) \<and> \<not> str_less s s
       \<and> (str_less s t \<longrightarrow> str_less t u \<longrightarrow> str_less s u)"
  using str_eq_iff str_less_linear str_less_irrefl str_less_trans by blast

theorem str_order_witness:
  "str_less ''ab'' ''ac'' \<and> str_eq [char_of (0::nat), CHR ''a''] [char_of (0::nat), CHR ''b'']"
proof -
  have "str_less ''ab'' ''ac'' \<or> ''ab'' = ''ac'' \<or> str_less ''ac'' ''ab''"
    using str_order [of "''ab''" "''ac''" "''''"] by (simp add: code_def)
  moreover have "\<not> str_less ''ac'' ''ab''" by (simp add: str_less_def schar_def code_def)
  ultimately show ?thesis by (simp add: str_eq_def)
qed

subsection \<open>Searching\<close>

fun find_if :: "('a \<Rightarrow> bool) \<Rightarrow> 'a list \<Rightarrow> nat option" where
  "find_if P [] = None"
| "find_if P (x # xs) = (if P x then Some 0 else map_option Suc (find_if P xs))"

definition find_char :: "char \<Rightarrow> string \<Rightarrow> nat option" where
  "find_char c s = find_if (\<lambda>x. x = c) s"

definition find_char_from :: "char \<Rightarrow> nat \<Rightarrow> string \<Rightarrow> nat option" where
  "find_char_from c pos s = map_option (\<lambda>i. pos + i) (find_char c (drop pos s))"

definition find_first_of :: "string \<Rightarrow> string \<Rightarrow> nat option" where
  "find_first_of cs s = find_if (\<lambda>x. x \<in> set cs) s"

text \<open>\<open>find(const char *)\<close>, for a needle that is not empty.\<close>

fun find_sub :: "string \<Rightarrow> string \<Rightarrow> nat option" where
  "find_sub sub [] = None"
| "find_sub sub (c # s) =
     (if length sub > length (c # s) then None
      else if take (length sub) (c # s) = sub then Some 0
      else map_option Suc (find_sub sub s))"

text \<open>The loops that look for a character from the end.\<close>

definition rfind_char :: "char \<Rightarrow> string \<Rightarrow> nat option" where
  "rfind_char c s = map_option (\<lambda>i. length s - 1 - i) (find_char c (rev s))"

lemma find_if_Some:
  "find_if P xs = Some i \<longleftrightarrow> i < length xs \<and> P (xs ! i) \<and> (\<forall>j < i. \<not> P (xs ! j))"
proof (induction xs arbitrary: i)
  case (Cons x xs)
  show ?case
  proof (cases "P x")
    case True
    then show ?thesis by (cases i) force+
  next
    case False
    then show ?thesis using Cons by (cases i) (auto simp: less_Suc_eq_0_disj)
  qed
qed simp

lemma find_if_None: "find_if P xs = None \<longleftrightarrow> (\<forall>x \<in> set xs. \<not> P x)"
  by (induction xs) auto

lemma find_char_Some: "find_char c s = Some i \<Longrightarrow> i < length s \<and> s ! i = c"
  by (simp add: find_char_def find_if_Some)

lemma rfind_char_Some:
  assumes "rfind_char c s = Some i"
  shows "i < length s" and "s ! i = c" and "\<And>j. i < j \<Longrightarrow> j < length s \<Longrightarrow> s ! j \<noteq> c"
proof -
  obtain k where k: "i = length s - 1 - k" "k < length s" "rev s ! k = c" "\<forall>j < k. rev s ! j \<noteq> c"
    using assms by (auto simp: rfind_char_def find_char_def find_if_Some)
  then show "i < length s" "s ! i = c" by (auto simp: rev_nth)
  show "s ! j \<noteq> c" if "i < j" "j < length s" for j
    using k(4) [rule_format, of "length s - 1 - j"] that k(1,2) by (simp add: rev_nth)
qed

lemma rfind_char_None: "rfind_char c s = None \<longleftrightarrow> c \<notin> set s"
  by (auto simp: rfind_char_def find_char_def find_if_None)

subsection \<open>Splitting at a character, the reference for the loops that count fields\<close>

fun split_on :: "'a \<Rightarrow> 'a list \<Rightarrow> 'a list list" where
  "split_on c [] = [[]]"
| "split_on c (x # xs) =
     (if x = c then [] # split_on c xs
      else (x # hd (split_on c xs)) # tl (split_on c xs))"

lemma split_on_ne [simp]: "split_on c xs \<noteq> []"
  by (cases xs) auto

lemma split_on_none: "c \<notin> set xs \<Longrightarrow> split_on c xs = [xs]"
  by (induction xs) auto

lemma split_on_append: "c \<notin> set xs \<Longrightarrow> split_on c (xs @ c # ys) = xs # split_on c ys"
  by (induction xs) auto

lemma split_on_snoc: "split_on c (xs @ c # ys) = split_on c xs @ split_on c ys"
  by (induction xs) auto

lemma split_on_no_sep: "s \<in> set (split_on c xs) \<Longrightarrow> c \<notin> set s"
proof (induction xs arbitrary: s)
  case (Cons x xs)
  have "hd (split_on c xs) \<in> set (split_on c xs)" by simp
  then show ?case using Cons by (cases "split_on c xs") (auto split: if_splits)
qed simp

lemma concat_split_on:
  assumes "c \<notin> set x" and "\<forall>y \<in> set xs. c \<notin> set y"
  shows "split_on c (x @ concat (map (\<lambda>y. c # y) xs)) = x # xs"
  using assms
proof (induction xs arbitrary: x)
  case Nil
  then show ?case by (simp add: split_on_none)
next
  case (Cons y ys)
  then show ?case by (simp add: split_on_append)
qed

end
