(* ===== verification/Stemmer.thy ===== *)
theory Stemmer
  imports Strings
begin

text \<open>
  \<open>PorterStemmer\<close> of \<open>src/index/src/lib/tokenizer.h\<close>. The steps that change a string in place take it
  and return it; a view of a prefix is \<open>take\<close>. The lemmas give the two loops over vowels their
  meaning and show that no step empties a word, lengthens it or changes its first letter.
\<close>

definition isAsciiVowel :: "char \<Rightarrow> bool" where
  "isAsciiVowel c \<longleftrightarrow> c = CHR ''a'' \<or> c = CHR ''e'' \<or> c = CHR ''i'' \<or> c = CHR ''o'' \<or> c = CHR ''u''"

definition ends_with :: "string \<Rightarrow> string \<Rightarrow> bool" where
  "ends_with value ending \<longleftrightarrow> length ending \<le> length value \<and> drop (length value - length ending) value = ending"

fun isVowel :: "string \<Rightarrow> nat \<Rightarrow> bool" where
  "isVowel w 0 = isAsciiVowel (w ! 0)"
| "isVowel w (Suc i) = (if isAsciiVowel (w ! Suc i) then True
     else if w ! Suc i = CHR ''y'' then \<not> isVowel w i else False)"

text \<open>The loops of \<open>getMeasure\<close> and \<open>containsVowel\<close>, at position \<open>i\<close> of the word.\<close>

fun measure_loop :: "nat \<Rightarrow> bool \<Rightarrow> bool \<Rightarrow> nat \<Rightarrow> string \<Rightarrow> nat" where
  "measure_loop i prev_is_vowel in_vowel_run m [] = m"
| "measure_loop i prev_is_vowel in_vowel_run m (c # cs) =
     (let is_vowel = isAsciiVowel c \<or> (c = CHR ''y'' \<and> 0 < i \<and> \<not> prev_is_vowel)
      in if is_vowel then measure_loop (Suc i) is_vowel True m cs
         else if in_vowel_run then measure_loop (Suc i) is_vowel False (m + 1) cs
         else measure_loop (Suc i) is_vowel False m cs)"

definition getMeasure :: "string \<Rightarrow> nat" where
  "getMeasure w = measure_loop 0 False False 0 w"

fun vowel_loop :: "nat \<Rightarrow> bool \<Rightarrow> string \<Rightarrow> bool" where
  "vowel_loop i prev_is_vowel [] = False"
| "vowel_loop i prev_is_vowel (c # cs) =
     (let is_vowel = isAsciiVowel c \<or> (c = CHR ''y'' \<and> 0 < i \<and> \<not> prev_is_vowel)
      in if is_vowel then True else vowel_loop (Suc i) is_vowel cs)"

definition containsVowel :: "string \<Rightarrow> bool" where
  "containsVowel w = vowel_loop 0 False w"

definition endsWithDoubleConsonant :: "string \<Rightarrow> bool" where
  "endsWithDoubleConsonant w =
     (if length w < 2 then False
      else w ! (length w - 1) = w ! (length w - 2) \<and> \<not> isVowel w (length w - 1))"

definition ends_cvc :: "string \<Rightarrow> bool" where
  "ends_cvc w =
     (let n = length w
      in if n < 3 then False
         else let c = w ! (n - 1)
              in if isVowel w (n - 1) \<or> \<not> isVowel w (n - 2) \<or> isVowel w (n - 3) then False
                 else c \<noteq> CHR ''w'' \<and> c \<noteq> CHR ''x'' \<and> c \<noteq> CHR ''y'')"

text \<open>\<open>but n w\<close> is the prefix \<open>substr(0, w.length() - n)\<close>.\<close>

definition but :: "nat \<Rightarrow> string \<Rightarrow> string" where
  "but n w = take (length w - n) w"

definition step1_plural :: "string \<Rightarrow> string" where
  "step1_plural w =
     (if ends_with w ''sses'' then but 2 w
      else if ends_with w ''ies'' then but 3 w @ ''i''
      else if ends_with w ''s'' \<and> \<not> ends_with w ''ss'' then but 1 w
      else w)"

definition step1_past :: "string \<Rightarrow> string \<times> bool" where
  "step1_past w =
     (if ends_with w ''eed'' then (if 0 < getMeasure (but 3 w) then but 1 w else w, False)
      else if ends_with w ''ed'' then (if containsVowel (but 2 w) then (but 2 w, True) else (w, False))
      else if ends_with w ''ing'' then (if containsVowel (but 3 w) then (but 3 w, True) else (w, False))
      else (w, False))"

definition step1_cleanup :: "string \<Rightarrow> string" where
  "step1_cleanup w =
     (if ends_with w ''at'' \<or> ends_with w ''bl'' \<or> ends_with w ''iz'' then w @ ''e''
      else if endsWithDoubleConsonant w \<and> \<not> ends_with w ''l'' \<and> \<not> ends_with w ''s'' \<and> \<not> ends_with w ''z''
      then but 1 w
      else if getMeasure w = 1 \<and> ends_cvc w then w @ ''e''
      else w)"

definition step1_y :: "string \<Rightarrow> string" where
  "step1_y w = (if ends_with w ''y'' \<and> containsVowel (but 1 w) then w[length w - 1 := CHR ''i''] else w)"

definition step1 :: "string \<Rightarrow> string" where
  "step1 w = (let (w', do_cleanup) = step1_past (step1_plural w)
              in step1_y (if do_cleanup then step1_cleanup w' else w'))"

text \<open>The loop of steps 2 and 3: the first suffix of the table that the word has decides.\<close>

fun replace_suffix :: "(string \<times> string) list \<Rightarrow> string \<Rightarrow> string" where
  "replace_suffix [] w = w"
| "replace_suffix ((suffix, rep) # subs) w =
     (if ends_with w suffix
      then (if 0 < getMeasure (but (length suffix) w) then but (length suffix) w @ rep else w)
      else replace_suffix subs w)"

definition step2_subs :: "(string \<times> string) list" where
  "step2_subs =
     [(''ational'', ''ate''), (''tional'', ''tion''), (''enci'', ''ence''), (''anci'', ''ance''),
      (''izer'', ''ize''), (''abli'', ''able''), (''alli'', ''al''), (''entli'', ''ent''),
      (''eli'', ''e''), (''ousli'', ''ous''), (''ization'', ''ize''), (''ation'', ''ate''),
      (''ator'', ''ate''), (''alism'', ''al''), (''iveness'', ''ive''), (''fulness'', ''ful''),
      (''ousness'', ''ous''), (''aliti'', ''al''), (''iviti'', ''ive''), (''biliti'', ''ble'')]"

definition step2 :: "string \<Rightarrow> string" where
  "step2 w = replace_suffix step2_subs w"

definition step3_subs :: "(string \<times> string) list" where
  "step3_subs = [(''icate'', ''ic''), (''ative'', ''''), (''alize'', ''al''), (''iciti'', ''ic''),
                 (''ical'', ''ic''), (''ful'', ''''), (''ness'', '''')]"

definition step3 :: "string \<Rightarrow> string" where
  "step3 w = replace_suffix step3_subs w"

definition step4_suffixes :: "string list" where
  "step4_suffixes = [''al'', ''ance'', ''ence'', ''er'', ''ic'', ''able'', ''ible'', ''ant'', ''ement'',
                     ''ment'', ''ent'', ''ou'', ''ism'', ''ate'', ''iti'', ''ous'', ''ive'', ''ize'']"

fun drop_suffix :: "string list \<Rightarrow> string \<Rightarrow> string option" where
  "drop_suffix [] w = None"
| "drop_suffix (s # ss) w =
     (if ends_with w s
      then Some (if 1 < getMeasure (but (length s) w) then but (length s) w else w)
      else drop_suffix ss w)"

definition step4 :: "string \<Rightarrow> string" where
  "step4 w =
     (case drop_suffix step4_suffixes w of
        Some w' \<Rightarrow> w'
      | None \<Rightarrow>
          if ends_with w ''ion'' \<and> 1 < getMeasure (but 3 w)
             \<and> (ends_with (but 3 w) ''s'' \<or> ends_with (but 3 w) ''t'')
          then but 3 w else w)"

definition step5 :: "string \<Rightarrow> string" where
  "step5 w =
     (let m = getMeasure (but 1 w);
          w' = (if ends_with w ''e'' \<and> (1 < m \<or> (m = 1 \<and> \<not> ends_cvc (but 1 w))) then but 1 w else w)
      in if 1 < getMeasure w' \<and> endsWithDoubleConsonant w' \<and> ends_with w' ''l'' then but 1 w' else w')"

definition stem :: "string \<Rightarrow> string" where
  "stem token =
     (if length token \<le> 2 then token
      else let w = step1 token
           in if 2 < length w then step5 (step4 (step3 (step2 w))) else w)"

subsection \<open>Vowels\<close>

lemma isVowel_step:
  assumes "i < length w"
  shows "isVowel w i \<longleftrightarrow> isAsciiVowel (w ! i) \<or> (w ! i = CHR ''y'' \<and> 0 < i \<and> \<not> (0 < i \<and> isVowel w (i - 1)))"
  by (cases i) auto

lemma measure_loop_spec:
  assumes "i \<le> length w" and "p = (0 < i \<and> isVowel w (i - 1))"
  shows "measure_loop i p p m (drop i w)
       = m + length (filter (\<lambda>j. 0 < j \<and> isVowel w (j - 1) \<and> \<not> isVowel w j) [i..<length w])"
  using assms
proof (induction "length w - i" arbitrary: i p m)
  case (Suc n)
  then have i: "i < length w" by simp
  let ?v = "isVowel w i"
  have drop: "drop i w = w ! i # drop (Suc i) w" using i by (simp add: Cons_nth_drop_Suc)
  have v: "?v \<longleftrightarrow> isAsciiVowel (w ! i) \<or> (w ! i = CHR ''y'' \<and> 0 < i \<and> \<not> p)"
    unfolding Suc.prems(2) using i by (rule isVowel_step)
  have IH: "measure_loop (Suc i) ?v ?v m' (drop (Suc i) w)
      = m' + length (filter (\<lambda>j. 0 < j \<and> isVowel w (j - 1) \<and> \<not> isVowel w j) [Suc i..<length w])" for m'
    using Suc.hyps(2) i by (intro Suc.hyps(1)) simp_all
  have upt: "[i..<length w] = i # [Suc i..<length w]" using i by (rule upt_conv_Cons)
  have "measure_loop i p p m (drop i w)
      = measure_loop (Suc i) ?v ?v (if \<not> ?v \<and> p then m + 1 else m) (drop (Suc i) w)"
    unfolding drop by (simp add: Let_def v [symmetric])
  then show ?case using Suc.prems(2) by (auto simp: IH upt)
qed simp

text \<open>The measure is the number of times a consonant follows a vowel, in the sense of \<open>isVowel\<close>: the
  loop, which keeps the two last vowel flags, agrees with the recursive definition.\<close>

theorem getMeasure_counts:
  "getMeasure w = length (filter (\<lambda>j. 0 < j \<and> isVowel w (j - 1) \<and> \<not> isVowel w j) [0..<length w])"
  using measure_loop_spec [of 0 w False 0] by (simp add: getMeasure_def)

lemma vowel_loop_spec:
  assumes "i \<le> length w" and "p = (0 < i \<and> isVowel w (i - 1))" and "\<not> p"
  shows "vowel_loop i p (drop i w) \<longleftrightarrow> (\<exists>j. i \<le> j \<and> j < length w \<and> isVowel w j)"
  using assms
proof (induction "length w - i" arbitrary: i p)
  case 0
  then show ?case by simp
next
  case (Suc n)
  then have i: "i < length w" by simp
  have drop: "drop i w = w ! i # drop (Suc i) w" using i by (simp add: Cons_nth_drop_Suc)
  have v: "isVowel w i \<longleftrightarrow> isAsciiVowel (w ! i) \<or> (w ! i = CHR ''y'' \<and> 0 < i \<and> \<not> p)"
    unfolding Suc.prems(2) using i by (rule isVowel_step)
  show ?case
  proof (cases "isVowel w i")
    case True
    then show ?thesis using i unfolding drop by (auto simp: Let_def v [symmetric])
  next
    case False
    have "vowel_loop (Suc i) False (drop (Suc i) w) \<longleftrightarrow> (\<exists>j. Suc i \<le> j \<and> j < length w \<and> isVowel w j)"
      using Suc.hyps(2) i False by (intro Suc.hyps(1)) simp_all
    moreover have "vowel_loop i p (drop i w) = vowel_loop (Suc i) False (drop (Suc i) w)"
      using False unfolding drop by (simp add: Let_def v [symmetric])
    ultimately show ?thesis using False by (metis Suc_leD le_antisym not_less_eq_eq)
  qed
qed

lemma containsVowel_iff: "containsVowel w \<longleftrightarrow> (\<exists>j < length w. isVowel w j)"
  using vowel_loop_spec [of 0 w False] by (simp add: containsVowel_def)

lemma getMeasure_pos: "0 < getMeasure w \<Longrightarrow> 2 \<le> length w"
  using measure_loop_spec [of 0 w False 0]
  by (cases w rule: remdups_adj.cases) (simp_all add: getMeasure_def)

subsection \<open>What stemming keeps\<close>

definition keeps :: "string \<Rightarrow> string \<Rightarrow> bool" where
  "keeps w w' \<longleftrightarrow> w' \<noteq> [] \<and> hd w' = hd w \<and> length w' \<le> length w"

lemma keeps_refl: "w \<noteq> [] \<Longrightarrow> keeps w w"
  by (simp add: keeps_def)

lemma keeps_trans: "keeps w w' \<Longrightarrow> keeps w' w'' \<Longrightarrow> keeps w w''"
  by (simp add: keeps_def)

lemma keeps_but: "but n w \<noteq> [] \<Longrightarrow> length rep \<le> n \<Longrightarrow> keeps w (but n w @ rep)"
  by (cases w) (auto simp: keeps_def but_def take_Cons')

lemma but_ne: "n < length w \<Longrightarrow> but n w \<noteq> []"
  by (auto simp: but_def)

lemma ends_with_length: "ends_with w s \<Longrightarrow> length s \<le> length w"
  by (simp add: ends_with_def)

lemma but_measure_ne: "0 < getMeasure (but n w) \<Longrightarrow> but n w \<noteq> []"
  by (auto dest: getMeasure_pos)

lemma but_vowel_ne: "containsVowel (but n w) \<Longrightarrow> but n w \<noteq> []"
  by (auto simp: containsVowel_iff)

lemma replace_suffix_keeps:
  assumes "\<forall>(s, r) \<in> set subs. length r \<le> length s" and "w \<noteq> []"
  shows "keeps w (replace_suffix subs w)"
  using assms
proof (induction subs w rule: replace_suffix.induct)
  case (2 suffix rep subs w)
  have "keeps w (but (length suffix) w @ rep)" if "0 < getMeasure (but (length suffix) w)"
    using 2(2) by (intro keeps_but but_measure_ne that) simp
  then show ?case using 2 by (simp add: keeps_refl)
qed (simp add: keeps_refl)

lemma step2_keeps: "w \<noteq> [] \<Longrightarrow> keeps w (step2 w)"
  unfolding step2_def by (rule replace_suffix_keeps) (simp_all add: step2_subs_def)

lemma step3_keeps: "w \<noteq> [] \<Longrightarrow> keeps w (step3 w)"
  unfolding step3_def by (rule replace_suffix_keeps) (simp_all add: step3_subs_def)

lemma keeps_but_only: "but n w \<noteq> [] \<Longrightarrow> keeps w (but n w)"
  using keeps_but [of n w "[]"] by simp

lemma drop_suffix_keeps: "w \<noteq> [] \<Longrightarrow> drop_suffix ss w = Some w' \<Longrightarrow> keeps w w'"
  by (induction ss w rule: drop_suffix.induct)
    (auto split: if_splits intro!: keeps_refl keeps_but_only but_measure_ne)

lemma step4_keeps: "w \<noteq> [] \<Longrightarrow> keeps w (step4 w)"
  by (auto simp: step4_def split: option.split
      intro!: drop_suffix_keeps keeps_refl keeps_but_only but_measure_ne)

lemma step5_keeps:
  assumes "w \<noteq> []"
  shows "keeps w (step5 w)"
proof -
  define w' where "w' = (if ends_with w ''e'' \<and> (1 < getMeasure (but 1 w)
      \<or> (getMeasure (but 1 w) = 1 \<and> \<not> ends_cvc (but 1 w))) then but 1 w else w)"
  have "keeps w w'" using assms
    by (auto simp: w'_def intro!: keeps_refl keeps_but_only but_measure_ne)
  moreover have "step5 w = (if 1 < getMeasure w' \<and> endsWithDoubleConsonant w' \<and> ends_with w' ''l''
      then but 1 w' else w')" by (simp add: step5_def w'_def Let_def)
  moreover have "keeps w' (but 1 w')" if "1 < getMeasure w'"
    using that getMeasure_pos [of w'] by (intro keeps_but_only but_ne) simp
  ultimately show ?thesis using keeps_trans by auto
qed

lemma length_but_less: "0 < n \<Longrightarrow> but n w \<noteq> [] \<Longrightarrow> length (but n w) < length w"
  by (auto simp: but_def)

lemma step1_past_keeps:
  assumes "u \<noteq> []" and "step1_past u = (v, b)"
  shows "keeps u v" and "b \<Longrightarrow> length v < length u"
proof -
  have eed: "but (Suc 0) u \<noteq> []" if "ends_with u ''eed''"
    using ends_with_length [OF that] by (intro but_ne) simp
  show "keeps u v"
    using assms eed by (auto simp: step1_past_def split: if_splits
        intro!: keeps_refl keeps_but_only but_vowel_ne)
  show "length v < length u" if b
    using assms that by (auto simp: step1_past_def split: if_splits intro!: length_but_less but_vowel_ne)
qed

lemma step1_keeps:
  assumes "2 < length w"
  shows "keeps w (step1 w)"
proof -
  have "w \<noteq> []" using assms by auto
  have p: "keeps w (step1_plural w)"
  proof (cases "ends_with w ''ies'' \<and> \<not> ends_with w ''sses''")
    case True
    show ?thesis
    proof (cases "length w = 3")
      case True
      then show ?thesis using \<open>ends_with w ''ies'' \<and> _\<close>
        by (auto simp: step1_plural_def but_def keeps_def ends_with_def)
    next
      case False
      then show ?thesis using True assms keeps_but [of 3 w "''i''"] but_ne [of 3 w]
        by (simp add: step1_plural_def)
    qed
  next
    case False
    then show ?thesis using assms \<open>w \<noteq> []\<close>
      by (auto simp: step1_plural_def intro!: keeps_refl keeps_but_only but_ne)
  qed
  let ?u = "step1_plural w"
  have "?u \<noteq> []" using p by (simp add: keeps_def)
  obtain v b where v: "step1_past ?u = (v, b)" by (cases "step1_past ?u")
  note past = step1_past_keeps(1) [OF \<open>?u \<noteq> []\<close> v] and less = step1_past_keeps(2) [OF \<open>?u \<noteq> []\<close> v]
  have "keeps ?u (if b then step1_cleanup v else v)"
  proof (cases b)
    case True
    have "v \<noteq> []" using past by (simp add: keeps_def)
    moreover have "endsWithDoubleConsonant v \<Longrightarrow> keeps v (but 1 v)"
      by (intro keeps_but_only but_ne) (simp add: endsWithDoubleConsonant_def split: if_splits)
    ultimately show ?thesis using past less True by (auto simp: step1_cleanup_def keeps_def)
  qed (use past in simp)
  moreover have "keeps x (step1_y x)" if "x \<noteq> []" for x
  proof (cases "containsVowel (but 1 x)")
    case True
    then have "but 1 x \<noteq> []" by (rule but_vowel_ne)
    then have "2 \<le> length x" by (auto simp: but_def)
    then show ?thesis using that by (auto simp: step1_y_def keeps_def hd_conv_nth)
  qed (use that in \<open>simp add: step1_y_def keeps_refl\<close>)
  ultimately have "keeps ?u (step1_y (if b then step1_cleanup v else v))"
    using keeps_trans keeps_def by blast
  then show ?thesis
    unfolding step1_def v Let_def prod.case by (rule keeps_trans [OF p])
qed

lemma stem_keeps:
  assumes "token \<noteq> []"
  shows "keeps token (stem token)"
proof (cases "length token \<le> 2")
  case False
  then have 1: "keeps token (step1 token)" by (intro step1_keeps) simp
  then have ne: "step1 token \<noteq> []" by (simp add: keeps_def)
  note k2 = step2_keeps [OF ne]
  have k3: "keeps (step1 token) (step3 (step2 (step1 token)))"
    using k2 keeps_trans step3_keeps keeps_def by meson
  have k4: "keeps (step1 token) (step4 (step3 (step2 (step1 token))))"
    using k3 keeps_trans step4_keeps keeps_def by meson
  have "keeps (step1 token) (step5 (step4 (step3 (step2 (step1 token)))))"
    using k4 keeps_trans step5_keeps keeps_def by meson
  then show ?thesis using 1 False keeps_trans by (auto simp: stem_def Let_def)
qed (use assms in \<open>simp add: stem_def keeps_refl\<close>)

lemma stem_Nil [simp]: "stem [] = []"
  by (simp add: stem_def)

lemma stem_eq_Nil [simp]: "stem w = [] \<longleftrightarrow> w = []"
  using stem_keeps [of w] by (cases w) (auto simp: keeps_def)

lemma Nil_eq_stem [simp]: "[] = stem w \<longleftrightarrow> w = []"
  by (subst eq_commute) (rule stem_eq_Nil)

text \<open>Stemming a word gives a word: it is not empty, begins with the same letter and is not longer. No
  step reads or cuts before the beginning of the word.\<close>

theorem stem_word:
  assumes "token \<noteq> []"
  shows "stem token \<noteq> [] \<and> hd (stem token) = hd token \<and> length (stem token) \<le> length token"
  using stem_keeps [OF assms] by (simp add: keeps_def)

theorem stem_word_witness:
  "stem ''relational'' \<noteq> [] \<and> hd (stem ''relational'') = CHR ''r'' \<and> length (stem ''relational'') \<le> 10"
  using stem_word [of "''relational''"] by simp

end
