(* ===== verification/UrlFeatures.thy ===== *)
theory UrlFeatures
  imports Strings Types
begin

text \<open>
  What a document's URL tells the ranking, \<open>src/index/src/lib/url_features.cpp\<close>, and the features of a
  parsed document, \<open>document_features.cpp\<close>. The counting loops are recursions over the index or the
  characters they run over; each is proved equal to a description by fields (\<open>split_on\<close>).
\<close>

subsection \<open>Counting loops\<close>

definition path_end_of :: "string \<Rightarrow> nat" where
  "path_end_of path = (case find_first_of ''?#'' path of None \<Rightarrow> length path | Some query_pos \<Rightarrow> query_pos)"

definition computePathDepth :: "string \<Rightarrow> nat" where
  "computePathDepth path =
     (if length path = 0 then 0
      else let path_end = path_end_of path
           in if path_end = 0 then 0
              else let path_end' = (if path_end > 1 \<and> path ! (path_end - 1) = CHR ''/''
                                    then path_end - 1 else path_end)
                   in length (filter (\<lambda>c. c = CHR ''/'') (take path_end' path)))"

text \<open>The loop from the end that looks for the two last dots; the arguments are the loop variable and
  \<open>last_dot\<close>.\<close>

fun dot_loop :: "string \<Rightarrow> nat \<Rightarrow> nat option \<Rightarrow> nat option \<times> nat option" where
  "dot_loop host 0 last_dot = (last_dot, None)"
| "dot_loop host (Suc i) last_dot =
     (if host ! i = CHR ''.''
      then (case last_dot of None \<Rightarrow> dot_loop host i (Some i) | Some l \<Rightarrow> (Some l, Some i))
      else dot_loop host i last_dot)"

definition computeBaseDomainLength :: "string \<Rightarrow> nat" where
  "computeBaseDomainLength host =
     (if length host = 0 then 0
      else case dot_loop host (length host) None of
        (None, _) \<Rightarrow> length host
      | (Some last_dot, None) \<Rightarrow> last_dot
      | (Some last_dot, Some second_last_dot) \<Rightarrow> last_dot - second_last_dot - 1)"

function query_params_loop :: "string \<Rightarrow> nat \<Rightarrow> nat \<Rightarrow> nat \<Rightarrow> nat \<Rightarrow> nat" where
  "query_params_loop path query_end i segment_start param_count =
     (if i \<le> query_end
      then (if i = query_end \<or> path ! i = CHR ''&''
            then query_params_loop path query_end (i + 1) (i + 1)
                   (if i > segment_start then param_count + 1 else param_count)
            else query_params_loop path query_end (i + 1) segment_start param_count)
      else param_count)"
  by pat_completeness auto
termination
  by (relation "measure (\<lambda>(path, query_end, i, s, c). Suc query_end - i)") auto

declare query_params_loop.simps [simp del]

definition countQueryParams :: "string \<Rightarrow> nat" where
  "countQueryParams path =
     (case find_char (CHR ''?'') path of
        None \<Rightarrow> 0
      | Some question_pos \<Rightarrow>
          (case find_char (CHR ''#'') path of
             None \<Rightarrow> query_params_loop path (length path) (question_pos + 1) (question_pos + 1) 0
           | Some fragment_pos \<Rightarrow>
               if fragment_pos < question_pos then 0
               else query_params_loop path fragment_pos (question_pos + 1) (question_pos + 1) 0))"

definition countNumericPathChars :: "string \<Rightarrow> nat" where
  "countNumericPathChars path = length (filter isAsciiDigit (take (path_end_of path) path))"

definition countChar :: "string \<Rightarrow> char \<Rightarrow> nat" where
  "countChar value needle = length (filter (\<lambda>c. c = needle) value)"

text \<open>The loop of \<open>looksLikeIpv4Address\<close>. The counters never pass 2559, so \<open>nat\<close> stands for 32 bits.\<close>

fun ipv4_loop :: "nat \<Rightarrow> nat \<Rightarrow> nat \<Rightarrow> string \<Rightarrow> bool" where
  "ipv4_loop segment_count segment_value segment_length [] =
     (if segment_length = 0 then False else segment_count + 1 = 4)"
| "ipv4_loop segment_count segment_value segment_length (ch # chs) =
     (if isAsciiDigit ch
      then (let value' = segment_value * 10 + (code ch - 48);
                length' = segment_length + 1
            in if length' > 3 \<or> value' > 255 then False
               else ipv4_loop segment_count value' length' chs)
      else if ch \<noteq> CHR ''.'' then False
      else if segment_length = 0 then False
      else ipv4_loop (segment_count + 1) 0 0 chs)"

definition looksLikeIpv4Address :: "string \<Rightarrow> bool" where
  "looksLikeIpv4Address host = (if length host = 0 then False else ipv4_loop 0 0 0 host)"

subsection \<open>\<open>parseUrl\<close>\<close>

record ParsedUrl =
  host :: string
  url_path :: string
  tld :: string
  p_path_depth :: nat
  p_base_domain_length :: nat
  p_query_param_count :: nat
  p_numeric_path_char_count :: nat
  p_domain_hyphen_count :: nat
  is_ip_address :: bool

definition empty_parsed_url :: ParsedUrl where
  "empty_parsed_url = \<lparr>host = [], url_path = [], tld = [], p_path_depth = 0, p_base_domain_length = 0,
     p_query_param_count = 0, p_numeric_path_char_count = 0, p_domain_hyphen_count = 0, is_ip_address = False\<rparr>"

text \<open>The authority and the path, the authority without the user, then without the port, the last label.\<close>

definition url_remainder :: "string \<Rightarrow> string" where
  "url_remainder url = (case find_sub ''://'' url of None \<Rightarrow> url | Some scheme_pos \<Rightarrow> drop (scheme_pos + 3) url)"

definition split_authority :: "string \<Rightarrow> string \<times> string" where
  "split_authority remainder =
     (case find_first_of ''/?#'' remainder of
        None \<Rightarrow> (remainder, [])
      | Some host_end \<Rightarrow> (take host_end remainder, drop host_end remainder))"

definition drop_user :: "string \<Rightarrow> string" where
  "drop_user h = (case rfind_char (CHR ''@'') h of
     None \<Rightarrow> h | Some at_pos \<Rightarrow> if at_pos + 1 < length h then drop (at_pos + 1) h else h)"

definition drop_port :: "string \<Rightarrow> string" where
  "drop_port h = (case find_char (CHR '':'') h of None \<Rightarrow> h | Some port_pos \<Rightarrow> take port_pos h)"

definition tld_of :: "string \<Rightarrow> string" where
  "tld_of h = (case rfind_char (CHR ''.'') h of
     None \<Rightarrow> [] | Some last_dot \<Rightarrow> if last_dot + 1 < length h then lowerAscii (drop (last_dot + 1) h) else [])"

definition parseUrl :: "string \<Rightarrow> ParsedUrl" where
  "parseUrl url =
     (if length url = 0 then empty_parsed_url
      else let (authority, path) = split_authority (url_remainder url);
               h = drop_port (drop_user authority)
           in \<lparr>host = h, url_path = path, tld = tld_of h,
               p_path_depth = computePathDepth path,
               p_base_domain_length = computeBaseDomainLength h,
               p_query_param_count = countQueryParams path,
               p_numeric_path_char_count = countNumericPathChars path,
               p_domain_hyphen_count = countChar h (CHR ''-''),
               is_ip_address = looksLikeIpv4Address h\<rparr>)"

definition sat8 :: "nat \<Rightarrow> u8" where "sat8 n = of_nat (min n 255)"
definition sat16 :: "nat \<Rightarrow> u16" where "sat16 n = of_nat (min n 65535)"

definition urlBaseDomainLength :: "ParsedUrl \<Rightarrow> u8" where
  "urlBaseDomainLength parsed = sat8 (p_base_domain_length parsed)"
definition urlPathLength :: "ParsedUrl \<Rightarrow> u16" where
  "urlPathLength parsed = sat16 (length (url_path parsed))"
definition urlPathDepth :: "ParsedUrl \<Rightarrow> u8" where
  "urlPathDepth parsed = sat8 (p_path_depth parsed)"
definition urlQueryParamCount :: "ParsedUrl \<Rightarrow> u8" where
  "urlQueryParamCount parsed = sat8 (p_query_param_count parsed)"
definition urlNumericPathCharCount :: "ParsedUrl \<Rightarrow> u8" where
  "urlNumericPathCharCount parsed = sat8 (p_numeric_path_char_count parsed)"
definition urlDomainHyphenCount :: "ParsedUrl \<Rightarrow> u8" where
  "urlDomainHyphenCount parsed = sat8 (p_domain_hyphen_count parsed)"

definition urlHasHttps :: "string \<Rightarrow> bool" where
  "urlHasHttps url \<longleftrightarrow> 8 \<le> length url \<and> take 8 url = ''https://''"

subsection \<open>Features of a parsed document\<close>

text \<open>What the index reads of a \<open>HtmlParser\<close> (\<open>src/parser/HtmlParser.h\<close>) after it has run.\<close>

record Link =
  link_url :: string
  anchorText :: "string list"

record HtmlDoc =
  words :: "string list"
  titleWords :: "string list"
  links :: "Link list"
  base :: string
  sourceUrl :: string
  seedDistance :: u8
  openSections :: "string list"
  sawBodyTag :: bool
  sawCloseHtml :: bool
  truncated :: bool

definition documentUrl :: "HtmlDoc \<Rightarrow> string" where
  "documentUrl doc = (if sourceUrl doc \<noteq> [] then sourceUrl doc else base doc)"

definition hasOpenDiscardSection :: "HtmlDoc \<Rightarrow> bool" where
  "hasOpenDiscardSection doc \<longleftrightarrow> openSections doc \<noteq> []"

definition outgoingAnchorWordCount :: "HtmlDoc \<Rightarrow> u32" where
  "outgoingAnchorWordCount doc = fold (\<lambda>link total. total + of_nat (length (anchorText link))) (links doc) 0"

definition isBroken :: "HtmlDoc \<Rightarrow> bool" where
  "isBroken doc \<longleftrightarrow>
     2 \<le> (if openSections doc \<noteq> [] then 1 else 0) + (if length (words doc) < 20 then 1 else 0)
         + (if \<not> sawBodyTag doc then 1 else 0) + (if \<not> sawCloseHtml doc then 1 else 0)
         + (if truncated doc then 1 else (0::nat))"

definition set_flag :: "bool \<Rightarrow> DocumentFeatureFlag \<Rightarrow> u8 \<Rightarrow> u8" where
  "set_flag b f fl = (if b then or fl (flag_bit f) else fl)"

definition extractDocumentFeatures :: "HtmlDoc \<Rightarrow> DocumentFeatures" where
  "extractDocumentFeatures doc =
     (let document_url = documentUrl doc;
          parsed = parseUrl document_url;
          fl = flag_bit kFeaturesPresent;
          fl = set_flag (urlHasHttps document_url) kHttps fl;
          fl = set_flag (sawBodyTag doc) kSawBodyTag fl;
          fl = set_flag (sawCloseHtml doc) kSawCloseHtmlTag fl;
          fl = set_flag (truncated doc) kHtmlTruncated fl;
          fl = set_flag (hasOpenDiscardSection doc) kHasOpenDiscardSection fl
      in \<lparr>flags = fl,
          base_domain_length = urlBaseDomainLength parsed,
          url_length = sat16 (length document_url),
          path_length = urlPathLength parsed,
          path_depth = urlPathDepth parsed,
          query_param_count = urlQueryParamCount parsed,
          numeric_path_char_count = urlNumericPathCharCount parsed,
          domain_hyphen_count = urlDomainHyphenCount parsed,
          outgoing_link_count = sat16 (length (links doc)),
          outgoing_anchor_word_count = ucast (min 65535 (outgoingAnchorWordCount doc)),
          raw_tld = tld parsed\<rparr>)"

subsection \<open>The loops count fields\<close>

lemma drop_take_split:
  assumes "i \<le> j" and "j < e" and "e \<le> length xs"
  shows "take (e - i) (drop i xs) = take (j - i) (drop i xs) @ xs ! j # take (e - Suc j) (drop (Suc j) xs)"
proof -
  have "take (e - i) (drop i xs) = take (j - i) (drop i xs) @ take (e - j) (drop j xs)"
    using assms take_add [of "j - i" "e - j" "drop i xs"] by simp
  moreover have "take (e - j) (drop j xs) = xs ! j # take (e - Suc j) (drop (Suc j) xs)"
    using assms by (simp add: Cons_nth_drop_Suc [symmetric] take_Cons' Suc_diff_Suc)
  ultimately show ?thesis by simp
qed

lemma query_params_loop_spec:
  assumes "seg \<le> i" and "i \<le> e" and "e \<le> length path" and "CHR ''&'' \<notin> set (take (i - seg) (drop seg path))"
  shows "query_params_loop path e i seg n
       = n + length (filter (\<lambda>f. f \<noteq> []) (split_on (CHR ''&'') (take (e - seg) (drop seg path))))"
  using assms
proof (induction "e - i" arbitrary: i seg n)
  case 0
  then have i: "i = e" by simp
  let ?f = "take (e - seg) (drop seg path)"
  have "query_params_loop path e (e + 1) (e + 1) m = m" for m by (simp add: query_params_loop.simps)
  then have "query_params_loop path e e seg n = (if seg < e then n + 1 else n)"
    by (simp add: query_params_loop.simps [of path e e seg n])
  moreover have "split_on (CHR ''&'') ?f = [?f]" using 0(5) i by (intro split_on_none) simp
  moreover have "?f \<noteq> [] \<longleftrightarrow> seg < e" using 0(4) by auto
  ultimately show ?case by (simp add: i)
next
  case (Suc k)
  then have i: "i < e" by simp
  show ?case
  proof (cases "path ! i = CHR ''&''")
    case True
    then have "query_params_loop path e i seg n
        = query_params_loop path e (Suc i) (Suc i) (if seg < i then n + 1 else n)"
      using i by (subst query_params_loop.simps) simp
    also have "\<dots> = (if seg < i then n + 1 else n)
        + length (filter (\<lambda>f. f \<noteq> []) (split_on (CHR ''&'') (take (e - Suc i) (drop (Suc i) path))))"
      using Suc i by (intro Suc.hyps(1)) simp_all
    also have "take (e - seg) (drop seg path)
        = take (i - seg) (drop seg path) @ CHR ''&'' # take (e - Suc i) (drop (Suc i) path)"
      using drop_take_split [OF Suc.prems(1) i Suc.prems(3)] True by simp
    then have "split_on (CHR ''&'') (take (e - seg) (drop seg path))
        = take (i - seg) (drop seg path) # split_on (CHR ''&'') (take (e - Suc i) (drop (Suc i) path))"
      using Suc.prems(4) by (simp add: split_on_append)
    moreover have "take (i - seg) (drop seg path) \<noteq> [] \<longleftrightarrow> seg < i" using i Suc.prems by auto
    ultimately show ?thesis by simp
  next
    case False
    have "take (Suc i - seg) (drop seg path) = take (i - seg) (drop seg path) @ [path ! i]"
      using Suc.prems i by (simp add: Suc_diff_le take_Suc_conv_app_nth)
    moreover have "query_params_loop path e i seg n = query_params_loop path e (Suc i) seg n"
      using i False by (subst query_params_loop.simps) simp
    moreover have "query_params_loop path e (Suc i) seg n
        = n + length (filter (\<lambda>f. f \<noteq> []) (split_on (CHR ''&'') (take (e - seg) (drop seg path))))"
      using Suc i False calculation(1) by (intro Suc.hyps(1)) auto
    ultimately show ?thesis by simp
  qed
qed

definition query_string :: "string \<Rightarrow> string" where
  "query_string path = drop 1 (dropWhile (\<lambda>c. c \<noteq> CHR ''?'') (takeWhile (\<lambda>c. c \<noteq> CHR ''#'') path))"

lemma find_char_takeWhile: "find_char c s = Some i \<Longrightarrow> takeWhile (\<lambda>x. x \<noteq> c) s = take i s"
  unfolding find_char_def
  by (induction s arbitrary: i) (auto split: if_splits)

lemma find_char_None: "find_char c s = None \<longleftrightarrow> c \<notin> set s"
  by (auto simp: find_char_def find_if_None)

lemma drop_dropWhile_find: "find_char c s = Some i \<Longrightarrow> drop 1 (dropWhile (\<lambda>x. x \<noteq> c) s) = drop (Suc i) s"
  unfolding find_char_def
  by (induction s arbitrary: i) (auto split: if_splits)

lemma find_char_take:
  "find_char c (take n s) = (case find_char c s of None \<Rightarrow> None | Some i \<Rightarrow> if i < n then Some i else None)"
  unfolding find_char_def
  by (induction s arbitrary: n) (auto simp: take_Cons' split: option.split)

lemma no_query: "c \<notin> set s \<Longrightarrow> drop 1 (dropWhile (\<lambda>x. x \<noteq> c) s) = []"
  by (induction s) auto

text \<open>The number of query parameters is the number of fields between \<open>&\<close> that are not empty in the part
  of the path after the first \<open>?\<close> and before the first \<open>#\<close>.\<close>

theorem countQueryParams_fields:
  "countQueryParams path = length (filter (\<lambda>f. f \<noteq> []) (split_on (CHR ''&'') (query_string path)))"
proof (cases "find_char (CHR ''#'') path")
  case None
  then have tw: "takeWhile (\<lambda>c. c \<noteq> CHR ''#'') path = path" by (auto simp: find_char_None takeWhile_eq_all_conv)
  show ?thesis
  proof (cases "find_char (CHR ''?'') path")
    case None
    then have "query_string path = []" unfolding query_string_def tw find_char_None by (rule no_query)
    then show ?thesis using None by (simp add: countQueryParams_def)
  next
    case (Some q)
    then have "q < length path" using find_char_Some by blast
    then show ?thesis
      using None Some query_params_loop_spec [of "Suc q" "Suc q" "length path" path 0]
      by (simp add: countQueryParams_def query_string_def tw drop_dropWhile_find [OF Some, unfolded One_nat_def])
  qed
next
  case (Some h)
  then have tw: "takeWhile (\<lambda>c. c \<noteq> CHR ''#'') path = take h path" and h: "h < length path"
    using find_char_takeWhile find_char_Some by blast+
  show ?thesis
  proof (cases "find_char (CHR ''?'') path")
    case None
    then have "CHR ''?'' \<notin> set (take h path)" by (auto simp: find_char_None dest: in_set_takeD)
    then have "query_string path = []" unfolding query_string_def tw by (rule no_query)
    then show ?thesis using None by (simp add: countQueryParams_def)
  next
    case q: (Some q)
    then have "path ! q = CHR ''?''" "path ! h = CHR ''#''" using Some find_char_Some by blast+
    then have "q \<noteq> h" by auto
    show ?thesis
    proof (cases "h < q")
      case True
      then have "find_char (CHR ''?'') (take h path) = None" by (simp add: find_char_take q)
      then have "query_string path = []" unfolding query_string_def tw find_char_None by (rule no_query)
      then show ?thesis using True q Some by (simp add: countQueryParams_def)
    next
      case False
      then have "find_char (CHR ''?'') (take h path) = Some q" using \<open>q \<noteq> h\<close> by (simp add: find_char_take q)
      then have "query_string path = drop (Suc q) (take h path)"
        unfolding query_string_def tw by (rule drop_dropWhile_find)
      then show ?thesis
        using False \<open>q \<noteq> h\<close> h q Some query_params_loop_spec [of "Suc q" "Suc q" h path 0]
        by (simp add: countQueryParams_def drop_take)
    qed
  qed
qed

lemma rfind_char_Nil [simp]: "rfind_char c [] = None"
  by (simp add: rfind_char_None)

lemma rfind_char_snoc: "rfind_char c (xs @ [x]) = (if x = c then Some (length xs) else rfind_char c xs)"
proof -
  have "find_char c (rev xs) = Some i \<Longrightarrow> i < length xs" for i using find_char_Some [of c "rev xs" i] by simp
  then show ?thesis by (cases "find_char c (rev xs)") (auto simp: rfind_char_def find_char_def)
qed

lemma dot_loop_Some:
  "i \<le> length h \<Longrightarrow> dot_loop h i (Some l) = (Some l, rfind_char (CHR ''.'') (take i h))"
proof (induction i)
  case 0
  then show ?case by simp
next
  case (Suc i)
  then show ?case by (simp add: take_Suc_conv_app_nth rfind_char_snoc)
qed

lemma dot_loop_None:
  "i \<le> length h \<Longrightarrow> dot_loop h i None = (case rfind_char (CHR ''.'') (take i h) of
     None \<Rightarrow> (None, None) | Some l \<Rightarrow> (Some l, rfind_char (CHR ''.'') (take l h)))"
proof (induction i)
  case 0
  then show ?case by simp
next
  case (Suc i)
  then show ?case by (simp add: take_Suc_conv_app_nth rfind_char_snoc dot_loop_Some)
qed

lemma split_on_rfind:
  "split_on c s = (case rfind_char c s of None \<Rightarrow> [s] | Some l \<Rightarrow> split_on c (take l s) @ [drop (Suc l) s])"
proof (cases "rfind_char c s")
  case None
  then show ?thesis by (simp add: rfind_char_None [symmetric] split_on_none)
next
  case (Some l)
  note l = rfind_char_Some [OF Some]
  have "s = take l s @ c # drop (Suc l) s" using l(1,2) id_take_nth_drop by blast
  moreover have "c \<notin> set (drop (Suc l) s)"
    using l(3) by (auto simp: in_set_conv_nth)
  ultimately have "split_on c s = split_on c (take l s) @ [drop (Suc l) s]"
    using split_on_snoc [of c "take l s" "drop (Suc l) s"] by (simp add: split_on_none)
  then show ?thesis using Some by simp
qed

text \<open>The length of the base domain is that of the last label but one of the host, or of the whole
  host when it has one label only.\<close>

theorem computeBaseDomainLength_label:
  "computeBaseDomainLength h =
     (let labels = split_on (CHR ''.'') h
      in if length labels < 2 then length h else length (labels ! (length labels - 2)))"
proof (cases "rfind_char (CHR ''.'') h")
  case None
  then show ?thesis
    by (simp add: computeBaseDomainLength_def dot_loop_None split_on_rfind [of _ h])
next
  case (Some l)
  have l: "l < length h" using Some by (rule rfind_char_Some)
  show ?thesis
  proof (cases "rfind_char (CHR ''.'') (take l h)")
    case None
    then show ?thesis using Some l
      by (auto simp: computeBaseDomainLength_def dot_loop_None split_on_rfind [of _ h]
          split_on_rfind [of _ "take l h"] Let_def)
  next
    case m: (Some m)
    then have "m < l" using rfind_char_Some(1) [OF m] l by simp
    then show ?thesis using Some l m
      by (auto simp: computeBaseDomainLength_def dot_loop_None split_on_rfind [of _ h]
          split_on_rfind [of _ "take l h"] Let_def nth_append)
  qed
qed

definition decimal :: "string \<Rightarrow> nat" where
  "decimal s = foldl (\<lambda>v c. v * 10 + (code c - 48)) 0 s"

definition ipv4_field :: "string \<Rightarrow> bool" where
  "ipv4_field s \<longleftrightarrow> 1 \<le> length s \<and> length s \<le> 3 \<and> (\<forall>c \<in> set s. isAsciiDigit c) \<and> decimal s \<le> 255"

lemma decimal_append_le: "decimal s \<le> decimal (s @ t)"
proof (induction t rule: rev_induct)
  case (snoc c t)
  then show ?case by (simp add: decimal_def)
qed simp

lemma decimal_snoc: "decimal (s @ [c]) = decimal s * 10 + (code c - 48)"
  by (simp add: decimal_def)

lemma ipv4_loop_spec:
  assumes "\<forall>c \<in> set s. isAsciiDigit c" and "length s \<le> 3" and "decimal s \<le> 255"
  shows "ipv4_loop n (decimal s) (length s) xs \<longleftrightarrow>
     (let fs = split_on (CHR ''.'') xs
      in ipv4_field (s @ hd fs) \<and> (\<forall>f \<in> set (tl fs). ipv4_field f) \<and> n + length fs = 4)"
  using assms
proof (induction xs arbitrary: n s)
  case Nil
  then show ?case by (auto simp: ipv4_field_def Suc_le_eq)
next
  case (Cons ch xs)
  let ?fs = "split_on (CHR ''.'') xs"
  have dot: "\<not> isAsciiDigit (CHR ''.'')" by (simp add: isAsciiDigit_def code_def)
  show ?case
  proof (cases "isAsciiDigit ch")
    case True
    then have fs: "split_on (CHR ''.'') (ch # xs) = (ch # hd ?fs) # tl ?fs" using dot by auto
    have long: "ipv4_field (s @ ch # hd ?fs) \<Longrightarrow> length (s @ [ch]) \<le> 3 \<and> decimal (s @ [ch]) \<le> 255"
      using decimal_append_le [of "s @ [ch]" "hd ?fs"] by (auto simp: ipv4_field_def)
    show ?thesis
    proof (cases "length (s @ [ch]) \<le> 3 \<and> decimal (s @ [ch]) \<le> 255")
      case ok: True
      then have "ipv4_loop n (decimal s) (length s) (ch # xs)
          = ipv4_loop n (decimal (s @ [ch])) (length (s @ [ch])) xs"
        using True by (simp add: decimal_snoc)
      also have "\<dots> \<longleftrightarrow> ipv4_field ((s @ [ch]) @ hd ?fs) \<and> (\<forall>f \<in> set (tl ?fs). ipv4_field f) \<and> n + length ?fs = 4"
        using ok True Cons.prems Cons.IH [of "s @ [ch]" n] by (simp add: Let_def)
      finally show ?thesis unfolding fs Let_def by simp
    next
      case False
      then have "\<not> ipv4_loop n (decimal s) (length s) (ch # xs)" using True by (auto simp: decimal_snoc)
      then show ?thesis using False long unfolding fs Let_def by auto
    qed
  next
    case False
    show ?thesis
    proof (cases "ch = CHR ''.''")
      case True
      have "ipv4_field s \<longleftrightarrow> length s \<noteq> 0" using Cons.prems by (auto simp: ipv4_field_def Suc_le_eq)
      moreover have "ipv4_loop (Suc n) (decimal []) (length []) xs \<longleftrightarrow>
          ipv4_field (hd ?fs) \<and> (\<forall>f \<in> set (tl ?fs). ipv4_field f) \<and> Suc n + length ?fs = 4"
        using Cons.IH [of "[]" "Suc n"] by (simp add: decimal_def Let_def)
      moreover have "set ?fs = insert (hd ?fs) (set (tl ?fs))" by (cases ?fs) auto
      ultimately show ?thesis using True dot by (auto simp: Let_def decimal_def)
    next
      case other: False
      then show ?thesis using False by (auto simp: ipv4_field_def Let_def)
    qed
  qed
qed

text \<open>A host is taken for an address exactly when it consists of four fields between dots, each of one
  to three decimal digits with a value of at most 255.\<close>

theorem looksLikeIpv4Address_iff:
  "looksLikeIpv4Address h \<longleftrightarrow>
     length (split_on (CHR ''.'') h) = 4 \<and> list_all ipv4_field (split_on (CHR ''.'') h)"
proof -
  have "set (split_on (CHR ''.'') h) = insert (hd (split_on (CHR ''.'') h)) (set (tl (split_on (CHR ''.'') h)))"
    by (cases "split_on (CHR ''.'') h") auto
  then show ?thesis
    using ipv4_loop_spec [of "[]" 0 h]
    by (auto simp: looksLikeIpv4Address_def decimal_def Let_def list_all_iff ipv4_field_def)
qed

lemma unat_sat8: "unat (sat8 n) = min n 255"
  by (simp add: sat8_def unat_of_nat)

lemma unat_sat16: "unat (sat16 n) = min n 65535"
  by (simp add: sat16_def unat_of_nat)

lemma find_first_of_Some:
  "find_first_of cs s = Some i \<Longrightarrow> i < length s \<and> s ! i \<in> set cs \<and> (\<forall>c \<in> set (take i s). c \<notin> set cs)"
  unfolding find_first_of_def find_if_Some
  by (metis in_set_conv_nth length_take min_less_iff_conj nth_take)

lemma find_first_of_None: "find_first_of cs s = None \<longleftrightarrow> (\<forall>c \<in> set s. c \<notin> set cs)"
  by (simp add: find_first_of_def find_if_None)

lemma drop_port_no_colon: "CHR '':'' \<notin> set (drop_port h)"
proof (cases "find_char (CHR '':'') h")
  case None
  then show ?thesis by (simp add: drop_port_def find_char_None [symmetric])
next
  case (Some i)
  have "CHR '':'' \<notin> set (takeWhile (\<lambda>x. x \<noteq> CHR '':'') h)" using set_takeWhileD by fastforce
  then show ?thesis using Some by (simp add: drop_port_def find_char_takeWhile)
qed

lemma set_drop_user: "set (drop_user h) \<subseteq> set h"
  by (auto simp: drop_user_def split: option.split dest: in_set_dropD)

lemma set_drop_port: "set (drop_port h) \<subseteq> set h"
  by (auto simp: drop_port_def split: option.split dest: in_set_takeD)

lemma tld_of_props: "CHR ''.'' \<notin> set (tld_of h) \<and> lowerAscii (tld_of h) = tld_of h"
proof (cases "rfind_char (CHR ''.'') h")
  case (Some l)
  have "CHR ''.'' \<notin> set (drop (Suc l) h)"
    using rfind_char_Some(3) [OF Some] by (auto simp: in_set_conv_nth)
  moreover have "toLowerAscii c = CHR ''.'' \<longleftrightarrow> c = CHR ''.''" for c
    by (rule toLowerAscii_eq_iff) (simp_all add: isUpperAscii_def code_def)
  ultimately have "CHR ''.'' \<notin> set (lowerAscii (drop (Suc l) h))"
    unfolding lowerAscii_def set_map by (metis imageE)
  then show ?thesis using Some by (auto simp: tld_of_def lowerAscii_def [of "[]"])
qed (simp add: tld_of_def lowerAscii_def)

text \<open>The host of a parsed URL has no path, query, fragment or port in it; what follows it in the URL is
  its path, which is empty or begins with one of their delimiters; the top-level domain is one label in
  lower case.\<close>

theorem parseUrl_parts:
  "let p = parseUrl url
   in set (host p) \<inter> set ''/?#:'' = {} \<and> (url_path p = [] \<or> hd (url_path p) \<in> set ''/?#'')
      \<and> (\<exists>pre. url = pre @ url_path p) \<and> CHR ''.'' \<notin> set (tld p) \<and> lowerAscii (tld p) = tld p"
proof (cases "url = []")
  case True
  then show ?thesis by (simp add: parseUrl_def empty_parsed_url_def lowerAscii_def)
next
  case False
  let ?r = "url_remainder url"
  obtain a q where aq: "split_authority ?r = (a, q)" by (cases "split_authority ?r")
  let ?h = "drop_port (drop_user a)"
  have p: "host (parseUrl url) = ?h" "url_path (parseUrl url) = q" "tld (parseUrl url) = tld_of ?h"
    using False aq by (simp_all add: parseUrl_def Let_def)
  have r: "\<exists>pre. url = pre @ ?r"
  proof (cases "find_sub ''://'' url")
    case (Some i)
    then have "url = take (i + 3) url @ ?r" by (simp add: url_remainder_def)
    then show ?thesis by blast
  qed (simp add: url_remainder_def)
  have a: "\<forall>c \<in> set a. c \<notin> set ''/?#''" "q = [] \<or> hd q \<in> set ''/?#''" "?r = a @ q"
    using aq unfolding split_authority_def
    by (auto split: option.splits simp: find_first_of_None hd_drop_conv_nth dest!: find_first_of_Some)
  have "\<exists>pre. url = pre @ q" using r a(3) by (metis append.assoc)
  moreover have "set ?h \<inter> set ''/?#:'' = {}"
    using a(1) set_drop_port [of "drop_user a"] set_drop_user [of a] drop_port_no_colon [of "drop_user a"] by auto
  ultimately show ?thesis using a(2) tld_of_props by (simp add: p Let_def)
qed

end
