(* ===== verification/Tokenizer.thy ===== *)
theory Tokenizer
  imports Stemmer UrlFeatures
begin

text \<open>
  The tokenizer of documents, \<open>src/index/src/lib/tokenizer.cpp\<close>: a raw word becomes its stemmed form and
  the two sides of its first hyphen; a document becomes tokens at increasing locations, the words of
  the title marked by \<open>$\<close>, and one location for the end of the document. The state of a \<open>Tokenizer\<close>,
  \<open>next_location\<close>, is passed and returned.
\<close>

definition isAlphaNumeric :: "char \<Rightarrow> bool" where
  "isAlphaNumeric c \<longleftrightarrow> 97 \<le> code c \<and> code c \<le> 122 \<or> isUpperAscii c \<or> isAsciiDigit c"

definition makeLowerCase :: "string \<Rightarrow> string" where
  "makeLowerCase s = map (\<lambda>c. if isUpperAscii c then char_of (code c + 32) else c) s"

text \<open>The two loops: \<open>i\<close> moves up over what is not alphanumeric, \<open>j\<close> moves down.\<close>

definition stripPunc :: "string \<Rightarrow> string" where
  "stripPunc s =
     (if s = [] then s
      else let from_i = dropWhile (\<lambda>c. \<not> isAlphaNumeric c) s
           in rev (dropWhile (\<lambda>c. \<not> isAlphaNumeric c) (rev from_i)))"

definition processToken :: "string \<Rightarrow> string list" where
  "processToken raw =
     (let lowered = makeLowerCase raw;
          stripped = stripPunc lowered
      in if stripped = [] then []
         else stem stripped #
           (case find_char (CHR ''-'') stripped of
              None \<Rightarrow> []
            | Some hyphen \<Rightarrow>
                if 0 < hyphen \<and> hyphen + 1 < length stripped
                then let left = take hyphen stripped;
                         right = drop (hyphen + 1) stripped
                     in (if left \<noteq> [] then [stem left] else []) @ (if right \<noteq> [] then [stem right] else [])
                else []))"

text \<open>The loops over the words of the title and of the body: the tokens and the location after them.\<close>

fun emit_words :: "string \<Rightarrow> u32 \<Rightarrow> string list \<Rightarrow> TokenOutput list \<times> u32" where
  "emit_words mark next_location [] = ([], next_location)"
| "emit_words mark next_location (raw_word # raws) =
     (let expanded = processToken raw_word;
          here = map (\<lambda>token. \<lparr>tok_term = mark @ token, tok_location = next_location\<rparr>) expanded;
          (rest, loc) = emit_words mark (next_location + 1) raws
      in (here @ rest, loc))"

record TokenizedDocument =
  tokens :: "TokenOutput list"
  doc_end :: DocEndOutput

definition processDocument :: "u32 \<Rightarrow> HtmlDoc \<Rightarrow> TokenizedDocument \<times> u32" where
  "processDocument next_location doc =
     (let doc_start = next_location;
          (title_tokens, loc) = emit_words ''$'' next_location (titleWords doc);
          (body_tokens, loc') = emit_words [] loc (words doc)
      in (\<lparr>tokens = title_tokens @ body_tokens,
            doc_end = \<lparr>de_location = loc', de_url = documentUrl doc,
                       de_word_count = of_nat (length (words doc)),
                       de_title_word_count = of_nat (length (titleWords doc)),
                       de_doc_start_loc = doc_start, de_seed_distance = seedDistance doc,
                       de_features = extractDocumentFeatures doc\<rparr>\<rparr>,
          loc' + 1))"

subsection \<open>The terms of a word\<close>

lemma makeLowerCase_lowerAscii: "makeLowerCase s = lowerAscii s"
  by (simp add: makeLowerCase_def lowerAscii_def toLowerAscii_def fun_eq_iff cong: map_cong)

lemma stripPunc_append: "\<exists>pre post. s = pre @ stripPunc s @ post"
proof -
  let ?P = "\<lambda>c. \<not> isAlphaNumeric c"
  have "s = takeWhile ?P s @ dropWhile ?P s" by simp
  also have "dropWhile ?P s = rev (takeWhile ?P (rev (dropWhile ?P s)) @ dropWhile ?P (rev (dropWhile ?P s)))"
    by (simp only: takeWhile_dropWhile_id rev_rev_ident)
  finally show ?thesis unfolding stripPunc_def Let_def rev_append by auto
qed

lemma stripPunc_ends:
  assumes "stripPunc s \<noteq> []"
  shows "isAlphaNumeric (hd (stripPunc s))" and "isAlphaNumeric (last (stripPunc s))"
proof -
  let ?P = "\<lambda>c. \<not> isAlphaNumeric c"
  define r where "r = dropWhile ?P s"
  have sp: "stripPunc s = rev (dropWhile ?P (rev r))" using assms by (auto simp: stripPunc_def r_def Let_def)
  then have ne: "dropWhile ?P (rev r) \<noteq> []" using assms by auto
  then show "isAlphaNumeric (last (stripPunc s))"
    using hd_dropWhile [OF ne] by (simp add: sp last_rev)
  have "r \<noteq> []" using ne by auto
  then have "isAlphaNumeric (hd r)" unfolding r_def using hd_dropWhile by blast
  moreover have "hd (stripPunc s) = hd r"
  proof -
    have "rev r = takeWhile ?P (rev r) @ dropWhile ?P (rev r)" by simp
    then have "r = rev (dropWhile ?P (rev r)) @ rev (takeWhile ?P (rev r))" by (metis rev_append rev_rev_ident)
    then show ?thesis using ne sp by (metis hd_append2 rev_is_Nil_conv)
  qed
  ultimately show "isAlphaNumeric (hd (stripPunc s))" by simp
qed

lemma stripPunc_lower: "\<forall>c \<in> set (stripPunc (makeLowerCase raw)). \<not> isUpperAscii c"
proof -
  obtain pre post where "makeLowerCase raw = pre @ stripPunc (makeLowerCase raw) @ post"
    using stripPunc_append by blast
  moreover have "\<forall>c \<in> set (makeLowerCase raw). \<not> isUpperAscii c"
    by (auto simp: makeLowerCase_lowerAscii lowerAscii_def)
  ultimately show ?thesis by (metis Un_iff set_append)
qed

text \<open>Stemming writes no capitals, so no term of a word has one.\<close>

definition no_upper :: "string \<Rightarrow> bool" where
  "no_upper s \<longleftrightarrow> (\<forall>c \<in> set s. \<not> isUpperAscii c)"

lemma no_upper_append [simp]: "no_upper (s @ t) \<longleftrightarrow> no_upper s \<and> no_upper t"
  by (auto simp: no_upper_def)

lemma no_upper_sub: "no_upper s \<Longrightarrow> set t \<subseteq> set s \<Longrightarrow> no_upper t"
  by (auto simp: no_upper_def)

lemma no_upper_but: "no_upper w \<Longrightarrow> no_upper (but n w)"
  by (erule no_upper_sub) (auto simp: but_def dest: in_set_takeD)

lemma no_upper_replace_suffix:
  "list_all (no_upper \<circ> snd) subs \<Longrightarrow> no_upper w \<Longrightarrow> no_upper (replace_suffix subs w)"
  by (induction subs w rule: replace_suffix.induct) (auto intro: no_upper_but)

lemma no_upper_drop_suffix: "no_upper w \<Longrightarrow> drop_suffix ss w = Some w' \<Longrightarrow> no_upper w'"
  by (induction ss w rule: drop_suffix.induct) (auto split: if_splits intro: no_upper_but)

lemma no_upper_e: "no_upper ''e''" "no_upper ''i''"
  by (simp_all add: no_upper_def isUpperAscii_def code_def)

lemma no_upper_step1: "no_upper w \<Longrightarrow> no_upper (step1 w)"
proof -
  assume w: "no_upper w"
  have 1: "no_upper (step1_plural w)" using w no_upper_e no_upper_but by (simp add: step1_plural_def)
  obtain v b where v: "step1_past (step1_plural w) = (v, b)" by fastforce
  have "no_upper v" using v 1 by (auto simp: step1_past_def split: if_splits intro: no_upper_but)
  then have "no_upper (if b then step1_cleanup v else v)"
    using no_upper_e no_upper_but by (simp add: step1_cleanup_def)
  moreover have "no_upper x \<Longrightarrow> no_upper (step1_y x)" for x
    using set_update_subset_insert [of x "length x - 1" "CHR ''i''"] no_upper_e
    by (auto simp: step1_y_def no_upper_def)
  ultimately show ?thesis by (simp add: step1_def v)
qed

lemma no_upper_subs: "list_all (no_upper \<circ> snd) step2_subs" "list_all (no_upper \<circ> snd) step3_subs"
  by (simp_all add: step2_subs_def step3_subs_def no_upper_def isUpperAscii_def code_def)

lemma no_upper_stem:
  assumes "no_upper w"
  shows "no_upper (stem w)"
proof -
  have 4: "no_upper (step4 v)" if "no_upper v" for v
    using that by (auto simp: step4_def split: option.split intro: no_upper_drop_suffix no_upper_but)
  have 5: "no_upper (step5 v)" if "no_upper v" for v
    using that no_upper_but by (simp add: step5_def Let_def)
  show ?thesis
    using assms by (simp add: stem_def Let_def step2_def step3_def 4 5 no_upper_step1
        no_upper_replace_suffix no_upper_subs)
qed

lemma processToken_no_upper: "t \<in> set (processToken raw) \<Longrightarrow> no_upper t"
proof -
  assume t: "t \<in> set (processToken raw)"
  let ?s = "stripPunc (makeLowerCase raw)"
  have s: "no_upper ?s" using stripPunc_lower by (simp add: no_upper_def)
  then have "no_upper (take n ?s)" "no_upper (drop n ?s)" for n
    by (auto intro: no_upper_sub dest: in_set_takeD in_set_dropD)
  then show ?thesis using t s no_upper_stem
    by (auto simp: processToken_def Let_def split: if_splits option.splits)
qed

text \<open>The terms a word is indexed under are not empty and have no capitals, so none is \<open>#DocEnd\<close>; the
  first of them, which is also the one a query looks up, begins with a letter or a digit, so it is
  never taken for a term of a title.\<close>

theorem processToken_terms:
  "[] \<notin> set (processToken raw) \<and> docEndToken \<notin> set (processToken raw)
     \<and> (case processToken raw of [] \<Rightarrow> True | t # _ \<Rightarrow> isAlphaNumeric (hd t) \<and> hd t \<noteq> CHR ''$'')"
proof -
  let ?s = "stripPunc (makeLowerCase raw)"
  have "\<not> no_upper docEndToken" by (simp add: no_upper_def docEndToken_def isUpperAscii_def code_def)
  then have 2: "docEndToken \<notin> set (processToken raw)" using processToken_no_upper by blast
  have 1: "[] \<notin> set (processToken raw)"
    by (simp add: processToken_def Let_def split: option.split)
  have "isAlphaNumeric (hd (stem ?s))" if "?s \<noteq> []"
    using stripPunc_ends(1) [OF that] stem_keeps [OF that] by (simp add: keeps_def)
  moreover have "\<not> isAlphaNumeric (CHR ''$'')"
    by (simp add: isAlphaNumeric_def isUpperAscii_def isAsciiDigit_def code_def)
  ultimately show ?thesis using 1 2 by (auto simp: processToken_def Let_def)
qed

text \<open>The right side of a hyphen is not stripped again: a word of the body may be indexed under a term
  that is read as a word of the title.\<close>

theorem processToken_forges_title: "processToken ''a-$b'' ! 2 = ''$'' @ processToken ''b'' ! 0"
  by code_simp

end
