(* ===== verification/InMemoryIndex.thy ===== *)
theory InMemoryIndex
  imports Tokenizer
begin

text \<open>
  The index of a chunk in memory, \<open>src/index/src/lib/in_memory_index.cpp\<close>. The \<open>unordered_map\<close> of the
  posting lists is an association list, whose order stands for the order of iteration of the map and
  on which no theorem depends; \<open>_terms_seen\<close> is a set.
\<close>

record InMemoryIndex =
  index :: "(string \<times> PostingList) list"
  documents :: "DocumentRecord list"
  terms_seen :: "string set"
  total_locations :: u64

definition empty_index :: InMemoryIndex where
  "empty_index = \<lparr>index = [], documents = [], terms_seen = {}, total_locations = 0\<rparr>"

definition empty_posting_list :: PostingList where
  "empty_posting_list = \<lparr>locations = [], doc_frequency = 0, collection_frequency = 0\<rparr>"

text \<open>\<open>_index[key]\<close> with an update of what it refers to.\<close>

fun upsert :: "'k \<Rightarrow> 'v \<Rightarrow> ('v \<Rightarrow> 'v) \<Rightarrow> ('k \<times> 'v) list \<Rightarrow> ('k \<times> 'v) list" where
  "upsert k v f [] = [(k, f v)]"
| "upsert k v f ((k', v') # kvs) = (if k' = k then (k, f v') # kvs else (k', v') # upsert k v f kvs)"

definition addToken :: "TokenOutput \<Rightarrow> InMemoryIndex \<Rightarrow> InMemoryIndex" where
  "addToken token idx =
     (let first = tok_term token \<notin> terms_seen idx;
          add = (\<lambda>pl. \<lparr>locations = locations pl @ [tok_location token],
                      doc_frequency = doc_frequency pl + (if first then 1 else 0),
                      collection_frequency = collection_frequency pl + 1\<rparr>);
          total = ucast (tok_location token) + 1
      in idx\<lparr>index := upsert (tok_term token) empty_posting_list add (index idx),
             terms_seen := insert (tok_term token) (terms_seen idx),
             total_locations := (if total > total_locations idx then total else total_locations idx)\<rparr>)"

definition document_record :: "DocEndOutput \<Rightarrow> DocumentRecord" where
  "document_record e = \<lparr>doc_url = de_url e, start_location = de_doc_start_loc e, end_location = de_location e,
     word_count = de_word_count e, title_word_count = de_title_word_count e,
     seed_distance = de_seed_distance e, features = de_features e\<rparr>"

definition finishDocument :: "DocEndOutput \<Rightarrow> InMemoryIndex \<Rightarrow> InMemoryIndex" where
  "finishDocument e idx =
     (let idx' = addToken \<lparr>tok_term = docEndToken, tok_location = de_location e\<rparr> idx
      in idx'\<lparr>documents := documents idx' @ [document_record e], terms_seen := {}\<rparr>)"

text \<open>The body of the loops of the index workers: one document more.\<close>

definition index_document :: "TokenizedDocument \<Rightarrow> InMemoryIndex \<Rightarrow> InMemoryIndex" where
  "index_document d idx = finishDocument (doc_end d) (fold addToken (tokens d) idx)"

fun index_documents :: "HtmlDoc list \<Rightarrow> u32 \<times> InMemoryIndex \<Rightarrow> u32 \<times> InMemoryIndex" where
  "index_documents [] (loc, idx) = (loc, idx)"
| "index_documents (doc # docs) (loc, idx) =
     (let (d, loc') = processDocument loc doc in index_documents docs (loc', index_document d idx))"

subsection \<open>What a posting list holds\<close>

definition posting :: "InMemoryIndex \<Rightarrow> string \<Rightarrow> PostingList" where
  "posting idx t = (case map_of (index idx) t of None \<Rightarrow> empty_posting_list | Some pl \<Rightarrow> pl)"

lemma map_of_upsert:
  "map_of (upsert k v f kvs) = (map_of kvs)(k \<mapsto> f (case map_of kvs k of None \<Rightarrow> v | Some w \<Rightarrow> w))"
  by (induction k v f kvs rule: upsert.induct) (auto simp: fun_eq_iff)

lemma keys_upsert: "fst ` set (upsert k v f kvs) = insert k (fst ` set kvs)"
  by (induction k v f kvs rule: upsert.induct) auto

lemma distinct_upsert: "distinct (map fst kvs) \<Longrightarrow> distinct (map fst (upsert k v f kvs))"
proof (induction k v f kvs rule: upsert.induct)
  case (2 k v f k' v' kvs)
  then show ?case using keys_upsert [of k v f kvs] by (auto simp: image_iff)
qed simp

lemma posting_addToken:
  "posting (addToken k idx) t =
     (if tok_term k = t
      then \<lparr>locations = locations (posting idx t) @ [tok_location k],
            doc_frequency = doc_frequency (posting idx t) + (if t \<in> terms_seen idx then 0 else 1),
            collection_frequency = collection_frequency (posting idx t) + 1\<rparr>
      else posting idx t)"
  by (simp add: posting_def addToken_def Let_def map_of_upsert)

lemma addToken_simps [simp]:
  "terms_seen (addToken k idx) = insert (tok_term k) (terms_seen idx)"
  "documents (addToken k idx) = documents idx"
  by (simp_all add: addToken_def Let_def)

lemma fold_addToken_simps [simp]:
  "terms_seen (fold addToken ks idx) = tok_term ` set ks \<union> terms_seen idx"
  "documents (fold addToken ks idx) = documents idx"
  by (induction ks arbitrary: idx) auto

definition term_locations :: "string \<Rightarrow> TokenOutput list \<Rightarrow> u32 list" where
  "term_locations t ks = map tok_location (filter (\<lambda>k. tok_term k = t) ks)"

lemma fold_addToken_posting:
  "locations (posting (fold addToken ks idx) t) = locations (posting idx t) @ term_locations t ks"
  "collection_frequency (posting (fold addToken ks idx) t)
     = collection_frequency (posting idx t) + of_nat (length (term_locations t ks))"
  "doc_frequency (posting (fold addToken ks idx) t)
     = doc_frequency (posting idx t) + (if t \<in> terms_seen idx \<or> t \<notin> tok_term ` set ks then 0 else 1)"
  by (induction ks arbitrary: idx) (auto simp: posting_addToken term_locations_def)

text \<open>The tokens of a document, its end included.\<close>

definition doc_tokens :: "TokenizedDocument \<Rightarrow> TokenOutput list" where
  "doc_tokens d = tokens d @ [\<lparr>tok_term = docEndToken, tok_location = de_location (doc_end d)\<rparr>]"

lemma index_document_eq:
  "index_document d idx = (fold addToken (doc_tokens d) idx)
     \<lparr>documents := documents idx @ [document_record (doc_end d)], terms_seen := {}\<rparr>"
  by (simp add: index_document_def finishDocument_def doc_tokens_def Let_def)

lemma posting_more [simp]: "posting (idx\<lparr>documents := a, terms_seen := b\<rparr>) t = posting idx t"
  by (simp add: posting_def)

text \<open>The documents that a run of a worker tokenizes.\<close>

fun tokenized :: "u32 \<Rightarrow> HtmlDoc list \<Rightarrow> TokenizedDocument list" where
  "tokenized loc [] = []"
| "tokenized loc (doc # docs) = fst (processDocument loc doc) # tokenized (snd (processDocument loc doc)) docs"

lemma index_documents_fold:
  "snd (index_documents docs (loc, idx)) = fold index_document (tokenized loc docs) idx"
  by (induction docs arbitrary: loc idx) (simp_all add: case_prod_beta Let_def)

definition docs_with :: "string \<Rightarrow> TokenizedDocument list \<Rightarrow> nat" where
  "docs_with t ds = length (filter (\<lambda>d. t \<in> tok_term ` set (doc_tokens d)) ds)"

lemma fold_index_document_posting:
  assumes "terms_seen idx = {}"
  shows "locations (posting (fold index_document ds idx) t)
      = locations (posting idx t) @ term_locations t (concat (map doc_tokens ds))"
    and "collection_frequency (posting (fold index_document ds idx) t)
      = collection_frequency (posting idx t) + of_nat (length (term_locations t (concat (map doc_tokens ds))))"
    and "doc_frequency (posting (fold index_document ds idx) t)
      = doc_frequency (posting idx t) + of_nat (docs_with t ds)"
    and "documents (fold index_document ds idx) = documents idx @ map (document_record \<circ> doc_end) ds"
  using assms
  by (induction ds arbitrary: idx)
    (simp_all add: index_document_eq fold_addToken_posting docs_with_def term_locations_def)

lemma index_documents_posting:
  "locations (posting (snd (index_documents docs (loc, empty_index))) t)
     = term_locations t (concat (map doc_tokens (tokenized loc docs)))"
  "collection_frequency (posting (snd (index_documents docs (loc, empty_index))) t)
     = of_nat (length (term_locations t (concat (map doc_tokens (tokenized loc docs)))))"
  "doc_frequency (posting (snd (index_documents docs (loc, empty_index))) t)
     = of_nat (docs_with t (tokenized loc docs))"
  "documents (snd (index_documents docs (loc, empty_index))) = map (document_record \<circ> doc_end) (tokenized loc docs)"
proof -
  have "terms_seen empty_index = {}" by (simp add: empty_index_def)
  note fold_index_document_posting [OF this]
  moreover have "posting empty_index t = empty_posting_list" "documents empty_index = []"
    by (simp_all add: posting_def empty_index_def)
  ultimately show
    "locations (posting (snd (index_documents docs (loc, empty_index))) t)
       = term_locations t (concat (map doc_tokens (tokenized loc docs)))"
    "collection_frequency (posting (snd (index_documents docs (loc, empty_index))) t)
       = of_nat (length (term_locations t (concat (map doc_tokens (tokenized loc docs)))))"
    "doc_frequency (posting (snd (index_documents docs (loc, empty_index))) t)
       = of_nat (docs_with t (tokenized loc docs))"
    "documents (snd (index_documents docs (loc, empty_index))) = map (document_record \<circ> doc_end) (tokenized loc docs)"
    by (simp_all add: index_documents_fold empty_posting_list_def)
qed

text \<open>A term has one entry, and only when it has a location.\<close>

definition index_ok :: "InMemoryIndex \<Rightarrow> bool" where
  "index_ok idx \<longleftrightarrow> distinct (map fst (index idx)) \<and> (\<forall>pl \<in> snd ` set (index idx). locations pl \<noteq> [])"

lemma values_upsert:
  "w \<in> snd ` set (upsert k v f kvs) \<Longrightarrow> w \<in> snd ` set kvs \<or> (\<exists>v'. w = f v')"
  by (induction k v f kvs rule: upsert.induct) (auto split: if_splits)

lemma index_ok_addToken:
  assumes "index_ok idx"
  shows "index_ok (addToken k idx)"
proof -
  have "locations w \<noteq> []" if w: "w \<in> snd ` set (index (addToken k idx))" for w
    using values_upsert [OF w [unfolded addToken_def Let_def, simplified]] assms by (auto simp: index_ok_def)
  moreover have "distinct (map fst (index (addToken k idx)))"
    using assms by (simp add: index_ok_def addToken_def Let_def distinct_upsert)
  ultimately show ?thesis by (simp add: index_ok_def)
qed

lemma index_ok_documents: "index_ok (snd (index_documents docs (loc, empty_index)))"
proof -
  have tokens: "index_ok idx \<Longrightarrow> index_ok (fold addToken ks idx)" for ks idx
    by (induction ks arbitrary: idx) (simp_all add: index_ok_addToken)
  have docs: "index_ok idx \<Longrightarrow> index_ok (fold index_document ds idx)" for ds idx
  proof (induction ds arbitrary: idx)
    case (Cons d ds)
    have "index_ok (index_document d idx)"
      using tokens [OF Cons.prems, of "doc_tokens d"] by (simp add: index_document_eq index_ok_def)
    then show ?case using Cons.IH by simp
  qed simp
  show ?thesis unfolding index_documents_fold by (rule docs) (simp add: index_ok_def empty_index_def)
qed

lemma map_of_index:
  assumes "index_ok idx"
  shows "map_of (index idx) t = (if locations (posting idx t) = [] then None else Some (posting idx t))"
  using assms by (auto simp: index_ok_def posting_def empty_posting_list_def split: option.split dest!: map_of_SomeD)

text \<open>C21. After indexing documents into an empty index, the posting list of every term holds the locations
  of its tokens in order, counts its occurrences and the documents that have it, and there is one
  record for each document.\<close>

theorem index_documents_postings:
  "let ds = tokenized loc docs; idx = snd (index_documents docs (loc, empty_index)); pl = posting idx t;
       locs = term_locations t (concat (map doc_tokens ds))
   in locations pl = locs \<and> collection_frequency pl = of_nat (length locs)
      \<and> doc_frequency pl = of_nat (docs_with t ds) \<and> documents idx = map (document_record \<circ> doc_end) ds"
  by (simp add: Let_def index_documents_posting)

end
