(* ===== verification/Indexing.thy ===== *)
theory Indexing
  imports InMemoryIndex IsrDoc
begin

text \<open>
  Indexing a run of documents: the locations that \<open>Tokenizer\<close> gives them, and the loops of the index
  workers of \<open>src/main_distributed.cpp\<close> and \<open>src/main.cpp\<close>, which cut the run into chunks. The documents
  of a chunk make a \<open>doc_table\<close>, which is what the readers that work document by document assume.
\<close>

subsection \<open>Locations\<close>

definition doc_span :: "HtmlDoc \<Rightarrow> nat" where
  "doc_span doc = length (titleWords doc) + length (words doc)"

definition total_span :: "HtmlDoc list \<Rightarrow> nat" where
  "total_span docs = sum_list (map (\<lambda>d. doc_span d + 1) docs)"

lemma total_span_simps [simp]: "total_span [] = 0" "total_span (d # ds) = doc_span d + 1 + total_span ds"
  by (simp_all add: total_span_def)

lemma emit_words_loc: "snd (emit_words m l raws) = l + of_nat (length raws)"
  by (induction m l raws rule: emit_words.induct) (simp_all add: Let_def case_prod_beta)

lemma emit_words_tok:
  "k \<in> set (fst (emit_words m l raws)) \<Longrightarrow>
     \<exists>i < length raws. tok_location k = l + of_nat i \<and> (\<exists>t \<in> set (processToken (raws ! i)). tok_term k = m @ t)"
proof (induction m l raws rule: emit_words.induct)
  case (2 m l raw raws)
  from 2(2) consider t where "t \<in> set (processToken raw)" "k = \<lparr>tok_term = m @ t, tok_location = l\<rparr>"
    | "k \<in> set (fst (emit_words m (l + 1) raws))"
    by (auto simp: Let_def case_prod_beta)
  then show ?case
  proof cases
    case 1
    then show ?thesis by (auto intro!: exI [of _ 0])
  next
    case 2
    then obtain i where "i < length raws" "tok_location k = l + 1 + of_nat i"
      "\<exists>t \<in> set (processToken (raws ! i)). tok_term k = m @ t"
      using "2.IH" by blast
    then show ?thesis by (intro exI [of _ "Suc i"]) (simp add: ac_simps)
  qed
qed simp

lemma processDocument_eq:
  "processDocument l doc =
     (\<lparr>tokens = fst (emit_words ''$'' l (titleWords doc))
                @ fst (emit_words [] (l + of_nat (length (titleWords doc))) (words doc)),
       doc_end = \<lparr>de_location = l + of_nat (doc_span doc), de_url = documentUrl doc,
                  de_word_count = of_nat (length (words doc)),
                  de_title_word_count = of_nat (length (titleWords doc)),
                  de_doc_start_loc = l, de_seed_distance = seedDistance doc,
                  de_features = extractDocumentFeatures doc\<rparr>\<rparr>, l + of_nat (doc_span doc) + 1)"
  using emit_words_loc [of "''$''" l "titleWords doc"]
    emit_words_loc [of "[]" "l + of_nat (length (titleWords doc))" "words doc"]
  by (simp add: processDocument_def Let_def case_prod_beta doc_span_def ac_simps)

lemma processDocument_tok:
  assumes "k \<in> set (tokens (fst (processDocument l doc)))"
  shows "\<exists>i < doc_span doc. tok_location k = l + of_nat i"
    and "\<exists>raw. \<exists>t \<in> set (processToken raw). tok_term k = ''$'' @ t \<or> tok_term k = t"
proof -
  let ?T = "of_nat (length (titleWords doc))"
  from assms consider "k \<in> set (fst (emit_words ''$'' l (titleWords doc)))"
    | "k \<in> set (fst (emit_words [] (l + ?T) (words doc)))" by (auto simp: processDocument_eq)
  then have "(\<exists>i < doc_span doc. tok_location k = l + of_nat i)
    \<and> (\<exists>raw. \<exists>t \<in> set (processToken raw). tok_term k = ''$'' @ t \<or> tok_term k = t)"
  proof cases
    case 1
    then obtain i where "i < length (titleWords doc)" "tok_location k = l + of_nat i"
      "\<exists>t \<in> set (processToken (titleWords doc ! i)). tok_term k = ''$'' @ t" using emit_words_tok by blast
    then show ?thesis by (intro conjI exI [of _ i]) (auto simp: doc_span_def)
  next
    case 2
    then obtain i where "i < length (words doc)" "tok_location k = l + ?T + of_nat i"
      "\<exists>t \<in> set (processToken (words doc ! i)). tok_term k = [] @ t" using emit_words_tok by blast
    then show ?thesis
      by (intro conjI exI [of _ "length (titleWords doc) + i"]) (auto simp: doc_span_def ac_simps)
  qed
  then show "\<exists>i < doc_span doc. tok_location k = l + of_nat i"
    "\<exists>raw. \<exists>t \<in> set (processToken raw). tok_term k = ''$'' @ t \<or> tok_term k = t" by blast+
qed

lemma unat_loc_add: "unat l + n < 2 ^ 32 \<Longrightarrow> unat (l + of_nat n :: u32) = unat l + n"
  by (simp add: unat_word_ariths unat_of_nat)

text \<open>C28. As long as the locations do not run out, a document takes one location for each word of its title
  and of its body and one more for its end; its tokens lie between its start and its end, and the next
  document starts behind it.\<close>

theorem processDocument_locations:
  assumes "unat loc + doc_span doc < 2 ^ 32 - 1"
  shows "let (d, next_location) = processDocument loc doc; e = doc_end d
         in de_doc_start_loc e = loc \<and> unat (de_location e) = unat loc + doc_span doc
            \<and> unat next_location = unat (de_location e) + 1
            \<and> (\<forall>k \<in> set (tokens d). loc \<le> tok_location k \<and> tok_location k < de_location e)"
proof -
  have "loc \<le> tok_location k \<and> tok_location k < loc + of_nat (doc_span doc)"
    if k: "k \<in> set (tokens (fst (processDocument loc doc)))" for k
  proof -
    obtain i where i: "i < doc_span doc" "tok_location k = loc + of_nat i" using processDocument_tok(1) [OF k] by blast
    then have "unat (tok_location k) = unat loc + i" using assms by (simp add: unat_loc_add)
    then show ?thesis using i(1) assms by (simp add: word_le_nat_alt word_less_nat_alt unat_loc_add)
  qed
  moreover have "unat (loc + of_nat (doc_span doc) + 1) = unat loc + doc_span doc + 1"
    using assms unat_loc_add [of loc "doc_span doc + 1"] by (simp add: ac_simps)
  ultimately show ?thesis using assms by (simp add: processDocument_eq unat_loc_add)
qed

definition sample_doc :: HtmlDoc where
  "sample_doc = \<lparr>words = [''some'', ''words''], titleWords = [''A'', ''title''], links = [], base = [],
     sourceUrl = ''https://a.org/'', seedDistance = 1, openSections = [], sawBodyTag = True,
     sawCloseHtml = True, truncated = False\<rparr>"

theorem processDocument_locations_witness:
  "let (d, next_location) = processDocument 7 sample_doc
   in unat (de_location (doc_end d)) = 11 \<and> unat next_location = 12"
proof -
  have "doc_span sample_doc = 4" by (simp add: sample_doc_def doc_span_def)
  then show ?thesis using processDocument_locations [of 7 sample_doc] by (simp add: Let_def case_prod_beta)
qed

subsection \<open>The document table of a chunk\<close>

fun doc_spans :: "nat \<Rightarrow> HtmlDoc list \<Rightarrow> (nat \<times> nat) list" where
  "doc_spans l [] = []"
| "doc_spans l (d # ds) = (l, l + doc_span d) # doc_spans (l + doc_span d + 1) ds"

lemma length_doc_spans [simp]: "length (doc_spans l ds) = length ds"
  by (induction l ds rule: doc_spans.induct) simp_all

lemma doc_spans_bounds:
  "i < length ds \<Longrightarrow> l \<le> fst (doc_spans l ds ! i) \<and> fst (doc_spans l ds ! i) \<le> snd (doc_spans l ds ! i)
     \<and> snd (doc_spans l ds ! i) < l + total_span ds"
proof (induction l ds arbitrary: i rule: doc_spans.induct)
  case (2 l d ds)
  then show ?case by (cases i) (auto dest: "2.IH")
qed simp

lemma doc_spans_next:
  "Suc i < length ds \<Longrightarrow> snd (doc_spans l ds ! i) < fst (doc_spans l ds ! Suc i)"
proof (induction l ds arbitrary: i rule: doc_spans.induct)
  case (2 l d ds)
  show ?case
  proof (cases i)
    case 0
    then show ?thesis using 2(2) doc_spans_bounds [of 0 ds "l + doc_span d + 1"] by simp
  next
    case (Suc j)
    then show ?thesis using 2(2) "2.IH" [of j] by simp
  qed
qed simp

lemma tokenized_spans:
  assumes "unat loc + total_span docs < 2 ^ 32"
  shows "map (\<lambda>d. (de_doc_start_loc (doc_end d), de_location (doc_end d))) (tokenized loc docs)
       = map (\<lambda>(s, e). (of_nat s, of_nat e)) (doc_spans (unat loc) docs)"
  using assms
proof (induction docs arbitrary: loc)
  case (Cons d ds)
  have "unat (loc + of_nat (doc_span d) + 1) = unat loc + doc_span d + 1"
    using Cons.prems unat_loc_add [of loc "doc_span d + 1"] by (simp add: ac_simps)
  then show ?case using Cons.IH [of "loc + of_nat (doc_span d) + 1"] Cons.prems by (simp add: processDocument_eq)
qed simp

lemma token_not_end:
  assumes "k \<in> set (tokens (fst (processDocument l doc)))"
  shows "tok_term k \<noteq> docEndToken"
proof -
  obtain raw t where t: "t \<in> set (processToken raw)" "tok_term k = ''$'' @ t \<or> tok_term k = t"
    using processDocument_tok(2) [OF assms] by blast
  have "\<not> no_upper docEndToken" by (simp add: no_upper_def docEndToken_def isUpperAscii_def code_def)
  then have "t \<noteq> docEndToken" using processToken_no_upper [OF t(1)] by blast
  moreover have "''$'' @ t \<noteq> docEndToken" by (simp add: docEndToken_def)
  ultimately show ?thesis using t(2) by metis
qed

lemma docEnd_locations:
  "term_locations docEndToken (concat (map doc_tokens (tokenized loc docs)))
     = map (\<lambda>d. de_location (doc_end d)) (tokenized loc docs)"
proof (induction docs arbitrary: loc)
  case (Cons d ds)
  have "filter (\<lambda>k. tok_term k = docEndToken) (tokens (fst (processDocument loc d))) = []"
    using token_not_end by (auto simp: filter_empty_conv)
  then show ?case using Cons by (simp add: term_locations_def doc_tokens_def)
qed (simp add: term_locations_def)

definition chunk_document :: "DocumentRecord list \<Rightarrow> u32 \<Rightarrow> DocumentRecord option" where
  "chunk_document ds i = (if unat i < length ds then Some (ds ! unat i) else None)"

lemma index_documents_spans:
  assumes "unat loc + total_span docs < 2 ^ 32"
  defines "idx \<equiv> snd (index_documents docs (loc, empty_index))"
  shows "map start_location (documents idx) = map (of_nat \<circ> fst) (doc_spans (unat loc) docs)"
    and "map end_location (documents idx) = map (of_nat \<circ> snd) (doc_spans (unat loc) docs)"
    and "locations (posting idx docEndToken) = map end_location (documents idx)"
proof -
  have "terms_seen empty_index = {}" by (simp add: empty_index_def)
  note fold = fold_index_document_posting [OF this]
  have docs: "documents idx = map (document_record \<circ> doc_end) (tokenized loc docs)"
    by (simp add: idx_def index_documents_fold fold(4)) (simp add: empty_index_def)
  have "map (\<lambda>d. (start_location d, end_location d)) (documents idx)
      = map (\<lambda>(s, e). (of_nat s, of_nat e)) (doc_spans (unat loc) docs)"
    using tokenized_spans [OF assms(1)] by (simp add: docs document_record_def comp_def)
  from arg_cong [where f = "map fst", OF this] arg_cong [where f = "map snd", OF this]
  show "map start_location (documents idx) = map (of_nat \<circ> fst) (doc_spans (unat loc) docs)"
    "map end_location (documents idx) = map (of_nat \<circ> snd) (doc_spans (unat loc) docs)"
    by (simp_all add: comp_def case_prod_beta)
  show "locations (posting idx docEndToken) = map end_location (documents idx)"
    by (simp add: idx_def index_documents_fold fold(1) docEnd_locations docs [unfolded idx_def index_documents_fold]
        document_record_def comp_def) (simp add: posting_def empty_index_def empty_posting_list_def)
qed



subsection \<open>The index workers\<close>

text \<open>\<open>IndexWorkerThread\<close> of \<open>src/main_distributed.cpp\<close>, one turn of its loop. A chunk is flushed as the index
  that is written; the file name, the metadata, the anchor index and a failed write are left out.\<close>

definition FLUSHBODYTOKENSIZE :: nat where "FLUSHBODYTOKENSIZE = 15000000"

record IndexWorker =
  next_loc :: u32
  mem_index :: InMemoryIndex
  docsProcessed :: nat
  tokensProcessed :: nat
  chunks :: "InMemoryIndex list"

definition start_worker :: IndexWorker where
  "start_worker = \<lparr>next_loc = 0, mem_index = empty_index, docsProcessed = 0, tokensProcessed = 0, chunks = []\<rparr>"

definition worker_step :: "HtmlDoc \<Rightarrow> IndexWorker \<Rightarrow> IndexWorker" where
  "worker_step doc w =
     (let (d, loc) = processDocument (next_loc w) doc;
          w' = w\<lparr>next_loc := loc, mem_index := index_document d (mem_index w),
                 docsProcessed := docsProcessed w + 1,
                 tokensProcessed := tokensProcessed w + length (tokens d)\<rparr>
      in if tokensProcessed w' \<ge> FLUSHBODYTOKENSIZE
         then w'\<lparr>chunks := chunks w' @ [mem_index w'], mem_index := empty_index,
                 docsProcessed := 0, tokensProcessed := 0\<rparr>
         else w')"

definition worker_finish :: "IndexWorker \<Rightarrow> InMemoryIndex list" where
  "worker_finish w = (if docsProcessed w > 0 then chunks w @ [mem_index w] else chunks w)"

definition worker_run :: "HtmlDoc list \<Rightarrow> InMemoryIndex list" where
  "worker_run docs = worker_finish (fold worker_step docs start_worker)"

text \<open>\<open>IndexWorkerThread\<close> of \<open>src/main.cpp\<close>: the counter and the index are not reset after a flush, and
  nothing is flushed when the queue ends.\<close>

definition local_worker_step :: "HtmlDoc \<Rightarrow> IndexWorker \<Rightarrow> IndexWorker" where
  "local_worker_step doc w =
     (let (d, loc) = processDocument (next_loc w) doc;
          w' = w\<lparr>next_loc := loc, mem_index := index_document d (mem_index w),
                 docsProcessed := docsProcessed w + 1\<rparr>
      in if docsProcessed w' \<ge> 512 then w'\<lparr>chunks := chunks w' @ [mem_index w']\<rparr> else w')"

definition local_worker_run :: "HtmlDoc list \<Rightarrow> InMemoryIndex list" where
  "local_worker_run docs = chunks (fold local_worker_step docs start_worker)"

text \<open>Where a worker stands after some documents: the chunks it has written and its index are those of a
  division of the documents into consecutive parts.\<close>

definition worker_inv :: "HtmlDoc list \<Rightarrow> HtmlDoc list list \<Rightarrow> HtmlDoc list \<Rightarrow> IndexWorker \<Rightarrow> bool" where
  "worker_inv docs parts open_part w \<longleftrightarrow> concat parts @ open_part = docs
     \<and> (\<exists>locs. length locs = length parts
          \<and> chunks w = map2 (\<lambda>p l. snd (index_documents p (l, empty_index))) parts locs
          \<and> (\<exists>l. index_documents open_part (l, empty_index) = (next_loc w, mem_index w)))
     \<and> docsProcessed w = length open_part \<and> (\<forall>p \<in> set parts. p \<noteq> [])"

lemma index_documents_snoc:
  "index_documents (docs @ [doc]) s =
     (let (loc, idx) = index_documents docs s; (d, loc') = processDocument loc doc in (loc', index_document d idx))"
  by (induction docs s rule: index_documents.induct) (simp_all add: case_prod_beta Let_def)

lemma worker_step_inv:
  assumes "worker_inv docs parts op w"
  shows "\<exists>parts' op'. worker_inv (docs @ [doc]) parts' op' (worker_step doc w)"
proof -
  obtain locs l where inv: "concat parts @ op = docs" "length locs = length parts"
    "chunks w = map2 (\<lambda>p l. snd (index_documents p (l, empty_index))) parts locs"
    "index_documents op (l, empty_index) = (next_loc w, mem_index w)"
    "docsProcessed w = length op" "\<forall>p \<in> set parts. p \<noteq> []"
    using assms by (auto simp: worker_inv_def)
  obtain d loc where d: "processDocument (next_loc w) doc = (d, loc)" by fastforce
  have snoc: "index_documents (op @ [doc]) (l, empty_index) = (loc, index_document d (mem_index w))"
    using inv(4) d by (simp add: index_documents_snoc)
  show ?thesis
  proof (cases "tokensProcessed w + length (tokens d) \<ge> FLUSHBODYTOKENSIZE")
    case True
    have "worker_inv (docs @ [doc]) (parts @ [op @ [doc]]) [] (worker_step doc w)"
      using inv snoc d True unfolding worker_inv_def
      by (auto simp: worker_step_def Let_def intro!: exI [of _ "locs @ [l]"])
    then show ?thesis by blast
  next
    case False
    have "worker_inv (docs @ [doc]) parts (op @ [doc]) (worker_step doc w)"
      using inv snoc d False unfolding worker_inv_def
      by (auto simp: worker_step_def Let_def)
    then show ?thesis by blast
  qed
qed

lemma worker_fold_inv: "\<exists>parts op. worker_inv docs parts op (fold worker_step docs start_worker)"
proof (induction docs rule: rev_induct)
  case Nil
  have "worker_inv [] [] [] start_worker" by (auto simp: worker_inv_def start_worker_def)
  then show ?case by auto
next
  case (snoc doc docs)
  then show ?case using worker_step_inv by fastforce
qed

text \<open>C27. The distributed worker writes every document to exactly one chunk, in order: its chunks are the
  indexes of the parts of a division of the documents into consecutive parts that are not empty.\<close>

theorem worker_run_chunks:
  "\<exists>parts locs. concat parts = docs \<and> [] \<notin> set parts \<and> length locs = length parts
     \<and> worker_run docs = map2 (\<lambda>p l. snd (index_documents p (l, empty_index))) parts locs"
proof -
  let ?w = "fold worker_step docs start_worker" and ?f = "\<lambda>p l. snd (index_documents p (l, empty_index))"
  obtain parts op where "worker_inv docs parts op ?w" using worker_fold_inv by blast
  then obtain locs l where inv: "concat parts @ op = docs" "length locs = length parts"
    "chunks ?w = map2 ?f parts locs" "index_documents op (l, empty_index) = (next_loc ?w, mem_index ?w)"
    "docsProcessed ?w = length op" "\<forall>p \<in> set parts. p \<noteq> []"
    by (auto simp: worker_inv_def)
  show ?thesis
  proof (cases op)
    case Nil
    then show ?thesis using inv by (intro exI [of _ parts] exI [of _ locs]) (auto simp: worker_run_def worker_finish_def)
  next
    case (Cons a as)
    then show ?thesis using inv
      by (intro exI [of _ "parts @ [op]"] exI [of _ "locs @ [l]"]) (auto simp: worker_run_def worker_finish_def)
  qed
qed

lemma local_worker_quiet:
  "docsProcessed w + length docs < 512 \<Longrightarrow> chunks (fold local_worker_step docs w) = chunks w"
proof (induction docs arbitrary: w)
  case (Cons d ds)
  then show ?case by (simp add: local_worker_step_def Let_def case_prod_beta)
qed simp

text \<open>The worker of the single machine writes nothing for a run of fewer than 512 documents.\<close>

theorem local_worker_loses_documents:
  assumes "length docs < 512"
  shows "local_worker_run docs = []"
  using assms local_worker_quiet [of start_worker docs] by (simp add: local_worker_run_def start_worker_def)

theorem local_worker_loses_documents_witness:
  "local_worker_run [sample_doc, sample_doc] = []"
  by (rule local_worker_loses_documents) simp

end
