(* ===== verification/QueryTokenizer.thy ===== *)
theory QueryTokenizer
  imports Tokenizer
begin

text \<open>
  The tokenizer of queries, \<open>src/index/src/lib/query_tokenizer.cpp\<close>. Its outer loop may run forever, so it
  is a partial function whose value is then \<open>None\<close>; the theorems say exactly when that is, and what
  it returns for words between blanks. \<open>std::isspace\<close> is that of the C locale.
\<close>

datatype QueryTokenType = QWORD | QOR | QAND | QNOT | L_PAREN | R_PAREN | QUOTE

record QueryToken =
  q_type :: QueryTokenType
  q_text :: string

definition token_OR :: QueryToken where "token_OR = \<lparr>q_type = QOR, q_text = ''OR''\<rparr>"
definition token_AND :: QueryToken where "token_AND = \<lparr>q_type = QAND, q_text = ''AND''\<rparr>"
definition token_NOT :: QueryToken where "token_NOT = \<lparr>q_type = QNOT, q_text = ''NOT''\<rparr>"

definition to_lower :: "string \<Rightarrow> string" where
  "to_lower s = map (\<lambda>c. if isUpperAscii c then char_of (code c + 32) else c) s"

definition breaks_word :: "char \<Rightarrow> bool" where
  "breaks_word c \<longleftrightarrow> isSpace c \<or> c = CHR ''('' \<or> c = CHR '')'' \<or> c = CHR 0x22 \<or> c = CHR ''|'' \<or> c = CHR ''&''"

text \<open>The inner loop: the position it stops at and the word.\<close>

function word_loop :: "string \<Rightarrow> nat \<Rightarrow> string \<Rightarrow> nat \<times> string" where
  "word_loop query i word =
     (if i < length query
      then let wc = query ! i
           in if breaks_word wc then (i, word)
              else if wc = CHR ''-'' \<and> i + 1 < length query \<and> \<not> isSpace (query ! (i + 1))
              then word_loop query (i + 1) (word @ [wc])
              else if wc = CHR ''-'' then (i, word)
              else word_loop query (i + 1) (word @ [wc])
      else (i, word))"
  by pat_completeness auto
termination
  by (relation "measure (\<lambda>(query, i, word). length query - i)") auto

declare word_loop.simps [simp del]

definition word_tokens :: "string \<Rightarrow> QueryToken list" where
  "word_tokens word =
     (let lower_word = to_lower word
      in if lower_word = ''or'' then [token_OR]
         else if lower_word = ''and'' then [token_AND]
         else if lower_word = ''not'' then [token_NOT]
         else case processToken lower_word of [] \<Rightarrow> [] | t # _ \<Rightarrow> [\<lparr>q_type = QWORD, q_text = t\<rparr>])"

definition is_not_operator :: "string \<Rightarrow> nat \<Rightarrow> bool" where
  "is_not_operator query i \<longleftrightarrow>
     i = 0 \<or> isSpace (query ! (i - 1)) \<or> query ! (i - 1) = CHR ''('' \<or> query ! (i - 1) = CHR 0x22"

definition skip_double :: "string \<Rightarrow> nat \<Rightarrow> char \<Rightarrow> nat" where
  "skip_double query i c = (if i + 1 < length query \<and> query ! (i + 1) = c then i + 1 else i)"

partial_function (option) tokenize_loop :: "string \<Rightarrow> nat \<Rightarrow> QueryToken list \<Rightarrow> QueryToken list option" where
  "tokenize_loop query i toks =
     (if i < length query
      then let c = query ! i
           in if isSpace c then tokenize_loop query (i + 1) toks
              else if c = CHR ''(''
              then tokenize_loop query (i + 1) (toks @ [\<lparr>q_type = L_PAREN, q_text = ''(''\<rparr>])
              else if c = CHR '')''
              then tokenize_loop query (i + 1) (toks @ [\<lparr>q_type = R_PAREN, q_text = '')''\<rparr>])
              else if c = CHR 0x22
              then tokenize_loop query (i + 1) (toks @ [\<lparr>q_type = QUOTE, q_text = [CHR 0x22]\<rparr>])
              else if c = CHR ''|''
              then tokenize_loop query (skip_double query i c + 1) (toks @ [token_OR])
              else if c = CHR ''&''
              then tokenize_loop query (skip_double query i c + 1) (toks @ [token_AND])
              else if c = CHR ''-'' \<and> is_not_operator query i
              then tokenize_loop query (i + 1) (toks @ [token_NOT])
              else tokenize_loop query (fst (word_loop query i []))
                     (toks @ word_tokens (snd (word_loop query i [])))
      else Some toks)"

definition tokenize :: "string \<Rightarrow> QueryToken list option" where
  "tokenize query = tokenize_loop query 0 []"

subsection \<open>When it returns\<close>

text \<open>A hyphen after a word or a closing parenthesis that is the last character or stands before a blank.\<close>

definition stuck :: "string \<Rightarrow> nat \<Rightarrow> bool" where
  "stuck query i \<longleftrightarrow> i < length query \<and> query ! i = CHR ''-'' \<and> \<not> is_not_operator query i
     \<and> (i + 1 < length query \<longrightarrow> isSpace (query ! (i + 1)))"

lemma word_loop_passes:
  "i \<le> j \<Longrightarrow> j < fst (word_loop query i word) \<Longrightarrow> \<not> stuck query j"
proof (induction query i word rule: word_loop.induct)
  case (1 query i word)
  show ?case
  proof (cases "j = i")
    case True
    then show ?thesis using 1(4)
      by (auto simp: word_loop.simps [of query i word] stuck_def Let_def split: if_splits)
  next
    case False
    then have "Suc i \<le> j" using 1(3) by simp
    then show ?thesis using 1
      by (auto simp: word_loop.simps [of query i word] Let_def split: if_splits)
  qed
qed

lemma word_loop_ge: "i \<le> fst (word_loop query i word)"
proof (induction query i word rule: word_loop.induct)
  case (1 query i word)
  then show ?case by (auto simp: word_loop.simps [of query i word] Let_def split: if_splits)
qed

lemma word_loop_moves:
  assumes "i < length query" and "\<not> breaks_word (query ! i)" and "\<not> stuck query i"
    and "\<not> (query ! i = CHR ''-'' \<and> is_not_operator query i)"
  shows "i < fst (word_loop query i word)"
proof -
  have "word_loop query i word = word_loop query (i + 1) (word @ [query ! i])"
    using assms by (auto simp: word_loop.simps [of query i word] stuck_def Let_def)
  then show ?thesis using word_loop_ge [of "i + 1" query "word @ [query ! i]"] by simp
qed

lemma hyphen_not_space: "\<not> isSpace (CHR ''-'')" "\<not> isSpace (CHR ''('')" "\<not> isSpace (CHR '')'')"
    "\<not> isSpace (CHR 0x22)" "\<not> isSpace (CHR ''|'')" "\<not> isSpace (CHR ''&'')"
  by (simp_all add: isSpace_def code_def)

lemma not_stuck_other: "query ! j \<noteq> CHR ''-'' \<Longrightarrow> \<not> stuck query j"
  by (simp add: stuck_def)

lemma tokenize_loop_returns_only:
  assumes "tokenize_loop query i toks = Some out"
  shows "\<forall>j. i \<le> j \<longrightarrow> \<not> stuck query j"
proof (rule tokenize_loop.raw_induct [OF _ assms, where P = "\<lambda>query i toks out. \<forall>j. i \<le> j \<longrightarrow> \<not> stuck query j"])
  fix loop query i toks out
  assume IH: "\<And>query i toks out. loop query i toks = Some out \<Longrightarrow> \<forall>j. i \<le> j \<longrightarrow> \<not> stuck query j"
    and body: "(if i < length query
      then let c = query ! i
           in if isSpace c then loop query (i + 1) toks
              else if c = CHR ''(''
              then loop query (i + 1) (toks @ [\<lparr>q_type = L_PAREN, q_text = ''(''\<rparr>])
              else if c = CHR '')''
              then loop query (i + 1) (toks @ [\<lparr>q_type = R_PAREN, q_text = '')''\<rparr>])
              else if c = CHR 0x22
              then loop query (i + 1) (toks @ [\<lparr>q_type = QUOTE, q_text = [CHR 0x22]\<rparr>])
              else if c = CHR ''|''
              then loop query (skip_double query i c + 1) (toks @ [token_OR])
              else if c = CHR ''&''
              then loop query (skip_double query i c + 1) (toks @ [token_AND])
              else if c = CHR ''-'' \<and> is_not_operator query i
              then loop query (i + 1) (toks @ [token_NOT])
              else loop query (fst (word_loop query i []))
                     (toks @ word_tokens (snd (word_loop query i [])))
      else Some toks) = Some out"
  show "\<forall>j. i \<le> j \<longrightarrow> \<not> stuck query j"
  proof (cases "i < length query")
    case False
    then show ?thesis by (auto simp: stuck_def)
  next
    case True
    have go: ?thesis if "\<forall>j. i + 1 \<le> j \<longrightarrow> \<not> stuck query j" "\<not> stuck query i"
      using that by (metis Suc_eq_plus1 le_antisym not_less_eq_eq)
    have go2: ?thesis if "\<forall>j. skip_double query i c + 1 \<le> j \<longrightarrow> \<not> stuck query j"
      "query ! i = c" "c \<noteq> CHR ''-''" for c
    proof (intro allI impI)
      fix j assume "i \<le> j"
      then consider "j = i" | "j = i + 1" "skip_double query i c = i + 1" | "skip_double query i c + 1 \<le> j"
        using skip_double_def [of query i c] by (metis Suc_eq_plus1 le_antisym not_less_eq_eq)
      then show "\<not> stuck query j"
        using that by cases (auto simp: skip_double_def not_stuck_other split: if_splits)
    qed
    have word: ?thesis if "\<forall>j. fst (word_loop query i []) \<le> j \<longrightarrow> \<not> stuck query j"
      using that word_loop_passes not_le by blast
    let ?c = "query ! i"
    consider "isSpace ?c" | "?c = CHR ''(''" | "?c = CHR '')''" | "?c = CHR 0x22" | "?c = CHR ''|''" | "?c = CHR ''&''"
      | "?c = CHR ''-''" "is_not_operator query i"
      | "\<not> isSpace ?c" "?c \<noteq> CHR ''(''" "?c \<noteq> CHR '')''" "?c \<noteq> CHR 0x22" "?c \<noteq> CHR ''|''" "?c \<noteq> CHR ''&''"
        "\<not> (?c = CHR ''-'' \<and> is_not_operator query i)" by blast
    then show ?thesis
    proof cases
      case 1
      then have "loop query (i + 1) toks = Some out" using body True by (simp add: Let_def)
      from go [OF IH [OF this]] show ?thesis using 1 hyphen_not_space by (metis not_stuck_other)
    next
      case 5
      then have "loop query (skip_double query i ?c + 1) (toks @ [token_OR]) = Some out"
        using body True hyphen_not_space by (simp add: Let_def)
      from go2 [OF IH [OF this]] show ?thesis using 5 by simp
    next
      case 6
      then have "loop query (skip_double query i ?c + 1) (toks @ [token_AND]) = Some out"
        using body True hyphen_not_space by (simp add: Let_def)
      from go2 [OF IH [OF this]] show ?thesis using 6 by simp
    next
      case 7
      then have "loop query (i + 1) (toks @ [token_NOT]) = Some out"
        using body True hyphen_not_space by (simp add: Let_def)
      from go [OF IH [OF this]] show ?thesis using 7 by (simp add: stuck_def)
    next
      case 8
      then have "loop query (fst (word_loop query i [])) (toks @ word_tokens (snd (word_loop query i []))) = Some out"
        using body True by (auto simp: Let_def split: if_splits)
      from word [OF IH [OF this]] show ?thesis .
    qed (use body True go [OF IH] hyphen_not_space not_stuck_other in \<open>auto simp: Let_def\<close>)
  qed
qed

lemma tokenize_loop_returns:
  assumes "\<forall>j. i \<le> j \<longrightarrow> \<not> stuck query j"
  shows "\<exists>out. tokenize_loop query i toks = Some out"
  using assms
proof (induction "length query - i" arbitrary: i toks rule: less_induct)
  case less
  show ?case
  proof (cases "i < length query")
    case False
    then show ?thesis by (simp add: tokenize_loop.simps [of query i])
  next
    case True
    have IH: "\<exists>out. tokenize_loop query i' toks' = Some out" if "i < i'" for i' toks'
      using less.hyps [of i' toks'] less.prems that True by simp
    let ?c = "query ! i"
    have "i < fst (word_loop query i [])" if "\<not> breaks_word ?c" "\<not> (?c = CHR ''-'' \<and> is_not_operator query i)"
      using word_loop_moves [OF True that(1) _ that(2)] less.prems by simp
    moreover have "i < skip_double query i c + 1" for c by (simp add: skip_double_def)
    ultimately show ?thesis
      unfolding tokenize_loop.simps [of query i] using True IH by (auto simp: Let_def breaks_word_def)
  qed
qed



subsection \<open>Words between blanks\<close>

definition plain :: "string \<Rightarrow> bool" where
  "plain w \<longleftrightarrow> w \<noteq> [] \<and> (\<forall>c \<in> set w. \<not> breaks_word c \<and> c \<noteq> CHR ''-'')"

fun join_words :: "string list \<Rightarrow> string" where
  "join_words [] = []"
| "join_words [w] = w"
| "join_words (w # ws) = w @ CHR '' '' # join_words ws"

lemma word_loop_plain:
  assumes "\<forall>c \<in> set w. \<not> breaks_word c \<and> c \<noteq> CHR ''-''" and "post = [] \<or> breaks_word (hd post)"
  shows "word_loop (pre @ w @ post) (length pre) acc = (length pre + length w, acc @ w)"
  using assms(1)
proof (induction w arbitrary: pre acc)
  case Nil
  then show ?case using assms(2) by (cases post) (simp_all add: word_loop.simps [of _ "length pre"] nth_append)
next
  case (Cons c w)
  have "word_loop (pre @ (c # w) @ post) (length pre) acc = word_loop ((pre @ [c]) @ w @ post) (length (pre @ [c])) (acc @ [c])"
    using Cons.prems by (subst word_loop.simps) (simp add: nth_append)
  also have "\<dots> = (length (pre @ [c]) + length w, (acc @ [c]) @ w)"
    using Cons.prems by (intro Cons.IH) simp
  finally show ?case by simp
qed

lemma tokenize_loop_plain:
  assumes "plain w" and "post = [] \<or> breaks_word (hd post)"
  shows "tokenize_loop (pre @ w @ post) (length pre) toks
       = tokenize_loop (pre @ w @ post) (length pre + length w) (toks @ word_tokens w)"
proof -
  obtain c w' where w: "w = c # w'" "\<not> breaks_word c" "c \<noteq> CHR ''-''" using assms(1) by (cases w) (auto simp: plain_def)
  have loop: "word_loop (pre @ w @ post) (length pre) [] = (length pre + length w, w)"
    using word_loop_plain [of w post pre "[]"] assms by (simp add: plain_def)
  have "(pre @ w @ post) ! length pre = c" "length pre < length (pre @ w @ post)" using w by (simp_all add: nth_append)
  then show ?thesis
    using w loop by (subst tokenize_loop.simps) (simp add: Let_def breaks_word_def)
qed

lemma tokenize_loop_words:
  assumes "\<forall>w \<in> set ws. plain w" and "query = pre @ join_words ws"
  shows "tokenize_loop query (length pre) toks = Some (toks @ concat (map word_tokens ws))"
  using assms
proof (induction ws arbitrary: pre toks rule: join_words.induct)
  case 1
  then show ?case by (simp add: tokenize_loop.simps)
next
  case (2 w)
  then show ?case using tokenize_loop_plain [of w "[]" pre toks] by (simp add: tokenize_loop.simps)
next
  case (3 w v ws)
  let ?rest = "CHR '' '' # join_words (v # ws)" and ?q = "pre @ w @ CHR '' '' # join_words (v # ws)"
  have space: "isSpace (CHR '' '')" by (simp add: isSpace_def code_def)
  have q: "query = ?q" using 3 by simp
  have "tokenize_loop ?q (length pre) toks = tokenize_loop ?q (length pre + length w) (toks @ word_tokens w)"
    using 3 space by (intro tokenize_loop_plain) (auto simp: breaks_word_def)
  also have "\<dots> = tokenize_loop ?q (length pre + length w + 1) (toks @ word_tokens w)"
    using space by (subst tokenize_loop.simps) (simp add: nth_append)
  also have "\<dots> = Some ((toks @ word_tokens w) @ concat (map word_tokens (v # ws)))"
    using "3.IH" [of "pre @ w @ '' ''" "toks @ word_tokens w"] 3(2) q by simp
  finally show ?case unfolding q by simp
qed

text \<open>A query of words between blanks, without hyphens and operators in them, becomes the tokens of its
  words in order; a word that is no operator is looked up under the first term it is indexed under,
  whatever its case.\<close>

theorem tokenize_words:
  assumes "\<forall>w \<in> set ws. plain w"
  shows "tokenize (join_words ws) = Some (concat (map word_tokens ws))
     \<and> (\<forall>w. to_lower w \<notin> {''or'', ''and'', ''not''} \<longrightarrow>
          word_tokens w = map (\<lambda>t. \<lparr>q_type = QWORD, q_text = t\<rparr>) (take 1 (processToken w)))"
proof -
  have "processToken (to_lower w) = processToken w" for w
    using makeLowerCase_lowerAscii [of w] makeLowerCase_lowerAscii [of "makeLowerCase w"]
    by (simp add: processToken_def to_lower_def [folded makeLowerCase_def])
  then have "word_tokens w = map (\<lambda>t. \<lparr>q_type = QWORD, q_text = t\<rparr>) (take 1 (processToken w))"
    if "to_lower w \<notin> {''or'', ''and'', ''not''}" for w
    using that by (simp add: word_tokens_def Let_def split: list.split)
  then show ?thesis
    using tokenize_loop_words [OF assms, of "join_words ws" "[]" "[]"] by (simp add: tokenize_def)
qed

theorem tokenize_words_witness:
  "tokenize (join_words [''Cats'', ''OR'', ''dogs'']) = Some
     [\<lparr>q_type = QWORD, q_text = ''cat''\<rparr>, token_OR, \<lparr>q_type = QWORD, q_text = ''dog''\<rparr>]"
proof -
  have "\<forall>w \<in> set [''Cats'', ''OR'', ''dogs'']. plain w" by code_simp
  moreover have "concat (map word_tokens [''Cats'', ''OR'', ''dogs''])
      = [\<lparr>q_type = QWORD, q_text = ''cat''\<rparr>, token_OR, \<lparr>q_type = QWORD, q_text = ''dog''\<rparr>]" by code_simp
  ultimately show ?thesis using tokenize_words [of "[''Cats'', ''OR'', ''dogs'']"] by simp
qed

end
