(* ===== verification/ChunkWriter.thy ===== *)
theory ChunkWriter
  imports InMemoryIndex Isr
begin

text \<open>
  Writing a chunk file: \<open>src/index/src/lib/binary_writer.h\<close>, \<open>disk_chunk_writer.cpp\<close> and
  \<open>chunk_flusher.cpp\<close>, with \<open>hashString\<close> of \<open>Common.cpp\<close>. The file is its bytes and the position of the
  descriptor; an offset that the code patches later is patched here too. A structure is copied with
  its padding, whose bytes the code leaves unspecified and the model writes as 0. Failures of the
  system calls are left out. The lemmas say which bytes each operation appends.
\<close>

subsection \<open>The file\<close>

record out_file =
  f_bytes :: "u8 list"
  f_pos :: nat

definition writeBytes :: "u8 list \<Rightarrow> out_file \<Rightarrow> out_file" where
  "writeBytes bs f = \<lparr>f_bytes = take (f_pos f) (f_bytes f) @ bs @ drop (f_pos f + length bs) (f_bytes f),
                 f_pos = f_pos f + length bs\<rparr>"

definition currentOffset :: "out_file \<Rightarrow> nat" where
  "currentOffset f = f_pos f"

definition seekSet :: "nat \<Rightarrow> out_file \<Rightarrow> out_file" where
  "seekSet offset f = f\<lparr>f_pos := offset\<rparr>"

definition bytes_of :: "string \<Rightarrow> u8 list" where
  "bytes_of s = map (\<lambda>c. of_nat (code c)) s"

definition writeString16 :: "string \<Rightarrow> out_file \<Rightarrow> out_file" where
  "writeString16 str f =
     (let len = of_nat (length str) :: u16;
          f' = writeBytes (le_bytes 2 len) f
      in if len > 0 then writeBytes (take (unat len) (bytes_of str)) f' else f')"

definition pad :: "nat \<Rightarrow> u8 list" where
  "pad n = replicate n 0"

definition u64s :: "u64 list \<Rightarrow> u8 list" where
  "u64s ws = concat (map (le_bytes 8) ws)"

subsection \<open>Structures\<close>

definition header_bytes :: "FileHeader \<Rightarrow> u8 list" where
  "header_bytes h = le_bytes 4 (h_magic h) @ le_bytes 4 (h_version h) @ le_bytes 4 (num_documents h) @ pad 4
     @ le_bytes 8 (h_total_locations h) @ le_bytes 4 (num_unique_terms h) @ pad 4 @ le_bytes 8 (dict_offset h)
     @ le_bytes 8 (postings_offset h) @ le_bytes 8 (doctable_offset h) @ le_bytes 8 (global_loc_base h)"

definition bucket_bytes :: "BucketDisk \<Rightarrow> u8 list" where
  "bucket_bytes b = le_bytes 1 (occupied b) @ pad 3 @ le_bytes 4 (string_offset b)
     @ le_bytes 2 (string_length b) @ pad 6 @ le_bytes 8 (posting_offset b) @ le_bytes 4 (b_doc_frequency b)
     @ pad 4 @ le_bytes 8 (b_collection_frequency b)"

definition posting_header_bytes :: "PostingListHeader \<Rightarrow> u8 list" where
  "posting_header_bytes p = le_bytes 4 (pl_num_postings p) @ le_bytes 1 (has_seek_table p) @ pad 3
     @ le_bytes 4 (data_size p)"

definition disk_record_bytes :: "DocumentRecord \<Rightarrow> u8 list" where
  "disk_record_bytes d = (let fs = features d in
     le_bytes 4 (start_location d) @ le_bytes 4 (end_location d) @ le_bytes 4 (word_count d)
     @ le_bytes 2 (title_word_count d) @ le_bytes 1 (seed_distance d)
     @ le_bytes 1 (flags fs) @ le_bytes 1 (base_domain_length fs) @ le_bytes 2 (url_length fs)
     @ le_bytes 2 (path_length fs) @ le_bytes 1 (path_depth fs) @ le_bytes 1 (query_param_count fs)
     @ le_bytes 1 (numeric_path_char_count fs) @ le_bytes 1 (domain_hyphen_count fs)
     @ le_bytes 2 (outgoing_link_count fs) @ le_bytes 2 (outgoing_anchor_word_count fs))"

definition FileHeaderSize :: nat where "FileHeaderSize = 64"
definition BucketDiskSize :: nat where "BucketDiskSize = 40"
definition PostingListHeaderSize :: nat where "PostingListHeaderSize = 12"

subsection \<open>\<open>DiskChunkWriter\<close>\<close>

definition writeHeader :: "FileHeader \<Rightarrow> out_file \<Rightarrow> out_file" where
  "writeHeader header f = writeBytes (header_bytes header) f"

definition writePostingList :: "u32 list \<Rightarrow> out_file \<Rightarrow> seek_error + (out_file \<times> u64)" where
  "writePostingList locs f =
     (let current_offset = of_nat (currentOffset f);
          compressed_data = encodeDeltaList locs;
          n = of_nat (length locs) :: u32;
          header = \<lparr>pl_num_postings = n, has_seek_table = 0, data_size = of_nat (length compressed_data)\<rparr>
      in if shouldBuild (unat n)
         then (case build (Some compressed_data) (length compressed_data) (unat n) of
             Inl e \<Rightarrow> Inl e
           | Inr table \<Rightarrow>
               let f = writeBytes (posting_header_bytes (header\<lparr>has_seek_table := 1\<rparr>)) f;
                   f = writeBytes (serialize table) f
               in Inr (writeBytes compressed_data f, current_offset))
         else Inr (writeBytes compressed_data (writeBytes (posting_header_bytes header) f), current_offset))"

fun write_documents :: "nat \<Rightarrow> DocumentRecord list \<Rightarrow> out_file \<Rightarrow> out_file \<times> u64 list" where
  "write_documents doctable_start [] f = (f, [])"
| "write_documents doctable_start (doc # docs) f =
     (let off = of_nat (currentOffset f - doctable_start);
          f = writeString16 (doc_url doc) f;
          f = writeString16 (raw_tld (features doc)) f;
          f = writeBytes (disk_record_bytes doc) f;
          (f', offs) = write_documents doctable_start docs f
      in (f', off # offs))"

definition writeDocumentTable :: "DocumentRecord list \<Rightarrow> out_file \<Rightarrow> out_file \<times> u64" where
  "writeDocumentTable docs f =
     (let doctable_start = currentOffset f;
          num_docs = of_nat (length docs) :: u32;
          f = writeBytes (le_bytes 4 num_docs) f;
          offsets_array_start = currentOffset f;
          f = writeBytes (u64s (replicate (unat num_docs) 0)) f;
          (f, doc_offsets) = write_documents doctable_start (take (unat num_docs) docs) f;
          end_of_doctable = currentOffset f;
          f = writeBytes (u64s doc_offsets) (seekSet offsets_array_start f)
      in (seekSet end_of_doctable f, of_nat doctable_start))"

record DictionaryEntry =
  entry_term :: string
  disk_info :: BucketDisk

definition sentinel_bucket :: BucketDisk where
  "sentinel_bucket = \<lparr>occupied = 0, string_offset = 0, string_length = 0, posting_offset = 0,
     b_doc_frequency = 0, b_collection_frequency = 0\<rparr>"

definition write_entry :: "DictionaryEntry \<Rightarrow> out_file \<Rightarrow> out_file" where
  "write_entry e f =
     (let b_disk = (disk_info e)\<lparr>string_length := of_nat (length (entry_term e))\<rparr>
      in writeBytes (take (unat (string_length b_disk)) (bytes_of (entry_term e))) (writeBytes (bucket_bytes b_disk) f))"

fun write_chains :: "nat \<Rightarrow> DictionaryEntry list list \<Rightarrow> out_file \<Rightarrow> out_file \<times> u64 list" where
  "write_chains dict_start [] f = (f, [])"
| "write_chains dict_start (entries # buckets) f =
     (if entries = []
      then (let (f', offs) = write_chains dict_start buckets f in (f', 0 # offs))
      else let off = of_nat (currentOffset f - dict_start);
               f = fold write_entry entries f;
               f = writeBytes (bucket_bytes sentinel_bucket) f;
               (f', offs) = write_chains dict_start buckets f
           in (f', off # offs))"

definition writeDictionary :: "DictionaryEntry list list \<Rightarrow> out_file \<Rightarrow> out_file \<times> u64" where
  "writeDictionary buckets f =
     (let dict_start_offset = currentOffset f;
          num_buckets = length buckets;
          f = writeBytes (le_bytes 8 (of_nat num_buckets :: u64)) f;
          bucket_array_start = currentOffset f;
          f = writeBytes (u64s (replicate num_buckets 0)) f;
          (f, bucket_offsets) = write_chains dict_start_offset buckets f;
          end_of_dict = currentOffset f;
          f = writeBytes (u64s bucket_offsets) (seekSet bucket_array_start f)
      in (seekSet end_of_dict f, of_nat dict_start_offset))"

definition finish :: "FileHeader \<Rightarrow> out_file \<Rightarrow> out_file" where
  "finish final_header f = writeBytes (header_bytes final_header) (seekSet 0 f)"

subsection \<open>\<open>flushIndexChunk\<close>\<close>

text \<open>\<open>hashString\<close>: a \<open>char\<close> is signed, so it is added with its sign.\<close>

definition hashString :: "string \<Rightarrow> u64" where
  "hashString key = fold (\<lambda>c h. h * 37 + word_of_int (schar c)) (takeWhile (\<lambda>c. code c \<noteq> 0) key) 0"

definition empty_header :: FileHeader where
  "empty_header = \<lparr>h_magic = magic, h_version = version, num_documents = 0, h_total_locations = 0,
     num_unique_terms = 0, dict_offset = 0, postings_offset = 0, doctable_offset = 0, global_loc_base = 0\<rparr>"

definition dictionary_entry :: "string \<Rightarrow> PostingList \<Rightarrow> u64 \<Rightarrow> DictionaryEntry" where
  "dictionary_entry term pl offset = \<lparr>entry_term = term,
     disk_info = sentinel_bucket\<lparr>occupied := 1, posting_offset := offset - of_nat FileHeaderSize,
       b_doc_frequency := doc_frequency pl, b_collection_frequency := collection_frequency pl\<rparr>\<rparr>"

definition bucket_of :: "string \<Rightarrow> nat \<Rightarrow> nat" where
  "bucket_of term num_buckets = unat (hashString term) mod num_buckets"

fun write_postings :: "(string \<times> PostingList) list \<Rightarrow> nat \<Rightarrow> DictionaryEntry list list \<Rightarrow> out_file
    \<Rightarrow> seek_error + (DictionaryEntry list list \<times> out_file)" where
  "write_postings [] num_buckets buckets f = Inr (buckets, f)"
| "write_postings ((term, pl) # rest) num_buckets buckets f =
     (case writePostingList (locations pl) f of
        Inl e \<Rightarrow> Inl e
      | Inr (f', offset) \<Rightarrow>
          let i = bucket_of term num_buckets
          in write_postings rest num_buckets
               (buckets[i := buckets ! i @ [dictionary_entry term pl offset]]) f')"

definition num_buckets_for :: "nat \<Rightarrow> nat" where
  "num_buckets_for num_terms = max 1 (num_terms * 3 div 2)"

definition final_header :: "InMemoryIndex \<Rightarrow> u64 \<Rightarrow> u64 \<Rightarrow> FileHeader" where
  "final_header mem doctable_off dict_off = empty_header\<lparr>num_documents := of_nat (length (documents mem)),
     h_total_locations := total_locations mem, num_unique_terms := of_nat (length (index mem)),
     dict_offset := dict_off, postings_offset := of_nat FileHeaderSize, doctable_offset := doctable_off\<rparr>"

definition flushIndexChunk :: "InMemoryIndex \<Rightarrow> seek_error + u8 list" where
  "flushIndexChunk mem =
     (let f = writeHeader empty_header \<lparr>f_bytes = [], f_pos = 0\<rparr>;
          n = num_buckets_for (length (index mem))
      in case write_postings (index mem) n (replicate n []) f of
           Inl e \<Rightarrow> Inl e
         | Inr (buckets, f) \<Rightarrow>
             let (f, doctable_off) = writeDocumentTable (documents mem) f;
                 (f, dict_off) = writeDictionary buckets f
             in Inr (f_bytes (finish (final_header mem doctable_off dict_off) f)))"

subsection \<open>What is appended\<close>

definition at_end :: "out_file \<Rightarrow> bool" where
  "at_end f \<longleftrightarrow> f_pos f = length (f_bytes f)"

definition app :: "u8 list \<Rightarrow> out_file \<Rightarrow> out_file" where
  "app bs f = \<lparr>f_bytes = f_bytes f @ bs, f_pos = length (f_bytes f) + length bs\<rparr>"

lemma write_at_end: "at_end f \<Longrightarrow> writeBytes bs f = app bs f"
  by (simp add: writeBytes_def at_end_def app_def)

lemma at_end_app [simp]: "at_end (app bs f)"
  by (simp add: at_end_def app_def)

lemma app_app [simp]: "app cs (app bs f) = app (bs @ cs) f"
  by (simp add: app_def)

lemma f_bytes_app [simp]: "f_bytes (app bs f) = f_bytes f @ bs"
  by (simp add: app_def)

lemma app_Nil: "at_end f \<Longrightarrow> app [] f = f"
  by (cases f) (simp add: app_def at_end_def)

lemma currentOffset_app [simp]: "currentOffset (app bs f) = length (f_bytes f) + length bs"
  by (simp add: app_def currentOffset_def)

lemma currentOffset_at_end: "at_end f \<Longrightarrow> currentOffset f = length (f_bytes f)"
  by (simp add: at_end_def currentOffset_def)

text \<open>Patching a part of what was appended and going back to the end.\<close>

lemma patch:
  assumes "length new = length old"
  shows "seekSet (length (f_bytes f) + length (pre @ old @ post))
           (writeBytes new (seekSet (length (f_bytes f) + length pre) (app (pre @ old @ post) f)))
       = app (pre @ new @ post) f"
  using assms by (simp add: writeBytes_def seekSet_def app_def)

lemma length_bytes_of [simp]: "length (bytes_of s) = length s"
  by (simp add: bytes_of_def)

lemma length_u64s [simp]: "length (u64s ws) = 8 * length ws"
  by (induction ws) (simp_all add: u64s_def)

definition string16_bytes :: "string \<Rightarrow> u8 list" where
  "string16_bytes s = le_bytes 2 (of_nat (length s) :: u16) @ take (length s mod 2 ^ 16) (bytes_of s)"

lemma writeString16_at_end: "at_end f \<Longrightarrow> writeString16 s f = app (string16_bytes s) f"
proof -
  assume f: "at_end f"
  have len: "unat (of_nat (length s) :: u16) = length s mod 2 ^ 16" by (simp add: unat_of_nat)
  then have "(of_nat (length s) :: u16) > 0 \<longleftrightarrow> length s mod 2 ^ 16 \<noteq> 0"
    by (simp add: word_less_nat_alt)
  then show ?thesis using f
    by (auto simp: writeString16_def Let_def write_at_end string16_bytes_def len)
qed

definition document_bytes :: "DocumentRecord \<Rightarrow> u8 list" where
  "document_bytes d = string16_bytes (doc_url d) @ string16_bytes (raw_tld (features d)) @ disk_record_bytes d"

text \<open>\<open>offsets k sizes\<close>: where consecutive pieces start.\<close>

fun offsets :: "nat \<Rightarrow> nat list \<Rightarrow> nat list" where
  "offsets k [] = []"
| "offsets k (n # ns) = k # offsets (k + n) ns"

lemma length_offsets [simp]: "length (offsets k ns) = length ns"
  by (induction k ns rule: offsets.induct) simp_all

lemma offsets_nth: "i < length ns \<Longrightarrow> offsets k ns ! i = k + sum_list (take i ns)"
proof (induction k ns arbitrary: i rule: offsets.induct)
  case (2 k n ns)
  then show ?case by (cases i) simp_all
qed simp

lemma drop_pieces:
  "i < length xs \<Longrightarrow> \<exists>rest. drop (sum_list (take i (map (length \<circ> g) xs))) (concat (map g xs)) = g (xs ! i) @ rest"
proof (induction xs arbitrary: i)
  case (Cons x xs)
  then show ?case by (cases i) auto
qed simp

lemma write_documents_at_end:
  "at_end f \<Longrightarrow> start \<le> length (f_bytes f) \<Longrightarrow> write_documents start docs f
     = (app (concat (map document_bytes docs)) f,
        map of_nat (offsets (length (f_bytes f) - start) (map (length \<circ> document_bytes) docs)))"
proof (induction start docs f rule: write_documents.induct)
  case (1 start f)
  then show ?case by (simp add: app_Nil)
next
  case (2 start doc docs f)
  have w: "writeBytes (disk_record_bytes doc) (writeString16 (raw_tld (features doc)) (writeString16 (doc_url doc) f))
      = app (document_bytes doc) f"
    using 2(2) by (simp add: writeString16_at_end write_at_end document_bytes_def)
  show ?case
    using "2.IH" [OF refl refl refl refl] 2(2,3)
    by (simp add: Let_def w currentOffset_at_end)
qed

definition doctable_offsets :: "DocumentRecord list \<Rightarrow> nat list" where
  "doctable_offsets docs = offsets (4 + 8 * length docs) (map (length \<circ> document_bytes) docs)"

definition doctable_bytes :: "DocumentRecord list \<Rightarrow> u8 list" where
  "doctable_bytes docs = le_bytes 4 (of_nat (length docs) :: u32) @ u64s (map of_nat (doctable_offsets docs))
     @ concat (map document_bytes docs)"

lemma writeDocumentTable_at_end:
  assumes "at_end f" and "length docs < 2 ^ 32"
  shows "writeDocumentTable docs f = (app (doctable_bytes docs) f, of_nat (length (f_bytes f)))"
proof -
  let ?n = "of_nat (length docs) :: u32" and ?pl = "u64s (replicate (length docs) 0)"
  let ?b = "concat (map document_bytes docs)" and ?o = "u64s (map of_nat (doctable_offsets docs))"
  have n: "unat ?n = length docs" using assms(2) by simp
  have docs: "write_documents (length (f_bytes f)) docs (app (le_bytes 4 ?n @ ?pl) f)
      = (app (le_bytes 4 ?n @ ?pl @ ?b) f, map of_nat (doctable_offsets docs))"
    using write_documents_at_end [of "app (le_bytes 4 ?n @ ?pl) f" "length (f_bytes f)" docs]
    by (simp add: doctable_offsets_def)
  have "seekSet (length (f_bytes f) + length (le_bytes 4 ?n @ ?pl @ ?b))
      (writeBytes ?o (seekSet (length (f_bytes f) + length (le_bytes 4 ?n)) (app (le_bytes 4 ?n @ ?pl @ ?b) f)))
      = app (le_bytes 4 ?n @ ?o @ ?b) f"
    by (rule patch) (simp add: doctable_offsets_def)
  then show ?thesis using assms(1) docs
    by (simp add: writeDocumentTable_def Let_def n write_at_end currentOffset_at_end doctable_bytes_def
        del: le_bytes.simps)
qed

definition entry_bytes :: "DictionaryEntry \<Rightarrow> u8 list" where
  "entry_bytes e = (let len = of_nat (length (entry_term e)) :: u16
     in bucket_bytes ((disk_info e)\<lparr>string_length := len\<rparr>) @ take (unat len) (bytes_of (entry_term e)))"

definition chain_bytes :: "DictionaryEntry list \<Rightarrow> u8 list" where
  "chain_bytes es = (if es = [] then [] else concat (map entry_bytes es) @ bucket_bytes sentinel_bucket)"

lemma chain_bytes_Nil [simp]: "chain_bytes [] = []"
  by (simp add: chain_bytes_def)

fun chain_offsets :: "nat \<Rightarrow> DictionaryEntry list list \<Rightarrow> nat list" where
  "chain_offsets k [] = []"
| "chain_offsets k (es # ess) = (if es = [] then 0 else k) # chain_offsets (k + length (chain_bytes es)) ess"

lemma length_chain_offsets [simp]: "length (chain_offsets k ess) = length ess"
  by (induction k ess rule: chain_offsets.induct) simp_all

lemma chain_offsets_nth:
  "i < length ess \<Longrightarrow> chain_offsets k ess ! i =
     (if ess ! i = [] then 0 else k + sum_list (take i (map (length \<circ> chain_bytes) ess)))"
proof (induction k ess arbitrary: i rule: chain_offsets.induct)
  case (2 k es ess)
  then show ?case by (cases i) (simp_all add: comp_def)
qed simp

lemma write_entries_at_end: "at_end f \<Longrightarrow> fold write_entry es f = app (concat (map entry_bytes es)) f"
proof (induction es arbitrary: f)
  case (Cons e es)
  have "write_entry e f = app (entry_bytes e) f"
    using Cons.prems by (simp add: write_entry_def entry_bytes_def Let_def write_at_end)
  then show ?case using Cons.IH by simp
qed (simp add: app_Nil)

lemma write_chains_at_end:
  "at_end f \<Longrightarrow> start \<le> length (f_bytes f) \<Longrightarrow> write_chains start buckets f
     = (app (concat (map chain_bytes buckets)) f, map of_nat (chain_offsets (length (f_bytes f) - start) buckets))"
proof (induction buckets arbitrary: f)
  case Nil
  then show ?case by (simp add: app_Nil)
next
  case (Cons es buckets)
  let ?f = "app (chain_bytes es) f"
  have IH: "write_chains start buckets ?f = (app (concat (map chain_bytes buckets)) ?f,
      map of_nat (chain_offsets (length (f_bytes ?f) - start) buckets))"
    using Cons.prems by (intro Cons.IH) simp_all
  show ?case
  proof (cases "es = []")
    case True
    then show ?thesis using IH Cons.prems by (simp add: app_Nil)
  next
    case False
    then have "writeBytes (bucket_bytes sentinel_bucket) (fold write_entry es f) = ?f"
      using Cons.prems by (simp add: write_entries_at_end write_at_end chain_bytes_def)
    then show ?thesis
      using False IH Cons.prems by (simp add: Let_def currentOffset_at_end)
  qed
qed

definition dictionary_bytes :: "DictionaryEntry list list \<Rightarrow> u8 list" where
  "dictionary_bytes buckets = le_bytes 8 (of_nat (length buckets) :: u64)
     @ u64s (map of_nat (chain_offsets (8 + 8 * length buckets) buckets)) @ concat (map chain_bytes buckets)"

lemma writeDictionary_at_end:
  assumes "at_end f"
  shows "writeDictionary buckets f = (app (dictionary_bytes buckets) f, of_nat (length (f_bytes f)))"
proof -
  let ?n = "le_bytes 8 (of_nat (length buckets) :: u64)" and ?pl = "u64s (replicate (length buckets) 0)"
  let ?b = "concat (map chain_bytes buckets)"
  let ?o = "u64s (map of_nat (chain_offsets (8 + 8 * length buckets) buckets))"
  have chains: "write_chains (length (f_bytes f)) buckets (app (?n @ ?pl) f)
      = (app (?n @ ?pl @ ?b) f, map of_nat (chain_offsets (8 + 8 * length buckets) buckets))"
    using write_chains_at_end [of "app (?n @ ?pl) f" "length (f_bytes f)" buckets] by simp
  have "seekSet (length (f_bytes f) + length (?n @ ?pl @ ?b))
      (writeBytes ?o (seekSet (length (f_bytes f) + length ?n) (app (?n @ ?pl @ ?b) f)))
      = app (?n @ ?o @ ?b) f"
    by (rule patch) simp
  then show ?thesis using assms chains
    by (simp add: writeDictionary_def Let_def write_at_end currentOffset_at_end dictionary_bytes_def
        del: le_bytes.simps)
qed

definition posting_header :: "u32 list \<Rightarrow> PostingListHeader" where
  "posting_header locs = \<lparr>pl_num_postings = of_nat (length locs),
     has_seek_table = (if shouldBuild (length locs) then 1 else 0),
     data_size = of_nat (length (encodeDeltaList locs))\<rparr>"

definition table_of :: "u32 list \<Rightarrow> SeekTable" where
  "table_of locs = (case build (Some (encodeDeltaList locs)) (length (encodeDeltaList locs)) (length locs) of
     Inl e \<Rightarrow> [] | Inr table \<Rightarrow> table)"

definition posting_bytes :: "u32 list \<Rightarrow> u8 list" where
  "posting_bytes locs = posting_header_bytes (posting_header locs)
     @ (if shouldBuild (length locs) then serialize (table_of locs) else []) @ encodeDeltaList locs"

lemma shouldBuild_ne: "shouldBuild (length locs) \<Longrightarrow> locs \<noteq> []"
  by (auto simp: shouldBuild_def)

lemma table_of_spec:
  assumes "posting_list locs" and "locs \<noteq> []"
  shows "build (Some (encodeDeltaList locs)) (length (encodeDeltaList locs)) (length locs) = Inr (table_of locs)"
    and "table_spec locs (table_of locs)"
  using build_ok [of locs "[]"] assms by (auto simp: table_of_def posting_list_def)

lemma writePostingList_at_end:
  assumes "posting_list locs" and "at_end f"
  shows "writePostingList locs f = Inr (app (posting_bytes locs) f, of_nat (length (f_bytes f)))"
proof -
  have n: "unat (of_nat (length locs) :: u32) = length locs" using assms(1) by (simp add: posting_list_def)
  show ?thesis
    using assms table_of_spec(1) [OF assms(1) shouldBuild_ne]
    by (simp add: writePostingList_def Let_def n posting_bytes_def posting_header_def write_at_end
        currentOffset_at_end)
qed

text \<open>The dictionary entries of posting lists that are written from position \<open>k\<close> on.\<close>

fun posting_entries :: "nat \<Rightarrow> (string \<times> PostingList) list \<Rightarrow> DictionaryEntry list" where
  "posting_entries k [] = []"
| "posting_entries k ((term, pl) # rest) =
     dictionary_entry term pl (of_nat k) # posting_entries (k + length (posting_bytes (locations pl))) rest"

definition in_bucket :: "nat \<Rightarrow> nat \<Rightarrow> DictionaryEntry list \<Rightarrow> DictionaryEntry list" where
  "in_bucket n i es = filter (\<lambda>e. bucket_of (entry_term e) n = i) es"

lemma write_postings_at_end:
  assumes "\<forall>(t, pl) \<in> set ps. posting_list (locations pl)" and "at_end f" and "length buckets = n" and "0 < n"
  shows "write_postings ps n buckets f = Inr
     (map (\<lambda>i. buckets ! i @ in_bucket n i (posting_entries (length (f_bytes f)) ps)) [0..<n],
      app (concat (map (posting_bytes \<circ> locations \<circ> snd) ps)) f)"
  using assms
proof (induction ps arbitrary: buckets f)
  case Nil
  then show ?case by (auto simp: app_Nil in_bucket_def intro: nth_equalityI)
next
  case (Cons p ps)
  obtain t pl where p: "p = (t, pl)" by (cases p)
  let ?i = "bucket_of t n" and ?e = "dictionary_entry t pl (of_nat (length (f_bytes f)))"
  let ?f = "app (posting_bytes (locations pl)) f"
  let ?bs = "buckets[?i := buckets ! ?i @ [?e]]"
  have i: "?i < n" using Cons.prems(4) by (simp add: bucket_of_def)
  have "write_postings (p # ps) n buckets f = write_postings ps n ?bs ?f"
    using Cons.prems by (simp add: p writePostingList_at_end Let_def)
  also have "\<dots> = Inr (map (\<lambda>i. ?bs ! i @ in_bucket n i (posting_entries (length (f_bytes ?f)) ps)) [0..<n],
      app (concat (map (posting_bytes \<circ> locations \<circ> snd) ps)) ?f)"
    using Cons.prems by (intro Cons.IH) simp_all
  also have "map (\<lambda>i. ?bs ! i @ in_bucket n i (posting_entries (length (f_bytes ?f)) ps)) [0..<n]
      = map (\<lambda>i. buckets ! i @ in_bucket n i (posting_entries (length (f_bytes f)) (p # ps))) [0..<n]"
    using Cons.prems(3) i by (auto simp: p in_bucket_def dictionary_entry_def nth_list_update)
  finally show ?case by (simp add: p)
qed

subsection \<open>The layout of a chunk\<close>

definition postings_bytes :: "InMemoryIndex \<Rightarrow> u8 list" where
  "postings_bytes mem = concat (map (posting_bytes \<circ> locations \<circ> snd) (index mem))"

definition chunk_buckets :: "InMemoryIndex \<Rightarrow> DictionaryEntry list list" where
  "chunk_buckets mem = (let n = num_buckets_for (length (index mem))
     in map (\<lambda>i. in_bucket n i (posting_entries FileHeaderSize (index mem))) [0..<n])"

definition doctable_pos :: "InMemoryIndex \<Rightarrow> nat" where
  "doctable_pos mem = FileHeaderSize + length (postings_bytes mem)"

definition dict_pos :: "InMemoryIndex \<Rightarrow> nat" where
  "dict_pos mem = doctable_pos mem + length (doctable_bytes (documents mem))"

definition chunk_bytes :: "InMemoryIndex \<Rightarrow> u8 list" where
  "chunk_bytes mem = header_bytes (final_header mem (of_nat (doctable_pos mem)) (of_nat (dict_pos mem)))
     @ postings_bytes mem @ doctable_bytes (documents mem) @ dictionary_bytes (chunk_buckets mem)"

lemma length_header_bytes [simp]: "length (header_bytes h) = FileHeaderSize"
  by (simp add: header_bytes_def pad_def FileHeaderSize_def)

lemma num_buckets_pos: "0 < num_buckets_for n"
  by (simp add: num_buckets_for_def)

lemma flush_layout:
  assumes "\<forall>(t, pl) \<in> set (index mem). posting_list (locations pl)" and "length (documents mem) < 2 ^ 32"
  shows "flushIndexChunk mem = Inr (chunk_bytes mem)"
proof -
  let ?n = "num_buckets_for (length (index mem))"
  let ?start = "\<lparr>f_bytes = [], f_pos = 0\<rparr>"
  let ?f = "app (header_bytes empty_header) ?start"
  have "writeHeader empty_header ?start = ?f" by (simp add: writeHeader_def write_at_end at_end_def)
  moreover have "write_postings (index mem) ?n (replicate ?n []) ?f
      = Inr (chunk_buckets mem, app (postings_bytes mem) ?f)"
    using write_postings_at_end [OF assms(1), of ?f "replicate ?n []" ?n] num_buckets_pos
    by (simp add: chunk_buckets_def postings_bytes_def Let_def cong: map_cong)
  moreover have "writeDocumentTable (documents mem) (app (postings_bytes mem) ?f)
      = (app (doctable_bytes (documents mem)) (app (postings_bytes mem) ?f), of_nat (doctable_pos mem))"
    using writeDocumentTable_at_end [of "app (postings_bytes mem) ?f"] assms(2) by (simp add: doctable_pos_def)
  moreover have "writeDictionary (chunk_buckets mem) (app (doctable_bytes (documents mem)) (app (postings_bytes mem) ?f))
      = (app (dictionary_bytes (chunk_buckets mem)) (app (doctable_bytes (documents mem)) (app (postings_bytes mem) ?f)),
         of_nat (dict_pos mem))"
    using writeDictionary_at_end [of "app (doctable_bytes (documents mem)) (app (postings_bytes mem) ?f)"]
    by (simp add: dict_pos_def doctable_pos_def add.assoc)
  ultimately show ?thesis
    by (simp add: flushIndexChunk_def Let_def finish_def writeBytes_def seekSet_def chunk_bytes_def del: app_app)
qed

end
