(* ===== verification/ChunkReader.thy ===== *)
theory ChunkReader
  imports ChunkWriter "HOL-Library.Monad_Syntax"
begin

text \<open>
  Reading a chunk file: \<open>src/index/src/lib/buffer_reader.h\<close> and \<open>disk_chunk_reader.cpp\<close>. The mapped file
  is its bytes, a \<open>BufferReader\<close> is the bytes from its pointer on. Reading past the mapping, which the
  code does not check, is \<open>None\<close> or \<open>ReadPastBuffer\<close>. The theorems say that a reader opened on what
  \<open>flushIndexChunk\<close> wrote finds the posting list of every term and the record of every document.
\<close>

subsection \<open>\<open>BufferReader\<close>\<close>

definition take_word :: "nat \<Rightarrow> u8 list \<Rightarrow> ('a::len word \<times> u8 list) option" where
  "take_word n mem = (if n \<le> length mem then Some (le_value (take n mem), drop n mem) else None)"

definition skip :: "nat \<Rightarrow> u8 list \<Rightarrow> u8 list option" where
  "skip n mem = (if n \<le> length mem then Some (drop n mem) else None)"

definition string_of :: "u8 list \<Rightarrow> string" where
  "string_of bs = map (\<lambda>b. char_of (unat b)) bs"

definition readString16 :: "u8 list \<Rightarrow> (string \<times> u8 list) option" where
  "readString16 m = do {
     (len, m) \<leftarrow> (take_word 2 m :: (u16 \<times> u8 list) option);
     m' \<leftarrow> skip (unat len) m;
     Some (string_of (take (unat len) m), m') }"

definition read_header :: "u8 list \<Rightarrow> FileHeader option" where
  "read_header m = do {
     (mg, m) \<leftarrow> take_word 4 m; (ver, m) \<leftarrow> take_word 4 m; (docs, m) \<leftarrow> take_word 4 m; m \<leftarrow> skip 4 m;
     (locs, m) \<leftarrow> take_word 8 m; (terms, m) \<leftarrow> take_word 4 m; m \<leftarrow> skip 4 m; (dict, m) \<leftarrow> take_word 8 m;
     (posts, m) \<leftarrow> take_word 8 m; (docs_off, m) \<leftarrow> take_word 8 m; (gbase, m) \<leftarrow> take_word 8 m;
     Some \<lparr>h_magic = mg, h_version = ver, num_documents = docs, h_total_locations = locs,
           num_unique_terms = terms, dict_offset = dict, postings_offset = posts,
           doctable_offset = docs_off, global_loc_base = gbase\<rparr> }"

definition read_bucket :: "u8 list \<Rightarrow> (BucketDisk \<times> u8 list) option" where
  "read_bucket m = do {
     (occ, m) \<leftarrow> take_word 1 m; m \<leftarrow> skip 3 m; (soff, m) \<leftarrow> take_word 4 m; (slen, m) \<leftarrow> take_word 2 m;
     m \<leftarrow> skip 6 m; (poff, m) \<leftarrow> take_word 8 m; (df, m) \<leftarrow> take_word 4 m; m \<leftarrow> skip 4 m;
     (cf, m) \<leftarrow> take_word 8 m;
     Some (\<lparr>occupied = occ, string_offset = soff, string_length = slen, posting_offset = poff,
            b_doc_frequency = df, b_collection_frequency = cf\<rparr>, m) }"

definition read_posting_header :: "u8 list \<Rightarrow> (PostingListHeader \<times> u8 list) option" where
  "read_posting_header m = do {
     (n, m) \<leftarrow> take_word 4 m; (st, m) \<leftarrow> take_word 1 m; m \<leftarrow> skip 3 m; (sz, m) \<leftarrow> take_word 4 m;
     Some (\<lparr>pl_num_postings = n, has_seek_table = st, data_size = sz\<rparr>, m) }"

text \<open>The packed record, with the strings that precede it, as a \<open>DocumentRecord\<close>.\<close>

definition read_document :: "u8 list \<Rightarrow> (DocumentRecord \<times> u8 list) option" where
  "read_document m = do {
     (url, m) \<leftarrow> readString16 m; (tld, m) \<leftarrow> readString16 m;
     (sl, m) \<leftarrow> take_word 4 m; (el, m) \<leftarrow> take_word 4 m; (wc, m) \<leftarrow> take_word 4 m;
     (tc, m) \<leftarrow> take_word 2 m; (sd, m) \<leftarrow> take_word 1 m;
     (fl, m) \<leftarrow> take_word 1 m; (bd, m) \<leftarrow> take_word 1 m; (ul, m) \<leftarrow> take_word 2 m; (pl, m) \<leftarrow> take_word 2 m;
     (pd, m) \<leftarrow> take_word 1 m; (qp, m) \<leftarrow> take_word 1 m; (np, m) \<leftarrow> take_word 1 m; (dh, m) \<leftarrow> take_word 1 m;
     (ol, m) \<leftarrow> take_word 2 m; (oa, m) \<leftarrow> take_word 2 m;
     Some (\<lparr>doc_url = url, start_location = sl, end_location = el, word_count = wc, title_word_count = tc,
            seed_distance = sd,
            features = \<lparr>flags = fl, base_domain_length = bd, url_length = ul, path_length = pl,
              path_depth = pd, query_param_count = qp, numeric_path_char_count = np,
              domain_hyphen_count = dh, outgoing_link_count = ol, outgoing_anchor_word_count = oa,
              raw_tld = tld\<rparr>\<rparr>, m) }"

subsection \<open>\<open>DiskChunkReader\<close>\<close>

record DiskChunkReader =
  chunk_data :: "u8 list"
  chunk_header :: FileHeader

text \<open>\<open>open\<close> on the bytes of the file: \<open>None\<close> when it returns \<open>false\<close>.\<close>

definition open_chunk :: "u8 list \<Rightarrow> DiskChunkReader option" where
  "open_chunk file =
     (if length file < FileHeaderSize then None
      else case read_header file of
        None \<Rightarrow> None
      | Some h \<Rightarrow> if h_magic h \<noteq> magic then None
                  else if h_version h \<noteq> version then None
                  else Some \<lparr>chunk_data = file, chunk_header = h\<rparr>)"

lemma take_word_length: "take_word n m = Some (w, m') \<Longrightarrow> length m' = length m - n \<and> n \<le> length m"
  by (auto simp: take_word_def split: if_splits)

lemma skip_length: "skip n m = Some m' \<Longrightarrow> length m' \<le> length m"
  by (auto simp: skip_def split: if_splits)

lemma read_bucket_shrinks: "read_bucket m = Some (b, m') \<Longrightarrow> length m' < length m"
  by (auto simp: read_bucket_def bind_eq_Some_conv dest!: take_word_length skip_length) linarith

text \<open>The loop over the chain of a bucket: the entry of the term.\<close>

function find_in_chain :: "string \<Rightarrow> u8 list \<Rightarrow> seek_error + BucketDisk option" where
  "find_in_chain term m =
     (case read_bucket m of
        None \<Rightarrow> Inl ReadPastBuffer
      | Some (b, m') \<Rightarrow>
          if occupied b = 0 then Inr None
          else case skip (unat (string_length b)) m' of
            None \<Rightarrow> Inl ReadPastBuffer
          | Some m'' \<Rightarrow>
              if str_eq (string_of (take (unat (string_length b)) m')) term then Inr (Some b)
              else find_in_chain term m'')"
  by pat_completeness auto
termination
  by (relation "measure (length \<circ> snd)")
    (auto dest!: read_bucket_shrinks skip_length)

declare find_in_chain.simps [simp del]

definition open_posting :: "DiskChunkReader \<Rightarrow> BucketDisk \<Rightarrow> seek_error + isr_word" where
  "open_posting r b =
     (case read_posting_header (drop (unat (postings_offset (chunk_header r) + posting_offset b)) (chunk_data r)) of
        None \<Rightarrow> Inl ReadPastBuffer
      | Some (p, m) \<Rightarrow>
          if has_seek_table p \<noteq> 0
          then case skip SerializedSize m of
              None \<Rightarrow> Inl ReadPastBuffer
            | Some compressed_data \<Rightarrow>
                (case deserialize (Some m) (Some compressed_data) (unat (data_size p))
                        (unat (pl_num_postings p)) SerializedSize of
                   Inl e \<Rightarrow> Inl e
                 | Inr table \<Rightarrow>
                     (case word_init compressed_data (pl_num_postings p) (Some table) of
                        None \<Rightarrow> Inl ReadPastBuffer | Some w \<Rightarrow> Inr w))
          else case word_init m (pl_num_postings p) None of
              None \<Rightarrow> Inl ReadPastBuffer | Some w \<Rightarrow> Inr w)"

definition createISR :: "DiskChunkReader \<Rightarrow> string \<Rightarrow> seek_error + isr_word option" where
  "createISR r term =
     (let dict = drop (unat (dict_offset (chunk_header r))) (chunk_data r)
      in case take_word 8 dict of
           None \<Rightarrow> Inl ReadPastBuffer
         | Some (num_buckets :: u64, m) \<Rightarrow>
             if num_buckets = 0 then Inr None
             else case take_word 8 (drop (8 * (unat (hashString term) mod unat num_buckets)) m) of
               None \<Rightarrow> Inl ReadPastBuffer
             | Some (chain_offset :: u64, _) \<Rightarrow>
                 if chain_offset = 0 then Inr None
                 else (case find_in_chain term (drop (unat chain_offset) dict) of
                     Inl e \<Rightarrow> Inl e
                   | Inr None \<Rightarrow> Inr None
                   | Inr (Some b) \<Rightarrow>
                       (case open_posting r b of Inl e \<Rightarrow> Inl e | Inr w \<Rightarrow> Inr (Some w))))"

text \<open>\<open>getDocument\<close>: the outer \<open>None\<close> is a read past the mapping, the inner one \<open>std::nullopt\<close>.\<close>

definition getDocument :: "DiskChunkReader \<Rightarrow> u32 \<Rightarrow> DocumentRecord option option" where
  "getDocument r doc_id =
     (if doc_id \<ge> num_documents (chunk_header r) then Some None
      else let doctable = drop (unat (doctable_offset (chunk_header r))) (chunk_data r)
           in case take_word 8 (drop (4 + 8 * unat doc_id) doctable) of
                None \<Rightarrow> None
              | Some (doc_offset :: u64, _) \<Rightarrow>
                  map_option (Some \<circ> fst) (read_document (drop (unat doc_offset) doctable)))"

fun scan_documents :: "u32 \<Rightarrow> nat \<Rightarrow> u8 list \<Rightarrow> DocumentRecord option option" where
  "scan_documents location 0 m = Some None"
| "scan_documents location (Suc n) m =
     (case read_document m of
        None \<Rightarrow> None
      | Some (doc, m') \<Rightarrow>
          if location \<ge> start_location doc \<and> location \<le> end_location doc then Some (Some doc)
          else scan_documents location n m')"

definition getDocumentByLocation :: "DiskChunkReader \<Rightarrow> u32 \<Rightarrow> DocumentRecord option option" where
  "getDocumentByLocation r location =
     (let n = unat (num_documents (chunk_header r))
      in scan_documents location n (drop (4 + n * 8) (drop (unat (doctable_offset (chunk_header r))) (chunk_data r))))"

subsection \<open>Round trips of the structures\<close>

lemma take_word_le_bytes [simp]:
  "take_word (Suc 0) (le_bytes (Suc 0) (w1 :: u8) @ m) = Some (w1, m)"
  "take_word 2 (le_bytes 2 (w2 :: u16) @ m) = Some (w2, m)"
  "take_word 4 (le_bytes 4 (w4 :: u32) @ m) = Some (w4, m)"
  "take_word 8 (le_bytes 8 (w8 :: u64) @ m) = Some (w8, m)"
  by (simp_all add: take_word_def del: le_bytes.simps)

lemma skip_pad [simp]: "skip n (pad n @ m) = Some m"
  by (simp add: skip_def pad_def)

lemma read_header_bytes: "read_header (header_bytes h @ m) = Some h"
  by (simp add: read_header_def header_bytes_def del: le_bytes.simps)

lemma read_bucket_bytes: "read_bucket (bucket_bytes b @ m) = Some (b, m)"
  by (simp add: read_bucket_def bucket_bytes_def del: le_bytes.simps)

lemma read_posting_header_bytes: "read_posting_header (posting_header_bytes p @ m) = Some (p, m)"
  by (simp add: read_posting_header_def posting_header_bytes_def del: le_bytes.simps)

lemma string_of_bytes_of [simp]: "string_of (bytes_of s) = s"
proof -
  have "char_of (unat (of_nat (code c) :: u8)) = c" for c
    using code_less [of c] by (simp add: unat_of_nat code_def)
  then show ?thesis by (simp add: string_of_def bytes_of_def comp_def)
qed

lemma readString16_bytes: "length s < 2 ^ 16 \<Longrightarrow> readString16 (string16_bytes s @ m) = Some (s, m)"
  by (simp add: readString16_def string16_bytes_def unat_of_nat skip_def del: le_bytes.simps)

definition short_document :: "DocumentRecord \<Rightarrow> bool" where
  "short_document d \<longleftrightarrow> length (doc_url d) < 2 ^ 16 \<and> length (raw_tld (features d)) < 2 ^ 16"

lemma read_document_bytes: "short_document d \<Longrightarrow> read_document (document_bytes d @ m) = Some (d, m)"
  by (simp add: read_document_def document_bytes_def short_document_def readString16_bytes
      disk_record_bytes_def Let_def del: le_bytes.simps)

subsection \<open>Finding what was written\<close>

lemma take_word_u64s:
  "i < length ws \<Longrightarrow> \<exists>m. take_word 8 (drop (8 * i) (u64s ws @ rest)) = Some (ws ! i, m)"
proof (induction ws arbitrary: i)
  case (Cons w ws)
  have u: "u64s (w # ws) = le_bytes 8 w @ u64s ws" by (simp add: u64s_def)
  show ?case
  proof (cases i)
    case 0
    then show ?thesis by (simp add: u del: le_bytes.simps)
  next
    case (Suc j)
    have "drop (8 * i) (u64s (w # ws) @ rest) = drop (8 * j) (u64s ws @ rest)" by (simp add: u Suc)
    then show ?thesis using Cons Suc by simp
  qed
qed simp

lemma drop_concat_nth:
  "i < length xs \<Longrightarrow> \<exists>rest. drop (sum_list (take i (map (length \<circ> g) xs))) (concat (map g xs) @ post) = g (xs ! i) @ rest"
  by (induction xs arbitrary: i) (auto simp: less_Suc_eq_0_disj)

lemma sum_take_le: "sum_list (take i ns) \<le> sum_list (ns :: nat list)"
  by (metis append_take_drop_id le_add1 sum_list_append)

lemma sum_lengths_concat: "sum_list (map (length \<circ> g) xs) = length (concat (map g xs))"
  by (induction xs) simp_all

text \<open>An entry whose term can be written with its length and compared up to its end.\<close>

definition good_entry :: "DictionaryEntry \<Rightarrow> bool" where
  "good_entry e \<longleftrightarrow> nul_free (entry_term e) \<and> length (entry_term e) < 2 ^ 16 \<and> occupied (disk_info e) \<noteq> 0"

definition stored :: "DictionaryEntry \<Rightarrow> BucketDisk" where
  "stored e = (disk_info e)\<lparr>string_length := of_nat (length (entry_term e))\<rparr>"

lemma find_in_chain_step:
  assumes "unat (string_length b) = length s" and "occupied b \<noteq> 0" and "nul_free s" and "nul_free term"
  shows "find_in_chain term (bucket_bytes b @ bytes_of s @ m) = (if s = term then Inr (Some b) else find_in_chain term m)"
  using assms by (simp add: find_in_chain.simps [of _ "bucket_bytes b @ bytes_of s @ m"] read_bucket_bytes skip_def str_eq_iff)

lemma find_in_chain_bytes:
  assumes "\<forall>e \<in> set es. good_entry e" and "nul_free term"
  shows "find_in_chain term (concat (map entry_bytes es) @ bucket_bytes sentinel_bucket @ rest)
       = Inr (map_option stored (find (\<lambda>e. entry_term e = term) es))"
  using assms(1)
proof (induction es)
  case Nil
  then show ?case by (simp add: find_in_chain.simps read_bucket_bytes) (simp add: sentinel_bucket_def)
next
  case (Cons e es)
  let ?m = "concat (map entry_bytes es) @ bucket_bytes sentinel_bucket @ rest"
  have e: "nul_free (entry_term e)" "occupied (stored e) \<noteq> 0"
    and len: "unat (string_length (stored e)) = length (entry_term e)"
    using Cons.prems by (simp_all add: good_entry_def stored_def unat_of_nat)
  have "concat (map entry_bytes (e # es)) @ bucket_bytes sentinel_bucket @ rest
      = bucket_bytes (stored e) @ bytes_of (entry_term e) @ ?m"
    using len by (simp add: entry_bytes_def Let_def stored_def)
  then show ?case
    using Cons.IH Cons.prems find_in_chain_step [OF len e(2,1) assms(2)] by simp
qed

lemma find_filter_implied:
  "(\<And>x. P x \<Longrightarrow> Q x) \<Longrightarrow> find P (filter Q xs) = find P xs"
  by (induction xs) auto

lemma find_posting_entries_None:
  "map_of ps t = None \<Longrightarrow> find (\<lambda>e. entry_term e = t) (posting_entries k ps) = None"
  by (induction k ps rule: posting_entries.induct) (auto simp: dictionary_entry_def split: if_splits)

definition posting_area :: "(string \<times> PostingList) list \<Rightarrow> u8 list" where
  "posting_area ps = concat (map (posting_bytes \<circ> locations \<circ> snd) ps)"

lemma posting_area_simps [simp]:
  "posting_area [] = []" "posting_area ((t, pl) # ps) = posting_bytes (locations pl) @ posting_area ps"
  by (simp_all add: posting_area_def)

lemma drop_past_prefix: "drop (length xs + n) (xs @ ys) = drop n ys"
  by simp

lemma find_posting_entries_Some:
  "map_of ps t = Some pl \<Longrightarrow>
     \<exists>off rest. find (\<lambda>e. entry_term e = t) (posting_entries k ps) = Some (dictionary_entry t pl (of_nat off))
       \<and> k \<le> off \<and> off \<le> k + length (posting_area ps)
       \<and> drop (off - k) (posting_area ps @ post)
           = posting_bytes (locations pl) @ rest"
proof (induction k ps rule: posting_entries.induct)
  case (2 k t' pl' ps)
  show ?case
  proof (cases "t' = t")
    case True
    then show ?thesis using 2(2) by (auto simp: dictionary_entry_def intro!: exI [of _ k])
  next
    case False
    let ?n = "length (posting_bytes (locations pl'))"
    have "map_of ps t = Some pl" using 2(2) False by simp
    then obtain off rest where off: "find (\<lambda>e. entry_term e = t) (posting_entries (k + ?n) ps)
        = Some (dictionary_entry t pl (of_nat off))" "k + ?n \<le> off"
      "off \<le> k + ?n + length (posting_area ps)"
      "drop (off - (k + ?n)) (posting_area ps @ post)
        = posting_bytes (locations pl) @ rest" using "2.IH" by blast
    have "off - k = ?n + (off - (k + ?n))" using off(2) by simp
    then have "drop (off - k) (posting_area ((t', pl') # ps) @ post)
        = drop (off - (k + ?n)) (posting_area ps @ post)"
      by (simp only: posting_area_simps append_assoc drop_past_prefix)
    then have "drop (off - k) (posting_area ((t', pl') # ps) @ post) = posting_bytes (locations pl) @ rest"
      using off(4) by (simp only:)
    moreover have "find (\<lambda>e. entry_term e = t) (posting_entries k ((t', pl') # ps))
        = Some (dictionary_entry t pl (of_nat off))"
      using off(1) False by (simp add: dictionary_entry_def)
    moreover have "k \<le> off" "off \<le> k + length (posting_area ((t', pl') # ps))" using off(2,3) by simp_all
    ultimately show ?thesis by (intro exI [of _ off] exI [of _ rest] conjI)
  qed
qed simp

definition chunk_ok :: "InMemoryIndex \<Rightarrow> bool" where
  "chunk_ok mem \<longleftrightarrow> (\<forall>(t, pl) \<in> set (index mem). nul_free t \<and> length t < 2 ^ 16 \<and> posting_list (locations pl))
     \<and> (\<forall>d \<in> set (documents mem). short_document d) \<and> length (documents mem) < 2 ^ 32
     \<and> length (chunk_bytes mem) < 2 ^ 64"

definition opened :: "InMemoryIndex \<Rightarrow> DiskChunkReader" where
  "opened mem = \<lparr>chunk_data = chunk_bytes mem,
     chunk_header = final_header mem (of_nat (doctable_pos mem)) (of_nat (dict_pos mem))\<rparr>"

lemma chunk_okD:
  assumes "chunk_ok mem" and "(t, pl) \<in> set (index mem)"
  shows "nul_free t" and "length t < 2 ^ 16" and "posting_list (locations pl)"
  using assms by (auto simp: chunk_ok_def)

lemma flush_chunk_ok: "chunk_ok mem \<Longrightarrow> flushIndexChunk mem = Inr (chunk_bytes mem)"
  by (rule flush_layout) (auto simp: chunk_ok_def)

lemma open_chunk_bytes: "open_chunk (chunk_bytes mem) = Some (opened mem)"
  by (simp add: open_chunk_def chunk_bytes_def read_header_bytes opened_def final_header_def empty_header_def)

lemma drop_chunk:
  "drop (dict_pos mem) (chunk_bytes mem) = dictionary_bytes (chunk_buckets mem)"
  "drop (doctable_pos mem) (chunk_bytes mem) = doctable_bytes (documents mem) @ dictionary_bytes (chunk_buckets mem)"
  "drop FileHeaderSize (chunk_bytes mem) = posting_area (index mem) @ doctable_bytes (documents mem)
     @ dictionary_bytes (chunk_buckets mem)"
  by (simp_all add: chunk_bytes_def dict_pos_def doctable_pos_def posting_area_def postings_bytes_def)

lemma chunk_positions:
  assumes "chunk_ok mem"
  shows "unat (of_nat (dict_pos mem) :: u64) = dict_pos mem"
    and "unat (of_nat (doctable_pos mem) :: u64) = doctable_pos mem"
    and "dict_pos mem + length (dictionary_bytes (chunk_buckets mem)) < 2 ^ 64"
proof -
  have len: "length (chunk_bytes mem) = dict_pos mem + length (dictionary_bytes (chunk_buckets mem))"
    by (simp add: chunk_bytes_def dict_pos_def doctable_pos_def)
  then show "dict_pos mem + length (dictionary_bytes (chunk_buckets mem)) < 2 ^ 64"
    using assms by (simp add: chunk_ok_def)
  then have "dict_pos mem < 2 ^ 64" "doctable_pos mem < 2 ^ 64" by (simp_all add: dict_pos_def)
  then show "unat (of_nat (dict_pos mem) :: u64) = dict_pos mem"
    "unat (of_nat (doctable_pos mem) :: u64) = doctable_pos mem"
    by (simp_all add: unat_of_nat)
qed

lemma open_posting_spec:
  assumes "posting_list locs"
    and "drop (unat (postings_offset (chunk_header r) + posting_offset b)) (chunk_data r) = posting_bytes locs @ rest"
  shows "\<exists>w. open_posting r b = Inr w \<and> word_inv w \<and> word_rest w = locs \<and> word_locations w = locs"
proof -
  let ?enc = "encodeDeltaList locs" and ?p = "posting_header locs"
  have small: "length locs < 2 ^ 32" "length ?enc < 2 ^ 32" using assms(1) by (simp_all add: posting_list_def)
  have n: "unat (pl_num_postings ?p) = length locs" "unat (data_size ?p) = length ?enc"
    "pl_num_postings ?p = of_nat (length locs)"
    using small by (simp_all add: posting_header_def)
  show ?thesis
  proof (cases "shouldBuild (length locs)")
    case True
    note spec = table_of_spec(2) [OF assms(1) shouldBuild_ne [OF True]]
    have "length (serialize tbl) = 8 * length tbl" for tbl
      by (induction tbl) (simp_all add: serialize_def serialize_entry_def)
    then have "length (serialize (table_of locs)) = SerializedSize"
      using spec by (simp add: table_spec_def SerializedSize_def)
    then have sk: "skip SerializedSize (serialize (table_of locs) @ ?enc @ rest) = Some (?enc @ rest)"
      by (simp add: skip_def)
    obtain tbl where tbl: "deserialize (Some (serialize (table_of locs) @ ?enc @ rest)) (Some (?enc @ rest))
        (length ?enc) (length locs) SerializedSize = Inr tbl" "table_ok locs tbl"
      using deserialize_sound [OF spec shouldBuild_ne [OF True] posting_list_sorted [OF assms(1)] small(2)] by blast
    obtain w where "word_init (?enc @ rest) (of_nat (length locs)) (Some tbl) = Some w"
      "word_inv w" "word_rest w = locs" "word_locations w = locs"
      using word_init_ok [OF assms(1), of "Some tbl" rest] tbl(2) by auto
    moreover have "has_seek_table ?p \<noteq> 0" using True by (simp add: posting_header_def)
    ultimately show ?thesis
      using assms(2) True sk tbl(1) n by (simp add: open_posting_def posting_bytes_def read_posting_header_bytes)
  next
    case False
    obtain w where "word_init (?enc @ rest) (of_nat (length locs)) None = Some w"
      "word_inv w" "word_rest w = locs" "word_locations w = locs"
      using word_init_ok [OF assms(1), of None rest] by auto
    moreover have "has_seek_table ?p = 0" using False by (simp add: posting_header_def)
    ultimately show ?thesis
      using assms(2) False n by (simp add: open_posting_def posting_bytes_def read_posting_header_bytes)
  qed
qed

lemma in_posting_entries:
  "e \<in> set (posting_entries k ps) \<Longrightarrow> \<exists>t pl off. (t, pl) \<in> set ps \<and> e = dictionary_entry t pl off"
  by (induction k ps rule: posting_entries.induct) auto

lemma good_posting_entries:
  assumes "chunk_ok mem" and "e \<in> set (posting_entries k (index mem))"
  shows "good_entry e"
  using in_posting_entries [OF assms(2)] chunk_okD [OF assms(1)] by (auto simp: good_entry_def dictionary_entry_def)

lemma unat_of_nat_u64: "n < 2 ^ 64 \<Longrightarrow> unat (of_nat n :: u64) = n"
  by (simp add: unat_of_nat)

text \<open>The lookup of a term in the dictionary that was written.\<close>

lemma createISR_chain:
  assumes ok: "chunk_ok mem" and nul: "nul_free term"
  shows "createISR (opened mem) term =
     (case find (\<lambda>e. entry_term e = term) (posting_entries FileHeaderSize (index mem)) of
        None \<Rightarrow> Inr None
      | Some e \<Rightarrow> (case open_posting (opened mem) (stored e) of Inl e \<Rightarrow> Inl e | Inr w \<Rightarrow> Inr (Some w)))"
proof -
  let ?bs = "chunk_buckets mem" and ?n = "num_buckets_for (length (index mem))"
  let ?L = "posting_entries FileHeaderSize (index mem)" and ?i = "bucket_of term (num_buckets_for (length (index mem)))"
  let ?area = "8 + 8 * length ?bs"
  have n: "length ?bs = ?n" by (simp add: chunk_buckets_def Let_def)
  have i: "?i < ?n" using num_buckets_pos by (simp add: bucket_of_def)
  have dict: "drop (unat (dict_offset (chunk_header (opened mem)))) (chunk_data (opened mem)) = dictionary_bytes ?bs"
    using chunk_positions(1) [OF ok] drop_chunk(1) by (simp add: opened_def final_header_def)
  have chains: "length (dictionary_bytes ?bs) = ?area + length (concat (map chain_bytes ?bs))"
    by (simp add: dictionary_bytes_def)
  have small: "?area + length (concat (map chain_bytes ?bs)) < 2 ^ 64"
    using chunk_positions(3) [OF ok] unfolding chains by linarith
  have nb: "unat (of_nat (length ?bs) :: u64) = ?n" using small n by (simp add: unat_of_nat)
  then have nz: "(of_nat (length ?bs) :: u64) \<noteq> 0" using num_buckets_pos by (metis less_numeral_extra(3) unat_0)
  let ?offs = "map of_nat (chain_offsets ?area ?bs) :: u64 list"
  obtain m where m: "take_word 8 (drop (8 * ?i) (u64s ?offs @ concat (map chain_bytes ?bs))) = Some (?offs ! ?i, m)"
    using take_word_u64s [of ?i ?offs "concat (map chain_bytes ?bs)"] i n by auto
  have bucket: "?bs ! ?i = in_bucket ?n ?i ?L" using i by (simp add: chunk_buckets_def Let_def)
  have found: "find (\<lambda>e. entry_term e = term) (?bs ! ?i) = find (\<lambda>e. entry_term e = term) ?L"
    unfolding bucket in_bucket_def by (rule find_filter_implied) simp
  let ?o = "?area + sum_list (take ?i (map (length \<circ> chain_bytes) ?bs))"
  have off: "chain_offsets ?area ?bs ! ?i = (if ?bs ! ?i = [] then 0 else ?o)"
    using chain_offsets_nth [of ?i ?bs ?area] i n by simp
  have "?o < 2 ^ 64"
    using sum_take_le [of ?i "map (length \<circ> chain_bytes) ?bs"] small
    unfolding sum_lengths_concat by linarith
  then have o: "unat (of_nat ?o :: u64) = ?o" by (rule unat_of_nat_u64)
  have ent: "createISR (opened mem) term =
     (if ?offs ! ?i = 0 then Inr None
      else case find_in_chain term (drop (unat (?offs ! ?i)) (dictionary_bytes ?bs)) of
        Inl e \<Rightarrow> Inl e | Inr None \<Rightarrow> Inr None
      | Inr (Some b) \<Rightarrow> (case open_posting (opened mem) b of Inl e \<Rightarrow> Inl e | Inr w \<Rightarrow> Inr (Some w)))"
    unfolding createISR_def Let_def dict
    using m nb nz by (simp add: dictionary_bytes_def bucket_of_def del: le_bytes.simps)
  show ?thesis
  proof (cases "?bs ! ?i = []")
    case True
    then have "?offs ! ?i = 0" using off i n by simp
    moreover have "find (\<lambda>e. entry_term e = term) ?L = None" using found True by simp
    ultimately show ?thesis unfolding ent by simp
  next
    case False
    have oi: "?offs ! ?i = of_nat ?o" using off False i n by simp
    have "(of_nat ?o :: u64) \<noteq> 0" using o by (metis add_is_0 unat_0 zero_neq_numeral)
    moreover obtain rest where "drop (sum_list (take ?i (map (length \<circ> chain_bytes) ?bs))) (concat (map chain_bytes ?bs) @ [])
        = chain_bytes (?bs ! ?i) @ rest"
      using drop_concat_nth [of ?i ?bs chain_bytes "[]"] i n by auto
    then have "drop ?o (dictionary_bytes ?bs) = concat (map entry_bytes (?bs ! ?i)) @ bucket_bytes sentinel_bucket @ rest"
      using False by (simp add: dictionary_bytes_def chain_bytes_def)
    moreover have "\<forall>e \<in> set (?bs ! ?i). good_entry e"
      unfolding bucket in_bucket_def using good_posting_entries [OF ok] by auto
    ultimately show ?thesis
      unfolding ent oi o using find_in_chain_bytes [OF _ nul] found
      by (simp split: option.split)
  qed
qed

subsection \<open>A reader on a flushed chunk\<close>

lemma createISR_Some:
  assumes ok: "chunk_ok mem" and pl: "map_of (index mem) term = Some pl"
  shows "\<exists>w. createISR (opened mem) term = Inr (Some w) \<and> word_inv w \<and> word_rest w = locations pl"
proof -
  have mem: "(term, pl) \<in> set (index mem)" using pl by (rule map_of_SomeD)
  let ?post = "doctable_bytes (documents mem) @ dictionary_bytes (chunk_buckets mem)"
  obtain off rest where off: "find (\<lambda>e. entry_term e = term) (posting_entries FileHeaderSize (index mem))
        = Some (dictionary_entry term pl (of_nat off))"
    "FileHeaderSize \<le> off" "off \<le> FileHeaderSize + length (posting_area (index mem))"
    "drop (off - FileHeaderSize) (posting_area (index mem) @ ?post) = posting_bytes (locations pl) @ rest"
    using find_posting_entries_Some [OF pl, of FileHeaderSize ?post] by blast
  have at: "drop off (chunk_bytes mem) = posting_bytes (locations pl) @ rest"
  proof -
    have "drop off (chunk_bytes mem) = drop (off - FileHeaderSize) (drop FileHeaderSize (chunk_bytes mem))"
      using off(2) by simp
    then show ?thesis using off(4) by (simp only: drop_chunk(3))
  qed
  have "doctable_pos mem = FileHeaderSize + length (posting_area (index mem))"
    by (simp add: doctable_pos_def postings_bytes_def posting_area_def)
  moreover have "doctable_pos mem \<le> dict_pos mem" by (simp add: dict_pos_def)
  ultimately have lt: "off < 2 ^ 64" using off(3) chunk_positions(3) [OF ok] by linarith
  have "of_nat 64 + (of_nat off - of_nat 64) = (of_nat off :: u64)" by simp
  then have "unat (postings_offset (chunk_header (opened mem))
      + posting_offset (stored (dictionary_entry term pl (of_nat off)))) = off"
    using lt by (simp add: opened_def final_header_def stored_def dictionary_entry_def FileHeaderSize_def unat_of_nat)
  then have "drop (unat (postings_offset (chunk_header (opened mem))
      + posting_offset (stored (dictionary_entry term pl (of_nat off))))) (chunk_data (opened mem))
      = posting_bytes (locations pl) @ rest"
    using at by (simp add: opened_def)
  then obtain w where "open_posting (opened mem) (stored (dictionary_entry term pl (of_nat off))) = Inr w"
    "word_inv w" "word_rest w = locations pl"
    using open_posting_spec [OF chunk_okD(3) [OF ok mem]] by blast
  then show ?thesis
    by (simp add: createISR_chain [OF ok chunk_okD(1) [OF ok mem]] off(1))
qed

lemma flushed_term:
  assumes "chunk_ok mem" and "nul_free term"
  shows "\<exists>file r. flushIndexChunk mem = Inr file \<and> open_chunk file = Some r
     \<and> (case map_of (index mem) term of
          None \<Rightarrow> createISR r term = Inr None
        | Some pl \<Rightarrow> \<exists>w. createISR r term = Inr (Some w) \<and> word_inv w \<and> word_rest w = locations pl)"
proof (intro exI [of _ "chunk_bytes mem"] exI [of _ "opened mem"] conjI)
  show "case map_of (index mem) term of
          None \<Rightarrow> createISR (opened mem) term = Inr None
        | Some pl \<Rightarrow> \<exists>w. createISR (opened mem) term = Inr (Some w) \<and> word_inv w \<and> word_rest w = locations pl"
  proof (cases "map_of (index mem) term")
    case None
    then show ?thesis by (simp add: createISR_chain [OF assms] find_posting_entries_None)
  next
    case (Some pl)
    then show ?thesis using createISR_Some [OF assms(1)] by simp
  qed
qed (use assms in \<open>simp_all add: flush_chunk_ok open_chunk_bytes\<close>)


lemma drop_documents:
  assumes "i < length docs"
  shows "\<exists>rest. drop (doctable_offsets docs ! i) (doctable_bytes docs @ post) = document_bytes (docs ! i) @ rest"
proof -
  let ?k = "sum_list (take i (map (length \<circ> document_bytes) docs))"
  have "drop (doctable_offsets docs ! i) (doctable_bytes docs @ post)
      = drop ?k (concat (map document_bytes docs) @ post)"
    using assms by (simp add: doctable_offsets_def offsets_nth doctable_bytes_def)
  then show ?thesis using drop_concat_nth [OF assms, of document_bytes post] by simp
qed

lemma doctable_offset_small:
  assumes "chunk_ok mem" and "i < length (documents mem)"
  shows "unat (of_nat (doctable_offsets (documents mem) ! i) :: u64) = doctable_offsets (documents mem) ! i"
proof (rule unat_of_nat_u64)
  let ?docs = "documents mem"
  have "doctable_offsets ?docs ! i \<le> length (doctable_bytes ?docs)"
    using assms(2) sum_take_le [of i "map (length \<circ> document_bytes) ?docs"]
    by (simp add: doctable_offsets_def offsets_nth doctable_bytes_def sum_lengths_concat)
  also have "\<dots> \<le> length (chunk_bytes mem)" by (simp add: chunk_bytes_def)
  finally show "doctable_offsets ?docs ! i < 2 ^ 64" using assms(1) by (simp add: chunk_ok_def)
qed

lemma opened_documents:
  assumes "chunk_ok mem"
  shows "unat (num_documents (chunk_header (opened mem))) = length (documents mem)"
    and "drop (unat (doctable_offset (chunk_header (opened mem)))) (chunk_data (opened mem))
       = doctable_bytes (documents mem) @ dictionary_bytes (chunk_buckets mem)"
  using assms chunk_positions(2) [OF assms] drop_chunk(2) [of mem]
  by (simp_all add: opened_def final_header_def chunk_ok_def unat_of_nat)

lemma getDocument_opened:
  assumes ok: "chunk_ok mem"
  shows "getDocument (opened mem) i
     = Some (if unat i < length (documents mem) then Some (documents mem ! unat i) else None)"
proof (cases "unat i < length (documents mem)")
  case True
  let ?docs = "documents mem" and ?post = "dictionary_bytes (chunk_buckets mem)"
  let ?offs = "map of_nat (doctable_offsets ?docs) :: u64 list"
  have len: "length (doctable_offsets ?docs) = length ?docs" by (simp add: doctable_offsets_def)
  obtain m where m: "take_word 8 (drop (8 * unat i) (u64s ?offs @ concat (map document_bytes ?docs) @ ?post))
      = Some (?offs ! unat i, m)"
    using take_word_u64s [of "unat i" ?offs] True len by (metis length_map)
  have "drop (4 + 8 * unat i) (doctable_bytes ?docs @ ?post)
      = drop (8 * unat i) (u64s ?offs @ concat (map document_bytes ?docs) @ ?post)"
    by (simp add: doctable_bytes_def del: le_bytes.simps)
  then have off: "take_word 8 (drop (4 + 8 * unat i) (doctable_bytes ?docs @ ?post))
      = Some (of_nat (doctable_offsets ?docs ! unat i) :: u64, m)"
    using m True len by simp
  obtain rest where rest: "drop (doctable_offsets ?docs ! unat i) (doctable_bytes ?docs @ ?post)
      = document_bytes (?docs ! unat i) @ rest"
    using drop_documents [OF True] by blast
  have "short_document (?docs ! unat i)" using ok True by (simp add: chunk_ok_def)
  moreover have "\<not> i \<ge> num_documents (chunk_header (opened mem))"
    using True opened_documents(1) [OF ok] by (simp add: word_le_nat_alt)
  ultimately show ?thesis
    using True off rest doctable_offset_small [OF ok True]
    by (simp add: getDocument_def opened_documents(2) [OF ok] read_document_bytes)
next
  case False
  then have "i \<ge> num_documents (chunk_header (opened mem))"
    using opened_documents(1) [OF ok] by (simp add: word_le_nat_alt)
  then show ?thesis using False by (simp add: getDocument_def)
qed

text \<open>The scan finds the first document whose span holds the location.\<close>

definition holds_location :: "u32 \<Rightarrow> DocumentRecord \<Rightarrow> bool" where
  "holds_location l d \<longleftrightarrow> start_location d \<le> l \<and> l \<le> end_location d"

lemma scan_documents_bytes:
  "\<forall>d \<in> set docs. short_document d \<Longrightarrow>
     scan_documents l (length docs) (concat (map document_bytes docs) @ post) = Some (find (holds_location l) docs)"
  by (induction docs) (simp_all add: read_document_bytes holds_location_def)

lemma getDocumentByLocation_opened:
  assumes ok: "chunk_ok mem"
  shows "getDocumentByLocation (opened mem) l = Some (find (holds_location l) (documents mem))"
proof -
  let ?docs = "documents mem"
  have "drop (4 + length ?docs * 8) (doctable_bytes ?docs @ dictionary_bytes (chunk_buckets mem))
      = concat (map document_bytes ?docs) @ dictionary_bytes (chunk_buckets mem)"
    by (simp add: doctable_bytes_def doctable_offsets_def)
  moreover have "\<forall>d \<in> set ?docs. short_document d" using ok by (simp add: chunk_ok_def)
  ultimately show ?thesis
    by (simp add: getDocumentByLocation_def opened_documents [OF ok] scan_documents_bytes)
qed

text \<open>C20. The documents of a flushed chunk: \<open>getDocument\<close> returns the record that was indexed under the
  number and \<open>nullopt\<close> out of range, \<open>getDocumentByLocation\<close> the first record whose span holds the location.\<close>

theorem getDocument_flushed:
  assumes "chunk_ok mem"
  shows "\<exists>file r. flushIndexChunk mem = Inr file \<and> open_chunk file = Some r
     \<and> (\<forall>i. getDocument r i = Some (if unat i < length (documents mem) then Some (documents mem ! unat i) else None))
     \<and> (\<forall>l. getDocumentByLocation r l = Some (find (holds_location l) (documents mem)))"
  using assms
  by (intro exI [of _ "chunk_bytes mem"] exI [of _ "opened mem"])
    (simp add: flush_chunk_ok open_chunk_bytes getDocument_opened getDocumentByLocation_opened)

definition sample_index :: InMemoryIndex where
  "sample_index = empty_index\<lparr>index := [(''cat'', \<lparr>locations = [3, 700], doc_frequency = 1, collection_frequency = 2\<rparr>)],
     documents := [\<lparr>doc_url = ''u'', start_location = 1, end_location = 900, word_count = 899,
       title_word_count = 0, seed_distance = 0, features = empty_features\<rparr>]\<rparr>"

lemma sample_index_length: "length (chunk_bytes sample_index) < 2 ^ 64"
proof -
  have n: "num_buckets_for (Suc 0) = Suc 0" by (simp add: num_buckets_for_def)
  have "length (posting_bytes [3, 700]) \<le> 12 + 10"
    using length_encodeDeltaList [of "[3, 700]"]
    by (simp add: posting_bytes_def shouldBuild_def BuildThreshold_def posting_header_bytes_def pad_def)
  moreover have "length (chain_bytes [dictionary_entry ''cat''
      \<lparr>locations = [3, 700], doc_frequency = 1, collection_frequency = 2\<rparr> 64]) \<le> 83"
    by (simp add: chain_bytes_def entry_bytes_def Let_def dictionary_entry_def bucket_bytes_def pad_def)
  ultimately show ?thesis
    by (simp add: chunk_bytes_def sample_index_def postings_bytes_def FileHeaderSize_def doctable_bytes_def
        document_bytes_def string16_bytes_def disk_record_bytes_def Let_def doctable_offsets_def empty_features_def
        dictionary_bytes_def chunk_buckets_def n in_bucket_def bucket_of_def)
qed

lemma sample_index_ok: "chunk_ok sample_index"
proof -
  have "posting_list [3, 700]" by (rule posting_listI) (simp_all add: ISRSentinel_def)
  then show ?thesis using sample_index_length
    by (simp add: chunk_ok_def sample_index_def code_def short_document_def empty_features_def)
qed


theorem getDocument_flushed_witness:
  "\<exists>file r. flushIndexChunk sample_index = Inr file \<and> open_chunk file = Some r
     \<and> getDocument r 0 = Some (Some (hd (documents sample_index))) \<and> getDocument r 1 = Some None
     \<and> getDocumentByLocation r 901 = Some None"
  using getDocument_flushed [OF sample_index_ok]
  by (fastforce simp: sample_index_def holds_location_def)

end
