(* ===== verification/StaticRank.thy ===== *)
theory StaticRank
  imports Complex_Main Types Strings
begin

text \<open>
  The static rank of a document: \<open>src/index/src/lib/static_rank.h\<close> and \<open>static_rank.cpp\<close>. A \<open>double\<close> is a
  rational number: the rounding of the hardware is left out, every operation the code uses on them is exact
  here. The theorems bound the score and say in which direction each feature moves it.
\<close>

unbundle bit_operations_syntax

record StaticRankConfig =
  seed_distance_weight :: rat
  seed_distance_scale :: rat
  word_count_weight :: rat
  word_count_pivot :: rat
  title_word_count_weight :: rat
  title_word_count_pivot :: rat
  short_doc_threshold :: u32
  short_doc_penalty :: rat
  very_long_doc_threshold :: u32
  very_long_doc_penalty :: rat
  https_bonus :: rat
  saw_body_bonus :: rat
  saw_close_html_bonus :: rat
  truncated_penalty :: rat
  open_discard_penalty :: rat
  url_length_weight :: rat
  url_length_scale :: rat
  path_length_weight :: rat
  path_length_scale :: rat
  path_depth_weight :: rat
  path_depth_scale :: rat
  query_param_weight :: rat
  query_param_scale :: rat
  numeric_path_weight :: rat
  numeric_path_scale :: rat
  domain_hyphen_weight :: rat
  domain_hyphen_scale :: rat
  base_domain_bonus :: rat
  min_base_domain_length :: u8
  max_base_domain_length :: u8
  outgoing_link_weight :: rat
  outgoing_link_pivot :: rat
  outgoing_anchor_weight :: rat
  outgoing_anchor_pivot :: rat
  gov_tld_bonus :: rat
  edu_tld_bonus :: rat
  org_tld_bonus :: rat
  com_tld_bonus :: rat
  net_tld_bonus :: rat

definition default_rank_config :: StaticRankConfig where
  "default_rank_config = \<lparr>
     seed_distance_weight = 33 / 10, seed_distance_scale = 1,
     word_count_weight = 9 / 10, word_count_pivot = 500,
     title_word_count_weight = 45 / 100, title_word_count_pivot = 6,
     short_doc_threshold = 45, short_doc_penalty = 20 / 100,
     very_long_doc_threshold = 5000, very_long_doc_penalty = 20 / 100,
     https_bonus = 35 / 100, saw_body_bonus = 25 / 100, saw_close_html_bonus = 25 / 100,
     truncated_penalty = 75 / 100, open_discard_penalty = 50 / 100,
     url_length_weight = 55 / 100, url_length_scale = 60,
     path_length_weight = 95 / 100, path_length_scale = 20,
     path_depth_weight = 115 / 100, path_depth_scale = 12 / 10,
     query_param_weight = 95 / 100, query_param_scale = 8 / 10,
     numeric_path_weight = 75 / 100, numeric_path_scale = 1,
     domain_hyphen_weight = 45 / 100, domain_hyphen_scale = 1,
     base_domain_bonus = 35 / 100, min_base_domain_length = 3, max_base_domain_length = 20,
     outgoing_link_weight = 30 / 100, outgoing_link_pivot = 20,
     outgoing_anchor_weight = 20 / 100, outgoing_anchor_pivot = 80,
     gov_tld_bonus = 35 / 100, edu_tld_bonus = 35 / 100, org_tld_bonus = 20 / 100,
     com_tld_bonus = 10 / 100, net_tld_bonus = 5 / 100\<rparr>"

definition hasFlag :: "DocumentFeatures \<Rightarrow> DocumentFeatureFlag \<Rightarrow> bool" where
  "hasFlag fs flag \<longleftrightarrow> flags fs AND flag_bit flag \<noteq> 0"

definition saturatingRatio :: "rat \<Rightarrow> rat \<Rightarrow> rat" where
  "saturatingRatio v pivot = (if v \<le> 0 \<or> pivot \<le> 0 then 0 else v / (v + pivot))"

definition inversePenalty :: "rat \<Rightarrow> rat \<Rightarrow> rat" where
  "inversePenalty v scale = (if v \<le> 0 \<or> scale \<le> 0 then 1 else 1 / (1 + v / scale))"

text \<open>\<open>static_cast<double>\<close> of an unsigned value.\<close>

definition dbl :: "'a::len word \<Rightarrow> rat" where
  "dbl w = of_nat (unat w)"

definition scoreProvenance :: "StaticRankConfig \<Rightarrow> DocumentRecord \<Rightarrow> rat" where
  "scoreProvenance cfg doc = seed_distance_weight cfg * inversePenalty (dbl (seed_distance doc)) (seed_distance_scale cfg)"

definition scoreContent :: "StaticRankConfig \<Rightarrow> DocumentRecord \<Rightarrow> rat" where
  "scoreContent cfg doc =
     word_count_weight cfg * saturatingRatio (dbl (word_count doc)) (word_count_pivot cfg)
     + title_word_count_weight cfg * saturatingRatio (dbl (title_word_count doc)) (title_word_count_pivot cfg)
     - (if word_count doc < short_doc_threshold cfg then short_doc_penalty cfg else 0)
     - (if word_count doc > very_long_doc_threshold cfg then very_long_doc_penalty cfg else 0)"

definition scoreQuality :: "StaticRankConfig \<Rightarrow> DocumentFeatures \<Rightarrow> rat" where
  "scoreQuality cfg fs =
     (if hasFlag fs kHttps then https_bonus cfg else 0)
     + (if hasFlag fs kSawBodyTag then saw_body_bonus cfg else 0)
     + (if hasFlag fs kSawCloseHtmlTag then saw_close_html_bonus cfg else 0)
     - (if hasFlag fs kHtmlTruncated then truncated_penalty cfg else 0)
     - (if hasFlag fs kHasOpenDiscardSection then open_discard_penalty cfg else 0)"

definition scoreTld :: "StaticRankConfig \<Rightarrow> string \<Rightarrow> rat" where
  "scoreTld cfg tld =
     (if cstr_eq tld ''gov'' then gov_tld_bonus cfg
      else if cstr_eq tld ''edu'' then edu_tld_bonus cfg
      else if cstr_eq tld ''org'' then org_tld_bonus cfg
      else if cstr_eq tld ''com'' then com_tld_bonus cfg
      else if cstr_eq tld ''net'' then net_tld_bonus cfg
      else 0)"

definition scoreUrl :: "StaticRankConfig \<Rightarrow> DocumentFeatures \<Rightarrow> rat" where
  "scoreUrl cfg fs =
     url_length_weight cfg * inversePenalty (dbl (url_length fs)) (url_length_scale cfg)
     + path_length_weight cfg * inversePenalty (dbl (path_length fs)) (path_length_scale cfg)
     + path_depth_weight cfg * inversePenalty (dbl (path_depth fs)) (path_depth_scale cfg)
     + query_param_weight cfg * inversePenalty (dbl (query_param_count fs)) (query_param_scale cfg)
     + numeric_path_weight cfg * inversePenalty (dbl (numeric_path_char_count fs)) (numeric_path_scale cfg)
     + domain_hyphen_weight cfg * inversePenalty (dbl (domain_hyphen_count fs)) (domain_hyphen_scale cfg)
     + (if base_domain_length fs \<ge> min_base_domain_length cfg
            \<and> base_domain_length fs \<le> max_base_domain_length cfg then base_domain_bonus cfg else 0)
     + scoreTld cfg (raw_tld fs)"

definition scoreLinks :: "StaticRankConfig \<Rightarrow> DocumentFeatures \<Rightarrow> rat" where
  "scoreLinks cfg fs =
     outgoing_link_weight cfg * saturatingRatio (dbl (outgoing_link_count fs)) (outgoing_link_pivot cfg)
     + outgoing_anchor_weight cfg * saturatingRatio (dbl (outgoing_anchor_word_count fs)) (outgoing_anchor_pivot cfg)"

definition score_of :: "StaticRankConfig \<Rightarrow> DocumentRecord \<Rightarrow> rat" where
  "score_of cfg doc =
     (let s = scoreProvenance cfg doc + scoreContent cfg doc; fs = features doc
      in if \<not> hasFlag fs kFeaturesPresent then s
         else s + scoreQuality cfg fs + scoreUrl cfg fs + scoreLinks cfg fs)"

subsection \<open>The two curves\<close>

lemma saturatingRatio_bounds: "0 \<le> saturatingRatio v p" "saturatingRatio v p \<le> 1"
  by (auto simp: saturatingRatio_def divide_simps)

lemma saturatingRatio_mono: "v \<le> v' \<Longrightarrow> saturatingRatio v p \<le> saturatingRatio v' p"
proof (cases "v \<le> 0 \<or> p \<le> 0")
  case True
  assume "v \<le> v'"
  then show ?thesis using True saturatingRatio_bounds(1) [of v' p] by (simp add: saturatingRatio_def)
next
  case False
  assume "v \<le> v'"
  then have "v * (v' + p) \<le> v' * (v + p)" using False by (simp add: algebra_simps)
  then show ?thesis using False \<open>v \<le> v'\<close> by (simp add: saturatingRatio_def divide_simps)
qed

lemma inversePenalty_bounds: "0 \<le> inversePenalty v s" "inversePenalty v s \<le> 1"
proof -
  have "0 < v \<Longrightarrow> 0 < s \<Longrightarrow> 0 < v / s" by simp
  then show "0 \<le> inversePenalty v s" "inversePenalty v s \<le> 1"
    by (auto simp: inversePenalty_def not_le divide_simps add_pos_pos)
qed

lemma inversePenalty_antimono: "v \<le> v' \<Longrightarrow> inversePenalty v' s \<le> inversePenalty v s"
proof (cases "v \<le> 0 \<or> s \<le> 0")
  case True
  assume "v \<le> v'"
  then show ?thesis using True inversePenalty_bounds(2) [of v' s] by (simp add: inversePenalty_def)
next
  case False
  assume "v \<le> v'"
  then have "v / s \<le> v' / s" "0 < v / s" using False by (simp_all add: divide_right_mono)
  then have "1 / (1 + v' / s) \<le> 1 / (1 + v / s)" by (intro divide_left_mono mult_pos_pos) simp_all
  then show ?thesis using False \<open>v \<le> v'\<close> by (simp add: inversePenalty_def)
qed

subsection \<open>The score\<close>

text \<open>A configuration whose weights, bonuses and penalties are not negative.\<close>

definition rank_config_ok :: "StaticRankConfig \<Rightarrow> bool" where
  "rank_config_ok cfg \<longleftrightarrow> list_all ((\<le>) 0)
     [seed_distance_weight cfg, word_count_weight cfg, title_word_count_weight cfg, short_doc_penalty cfg,
      very_long_doc_penalty cfg, https_bonus cfg, saw_body_bonus cfg, saw_close_html_bonus cfg,
      truncated_penalty cfg, open_discard_penalty cfg, url_length_weight cfg, path_length_weight cfg,
      path_depth_weight cfg, query_param_weight cfg, numeric_path_weight cfg, domain_hyphen_weight cfg,
      base_domain_bonus cfg, outgoing_link_weight cfg, outgoing_anchor_weight cfg, gov_tld_bonus cfg,
      edu_tld_bonus cfg, org_tld_bonus cfg, com_tld_bonus cfg, net_tld_bonus cfg]"

text \<open>The features of a document that the score wants large, those it wants small, and those it only looks at.\<close>

definition ranks_below :: "DocumentRecord \<Rightarrow> DocumentRecord \<Rightarrow> bool" where
  "ranks_below d d' \<longleftrightarrow> (let f = features d; f' = features d' in
     seed_distance d' \<le> seed_distance d \<and> word_count d = word_count d' \<and> title_word_count d \<le> title_word_count d'
     \<and> flags f = flags f' \<and> url_length f' \<le> url_length f \<and> path_length f' \<le> path_length f
     \<and> path_depth f' \<le> path_depth f \<and> query_param_count f' \<le> query_param_count f
     \<and> numeric_path_char_count f' \<le> numeric_path_char_count f \<and> domain_hyphen_count f' \<le> domain_hyphen_count f
     \<and> base_domain_length f = base_domain_length f' \<and> raw_tld f = raw_tld f'
     \<and> outgoing_link_count f \<le> outgoing_link_count f' \<and> outgoing_anchor_word_count f \<le> outgoing_anchor_word_count f')"

lemma dbl_mono: "v \<le> w \<Longrightarrow> dbl v \<le> dbl w"
  unfolding dbl_def of_nat_le_iff by (simp add: word_le_nat_alt)

lemma weighted:
  assumes "0 \<le> (w :: rat)"
  shows "0 \<le> w * saturatingRatio v p" "w * saturatingRatio v p \<le> w"
    "0 \<le> w * inversePenalty v s" "w * inversePenalty v s \<le> w"
  using assms saturatingRatio_bounds [of v p] inversePenalty_bounds [of v s]
  by (simp_all add: mult_left_le)

lemma weighted_mono:
  assumes "0 \<le> (w :: rat)"
  shows "v \<le> v' \<Longrightarrow> w * saturatingRatio (dbl v) p \<le> w * saturatingRatio (dbl v') p"
    "u' \<le> u \<Longrightarrow> w * inversePenalty (dbl u) s \<le> w * inversePenalty (dbl u') s"
  using assms by (simp_all add: mult_left_mono saturatingRatio_mono inversePenalty_antimono dbl_mono)

text \<open>A document that is nearer to a seed, has a longer title, a shorter and plainer URL and more links
  than another one, and is like it in all else, never has the lower score.\<close>

theorem score_monotone:
  assumes "rank_config_ok cfg" and "ranks_below d d'"
  shows "score_of cfg d \<le> score_of cfg d'"
proof -
  note r = assms(2) [unfolded ranks_below_def Let_def]
  have flag: "hasFlag (features d) = hasFlag (features d')" using r by (simp add: hasFlag_def fun_eq_iff)
  have "scoreProvenance cfg d \<le> scoreProvenance cfg d'" "scoreContent cfg d \<le> scoreContent cfg d'"
    using assms(1) r
    by (auto simp: scoreProvenance_def scoreContent_def rank_config_ok_def intro!: weighted_mono add_mono diff_mono)
  moreover have "scoreQuality cfg (features d) = scoreQuality cfg (features d')"
    by (simp add: scoreQuality_def flag)
  moreover have "scoreUrl cfg (features d) \<le> scoreUrl cfg (features d')"
    unfolding scoreUrl_def using assms(1) r by (intro add_mono weighted_mono) (auto simp: rank_config_ok_def)
  moreover have "scoreLinks cfg (features d) \<le> scoreLinks cfg (features d')"
    unfolding scoreLinks_def using assms(1) r by (intro add_mono weighted_mono) (auto simp: rank_config_ok_def)
  ultimately show ?thesis by (simp add: score_of_def Let_def flag)
qed

lemma default_rank_config_ok: "rank_config_ok default_rank_config"
  by (simp add: rank_config_ok_def default_rank_config_def)

theorem score_monotone_witness:
  "score_of default_rank_config \<lparr>doc_url = ''u'', start_location = 0, end_location = 9, word_count = 9,
       title_word_count = 0, seed_distance = 7, features = empty_features\<lparr>flags := 3, path_depth := 4\<rparr>\<rparr>
   \<le> score_of default_rank_config \<lparr>doc_url = ''v'', start_location = 10, end_location = 19, word_count = 9,
       title_word_count = 3, seed_distance = 2, features = empty_features\<lparr>flags := 3, path_depth := 1\<rparr>\<rparr>"
  by (rule score_monotone [OF default_rank_config_ok]) (simp add: ranks_below_def empty_features_def)

text \<open>With the configuration of the code every score lies between \<open>-1.45\<close> and \<open>11.5\<close>, whatever
  the document.\<close>

theorem score_bounds:
  "- 145 / 100 \<le> score_of default_rank_config d \<and> score_of default_rank_config d \<le> 1150 / 100"
proof -
  let ?c = default_rank_config and ?f = "features d"
  have "0 \<le> scoreProvenance ?c d \<and> scoreProvenance ?c d \<le> 330 / 100"
    using weighted(3,4) [of "seed_distance_weight ?c" "dbl (seed_distance d)" "seed_distance_scale ?c"]
    by (simp add: scoreProvenance_def default_rank_config_def)
  moreover have "- 20 / 100 \<le> scoreContent ?c d \<and> scoreContent ?c d \<le> 135 / 100"
    using weighted(1,2) [of "word_count_weight ?c" "dbl (word_count d)" "word_count_pivot ?c"]
      weighted(1,2) [of "title_word_count_weight ?c" "dbl (title_word_count d)" "title_word_count_pivot ?c"]
    by (auto simp: scoreContent_def default_rank_config_def word_less_nat_alt)
  moreover have "- 125 / 100 \<le> scoreQuality ?c ?f \<and> scoreQuality ?c ?f \<le> 85 / 100"
    by (simp add: scoreQuality_def default_rank_config_def)
  moreover have "0 \<le> scoreUrl ?c ?f \<and> scoreUrl ?c ?f \<le> 550 / 100"
    using weighted(3,4) [of "url_length_weight ?c" "dbl (url_length ?f)" "url_length_scale ?c"]
      weighted(3,4) [of "path_length_weight ?c" "dbl (path_length ?f)" "path_length_scale ?c"]
      weighted(3,4) [of "path_depth_weight ?c" "dbl (path_depth ?f)" "path_depth_scale ?c"]
      weighted(3,4) [of "query_param_weight ?c" "dbl (query_param_count ?f)" "query_param_scale ?c"]
      weighted(3,4) [of "numeric_path_weight ?c" "dbl (numeric_path_char_count ?f)" "numeric_path_scale ?c"]
      weighted(3,4) [of "domain_hyphen_weight ?c" "dbl (domain_hyphen_count ?f)" "domain_hyphen_scale ?c"]
    by (auto simp: scoreUrl_def scoreTld_def default_rank_config_def)
  moreover have "0 \<le> scoreLinks ?c ?f \<and> scoreLinks ?c ?f \<le> 50 / 100"
    using weighted(1,2) [of "outgoing_link_weight ?c" "dbl (outgoing_link_count ?f)" "outgoing_link_pivot ?c"]
      weighted(1,2) [of "outgoing_anchor_weight ?c" "dbl (outgoing_anchor_word_count ?f)" "outgoing_anchor_pivot ?c"]
    by (auto simp: scoreLinks_def default_rank_config_def)
  ultimately show ?thesis by (auto simp: score_of_def Let_def)
qed

end
