(* ===== verification/PriorityQueue.thy ===== *)
theory PriorityQueue
  imports Prelude "HOL-Library.Multiset"
begin

text \<open>
  The binary heap in an array: \<open>src/utils/PriorityQueue.hpp\<close>. An order is given by \<open>higherPriority a b\<close>; the
  theorems need it to be a strict weak order, as \<open>std::less\<close> on the priorities is. The same sifting loops,
  with other names, are in \<open>TopKHeap\<close>. The exceptions on an empty queue are \<open>None\<close>.
\<close>

subsection \<open>The code\<close>

definition heap_parent :: "nat \<Rightarrow> nat" where
  "heap_parent i = (i - 1) div 2"

definition leftChild :: "nat \<Rightarrow> nat" where
  "leftChild i = 2 * i + 1"

definition rightChild :: "nat \<Rightarrow> nat" where
  "rightChild i = 2 * i + 2"

definition swap_at :: "nat \<Rightarrow> nat \<Rightarrow> 'a list \<Rightarrow> 'a list" where
  "swap_at i j xs = xs[i := xs ! j, j := xs ! i]"

function siftUp :: "('a \<Rightarrow> 'a \<Rightarrow> bool) \<Rightarrow> 'a list \<Rightarrow> nat \<Rightarrow> 'a list" where
  "siftUp hp xs idx =
     (if idx = 0 then xs
      else let p = heap_parent idx
           in if \<not> hp (xs ! idx) (xs ! p) then xs
              else siftUp hp (swap_at idx p xs) p)"
  by pat_completeness auto
termination
  by (relation "measure (\<lambda>(hp, xs, idx). idx)") (auto simp: heap_parent_def)

text \<open>The choice between a node and its children.\<close>

definition best_of :: "('a \<Rightarrow> 'a \<Rightarrow> bool) \<Rightarrow> 'a list \<Rightarrow> nat \<Rightarrow> nat" where
  "best_of hp xs idx =
     (let n = length xs; l = leftChild idx; r = rightChild idx;
          best = (if l < n \<and> hp (xs ! l) (xs ! idx) then l else idx)
      in if r < n \<and> hp (xs ! r) (xs ! best) then r else best)"

lemma best_of_cases: "best_of hp xs idx \<in> {idx} \<union> ({leftChild idx, rightChild idx} \<inter> {..<length xs})"
  by (simp add: best_of_def Let_def)

lemma length_swap_at [simp]: "length (swap_at i j xs) = length xs"
  by (simp add: swap_at_def)

function siftDown :: "('a \<Rightarrow> 'a \<Rightarrow> bool) \<Rightarrow> 'a list \<Rightarrow> nat \<Rightarrow> 'a list" where
  "siftDown hp xs idx =
     (let best = best_of hp xs idx
      in if best = idx then xs else siftDown hp (swap_at idx best xs) best)"
  by pat_completeness auto
termination
proof (relation "measure (\<lambda>(hp, xs, idx). length xs - idx)")
  fix hp :: "'a \<Rightarrow> 'a \<Rightarrow> bool" and xs idx best
  assume "best = best_of hp xs idx" "best \<noteq> idx"
  then show "((hp, swap_at idx best xs, best), hp, xs, idx) \<in> measure (\<lambda>(hp, xs, idx). length xs - idx)"
    using best_of_cases [of hp xs idx] by (auto simp: leftChild_def rightChild_def)
qed simp

declare siftUp.simps [simp del] siftDown.simps [simp del]

definition pq_push :: "('a \<Rightarrow> 'a \<Rightarrow> bool) \<Rightarrow> 'a \<Rightarrow> 'a list \<Rightarrow> 'a list" where
  "pq_push hp v xs = (let xs' = xs @ [v] in siftUp hp xs' (length xs' - 1))"

definition pq_top :: "'a list \<Rightarrow> 'a option" where
  "pq_top xs = (if xs = [] then None else Some (xs ! 0))"

definition pq_pop :: "('a \<Rightarrow> 'a \<Rightarrow> bool) \<Rightarrow> 'a list \<Rightarrow> 'a list option" where
  "pq_pop hp xs =
     (if xs = [] then None
      else if length xs = 1 then Some (butlast xs)
      else Some (siftDown hp (butlast (swap_at 0 (length xs - 1) xs)) 0))"

definition extractTop :: "('a \<Rightarrow> 'a \<Rightarrow> bool) \<Rightarrow> 'a list \<Rightarrow> ('a \<times> 'a list) option" where
  "extractTop hp xs =
     (if xs = [] then None
      else let result = xs ! 0
           in if length xs = 1 then Some (result, butlast xs)
              else Some (result, siftDown hp (butlast (xs[0 := xs ! (length xs - 1)])) 0))"

function pq_clear :: "'a list \<Rightarrow> 'a list" where
  "pq_clear xs = (if xs \<noteq> [] then pq_clear (butlast xs) else xs)"
  by pat_completeness auto
termination
  by (relation "measure length") auto

subsection \<open>Contents\<close>

lemma mset_swap_at: "i < length xs \<Longrightarrow> j < length xs \<Longrightarrow> mset (swap_at i j xs) = mset xs"
  unfolding swap_at_def by (rule mset_swap)

lemma nth_swap_at:
  "i < length xs \<Longrightarrow> j < length xs \<Longrightarrow> k < length xs \<Longrightarrow>
     swap_at i j xs ! k = (if k = j then xs ! i else if k = i then xs ! j else xs ! k)"
  by (simp add: swap_at_def nth_list_update)

lemma parent_less: "0 < i \<Longrightarrow> heap_parent i < i"
  by (auto simp: heap_parent_def)

lemma siftUp_mset: "idx < length xs \<Longrightarrow> mset (siftUp hp xs idx) = mset xs"
proof (induction hp xs idx rule: siftUp.induct)
  case (1 hp xs idx)
  have p: "0 < idx \<Longrightarrow> heap_parent idx < length xs" using parent_less [of idx] 1(2) by simp
  show ?case
  proof (cases "idx = 0 \<or> \<not> hp (xs ! idx) (xs ! heap_parent idx)")
    case True
    then show ?thesis by (auto simp: siftUp.simps [of hp xs idx] Let_def)
  next
    case False
    then show ?thesis using 1 p by (simp add: siftUp.simps [of hp xs idx] Let_def mset_swap_at)
  qed
qed

lemma siftDown_mset: "idx < length xs \<or> xs = [] \<Longrightarrow> mset (siftDown hp xs idx) = mset xs"
proof (induction hp xs idx rule: siftDown.induct)
  case (1 hp xs idx)
  show ?case
  proof (cases "best_of hp xs idx = idx")
    case True
    then show ?thesis by (simp add: siftDown.simps [of hp xs idx])
  next
    case False
    then have "best_of hp xs idx < length xs" using best_of_cases [of hp xs idx] by auto
    then show ?thesis using 1 False by (auto simp: siftDown.simps [of hp xs idx] Let_def mset_swap_at)
  qed
qed

lemma length_siftUp [simp]: "idx < length xs \<Longrightarrow> length (siftUp hp xs idx) = length xs"
  by (metis siftUp_mset size_mset)

lemma pq_clear_Nil: "pq_clear xs = []"
  by (induction xs rule: pq_clear.induct) auto

subsection \<open>The heap order\<close>

definition heap_inv :: "('a \<Rightarrow> 'a \<Rightarrow> bool) \<Rightarrow> 'a list \<Rightarrow> bool" where
  "heap_inv hp xs \<longleftrightarrow> (\<forall>i. 0 < i \<and> i < length xs \<longrightarrow> \<not> hp (xs ! i) (xs ! heap_parent i))"

text \<open>The order fails at most between a node and its parent, or between a node and its children.\<close>

definition grandchildren_ok :: "('a \<Rightarrow> 'a \<Rightarrow> bool) \<Rightarrow> 'a list \<Rightarrow> nat \<Rightarrow> bool" where
  "grandchildren_ok hp xs k \<longleftrightarrow>
     (\<forall>i. 0 < i \<and> i < length xs \<and> heap_parent i = k \<and> 0 < k \<longrightarrow> \<not> hp (xs ! i) (xs ! heap_parent k))"

definition heap_but_up :: "('a \<Rightarrow> 'a \<Rightarrow> bool) \<Rightarrow> 'a list \<Rightarrow> nat \<Rightarrow> bool" where
  "heap_but_up hp xs k \<longleftrightarrow>
     (\<forall>i. 0 < i \<and> i < length xs \<and> i \<noteq> k \<longrightarrow> \<not> hp (xs ! i) (xs ! heap_parent i)) \<and> grandchildren_ok hp xs k"

definition heap_but_down :: "('a \<Rightarrow> 'a \<Rightarrow> bool) \<Rightarrow> 'a list \<Rightarrow> nat \<Rightarrow> bool" where
  "heap_but_down hp xs k \<longleftrightarrow>
     (\<forall>i. 0 < i \<and> i < length xs \<and> heap_parent i \<noteq> k \<longrightarrow> \<not> hp (xs ! i) (xs ! heap_parent i))
     \<and> grandchildren_ok hp xs k"

lemma child_cases: "0 < i \<and> heap_parent i = k \<longleftrightarrow> i = leftChild k \<or> i = rightChild k"
  unfolding heap_parent_def leftChild_def rightChild_def by presburger

lemma parent_children [simp]: "heap_parent (leftChild k) = k" "heap_parent (rightChild k) = k"
  by (simp_all add: heap_parent_def leftChild_def rightChild_def)

lemma children_greater [simp]: "k < leftChild k" "k < rightChild k"
  by (simp_all add: leftChild_def rightChild_def)

lemma heap_but_0: "heap_but_up hp xs 0 \<longleftrightarrow> heap_inv hp xs"
  by (auto simp: heap_but_up_def heap_inv_def grandchildren_ok_def)

locale strict_priority =
  fixes hp :: "'a \<Rightarrow> 'a \<Rightarrow> bool"
  assumes hp_asym: "hp a b \<Longrightarrow> \<not> hp b a"
    and hp_neg_trans: "\<not> hp a b \<Longrightarrow> \<not> hp b c \<Longrightarrow> \<not> hp a c"
begin

lemma hp_irrefl [simp]: "\<not> hp a a"
  using hp_asym by blast

lemma siftUp_heap:
  assumes "idx < length xs" and "heap_but_up hp xs idx"
  shows "heap_inv hp (siftUp hp xs idx)"
  using assms
proof (induction idx arbitrary: xs rule: less_induct)
  case (less idx)
  let ?p = "heap_parent idx"
  show ?case
  proof (cases "idx = 0")
    case True
    then show ?thesis using less.prems(2) by (simp add: siftUp.simps [of hp xs 0] heap_but_0)
  next
    case False
    then have p: "?p < idx" "?p < length xs" using parent_less [of idx] less.prems(1) by simp_all
    note others = less.prems(2) [unfolded heap_but_up_def, THEN conjunct1, rule_format]
    note grand = less.prems(2) [unfolded heap_but_up_def grandchildren_ok_def, THEN conjunct2, rule_format]
    show ?thesis
    proof (cases "hp (xs ! idx) (xs ! ?p)")
      case False
      have "\<not> hp (xs ! i) (xs ! heap_parent i)" if "0 < i" "i < length xs" for i
        using False others that by (cases "i = idx") auto
      then show ?thesis
        using False \<open>idx \<noteq> 0\<close> by (simp add: siftUp.simps [of hp xs idx] Let_def heap_inv_def)
    next
      case True
      let ?ys = "swap_at idx ?p xs"
      have ys: "?ys ! k = (if k = ?p then xs ! idx else if k = idx then xs ! ?p else xs ! k)" if "k < length xs" for k
        using nth_swap_at [OF less.prems(1) p(2) that] .
      have up: "\<not> hp (xs ! ?p) (xs ! heap_parent ?p)" if "0 < ?p" using others [of ?p] that p by auto
      have "heap_but_up hp ?ys ?p"
        unfolding heap_but_up_def grandchildren_ok_def
      proof (intro conjI allI impI)
        fix i
        assume i: "0 < i \<and> i < length ?ys \<and> i \<noteq> ?p"
        then have pi: "heap_parent i < i" "heap_parent i < length xs" using parent_less [of i] by auto
        consider "i = idx" | "i \<noteq> idx" "heap_parent i = ?p" | "i \<noteq> idx" "heap_parent i = idx"
          | "i \<noteq> idx" "heap_parent i \<noteq> ?p" "heap_parent i \<noteq> idx" by blast
        then show "\<not> hp (?ys ! i) (?ys ! heap_parent i)"
        proof cases
          case 1
          then show ?thesis using hp_asym [OF True] p ys less.prems(1) by simp
        next
          case 2
          then have "\<not> hp (xs ! i) (xs ! ?p)" using others [of i] i by auto
          then have "\<not> hp (xs ! i) (xs ! idx)" using hp_asym [OF True] by (rule hp_neg_trans)
          then show ?thesis using 2 i ys p by simp
        next
          case 3
          then show ?thesis using grand [of i] i ys pi \<open>idx \<noteq> 0\<close> p by simp
        next
          case 4
          then show ?thesis using others [of i] i ys pi by simp
        qed
      next
        fix i
        assume i: "0 < i \<and> i < length ?ys \<and> heap_parent i = ?p \<and> 0 < ?p"
        then have ne: "i \<noteq> ?p" "heap_parent ?p < ?p" using parent_less [of i] parent_less [of ?p] by auto
        have "\<not> hp (xs ! i) (xs ! heap_parent ?p)" if "i \<noteq> idx"
        proof (rule hp_neg_trans)
          show "\<not> hp (xs ! i) (xs ! ?p)" using others [of i] i that by auto
          show "\<not> hp (xs ! ?p) (xs ! heap_parent ?p)" using up i by simp
        qed
        then show "\<not> hp (?ys ! i) (?ys ! heap_parent ?p)"
          using i ne ys p up by (cases "i = idx") auto
      qed
      then have "heap_inv hp (siftUp hp ?ys ?p)" using less.IH [OF p(1)] p(2) by simp
      then show ?thesis using True \<open>idx \<noteq> 0\<close> by (simp add: siftUp.simps [of hp xs idx] Let_def)
    qed
  qed
qed

lemma best_of_best:
  assumes "idx < length xs"
  shows "best_of hp xs idx < length xs"
    and "0 < i \<Longrightarrow> i < length xs \<Longrightarrow> heap_parent i = idx \<Longrightarrow> \<not> hp (xs ! i) (xs ! best_of hp xs idx)"
    and "best_of hp xs idx \<noteq> idx \<Longrightarrow> hp (xs ! best_of hp xs idx) (xs ! idx)"
proof -
  show "best_of hp xs idx < length xs" using best_of_cases [of hp xs idx] assms by auto
  have trans: "hp a b \<Longrightarrow> hp b c \<Longrightarrow> hp a c" for a b c using hp_neg_trans hp_asym by blast
  show "best_of hp xs idx \<noteq> idx \<Longrightarrow> hp (xs ! best_of hp xs idx) (xs ! idx)"
    unfolding best_of_def Let_def by (auto split: if_splits dest: trans)
  assume i: "0 < i" "i < length xs" "heap_parent i = idx"
  define m where "m = (if leftChild idx < length xs \<and> hp (xs ! leftChild idx) (xs ! idx) then leftChild idx else idx)"
  have best: "best_of hp xs idx
      = (if rightChild idx < length xs \<and> hp (xs ! rightChild idx) (xs ! m) then rightChild idx else m)"
    by (simp add: best_of_def Let_def m_def)
  have "i = leftChild idx \<or> i = rightChild idx" using i child_cases by blast
  then show "\<not> hp (xs ! i) (xs ! best_of hp xs idx)"
  proof
    assume l: "i = leftChild idx"
    then have "\<not> hp (xs ! i) (xs ! m)" using i(2) by (simp add: m_def)
    then show ?thesis 
      using hp_neg_trans [OF \<open>\<not> hp (xs ! i) (xs ! m)\<close> hp_asym] unfolding best by simp
  next
    assume "i = rightChild idx"
    then show ?thesis using i(2) unfolding best by auto
  qed
qed

lemma siftDown_heap:
  assumes "idx < length xs" and "heap_but_down hp xs idx"
  shows "heap_inv hp (siftDown hp xs idx)"
  using assms
proof (induction "length xs - idx" arbitrary: idx xs rule: less_induct)
  case less
  let ?b = "best_of hp xs idx"
  note best = best_of_best [OF less.prems(1)]
  note others = less.prems(2) [unfolded heap_but_down_def, THEN conjunct1, rule_format]
  note grand = less.prems(2) [unfolded heap_but_down_def grandchildren_ok_def, THEN conjunct2, rule_format]
  show ?case
  proof (cases "?b = idx")
    case True
    then have "heap_inv hp xs" unfolding heap_inv_def using others best(2) by metis
    then show ?thesis using True by (simp add: siftDown.simps [of hp xs idx])
  next
    case False
    then have b: "heap_parent ?b = idx" "idx < ?b"
      using best_of_cases [of hp xs idx] by (auto simp: leftChild_def rightChild_def heap_parent_def)
    let ?ys = "swap_at idx ?b xs"
    have ys: "?ys ! k = (if k = ?b then xs ! idx else if k = idx then xs ! ?b else xs ! k)" if "k < length xs" for k
      using nth_swap_at [OF less.prems(1) best(1) that] .
    have gt: "hp (xs ! ?b) (xs ! idx)" using best(3) False by simp
    have "heap_but_down hp ?ys ?b"
      unfolding heap_but_down_def grandchildren_ok_def
    proof (intro conjI allI impI)
      fix i
      assume i: "0 < i \<and> i < length ?ys \<and> heap_parent i \<noteq> ?b"
      then have pi: "heap_parent i < i" "heap_parent i < length xs" using parent_less [of i] by auto
      consider "i = ?b" | "i \<noteq> ?b" "heap_parent i = idx" | "i = idx"
        | "i \<noteq> ?b" "i \<noteq> idx" "heap_parent i \<noteq> idx" by blast
      then show "\<not> hp (?ys ! i) (?ys ! heap_parent i)"
      proof cases
        case 1
        then show ?thesis using hp_asym [OF gt] b ys less.prems(1) best(1) by simp
      next
        case 2
        then show ?thesis using best(2) [of i] i pi b ys by (cases "i = idx") auto
      next
        case 3
        have "\<not> hp (xs ! ?b) (xs ! heap_parent idx)" using grand [of ?b] 3 i b best(1) by auto
        then show ?thesis using 3 i pi ys b by auto
      next
        case 4
        then show ?thesis using others [of i] i pi ys by auto
      qed
    next
      fix i
      assume i: "0 < i \<and> i < length ?ys \<and> heap_parent i = ?b \<and> 0 < ?b"
      then have "?b < i" using parent_less [of i] by auto
      then have "\<not> hp (xs ! i) (xs ! ?b)" using others [of i] i b by auto
      then show "\<not> hp (?ys ! i) (?ys ! heap_parent ?b)" using ys i b \<open>?b < i\<close> less.prems(1) by auto
    qed
    moreover have "length ?ys - ?b < length xs - idx" using b best(1) by simp
    ultimately have "heap_inv hp (siftDown hp ?ys ?b)" using less.hyps [of ?ys ?b] best(1) by simp
    then show ?thesis using False by (simp add: siftDown.simps [of hp xs idx] Let_def)
  qed
qed

lemma heap_root:
  assumes "heap_inv hp xs" and "i < length xs"
  shows "\<not> hp (xs ! i) (xs ! 0)"
  using assms(2)
proof (induction i rule: less_induct)
  case (less i)
  show ?case
  proof (cases "i = 0")
    case False
    then have "heap_parent i < i" using parent_less by simp
    then have "\<not> hp (xs ! heap_parent i) (xs ! 0)" using less by simp
    moreover have "\<not> hp (xs ! i) (xs ! heap_parent i)" using assms(1) less.prems False by (simp add: heap_inv_def)
    ultimately show ?thesis using hp_neg_trans by blast
  qed simp
qed

lemma push_heap: "heap_inv hp xs \<Longrightarrow> heap_inv hp (pq_push hp v xs)"
proof -
  assume heap: "heap_inv hp xs"
  have "heap_but_up hp (xs @ [v]) (length xs)"
    unfolding heap_but_up_def grandchildren_ok_def
  proof (intro conjI allI impI)
    fix i
    assume i: "0 < i \<and> i < length (xs @ [v]) \<and> i \<noteq> length xs"
    then have "heap_parent i < length xs" using parent_less [of i] by simp
    then show "\<not> hp ((xs @ [v]) ! i) ((xs @ [v]) ! heap_parent i)"
      using heap i by (simp add: heap_inv_def nth_append)
  next
    fix i
    assume "0 < i \<and> i < length (xs @ [v]) \<and> heap_parent i = length xs \<and> 0 < length xs"
    then show "\<not> hp ((xs @ [v]) ! i) ((xs @ [v]) ! heap_parent (length xs))" using parent_less [of i] by simp
  qed
  then show ?thesis by (simp add: pq_push_def Let_def siftUp_heap)
qed

lemma mset_pq_push: "mset (pq_push hp v xs) = add_mset v (mset xs)"
  by (simp add: pq_push_def Let_def siftUp_mset)

lemma length_pq_push: "length (pq_push hp v xs) = Suc (length xs)"
  by (simp add: pq_push_def Let_def)

lemma replaced_root:
  assumes "heap_inv hp xs" and "length ys \<le> length xs" and "\<And>i. 0 < i \<Longrightarrow> i < length ys \<Longrightarrow> ys ! i = xs ! i"
  shows "heap_but_down hp ys 0"
  unfolding heap_but_down_def grandchildren_ok_def
proof (intro conjI allI impI)
  fix i
  assume i: "0 < i \<and> i < length ys \<and> heap_parent i \<noteq> 0"
  then show "\<not> hp (ys ! i) (ys ! heap_parent i)"
    using assms(1) assms(2) assms(3) [of i] assms(3) [of "heap_parent i"] parent_less [of i]
    by (simp add: heap_inv_def)
qed simp

lemma extract_spec:
  assumes "heap_inv hp xs" and "xs \<noteq> []"
  shows "\<exists>ys. extractTop hp xs = Some (xs ! 0, ys) \<and> pq_pop hp xs = Some ys \<and> heap_inv hp ys
           \<and> mset xs = add_mset (xs ! 0) (mset ys) \<and> (\<forall>y \<in> set ys. \<not> hp y (xs ! 0))"
proof -
  define n where "n = length xs - 1"
  have n: "length xs = Suc n" using assms(2) by (cases xs) (simp_all add: n_def)
  let ?ys = "butlast (xs[0 := xs ! n])"
  have swap: "butlast (swap_at 0 n xs) = ?ys" if "n \<noteq> 0"
    using that n by (simp add: swap_at_def butlast_conv_take list_update_swap take_update_cancel)
  have contents: "mset xs = add_mset (xs ! 0) (mset ?ys)"
  proof (cases "n = 0")
    case True
    then show ?thesis using n by (cases xs) simp_all
  next
    case False
    obtain x zs where xs: "xs = x # zs" "zs \<noteq> []" using n False by (cases xs) auto
    then have "xs ! n = last zs" using n False by (simp add: last_conv_nth nth_Cons')
    then have "?ys = last zs # butlast zs" using xs by simp
    moreover have "mset zs = add_mset (last zs) (mset (butlast zs))"
      by (subst append_butlast_last_id [OF xs(2), symmetric]) simp
    ultimately show ?thesis by (simp add: xs(1))
  qed
  have "heap_but_down hp ?ys 0"
    by (rule replaced_root [OF assms(1)]) (simp_all add: nth_butlast n)
  then have heap: "heap_inv hp (if n = 0 then ?ys else siftDown hp ?ys 0)"
    using n by (simp add: siftDown_heap) (simp add: heap_inv_def)
  have same: "mset (if n = 0 then ?ys else siftDown hp ?ys 0) = mset ?ys"
    using n siftDown_mset [of 0 ?ys hp] by auto
  have "\<forall>y \<in> set ?ys. \<not> hp y (xs ! 0)"
  proof
    fix y
    assume "y \<in> set ?ys"
    then have "y \<in># mset xs" unfolding contents by simp
    then obtain i where "i < length xs" "y = xs ! i" by (auto simp: in_set_conv_nth)
    then show "\<not> hp y (xs ! 0)" using heap_root [OF assms(1)] by simp
  qed
  moreover have "set (if n = 0 then ?ys else siftDown hp ?ys 0) = set ?ys" using same by (metis set_mset_mset)
  ultimately show ?thesis
    using heap same contents assms(2) n swap
    by (intro exI [of _ "if n = 0 then ?ys else siftDown hp ?ys 0"])
      (auto simp: extractTop_def pq_pop_def Let_def butlast_conv_take)
qed

end

subsection \<open>Draining a queue\<close>

fun pq_drain :: "nat \<Rightarrow> ('a \<Rightarrow> 'a \<Rightarrow> bool) \<Rightarrow> 'a list \<Rightarrow> 'a list" where
  "pq_drain 0 hp xs = []"
| "pq_drain (Suc n) hp xs =
     (case extractTop hp xs of None \<Rightarrow> [] | Some (v, ys) \<Rightarrow> v # pq_drain n hp ys)"

lemma pushes_heap:
  assumes "strict_priority hp" and "heap_inv hp xs"
  shows "heap_inv hp (fold (pq_push hp) vs xs)" and "mset (fold (pq_push hp) vs xs) = mset xs + mset vs"
  using assms(2)
  by (induction vs arbitrary: xs)
    (simp_all add: strict_priority.push_heap [OF assms(1)] strict_priority.mset_pq_push [OF assms(1)])

lemma drain_heap:
  assumes "strict_priority hp" and "heap_inv hp xs"
  shows "mset (pq_drain (length xs) hp xs) = mset xs \<and> sorted_wrt (\<lambda>a b. \<not> hp b a) (pq_drain (length xs) hp xs)"
  using assms(2)
proof (induction "length xs" arbitrary: xs)
  case (Suc n)
  then have "xs \<noteq> []" by auto
  then obtain ys where ys: "extractTop hp xs = Some (xs ! 0, ys)" "heap_inv hp ys"
    "mset xs = add_mset (xs ! 0) (mset ys)" "\<forall>y \<in> set ys. \<not> hp y (xs ! 0)"
    using strict_priority.extract_spec [OF assms(1) Suc.prems] by blast
  have "size (mset xs) = Suc (length ys)" unfolding ys(3) by simp
  then have len: "length ys = n" using Suc.hyps(2) by simp
  have IH: "mset (pq_drain n hp ys) = mset ys" "sorted_wrt (\<lambda>a b. \<not> hp b a) (pq_drain n hp ys)"
    using Suc.hyps(1) [of ys] len ys(2) by simp_all
  moreover have "set (pq_drain n hp ys) = set ys" using IH(1) by (metis set_mset_mset)
  ultimately show ?case using ys Suc.hyps(2) [symmetric] by simp
qed simp

text \<open>Whatever is pushed into a priority queue comes out again, each item once, and no item before one of
  higher priority, for every order that is a strict weak one.\<close>

theorem drain_pushed:
  assumes "strict_priority hp"
  shows "let q = fold (pq_push hp) vs []; out = pq_drain (length vs) hp q
         in mset out = mset vs \<and> sorted_wrt (\<lambda>a b. \<not> hp b a) out"
proof -
  have heap: "heap_inv hp (fold (pq_push hp) vs [])" "mset (fold (pq_push hp) vs []) = mset vs"
    using pushes_heap [OF assms, of "[]" vs] by (simp_all add: heap_inv_def)
  then have "length (fold (pq_push hp) vs []) = length vs" by (metis size_mset)
  then show ?thesis using drain_heap [OF assms heap(1)] heap(2) by (simp add: Let_def)
qed

interpretation nat_max: strict_priority "\<lambda>a b :: nat. b < a"
  by unfold_locales simp_all

theorem drain_pushed_witness:
  "let q = fold (pq_push (\<lambda>a b. b < a)) [3, 9, 4 :: nat] []; out = pq_drain 3 (\<lambda>a b. b < a) q
   in mset out = {#3, 4, 9#} \<and> sorted_wrt (\<lambda>a b. \<not> a < b) out"
  using drain_pushed [OF nat_max.strict_priority_axioms, of "[3, 9, 4]"]
  by (simp add: Let_def numeral_3_eq_3 add_mset_commute)

end
