(* ===== verification/TopK.thy ===== *)
theory TopK
  imports Complex_Main PriorityQueue "HOL-Library.Monad_Syntax"
begin

text \<open>
  The best \<open>K\<close> documents of a search: \<open>TopKHeap\<close> of \<open>src/index/src/lib/query_engine.cpp\<close>. Its sifting loops are
  those of \<open>PriorityQueue\<close> with the lower score above, so that the root is the document to give up next.
  Scores are rationals. Reading \<open>heap_[0]\<close> of an empty heap, which the code does for \<open>K = 0\<close>, is \<open>None\<close>.
\<close>

record ScoredDocument =
  sd_doc_id :: u32
  sd_score :: rat

definition lower_score :: "ScoredDocument \<Rightarrow> ScoredDocument \<Rightarrow> bool" where
  "lower_score a b \<longleftrightarrow> sd_score a < sd_score b"

definition heapifyUp :: "ScoredDocument list \<Rightarrow> nat \<Rightarrow> ScoredDocument list" where
  "heapifyUp heap i = siftUp lower_score heap i"

definition heapifyDown :: "ScoredDocument list \<Rightarrow> nat \<Rightarrow> ScoredDocument list" where
  "heapifyDown heap i = siftDown lower_score heap i"

definition topk_push :: "nat \<Rightarrow> ScoredDocument \<Rightarrow> ScoredDocument list \<Rightarrow> ScoredDocument list option" where
  "topk_push k item heap =
     (if length heap < k
      then let heap' = heap @ [item] in Some (heapifyUp heap' (length heap' - 1))
      else if heap = [] then None
      else if sd_score item > sd_score (heap ! 0) then Some (heapifyDown (heap[0 := item]) 0)
      else Some heap)"

function extract_loop :: "ScoredDocument list \<Rightarrow> ScoredDocument list \<Rightarrow> ScoredDocument list" where
  "extract_loop heap sorted_results =
     (if heap = [] then sorted_results
      else extract_loop (heapifyDown (butlast (heap[0 := last heap])) 0) (sorted_results @ [heap ! 0]))"
  by pat_completeness auto
termination
proof (relation "measure (length \<circ> fst)")
  fix heap sorted_results :: "ScoredDocument list"
  assume "heap \<noteq> []"
  then have "length heap - 1 < length heap" by simp
  moreover have "length (heapifyDown (butlast (heap[0 := last heap])) 0) = length heap - 1"
    unfolding heapifyDown_def
    using siftDown_mset [of 0 "butlast (heap[0 := last heap])" lower_score]
    by (metis length_butlast length_greater_0_conv length_list_update size_mset)
  ultimately show "((heapifyDown (butlast (heap[0 := last heap])) 0, sorted_results @ [heap ! 0]), heap, sorted_results)
    \<in> measure (length \<circ> fst)" by simp
qed simp

declare extract_loop.simps [simp del]

text \<open>The loop that turns the results around.\<close>

definition reverse_loop :: "'a list \<Rightarrow> 'a list" where
  "reverse_loop xs = fold (\<lambda>i ys. swap_at i (length xs - 1 - i) ys) [0..<length xs div 2] xs"

definition extractSorted :: "ScoredDocument list \<Rightarrow> ScoredDocument list" where
  "extractSorted heap = reverse_loop (extract_loop heap [])"

interpretation scores: strict_priority lower_score
  by unfold_locales (auto simp: lower_score_def)

subsection \<open>Turning around\<close>

lemma reverse_loop_rev: "reverse_loop xs = rev xs"
proof -
  let ?n = "length xs"
  have step: "fold (\<lambda>i ys. swap_at i (?n - 1 - i) ys) [0..<m] xs
      = map (\<lambda>j. if j < m \<or> ?n - 1 - j < m then xs ! (?n - 1 - j) else xs ! j) [0..<?n]"
    if "m \<le> ?n div 2" for m
    using that
  proof (induction m)
    case 0
    then show ?case by (simp add: map_nth)
  next
    case (Suc m)
    have "swap_at m (?n - 1 - m) (map (\<lambda>j. if j < m \<or> ?n - 1 - j < m then xs ! (?n - 1 - j) else xs ! j) [0..<?n])
        = map (\<lambda>j. if j < Suc m \<or> ?n - 1 - j < Suc m then xs ! (?n - 1 - j) else xs ! j) [0..<?n]"
      using Suc.prems by (intro nth_equalityI) (auto simp: nth_swap_at less_Suc_eq)
    then show ?case using Suc by simp
  qed
  have "j < ?n div 2 \<or> ?n - 1 - j < ?n div 2 \<or> ?n - 1 - j = j" if "j < ?n" for j using that by linarith
  then have "map (\<lambda>j. if j < ?n div 2 \<or> ?n - 1 - j < ?n div 2 then xs ! (?n - 1 - j) else xs ! j) [0..<?n]
      = map (\<lambda>j. xs ! (?n - 1 - j)) [0..<?n]"
    by (intro map_cong) (auto, metis)
  also have "\<dots> = rev xs" by (intro nth_equalityI) (simp_all add: rev_nth)
  finally show ?thesis using step [of "?n div 2"] by (simp add: reverse_loop_def)
qed

subsection \<open>The best documents\<close>

text \<open>\<open>best_part k heap xs\<close>: the heap holds the \<open>k\<close> best of the items, or all when there are fewer.\<close>

definition best_part :: "nat \<Rightarrow> ScoredDocument list \<Rightarrow> ScoredDocument list \<Rightarrow> bool" where
  "best_part k heap xs \<longleftrightarrow> length heap = min k (length xs)
     \<and> (\<exists>rest. mset xs = mset heap + mset rest
          \<and> (\<forall>x \<in> set heap. \<forall>y \<in> set rest. sd_score y \<le> sd_score x))"

lemma topk_push_best:
  assumes "0 < k" and "heap_inv lower_score heap" and "best_part k heap xs"
  shows "\<exists>heap'. topk_push k item heap = Some heap' \<and> heap_inv lower_score heap' \<and> best_part k heap' (xs @ [item])"
proof -
  obtain rest where len: "length heap = min k (length xs)" and rest: "mset xs = mset heap + mset rest"
    "\<forall>x \<in> set heap. \<forall>y \<in> set rest. sd_score y \<le> sd_score x"
    using assms(3) by (auto simp: best_part_def)
  have sizes: "length xs = length heap + length rest" using rest(1) by (metis size_mset size_union)
  show ?thesis
  proof (cases "length heap < k")
    case True
    have all: "length heap = length xs" using len True by linarith
    have "length rest = 0" using sizes all by linarith
    then have "rest = []" by simp
    then have "best_part k (pq_push lower_score item heap) (xs @ [item])"
      unfolding best_part_def using True all rest(1)
      by (intro conjI exI [of _ "[]"]) (simp_all add: scores.length_pq_push scores.mset_pq_push)
    then show ?thesis
      using True scores.push_heap [OF assms(2)] by (simp add: topk_push_def heapifyUp_def pq_push_def Let_def)
  next
    case full: False
    then have k: "length heap = k" using len by linarith
    then have ne: "heap \<noteq> []" using assms(1) by auto
    note k = k ne
    have low: "sd_score (heap ! 0) \<le> sd_score x" if x: "x \<in> set heap" for x
    proof -
      obtain i where "i < length heap" "x = heap ! i" using x by (auto simp: in_set_conv_nth)
      then show ?thesis using scores.heap_root [OF assms(2)] by (force simp: lower_score_def)
    qed
    show ?thesis
    proof (cases "sd_score item > sd_score (heap ! 0)")
      case True
      let ?h = "heap[0 := item]"
      have "heap_but_down lower_score ?h 0" by (rule scores.replaced_root [OF assms(2)]) simp_all
      then have heap: "heap_inv lower_score (heapifyDown ?h 0)"
        using k(2) by (simp add: heapifyDown_def scores.siftDown_heap)
      have same: "mset (heapifyDown ?h 0) = mset ?h" using k(2) by (simp add: heapifyDown_def siftDown_mset)
      have swap: "add_mset (heap ! 0) (mset ?h) = add_mset item (mset heap)"
        using k(2) by (cases heap) simp_all
      have members: "x = item \<or> x \<in> set heap" if "x \<in> set ?h" for x using that set_update_subset_insert by fast
      have "sd_score y \<le> sd_score x" if "x \<in> set ?h" "y \<in> set (heap ! 0 # rest)" for x y
      proof -
        have "heap ! 0 \<in> set heap" using k(2) by (cases heap) simp_all
        then have "sd_score y \<le> sd_score (heap ! 0)" using that(2) rest(2) by auto
        then show ?thesis using members [OF that(1)] low True by (auto intro: order_trans)
      qed
      moreover have "mset (xs @ [item]) = mset (heapifyDown ?h 0) + mset (heap ! 0 # rest)"
        using swap by (simp add: same rest(1))
      moreover have "length (heapifyDown ?h 0) = min k (length (xs @ [item]))"
        using arg_cong [OF same, of size] k len by simp
      moreover have "set (heapifyDown ?h 0) = set ?h" using same by (metis set_mset_mset)
      ultimately have "best_part k (heapifyDown ?h 0) (xs @ [item])"
        unfolding best_part_def by (intro conjI exI [of _ "heap ! 0 # rest"]) auto
      then show ?thesis using full True k(2) heap by (simp add: topk_push_def)
    next
      case False
      then have "best_part k heap (xs @ [item])"
        using rest low k len unfolding best_part_def
        by (intro conjI exI [of _ "item # rest"]) (force intro: order_trans)+
      then show ?thesis using full False k(2) assms(2) by (simp add: topk_push_def)
    qed
  qed
qed

subsection \<open>Extraction\<close>

lemma extract_loop_spec:
  assumes "heap_inv lower_score heap"
  shows "\<exists>out. extract_loop heap acc = acc @ out \<and> mset out = mset heap \<and> sorted_wrt (\<lambda>a b. sd_score a \<le> sd_score b) out"
  using assms
proof (induction heap acc rule: extract_loop.induct)
  case (1 heap acc)
  show ?case
  proof (cases "heap = []")
    case True
    then show ?thesis by (simp add: extract_loop.simps)
  next
    case False
    let ?b = "butlast (heap[0 := last heap])"
    let ?h = "heapifyDown ?b 0"
    obtain ys where ys: "extractTop lower_score heap = Some (heap ! 0, ys)" "heap_inv lower_score ys"
      "mset heap = add_mset (heap ! 0) (mset ys)" "\<forall>y \<in> set ys. \<not> lower_score y (heap ! 0)"
      using scores.extract_spec [OF 1(2) False] by blast
    have h: "?h = ys"
    proof (cases "length heap = 1")
      case True
      then obtain x where "heap = [x]" by (cases heap) auto
      then have "ys = []" "?b = []" using ys(1) by (simp_all add: extractTop_def)
      then show ?thesis by (simp add: heapifyDown_def siftDown.simps best_of_def Let_def)
    next
      case len: False
      then show ?thesis
        using ys(1) False by (simp add: extractTop_def Let_def heapifyDown_def last_conv_nth)
    qed
    then obtain out where out: "extract_loop ?h (acc @ [heap ! 0]) = (acc @ [heap ! 0]) @ out" "mset out = mset ys"
      "sorted_wrt (\<lambda>a b. sd_score a \<le> sd_score b) out" using 1(1) [OF False] ys(2) by blast
    have "set out = set ys" using out(2) by (metis set_mset_mset)
    then have "sorted_wrt (\<lambda>a b. sd_score a \<le> sd_score b) (heap ! 0 # out)"
      using out(3) ys(4) by (simp add: lower_score_def not_less)
    moreover have "extract_loop heap acc = acc @ heap ! 0 # out"
      using False out(1) by (simp add: extract_loop.simps [of heap acc])
    ultimately show ?thesis using out(2) ys(3) by (intro exI [of _ "heap ! 0 # out"]) simp
  qed
qed

lemma extractSorted_spec:
  assumes "heap_inv lower_score heap"
  shows "mset (extractSorted heap) = mset heap \<and> sorted_wrt (\<lambda>a b. sd_score b \<le> sd_score a) (extractSorted heap)"
proof -
  obtain out where "extract_loop heap [] = out" "mset out = mset heap" "sorted_wrt (\<lambda>a b. sd_score a \<le> sd_score b) out"
    using extract_loop_spec [OF assms, of "[]"] by auto
  then show ?thesis by (simp add: extractSorted_def reverse_loop_rev sorted_wrt_rev)
qed

fun topk_pushes :: "nat \<Rightarrow> ScoredDocument list \<Rightarrow> ScoredDocument list \<Rightarrow> ScoredDocument list option" where
  "topk_pushes k [] heap = Some heap"
| "topk_pushes k (item # items) heap = Option.bind (topk_push k item heap) (topk_pushes k items)"

lemma topk_pushes_best:
  assumes "0 < k" and "heap_inv lower_score heap" and "best_part k heap xs"
  shows "\<exists>heap'. topk_pushes k items heap = Some heap' \<and> heap_inv lower_score heap' \<and> best_part k heap' (xs @ items)"
  using assms(2,3)
proof (induction items arbitrary: heap xs)
  case (Cons item items)
  then obtain h where h: "topk_push k item heap = Some h" "heap_inv lower_score h" "best_part k h (xs @ [item])"
    using topk_push_best [OF assms(1)] by blast
  then show ?case using Cons.IH [of h "xs @ [item]"] by simp
qed simp

text \<open>C29. After pushing any documents the heap gives the \<open>K\<close> of the highest scores, or all when there are
  fewer, in the order of falling scores; no document that is left out has a higher score than one given.\<close>

theorem topk_gives_best:
  assumes "0 < k"
  shows "\<exists>heap rest. topk_pushes k xs [] = Some heap
     \<and> (let res = extractSorted heap
        in length res = min k (length xs) \<and> mset xs = mset res + mset rest
           \<and> sorted_wrt (\<lambda>a b. sd_score b \<le> sd_score a) res
           \<and> (\<forall>x \<in> set res. \<forall>y \<in> set rest. sd_score y \<le> sd_score x))"
proof -
  have "best_part k [] []" "heap_inv lower_score []" by (simp_all add: best_part_def heap_inv_def)
  then obtain heap where heap: "topk_pushes k xs [] = Some heap" "heap_inv lower_score heap" "best_part k heap xs"
    using topk_pushes_best [OF assms, of "[]" "[]" xs] by auto
  obtain rest where rest: "length heap = min k (length xs)" "mset xs = mset heap + mset rest"
    "\<forall>x \<in> set heap. \<forall>y \<in> set rest. sd_score y \<le> sd_score x" using heap(3) by (auto simp: best_part_def)
  note res = extractSorted_spec [OF heap(2)]
  have "set (extractSorted heap) = set heap" "length (extractSorted heap) = length heap"
    using res by (metis set_mset_mset) (metis res size_mset)
  then show ?thesis using heap(1) rest res by (intro exI [of _ heap] exI [of _ rest]) (simp add: Let_def)
qed

theorem topk_gives_best_witness:
  "\<exists>heap. topk_pushes 2 [\<lparr>sd_doc_id = 0, sd_score = 1\<rparr>, \<lparr>sd_doc_id = 1, sd_score = 3\<rparr>,
        \<lparr>sd_doc_id = 2, sd_score = 2\<rparr>] [] = Some heap \<and> length (extractSorted heap) = 2"
  using topk_gives_best [of 2 "[\<lparr>sd_doc_id = 0, sd_score = 1\<rparr>, \<lparr>sd_doc_id = 1, sd_score = 3\<rparr>,
        \<lparr>sd_doc_id = 2, sd_score = 2\<rparr>]"] by (auto simp: Let_def)

text \<open>With \<open>K = 0\<close> the first push already looks at the root of an empty heap.\<close>

lemma topk_push_zero: "topk_push 0 item [] = None"
  by (simp add: topk_push_def)

end
