(* ===== verification/QueryCompiler.thy ===== *)
theory QueryCompiler
  imports QueryTokenizer "HOL-Library.Monad_Syntax"
begin

text \<open>
  The compiler of queries, \<open>src/index/src/lib/query_compiler.cpp\<close>: a recursive descent over the tokens. The
  readers it makes are described by a plan: which reader over which parts. A reader of a word exists
  when the chunk has the word, which is a parameter \<open>has\<close>; \<open>anchor\<close> is \<open>is_anchor_\<close>. The tokens from
  \<open>current_\<close> on are passed along. The recursion has fuel; the value is \<open>None\<close> when it runs out, and
  \<open>compile\<close> gives enough. The theorems say that every query ends, that a query whose words the chunk has
  is compiled to the plan it means, and what is lost when a word is missing.
\<close>

datatype plan = PWord string | POr "plan list" | PAnd "plan list" | PContainer plan "plan list" | PPhrase "plan list"

subsection \<open>The code\<close>

definition term_reader :: "(string \<Rightarrow> bool) \<Rightarrow> string \<Rightarrow> plan option" where
  "term_reader has t = (if has t then Some (PWord t) else None)"

definition compile_term :: "(string \<Rightarrow> bool) \<Rightarrow> bool \<Rightarrow> string \<Rightarrow> plan option" where
  "compile_term has anchor t =
     (if anchor then term_reader has t
      else let body = term_reader has t; title = term_reader has (''$'' @ t)
           in case (body, title) of
                (Some b, Some s) \<Rightarrow> Some (POr [b, s])
              | (Some b, None) \<Rightarrow> Some b
              | (None, s) \<Rightarrow> s)"

definition at_type :: "QueryTokenType \<Rightarrow> QueryToken list \<Rightarrow> bool" where
  "at_type ty ts \<longleftrightarrow> ts \<noteq> [] \<and> q_type (hd ts) = ty"

definition consume :: "QueryToken list \<Rightarrow> QueryToken list" where
  "consume ts = (if ts \<noteq> [] then tl ts else ts)"

definition add_node :: "plan list \<Rightarrow> plan option \<Rightarrow> plan list" where
  "add_node ps node = (case node of None \<Rightarrow> ps | Some p \<Rightarrow> ps @ [p])"

definition finish_or :: "plan list \<Rightarrow> plan option" where
  "finish_or children =
     (if children = [] then None else if length children = 1 then Some (children ! 0) else Some (POr children))"

definition finish_and :: "plan list \<Rightarrow> plan list \<Rightarrow> plan option" where
  "finish_and positives negatives =
     (if positives = [] then None
      else let pos_isr = (if length positives = 1 then positives ! 0 else PAnd positives)
           in if negatives = [] then Some pos_isr else Some (PContainer pos_isr negatives))"

definition finish_phrase :: "plan list \<Rightarrow> bool \<Rightarrow> plan option" where
  "finish_phrase phrase_terms missing_term =
     (if missing_term \<or> phrase_terms = [] then None
      else if length phrase_terms = 1 then Some (phrase_terms ! 0)
      else Some (PPhrase phrase_terms))"

fun phrase_loop :: "(string \<Rightarrow> bool) \<Rightarrow> bool \<Rightarrow> QueryToken list \<Rightarrow> plan list \<Rightarrow> bool \<Rightarrow> plan option \<times> QueryToken list" where
  "phrase_loop has anchor [] phrase_terms missing_term = (finish_phrase phrase_terms missing_term, [])"
| "phrase_loop has anchor (t # ts) phrase_terms missing_term =
     (if q_type t = QUOTE then (finish_phrase phrase_terms missing_term, ts)
      else if q_type t = QWORD
      then (case compile_term has anchor (q_text t) of
          Some node \<Rightarrow> phrase_loop has anchor ts (phrase_terms @ [node]) missing_term
        | None \<Rightarrow> phrase_loop has anchor ts phrase_terms True)
      else phrase_loop has anchor ts phrase_terms missing_term)"

text \<open>The functions of the descent: \<open>parseOr\<close> and its loop with the children it has, the loop of \<open>parseAnd\<close>
  with its positive and negative nodes, and \<open>parsePrimary\<close>.\<close>

datatype parse_at = AtOr | AtOrLoop "plan list" | AtAndLoop "plan list" "plan list" | AtPrimary

definition parse_and_step ::
    "(parse_at \<Rightarrow> QueryToken list \<Rightarrow> (plan option \<times> QueryToken list) option) \<Rightarrow> plan list \<Rightarrow> plan list
      \<Rightarrow> QueryToken list \<Rightarrow> (plan option \<times> QueryToken list) option" where
  "parse_and_step parse positives negatives ts =
     (if ts = [] \<or> at_type QOR ts \<or> at_type R_PAREN ts then Some (finish_and positives negatives, ts)
      else let ts = (if at_type QAND ts then consume ts else ts)
           in if ts = [] then Some (finish_and positives negatives, ts)
      else let is_not = at_type QNOT ts; ts = (if is_not then consume ts else ts)
           in if ts = [] then Some (finish_and positives negatives, ts)
      else do {
        (node, ts) \<leftarrow> parse AtPrimary ts;
        case node of
          None \<Rightarrow> if \<not> is_not then Some (None, ts) else parse (AtAndLoop positives negatives) ts
        | Some p \<Rightarrow> if is_not then parse (AtAndLoop positives (negatives @ [p])) ts
                    else parse (AtAndLoop (positives @ [p]) negatives) ts })"

definition parse_primary_step ::
    "(string \<Rightarrow> bool) \<Rightarrow> bool \<Rightarrow> (parse_at \<Rightarrow> QueryToken list \<Rightarrow> (plan option \<times> QueryToken list) option)
      \<Rightarrow> QueryToken list \<Rightarrow> (plan option \<times> QueryToken list) option" where
  "parse_primary_step has anchor parse ts =
     (if ts = [] then Some (None, ts)
      else if at_type QWORD ts then Some (compile_term has anchor (q_text (hd ts)), consume ts)
      else if at_type L_PAREN ts
      then do {
        (node, ts) \<leftarrow> parse AtOr (consume ts);
        Some (node, if at_type R_PAREN ts then consume ts else ts) }
      else if at_type QUOTE ts then Some (phrase_loop has anchor (consume ts) [] False)
      else Some (None, consume ts))"

definition parse_step ::
    "(string \<Rightarrow> bool) \<Rightarrow> bool \<Rightarrow> (parse_at \<Rightarrow> QueryToken list \<Rightarrow> (plan option \<times> QueryToken list) option)
      \<Rightarrow> parse_at \<Rightarrow> QueryToken list \<Rightarrow> (plan option \<times> QueryToken list) option" where
  "parse_step has anchor parse at ts = (case at of
       AtOr \<Rightarrow> do {
         (left, ts) \<leftarrow> parse (AtAndLoop [] []) ts;
         parse (AtOrLoop (add_node [] left)) ts }
     | AtOrLoop children \<Rightarrow>
         if at_type QOR ts
         then do {
           (right, ts) \<leftarrow> parse (AtAndLoop [] []) (consume ts);
           parse (AtOrLoop (add_node children right)) ts }
         else Some (finish_or children, ts)
     | AtAndLoop positives negatives \<Rightarrow> parse_and_step parse positives negatives ts
     | AtPrimary \<Rightarrow> parse_primary_step has anchor parse ts)"

primrec parse :: "(string \<Rightarrow> bool) \<Rightarrow> bool \<Rightarrow> nat \<Rightarrow> parse_at \<Rightarrow> QueryToken list
    \<Rightarrow> (plan option \<times> QueryToken list) option" where
  "parse has anchor 0 = (\<lambda>at ts. None)"
| "parse has anchor (Suc n) = parse_step has anchor (parse has anchor n)"

definition compile_plan :: "(string \<Rightarrow> bool) \<Rightarrow> bool \<Rightarrow> QueryToken list \<Rightarrow> plan option option" where
  "compile_plan has anchor toks =
     (if toks = [] then Some None
      else map_option fst (parse has anchor (4 * length toks + 4) AtOr toks))"

subsection \<open>Every query is compiled\<close>

lemma length_consume [simp]: "length (consume ts) = length ts - 1"
  by (simp add: consume_def)

lemma phrase_loop_rest: "length (snd (phrase_loop has anchor ts ps b)) \<le> length ts"
  by (induction has anchor ts ps b rule: phrase_loop.induct) (auto split: option.split)

text \<open>How much fuel a function needs; what is left is not longer, and a primary takes a token.\<close>

fun fuel_for :: "parse_at \<Rightarrow> nat \<Rightarrow> nat" where
  "fuel_for AtOr len = 4 * len + 3"
| "fuel_for (AtOrLoop _) len = 4 * len + 1"
| "fuel_for (AtAndLoop _ _) len = 4 * len + 2"
| "fuel_for AtPrimary len = 4 * len"

definition parse_ends :: "parse_at \<Rightarrow> QueryToken list \<Rightarrow> (plan option \<times> QueryToken list) option \<Rightarrow> bool" where
  "parse_ends at ts r \<longleftrightarrow> (\<exists>node ts'. r = Some (node, ts') \<and> length ts' \<le> length ts
      \<and> (at = AtPrimary \<and> ts \<noteq> [] \<longrightarrow> length ts' < length ts))"

lemma parse_and_step_ends:
  assumes f: "\<And>at us. fuel_for at (length us) \<le> n \<Longrightarrow> us \<noteq> [] \<or> at \<noteq> AtPrimary \<Longrightarrow> parse_ends at us (f at us)"
    and n: "4 * length ts + 1 \<le> n"
  shows "parse_ends (AtAndLoop pos neg) ts (parse_and_step f pos neg ts)"
proof -
  define us where "us = (if at_type QAND ts then consume ts else ts)"
  define vs where "vs = (if at_type QNOT us then consume us else us)"
  have "length us \<le> length ts" by (simp add: us_def)
  moreover have "length vs \<le> length us" by (simp add: vs_def)
  ultimately have len: "length us \<le> length ts" "length vs \<le> length us" .
  show ?thesis
  proof (cases "ts = [] \<or> at_type QOR ts \<or> at_type R_PAREN ts \<or> us = [] \<or> vs = []")
    case True
    then show ?thesis
      using len by (auto simp: parse_and_step_def parse_ends_def Let_def us_def [symmetric] vs_def [symmetric])
  next
    case False
    then have "parse_ends AtPrimary vs (f AtPrimary vs)" using f [of AtPrimary vs] len n by simp
    then obtain node ws where ws: "f AtPrimary vs = Some (node, ws)" "length ws < length vs"
      using False by (auto simp: parse_ends_def)
    then have loop: "parse_ends (AtAndLoop p q) ws (f (AtAndLoop p q) ws)" for p q
      using f [of "AtAndLoop p q" ws] len n by simp
    have step: "parse_and_step f pos neg ts = (case node of
          None \<Rightarrow> if \<not> at_type QNOT us then Some (None, ws) else f (AtAndLoop pos neg) ws
        | Some p \<Rightarrow> if at_type QNOT us then f (AtAndLoop pos (neg @ [p])) ws
                    else f (AtAndLoop (pos @ [p]) neg) ws)"
      using False ws(1) by (simp add: parse_and_step_def Let_def us_def [symmetric] vs_def [symmetric])
    have lift: "parse_ends (AtAndLoop p q) ws r \<Longrightarrow> parse_ends (AtAndLoop pos neg) ts r" for p q r
      using ws(2) len by (auto simp: parse_ends_def)
    show ?thesis
      unfolding step using loop lift ws(2) len by (cases node) (auto simp: parse_ends_def)
  qed
qed

lemma parse_returns:
  "fuel_for at (length ts) \<le> n \<Longrightarrow> ts \<noteq> [] \<or> at \<noteq> AtPrimary \<Longrightarrow> parse_ends at ts (parse has anchor n at ts)"
proof (induction n arbitrary: at ts)
  case 0
  then show ?case by (cases at) auto
next
  case (Suc n)
  show ?case
  proof (cases at)
    case AtOr
    have "parse_ends (AtAndLoop [] []) ts (parse has anchor n (AtAndLoop [] []) ts)"
      using Suc.IH [of "AtAndLoop [] []" ts] Suc.prems AtOr by simp
    then obtain l us where us: "parse has anchor n (AtAndLoop [] []) ts = Some (l, us)" "length us \<le> length ts"
      by (auto simp: parse_ends_def)
    then have "parse_ends (AtOrLoop (add_node [] l)) us (parse has anchor n (AtOrLoop (add_node [] l)) us)"
      using Suc.IH [of "AtOrLoop (add_node [] l)" us] Suc.prems AtOr by simp
    then show ?thesis using us AtOr by (auto simp: parse_step_def parse_ends_def)
  next
    case (AtOrLoop children)
    show ?thesis
    proof (cases "at_type QOR ts")
      case True
      then have ne: "ts \<noteq> []" by (simp add: at_type_def)
      then have lt: "length (consume ts) < length ts" by simp
      have "parse_ends (AtAndLoop [] []) (consume ts) (parse has anchor n (AtAndLoop [] []) (consume ts))"
        using Suc.IH [of "AtAndLoop [] []" "consume ts"] Suc.prems AtOrLoop lt by simp
      then obtain r us where us: "parse has anchor n (AtAndLoop [] []) (consume ts) = Some (r, us)"
        "length us \<le> length (consume ts)" by (auto simp: parse_ends_def)
      then have "parse_ends (AtOrLoop (add_node children r)) us (parse has anchor n (AtOrLoop (add_node children r)) us)"
        using Suc.IH [of "AtOrLoop (add_node children r)" us] Suc.prems AtOrLoop lt by simp
      then show ?thesis using us True AtOrLoop lt by (auto simp: parse_step_def parse_ends_def)
    next
      case False
      then show ?thesis using AtOrLoop by (simp add: parse_step_def parse_ends_def)
    qed
  next
    case (AtAndLoop pos neg)
    then show ?thesis using Suc by (auto simp: parse_step_def intro!: parse_and_step_ends [where n = n])
  next
    case AtPrimary
    then have ne: "ts \<noteq> []" using Suc.prems by simp
    then have "parse_ends AtOr (consume ts) (parse has anchor n AtOr (consume ts))"
      using Suc.IH [of AtOr "consume ts"] Suc.prems AtPrimary by (cases ts) auto
    then obtain node us where us: "parse has anchor n AtOr (consume ts) = Some (node, us)"
      "length us \<le> length (consume ts)" by (auto simp: parse_ends_def)
    have lt: "length (consume ts) < length ts" using ne by simp
    obtain p vs where vs: "phrase_loop has anchor (consume ts) [] False = (p, vs)" by (cases "phrase_loop has anchor (consume ts) [] False")
    then have "length vs \<le> length (consume ts)" using phrase_loop_rest [of has anchor "consume ts" "[]" False] by simp
    moreover have "0 < length ts" using ne by simp
    ultimately show ?thesis using AtPrimary ne us vs lt
      by (auto simp: parse_step_def parse_primary_step_def parse_ends_def simp del: length_greater_0_conv)
  qed
qed

text \<open>Every query is compiled: the descent ends on any sequence of tokens, unbalanced or not.\<close>

theorem compile_returns: "\<exists>p. compile_plan has anchor toks = Some p"
proof -
  have "parse_ends AtOr toks (parse has anchor (4 * length toks + 4) AtOr toks)"
    by (rule parse_returns) simp_all
  then show ?thesis by (auto simp: compile_plan_def parse_ends_def)
qed

subsection \<open>The descent without fuel\<close>

lemma parse_and_step_mono:
  assumes "\<And>at us r. f at us = Some r \<Longrightarrow> g at us = Some r" and "parse_and_step f pos neg ts = Some r"
  shows "parse_and_step g pos neg ts = Some r"
  using assms(2) unfolding parse_and_step_def Let_def
  by (auto simp: bind_eq_Some_conv split: if_splits option.splits dest!: assms(1))

lemma parse_step_mono:
  assumes "\<And>at us r. f at us = Some r \<Longrightarrow> g at us = Some r" and "parse_step has anchor f at ts = Some r"
  shows "parse_step has anchor g at ts = Some r"
  using assms(2) unfolding parse_step_def parse_primary_step_def
  by (cases at) (auto simp: bind_eq_Some_conv split: if_splits dest!: assms(1) intro: parse_and_step_mono [OF assms(1)])

lemma parse_mono_Suc: "parse has anchor n at ts = Some r \<Longrightarrow> parse has anchor (Suc n) at ts = Some r"
proof (induction n arbitrary: at ts r)
  case (Suc n)
  have "parse_step has anchor (parse has anchor n) at ts = Some r" using Suc.prems by (simp only: parse.simps)
  then have "parse_step has anchor (parse has anchor (Suc n)) at ts = Some r"
    by (rule parse_step_mono [rotated]) (rule Suc.IH)
  then show ?case by (simp only: parse.simps)
qed simp

lemma parse_mono: "parse has anchor n at ts = Some r \<Longrightarrow> n \<le> m \<Longrightarrow> parse has anchor m at ts = Some r"
  by (induction m) (auto simp: le_Suc_eq dest: parse_mono_Suc simp del: parse.simps)

definition parses :: "(string \<Rightarrow> bool) \<Rightarrow> bool \<Rightarrow> parse_at \<Rightarrow> QueryToken list \<Rightarrow> plan option \<Rightarrow> QueryToken list \<Rightarrow> bool" where
  "parses has anchor at ts node rest \<longleftrightarrow> (\<exists>n. parse has anchor n at ts = Some (node, rest))"

lemma parses_two:
  assumes "parses has anchor at ts node rest" and "parses has anchor at' ts' node' rest'"
  shows "\<exists>n. parse has anchor n at ts = Some (node, rest) \<and> parse has anchor n at' ts' = Some (node', rest')"
proof -
  obtain n m where "parse has anchor n at ts = Some (node, rest)" "parse has anchor m at' ts' = Some (node', rest')"
    using assms by (auto simp: parses_def)
  then show ?thesis
    using parse_mono [of has anchor n _ _ _ "max n m"] parse_mono [of has anchor m _ _ _ "max n m"]
    by (intro exI [of _ "max n m"]) simp
qed

lemma parses_compile:
  assumes "parses has anchor AtOr toks node rest" and "toks \<noteq> []"
  shows "compile_plan has anchor toks = Some node"
proof -
  obtain n where n: "parse has anchor n AtOr toks = Some (node, rest)" using assms(1) by (auto simp: parses_def)
  have "parse_ends AtOr toks (parse has anchor (4 * length toks + 4) AtOr toks)"
    by (rule parse_returns) simp_all
  then obtain node' rest' where m: "parse has anchor (4 * length toks + 4) AtOr toks = Some (node', rest')"
    by (auto simp: parse_ends_def)
  have "(node', rest') = (node, rest)"
    using parse_mono [OF n, of "max n (4 * length toks + 4)"] parse_mono [OF m, of "max n (4 * length toks + 4)"] by simp
  then show ?thesis using m assms(2) by (simp add: compile_plan_def)
qed

lemma parses_or:
  assumes "parses has anchor (AtAndLoop [] []) ts left us" and "parses has anchor (AtOrLoop (add_node [] left)) us node rest"
  shows "parses has anchor AtOr ts node rest"
proof -
  obtain n where "parse has anchor n (AtAndLoop [] []) ts = Some (left, us)"
    "parse has anchor n (AtOrLoop (add_node [] left)) us = Some (node, rest)" using parses_two [OF assms] by blast
  then show ?thesis unfolding parses_def by (intro exI [of _ "Suc n"]) (simp add: parse_step_def)
qed

lemma parses_or_end: "\<not> at_type QOR ts \<Longrightarrow> parses has anchor (AtOrLoop children) ts (finish_or children) ts"
  unfolding parses_def by (intro exI [of _ "Suc 0"]) (simp add: parse_step_def)

lemma parses_or_step:
  assumes "parses has anchor (AtAndLoop [] []) ts right us"
    and "parses has anchor (AtOrLoop (add_node children right)) us node rest" and "q_type t = QOR"
  shows "parses has anchor (AtOrLoop children) (t # ts) node rest"
proof -
  obtain n where "parse has anchor n (AtAndLoop [] []) ts = Some (right, us)"
    "parse has anchor n (AtOrLoop (add_node children right)) us = Some (node, rest)" using parses_two [OF assms(1,2)] by blast
  then show ?thesis using assms(3) unfolding parses_def
    by (intro exI [of _ "Suc n"]) (simp add: parse_step_def at_type_def consume_def)
qed

lemma parses_and_end:
  "ts = [] \<or> at_type QOR ts \<or> at_type R_PAREN ts \<Longrightarrow>
     parses has anchor (AtAndLoop pos neg) ts (finish_and pos neg) ts"
  unfolding parses_def by (intro exI [of _ "Suc 0"]) (simp add: parse_step_def parse_and_step_def)

text \<open>A conjunct: an optional AND, an optional NOT, and a primary that does not begin with either.\<close>

definition begins_primary :: "QueryToken list \<Rightarrow> bool" where
  "begins_primary ts \<longleftrightarrow> at_type QWORD ts \<or> at_type L_PAREN ts \<or> at_type QUOTE ts"

lemma parses_and_step:
  assumes "parses has anchor AtPrimary ts (Some p) us" and "begins_primary ts"
    and "parses has anchor (if is_not then AtAndLoop pos (neg @ [p]) else AtAndLoop (pos @ [p]) neg) us node rest"
  shows "parses has anchor (AtAndLoop pos neg)
      ((if with_and then [token_AND] else []) @ (if is_not then [token_NOT] else []) @ ts) node rest"
proof -
  obtain n where "parse has anchor n AtPrimary ts = Some (Some p, us)"
    "parse has anchor n (if is_not then AtAndLoop pos (neg @ [p]) else AtAndLoop (pos @ [p]) neg) us = Some (node, rest)"
    using parses_two [OF assms(1,3)] by blast
  then show ?thesis using assms(2) unfolding parses_def
    by (intro exI [of _ "Suc n"], cases with_and; cases is_not)
      (auto simp: parse_step_def parse_and_step_def at_type_def consume_def token_AND_def token_NOT_def begins_primary_def Let_def)
qed

lemma parses_word: "q_type t = QWORD \<Longrightarrow> parses has anchor AtPrimary (t # ts) (compile_term has anchor (q_text t)) ts"
  unfolding parses_def by (intro exI [of _ "Suc 0"]) (simp add: parse_step_def parse_primary_step_def at_type_def consume_def)

lemma parses_group:
  assumes "parses has anchor AtOr ts node (r # us)" and "q_type l = L_PAREN" and "q_type r = R_PAREN"
  shows "parses has anchor AtPrimary (l # ts) node us"
proof -
  obtain n where "parse has anchor n AtOr ts = Some (node, r # us)" using assms(1) by (auto simp: parses_def)
  then show ?thesis using assms(2,3) unfolding parses_def
    by (intro exI [of _ "Suc n"]) (simp add: parse_step_def parse_primary_step_def at_type_def consume_def)
qed

lemma parses_phrase:
  assumes "q_type q = QUOTE" and "phrase_loop has anchor ts [] False = (node, us)"
  shows "parses has anchor AtPrimary (q # ts) node us"
  unfolding parses_def using assms
  by (intro exI [of _ "Suc 0"]) (simp add: parse_step_def parse_primary_step_def at_type_def consume_def)

subsection \<open>What a query means\<close>

text \<open>A query as the user means it: alternatives of conjunctions of items; an item may have an AND before it,
  may be negated, and is a word, a phrase or a group.\<close>

datatype prim = PrimWord string | PrimPhrase "string list" | PrimGroup "item list list"
  and item = Item bool bool prim

definition word_token :: "string \<Rightarrow> QueryToken" where "word_token w = \<lparr>q_type = QWORD, q_text = w\<rparr>"
definition quote_token :: QueryToken where "quote_token = \<lparr>q_type = QUOTE, q_text = [CHR 0x22]\<rparr>"
definition lparen_token :: QueryToken where "lparen_token = \<lparr>q_type = L_PAREN, q_text = ''(''\<rparr>"
definition rparen_token :: QueryToken where "rparen_token = \<lparr>q_type = R_PAREN, q_text = '')''\<rparr>"

fun join_or :: "QueryToken list list \<Rightarrow> QueryToken list" where
  "join_or [] = []"
| "join_or [c] = c"
| "join_or (c # cs) = c @ token_OR # join_or cs"

primrec print_prim :: "prim \<Rightarrow> QueryToken list" and print_item :: "item \<Rightarrow> QueryToken list" where
  "print_prim (PrimWord w) = [word_token w]"
| "print_prim (PrimPhrase ws) = quote_token # map word_token ws @ [quote_token]"
| "print_prim (PrimGroup cs) = lparen_token # join_or (map concat (map (map print_item) cs)) @ [rparen_token]"
| "print_item (Item with_and is_not p) =
     (if with_and then [token_AND] else []) @ (if is_not then [token_NOT] else []) @ print_prim p"

definition print_query :: "item list list \<Rightarrow> QueryToken list" where
  "print_query cs = join_or (map (concat \<circ> map print_item) cs)"

text \<open>A document is the locations of its terms. A word of a query is found in the body or in the title.\<close>

definition term_at :: "bool \<Rightarrow> (string \<Rightarrow> nat set) \<Rightarrow> string \<Rightarrow> nat set" where
  "term_at anchor doc t = doc t \<union> (if anchor then {} else doc (''$'' @ t))"

primrec prim_holds :: "bool \<Rightarrow> (string \<Rightarrow> nat set) \<Rightarrow> prim \<Rightarrow> bool"
  and item_holds :: "bool \<Rightarrow> (string \<Rightarrow> nat set) \<Rightarrow> item \<Rightarrow> bool" where
  "prim_holds anchor doc (PrimWord w) \<longleftrightarrow> term_at anchor doc w \<noteq> {}"
| "prim_holds anchor doc (PrimPhrase ws) \<longleftrightarrow> (\<exists>i. \<forall>k < length ws. i + k \<in> term_at anchor doc (ws ! k))"
| "prim_holds anchor doc (PrimGroup cs) \<longleftrightarrow> list_ex (list_all id) (map (map (item_holds anchor doc)) cs)"
| "item_holds anchor doc (Item with_and is_not p) \<longleftrightarrow> prim_holds anchor doc p \<noteq> is_not"

definition query_holds :: "bool \<Rightarrow> (string \<Rightarrow> nat set) \<Rightarrow> item list list \<Rightarrow> bool" where
  "query_holds anchor doc cs \<longleftrightarrow> (\<exists>c \<in> set cs. \<forall>i \<in> set c. item_holds anchor doc i)"

primrec plan_at :: "(string \<Rightarrow> nat set) \<Rightarrow> plan \<Rightarrow> nat set" where
  "plan_at doc (PWord t) = doc t"
| "plan_at doc (POr ps) = \<Union> (set (map (plan_at doc) ps))"
| "plan_at doc (PAnd ps) = {}"
| "plan_at doc (PContainer p ns) = {}"
| "plan_at doc (PPhrase ps) = {}"

primrec plan_holds :: "(string \<Rightarrow> nat set) \<Rightarrow> plan \<Rightarrow> bool" where
  "plan_holds doc (PWord t) \<longleftrightarrow> doc t \<noteq> {}"
| "plan_holds doc (POr ps) \<longleftrightarrow> list_ex id (map (plan_holds doc) ps)"
| "plan_holds doc (PAnd ps) \<longleftrightarrow> list_all id (map (plan_holds doc) ps)"
| "plan_holds doc (PContainer p ns) \<longleftrightarrow> plan_holds doc p \<and> \<not> list_ex id (map (plan_holds doc) ns)"
| "plan_holds doc (PPhrase ps) \<longleftrightarrow> (\<exists>i. \<forall>k < length ps. i + k \<in> plan_at doc (ps ! k))"

text \<open>Queries whose words the chunk has, with a positive item in every conjunction.\<close>

primrec complete_prim :: "(string \<Rightarrow> bool) \<Rightarrow> bool \<Rightarrow> prim \<Rightarrow> bool"
  and complete_item :: "(string \<Rightarrow> bool) \<Rightarrow> bool \<Rightarrow> item \<Rightarrow> bool" where
  "complete_prim has anchor (PrimWord w) \<longleftrightarrow> compile_term has anchor w \<noteq> None"
| "complete_prim has anchor (PrimPhrase ws) \<longleftrightarrow> ws \<noteq> [] \<and> (\<forall>w \<in> set ws. compile_term has anchor w \<noteq> None)"
| "complete_prim has anchor (PrimGroup cs) \<longleftrightarrow> cs \<noteq> []
     \<and> list_all (\<lambda>c. list_ex (\<lambda>i. case i of Item a n p \<Rightarrow> \<not> n) c) cs
     \<and> list_all (list_all id) (map (map (complete_item has anchor)) cs)"
| "complete_item has anchor (Item with_and is_not p) \<longleftrightarrow> complete_prim has anchor p"

definition positive :: "item \<Rightarrow> bool" where
  "positive i \<longleftrightarrow> (case i of Item a n p \<Rightarrow> \<not> n)"

definition complete_query :: "(string \<Rightarrow> bool) \<Rightarrow> bool \<Rightarrow> item list list \<Rightarrow> bool" where
  "complete_query has anchor cs \<longleftrightarrow> cs \<noteq> []
     \<and> (\<forall>c \<in> set cs. (\<exists>i \<in> set c. positive i) \<and> (\<forall>i \<in> set c. complete_item has anchor i))"

definition has_only :: "(string \<Rightarrow> bool) \<Rightarrow> (string \<Rightarrow> nat set) \<Rightarrow> bool" where
  "has_only has doc \<longleftrightarrow> (\<forall>t. \<not> has t \<longrightarrow> doc t = {})"

subsection \<open>A complete query is compiled to what it means\<close>

lemma token_types [simp]:
  "q_type (word_token w) = QWORD" "q_text (word_token w) = w" "q_type quote_token = QUOTE"
  "q_type lparen_token = L_PAREN" "q_type rparen_token = R_PAREN" "q_type token_OR = QOR"
  by (simp_all add: word_token_def quote_token_def lparen_token_def rparen_token_def token_OR_def)

lemma at_type_simps [simp]: "\<not> at_type ty []" "at_type ty (t # ts) \<longleftrightarrow> q_type t = ty"
  by (simp_all add: at_type_def)

lemma compile_term_at:
  assumes "compile_term has anchor t = Some p" and "has_only has doc"
  shows "plan_at doc p = term_at anchor doc t" and "plan_holds doc p \<longleftrightarrow> term_at anchor doc t \<noteq> {}"
  using assms unfolding compile_term_def term_reader_def term_at_def has_only_def
  by (auto simp: Let_def split: if_splits option.splits)

lemma phrase_loop_words:
  "\<forall>w \<in> set ws. compile_term has anchor w \<noteq> None \<Longrightarrow>
     phrase_loop has anchor (map word_token ws @ quote_token # rest) ps False
       = (finish_phrase (ps @ map (the \<circ> compile_term has anchor) ws) False, rest)"
  by (induction ws arbitrary: ps) (auto split: option.split)

text \<open>The plan of a primary.\<close>

definition compiles :: "(string \<Rightarrow> bool) \<Rightarrow> bool \<Rightarrow> prim \<Rightarrow> plan \<Rightarrow> bool" where
  "compiles has anchor p q \<longleftrightarrow>
     (\<forall>rest. parses has anchor AtPrimary (print_prim p @ rest) (Some q) rest \<and> begins_primary (print_prim p @ rest))
     \<and> (\<forall>doc. has_only has doc \<longrightarrow> (plan_holds doc q \<longleftrightarrow> prim_holds anchor doc p))"

lemma compiles_word:
  assumes "compile_term has anchor w = Some q"
  shows "compiles has anchor (PrimWord w) q"
  using assms compile_term_at(2) [OF assms] parses_word [of "word_token w" has anchor]
  by (simp add: compiles_def begins_primary_def)

lemma compiles_phrase:
  assumes "ws \<noteq> []" and "\<forall>w \<in> set ws. compile_term has anchor w \<noteq> None"
  shows "\<exists>q. compiles has anchor (PrimPhrase ws) q"
proof -
  let ?qs = "map (the \<circ> compile_term has anchor) ws"
  define q where "q = (if length ws = 1 then ?qs ! 0 else PPhrase ?qs)"
  have q: "finish_phrase ?qs False = Some q" using assms(1) by (simp add: finish_phrase_def q_def)
  have "parses has anchor AtPrimary (print_prim (PrimPhrase ws) @ rest) (Some q) rest" for rest
    using parses_phrase [of quote_token has anchor "map word_token ws @ quote_token # rest" "Some q" rest]
      phrase_loop_words [OF assms(2), of rest "[]"] q by simp
  moreover have "plan_holds doc q \<longleftrightarrow> prim_holds anchor doc (PrimPhrase ws)" if doc: "has_only has doc" for doc
  proof -
    have at: "plan_at doc (?qs ! k) = term_at anchor doc (ws ! k)"
      "plan_holds doc (?qs ! k) \<longleftrightarrow> term_at anchor doc (ws ! k) \<noteq> {}" if "k < length ws" for k
      using compile_term_at [OF _ doc, of anchor "ws ! k"] assms(2) that by (auto simp: Ball_set [symmetric])
    show ?thesis
    proof (cases "length ws = 1")
      case True
      then show ?thesis using at(2) [of 0] by (auto simp: q_def)
    next
      case False
      then show ?thesis using at(1) by (auto simp: q_def)
    qed
  qed
  ultimately show ?thesis by (auto simp: compiles_def begins_primary_def)
qed

text \<open>A conjunction.\<close>

definition stops_and :: "QueryToken list \<Rightarrow> bool" where
  "stops_and ts \<longleftrightarrow> ts = [] \<or> at_type QOR ts \<or> at_type R_PAREN ts"

definition conj_plan :: "(string \<Rightarrow> bool) \<Rightarrow> bool \<Rightarrow> item list \<Rightarrow> plan list \<Rightarrow> plan list \<Rightarrow> bool" where
  "conj_plan has anchor c ps ns \<longleftrightarrow>
     (\<forall>rest pos neg. stops_and rest \<longrightarrow>
        parses has anchor (AtAndLoop pos neg) (concat (map print_item c) @ rest) (finish_and (pos @ ps) (neg @ ns)) rest)
     \<and> (\<forall>doc. has_only has doc \<longrightarrow>
         ((\<forall>i \<in> set c. item_holds anchor doc i)
            \<longleftrightarrow> (\<forall>p \<in> set ps. plan_holds doc p) \<and> (\<forall>n \<in> set ns. \<not> plan_holds doc n)))
     \<and> (ps \<noteq> [] \<longleftrightarrow> (\<exists>i \<in> set c. positive i))"

definition item_compiles :: "(string \<Rightarrow> bool) \<Rightarrow> bool \<Rightarrow> item \<Rightarrow> bool" where
  "item_compiles has anchor i \<longleftrightarrow> (case i of Item a n p \<Rightarrow> \<exists>q. compiles has anchor p q)"

lemma conj_plan_Cons:
  assumes "conj_plan has anchor c ps ns" and "compiles has anchor p q"
  shows "conj_plan has anchor (Item a n p # c) (if n then ps else q # ps) (if n then q # ns else ns)"
proof -
  let ?ps = "if n then ps else q # ps" and ?ns = "if n then q # ns else ns"
  note c = assms(1) [unfolded conj_plan_def, THEN conjunct1, rule_format]
  have "parses has anchor (AtAndLoop pos neg) (concat (map print_item (Item a n p # c)) @ rest)
      (finish_and (pos @ ?ps) (neg @ ?ns)) rest" if rest: "stops_and rest" for rest pos neg
  proof -
    have "parses has anchor (if n then AtAndLoop pos (neg @ [q]) else AtAndLoop (pos @ [q]) neg)
        (concat (map print_item c) @ rest) (finish_and (pos @ ?ps) (neg @ ?ns)) rest"
      using c [OF rest, of pos "neg @ [q]"] c [OF rest, of "pos @ [q]" neg] by simp
    then show ?thesis
      using parses_and_step [of has anchor "print_prim p @ concat (map print_item c) @ rest" q
          "concat (map print_item c) @ rest" n pos neg _ rest a] assms(2)
      by (simp add: compiles_def)
  qed
  then show ?thesis using assms unfolding conj_plan_def compiles_def by (simp add: positive_def) blast
qed

lemma compiles_conj:
  assumes "\<forall>i \<in> set c. item_compiles has anchor i"
  shows "\<exists>ps ns. conj_plan has anchor c ps ns"
  using assms
proof (induction c)
  case Nil
  have "conj_plan has anchor [] [] []"
    by (auto simp: conj_plan_def stops_and_def intro: parses_and_end)
  then show ?case by blast
next
  case (Cons i c)
  obtain a n p where i: "i = Item a n p" by (cases i)
  obtain q where "compiles has anchor p q" using Cons.prems i by (auto simp: item_compiles_def)
  moreover obtain ps ns where "conj_plan has anchor c ps ns" using Cons by auto
  ultimately show ?case unfolding i by (blast intro: conj_plan_Cons)
qed

lemma finish_and_holds:
  assumes "ps \<noteq> []"
  shows "\<exists>q. finish_and ps ns = Some q
     \<and> (\<forall>doc. plan_holds doc q \<longleftrightarrow> (\<forall>p \<in> set ps. plan_holds doc p) \<and> (\<forall>n \<in> set ns. \<not> plan_holds doc n))"
proof -
  have one: "length ps = 1 \<Longrightarrow> set ps = {ps ! 0}" using assms by (cases ps) auto
  show ?thesis
    using assms one by (auto simp: finish_and_def Let_def list_ex_iff list_all_iff)
qed

text \<open>Alternatives of conjunctions.\<close>

definition branch_plan :: "(string \<Rightarrow> bool) \<Rightarrow> bool \<Rightarrow> item list \<Rightarrow> plan \<Rightarrow> bool" where
  "branch_plan has anchor c q \<longleftrightarrow>
     (\<forall>rest. stops_and rest \<longrightarrow>
        parses has anchor (AtAndLoop [] []) (concat (map print_item c) @ rest) (Some q) rest)
     \<and> (\<forall>doc. has_only has doc \<longrightarrow> (plan_holds doc q \<longleftrightarrow> (\<forall>i \<in> set c. item_holds anchor doc i)))"

lemma compiles_branch:
  assumes "\<forall>i \<in> set c. item_compiles has anchor i" and "\<exists>i \<in> set c. positive i"
  shows "\<exists>q. branch_plan has anchor c q"
proof -
  obtain ps ns where p: "conj_plan has anchor c ps ns" using compiles_conj [OF assms(1)] by blast
  then have "ps \<noteq> []" using assms(2) by (simp add: conj_plan_def)
  then obtain q where "finish_and ps ns = Some q"
    "\<forall>doc. plan_holds doc q \<longleftrightarrow> (\<forall>p \<in> set ps. plan_holds doc p) \<and> (\<forall>n \<in> set ns. \<not> plan_holds doc n)"
    using finish_and_holds by blast
  then have "branch_plan has anchor c q"
    using p unfolding conj_plan_def branch_plan_def by (metis append_Nil)
  then show ?thesis ..
qed

definition alternatives :: "item list list \<Rightarrow> QueryToken list" where
  "alternatives cs = concat (map (\<lambda>c. token_OR # concat (map print_item c)) cs)"

lemma print_query_Cons: "print_query (c # cs) = concat (map print_item c) @ alternatives cs"
  by (induction cs arbitrary: c) (simp_all add: print_query_def alternatives_def)

lemma stops_and_alternatives: "rest = [] \<or> at_type R_PAREN rest \<Longrightarrow> stops_and (alternatives cs @ rest)"
  by (cases cs) (auto simp: stops_and_def alternatives_def)

lemma compiles_alternatives:
  assumes "list_all2 (branch_plan has anchor) cs qs" and "rest = [] \<or> at_type R_PAREN rest"
  shows "parses has anchor (AtOrLoop children) (alternatives cs @ rest) (finish_or (children @ qs)) rest"
  using assms(1)
proof (induction cs qs arbitrary: children rule: list_all2_induct)
  case Nil
  then show ?case using assms(2) parses_or_end [of rest has anchor children] by (auto simp: alternatives_def at_type_def)
next
  case (Cons c cs q qs)
  have "parses has anchor (AtAndLoop [] []) (concat (map print_item c) @ alternatives cs @ rest) (Some q) (alternatives cs @ rest)"
    using Cons.hyps(1) stops_and_alternatives [OF assms(2)] by (simp add: branch_plan_def)
  moreover have "parses has anchor (AtOrLoop (add_node children (Some q))) (alternatives cs @ rest)
      (finish_or (children @ q # qs)) rest"
    using Cons.IH [of "children @ [q]"] by (simp add: add_node_def)
  moreover have "alternatives (c # cs) @ rest = token_OR # concat (map print_item c) @ alternatives cs @ rest"
    by (simp add: alternatives_def)
  ultimately show ?case using parses_or_step by simp
qed

lemma compiles_or:
  assumes "cs \<noteq> []" and "\<forall>c \<in> set cs. (\<exists>i \<in> set c. positive i) \<and> (\<forall>i \<in> set c. item_compiles has anchor i)"
  shows "\<exists>q. (\<forall>rest. rest = [] \<or> at_type R_PAREN rest \<longrightarrow> parses has anchor AtOr (print_query cs @ rest) (Some q) rest)
     \<and> (\<forall>doc. has_only has doc \<longrightarrow> (plan_holds doc q \<longleftrightarrow> query_holds anchor doc cs))"
proof -
  have "\<forall>c \<in> set cs. \<exists>q. branch_plan has anchor c q" using compiles_branch assms(2) by blast
  then obtain f where "\<forall>c \<in> set cs. branch_plan has anchor c (f c)" by metis
  then obtain qs where qs: "list_all2 (branch_plan has anchor) cs qs"
    by (intro that [of "map f cs"]) (simp add: list_all2_map2 list.rel_refl_strong)
  then obtain c cs' q qs' where cs: "cs = c # cs'" "qs = q # qs'" "branch_plan has anchor c q"
    "list_all2 (branch_plan has anchor) cs' qs'" using assms(1) by (cases cs; cases qs) auto
  define p where "p = (if qs' = [] then q else POr qs)"
  have p: "finish_or qs = Some p" by (simp add: finish_or_def p_def cs)
  have "parses has anchor AtOr (print_query cs @ rest) (Some p) rest" if rest: "rest = [] \<or> at_type R_PAREN rest" for rest
  proof (rule parses_or)
    show "parses has anchor (AtAndLoop [] []) (print_query cs @ rest) (Some q) (alternatives cs' @ rest)"
      using cs(3) stops_and_alternatives [OF rest] by (simp add: cs(1) print_query_Cons branch_plan_def)
    show "parses has anchor (AtOrLoop (add_node [] (Some q))) (alternatives cs' @ rest) (Some p) rest"
      using compiles_alternatives [OF cs(4) rest, of "[q]"] p by (simp add: add_node_def cs(2))
  qed
  moreover have "plan_holds doc p \<longleftrightarrow> query_holds anchor doc cs" if doc: "has_only has doc" for doc
  proof -
    have "list_all2 (\<lambda>c q. plan_holds doc q \<longleftrightarrow> (\<forall>i \<in> set c. item_holds anchor doc i)) cs qs"
      using qs by (rule list_all2_mono) (use doc in \<open>simp add: branch_plan_def\<close>)
    then have "(\<exists>q \<in> set qs. plan_holds doc q) \<longleftrightarrow> query_holds anchor doc cs"
      unfolding query_holds_def by (induction rule: list_all2_induct) auto
    moreover have "plan_holds doc p \<longleftrightarrow> (\<exists>q \<in> set qs. plan_holds doc q)"
      by (auto simp: p_def cs(2) list_ex_iff)
    ultimately show ?thesis by simp
  qed
  ultimately show ?thesis by blast
qed

lemma complete_compiles:
  "complete_prim has anchor p \<Longrightarrow> \<exists>q. compiles has anchor p q"
  "complete_item has anchor i \<Longrightarrow> item_compiles has anchor i"
proof (induction p and i)
  case (PrimWord w)
  then show ?case using compiles_word by fastforce
next
  case (PrimPhrase ws)
  then show ?case using compiles_phrase by simp
next
  case (PrimGroup cs)
  then have ne: "cs \<noteq> []" and all: "\<forall>c \<in> set cs. (\<exists>i \<in> set c. positive i) \<and> (\<forall>i \<in> set c. item_compiles has anchor i)"
    by (auto simp: list_all_iff list_ex_iff positive_def)
  obtain q where q: "\<And>rest. rest = [] \<or> at_type R_PAREN rest \<Longrightarrow> parses has anchor AtOr (print_query cs @ rest) (Some q) rest"
    "\<And>doc. has_only has doc \<Longrightarrow> plan_holds doc q \<longleftrightarrow> query_holds anchor doc cs"
    using compiles_or [OF ne all] by blast
  have print: "print_prim (PrimGroup cs) @ rest = lparen_token # print_query cs @ rparen_token # rest" for rest
    by (simp add: print_query_def comp_def)
  have "compiles has anchor (PrimGroup cs) q"
    unfolding compiles_def print
    using q parses_group [of has anchor "print_query cs @ rparen_token # rest" "Some q" rparen_token rest lparen_token for rest]
    by (auto simp: begins_primary_def query_holds_def list_ex_iff list_all_iff)
  then show ?case by blast
next
  case (Item a n p)
  then show ?case by (simp add: item_compiles_def)
qed



text \<open>A missing word takes the alternatives after its conjunction with it: the tokens behind the word are
  not skipped, so the descent ends there and finds nothing, whatever the alternative is.\<close>

theorem missing_word_loses_alternative:
  assumes "compile_term has anchor w = None"
  shows "compile_plan has anchor (word_token w # word_token x # token_OR # toks) = Some None"
proof -
  have "parses has anchor AtPrimary (word_token w # word_token x # token_OR # toks) None (word_token x # token_OR # toks)"
    using parses_word [of "word_token w" has anchor] assms by simp
  then obtain n where n: "parse has anchor n AtPrimary (word_token w # word_token x # token_OR # toks)
      = Some (None, word_token x # token_OR # toks)" by (auto simp: parses_def)
  have "parse_and_step (parse has anchor n) [] [] (word_token w # word_token x # token_OR # toks)
      = Some (None, word_token x # token_OR # toks)"
    using n by (simp add: parse_and_step_def Let_def)
  then have "parses has anchor (AtAndLoop [] []) (word_token w # word_token x # token_OR # toks) None
      (word_token x # token_OR # toks)"
    unfolding parses_def by (intro exI [of _ "Suc n"]) (simp add: parse_step_def)
  moreover have "parses has anchor (AtOrLoop (add_node [] None)) (word_token x # token_OR # toks) None
      (word_token x # token_OR # toks)"
    using parses_or_end [of "word_token x # token_OR # toks" has anchor "[]"] by (simp add: add_node_def finish_or_def)
  ultimately have "parses has anchor AtOr (word_token w # word_token x # token_OR # toks) None
      (word_token x # token_OR # toks)" by (rule parses_or)
  then show ?thesis by (rule parses_compile) simp
qed

theorem missing_word_loses_alternative_witness:
  "compile_plan (\<lambda>t. t = ''dog'') True [word_token ''cat'', word_token ''dog'', token_OR, word_token ''dog''] = Some None"
  by (rule missing_word_loses_alternative) (simp add: compile_term_def term_reader_def)

end
