(* ===== verification/Deque.thy ===== *)
theory Deque
  imports Prelude
begin

text \<open>
  The double-ended queue: \<open>src/utils/STL_rewrite/deque.hpp\<close>, a ring buffer. A slot of the buffer that holds no
  object is \<open>None\<close>; reading one, or dividing by a capacity of 0, is \<open>None\<close> as well. The theorems say that it
  behaves like a list to which one adds at the front and from which one takes at the back.
\<close>

record 'a deque =
  slots :: "'a option list"
  dq_size :: nat
  front_index :: nat

definition empty_deque :: "'a deque" where
  "empty_deque = \<lparr>slots = [], dq_size = 0, front_index = 0\<rparr>"

definition capacity :: "'a deque \<Rightarrow> nat" where
  "capacity d = length (slots d)"

definition physical_index :: "'a deque \<Rightarrow> nat \<Rightarrow> nat" where
  "physical_index d i = (front_index d + i) mod capacity d"

definition decrement :: "'a deque \<Rightarrow> nat \<Rightarrow> nat" where
  "decrement d i = (if i = 0 then capacity d - 1 else i - 1)"

definition reallocate :: "nat \<Rightarrow> 'a deque \<Rightarrow> 'a deque" where
  "reallocate new_capacity d =
     \<lparr>slots = map (\<lambda>i. slots d ! physical_index d i) [0..<dq_size d] @ replicate (new_capacity - dq_size d) None,
      dq_size = dq_size d, front_index = 0\<rparr>"

definition ensure_capacity_for_one_more :: "'a deque \<Rightarrow> 'a deque" where
  "ensure_capacity_for_one_more d =
     (if dq_size d < capacity d then d
      else reallocate (if capacity d = 0 then 8 else capacity d * 2) d)"

definition emplace_front :: "'a \<Rightarrow> 'a deque \<Rightarrow> 'a deque" where
  "emplace_front v d =
     (let d = ensure_capacity_for_one_more d;
          f = decrement d (front_index d)
      in \<lparr>slots = (slots d)[f := Some v], dq_size = dq_size d + 1, front_index = f\<rparr>)"

definition dq_empty :: "'a deque \<Rightarrow> bool" where
  "dq_empty d \<longleftrightarrow> dq_size d = 0"

text \<open>\<open>back\<close> and \<open>pop_back\<close> of an empty queue compute the index \<open>-1\<close>, which the code does not exclude.\<close>

definition dq_back :: "'a deque \<Rightarrow> 'a option" where
  "dq_back d = (if dq_size d = 0 then None else slots d ! physical_index d (dq_size d - 1))"

definition pop_back :: "'a deque \<Rightarrow> 'a deque option" where
  "pop_back d =
     (if dq_size d = 0 then None
      else let back_index = physical_index d (dq_size d - 1);
               n = dq_size d - 1
           in Some \<lparr>slots = (slots d)[back_index := None], dq_size = n,
                    front_index = (if n = 0 then 0 else front_index d)\<rparr>)"

definition dq_clear :: "'a deque \<Rightarrow> 'a deque" where
  "dq_clear d = \<lparr>slots = fold (\<lambda>i ss. ss[physical_index d i := None]) [0..<dq_size d] (slots d),
                 dq_size = 0, front_index = 0\<rparr>"

definition copy_from :: "'a deque \<Rightarrow> 'a deque" where
  "copy_from other =
     (if dq_size other = 0 then empty_deque
      else \<lparr>slots = map (\<lambda>i. slots other ! physical_index other i) [0..<dq_size other],
            dq_size = dq_size other, front_index = 0\<rparr>)"

subsection \<open>What it stands for\<close>

definition dq_inv :: "'a deque \<Rightarrow> bool" where
  "dq_inv d \<longleftrightarrow> dq_size d \<le> capacity d \<and> (capacity d = 0 \<or> front_index d < capacity d)
     \<and> (\<forall>i < dq_size d. slots d ! physical_index d i \<noteq> None)
     \<and> (\<forall>i. dq_size d \<le> i \<and> i < capacity d \<longrightarrow> slots d ! physical_index d i = None)"

definition dq_list :: "'a deque \<Rightarrow> 'a list" where
  "dq_list d = map (\<lambda>i. the (slots d ! physical_index d i)) [0..<dq_size d]"

lemma length_dq_list [simp]: "length (dq_list d) = dq_size d"
  by (simp add: dq_list_def)

lemma empty_deque [simp]: "dq_inv empty_deque" "dq_list empty_deque = []"
  by (simp_all add: dq_inv_def empty_deque_def capacity_def dq_list_def)

lemma phys_less: "0 < capacity d \<Longrightarrow> physical_index d i < capacity d"
  by (simp add: physical_index_def)

lemma phys_eq: "i < capacity d \<Longrightarrow> j < capacity d \<Longrightarrow> physical_index d i = physical_index d j \<longleftrightarrow> i = j"
  unfolding physical_index_def using mod_shift_inj by blast

lemma reallocate_ok:
  assumes "dq_inv d" and "dq_size d < n"
  shows "dq_inv (reallocate n d)" and "dq_list (reallocate n d) = dq_list d" and "capacity (reallocate n d) = n"
    and "dq_size (reallocate n d) = dq_size d"
proof -
  have c: "capacity (reallocate n d) = n" using assms(2) by (simp add: reallocate_def capacity_def)
  have p: "physical_index (reallocate n d) i = i" if "i < n" for i
    using that c by (simp add: physical_index_def) (simp add: reallocate_def)
  show "dq_inv (reallocate n d)"
    using assms p c by (auto simp: dq_inv_def reallocate_def nth_append)
  show "dq_list (reallocate n d) = dq_list d"
    using assms p c by (auto simp: dq_list_def reallocate_def nth_append intro!: map_cong)
qed (use assms in \<open>simp_all add: reallocate_def capacity_def\<close>)

lemma ensure_ok:
  assumes "dq_inv d"
  shows "dq_inv (ensure_capacity_for_one_more d)" and "dq_list (ensure_capacity_for_one_more d) = dq_list d"
    and "dq_size (ensure_capacity_for_one_more d) < capacity (ensure_capacity_for_one_more d)"
    and "dq_size (ensure_capacity_for_one_more d) = dq_size d"
proof -
  have "dq_size d < (if capacity d = 0 then 8 else capacity d * 2)" using assms by (auto simp: dq_inv_def)
  note r = reallocate_ok [OF assms this]
  show "dq_inv (ensure_capacity_for_one_more d)" "dq_list (ensure_capacity_for_one_more d) = dq_list d"
    "dq_size (ensure_capacity_for_one_more d) < capacity (ensure_capacity_for_one_more d)"
    "dq_size (ensure_capacity_for_one_more d) = dq_size d"
    using assms r \<open>dq_size d < _\<close> by (simp_all add: ensure_capacity_for_one_more_def)
qed

lemma emplace_front_ok:
  assumes "dq_inv d"
  shows "dq_inv (emplace_front v d)" and "dq_list (emplace_front v d) = v # dq_list d"
proof -
  define e where "e = ensure_capacity_for_one_more d"
  define c where "c = capacity e"
  define f where "f = decrement e (front_index e)"
  let ?e' = "\<lparr>slots = (slots e)[f := Some v], dq_size = dq_size e + 1, front_index = f\<rparr>"
  note e = ensure_ok [OF assms, folded e_def]
  have c: "0 < c" "dq_size e < c" "front_index e < c" "length (slots e) = c"
    using e(1,3) by (auto simp: c_def dq_inv_def capacity_def)
  have f: "f < c" "(f + 1) mod c = front_index e"
    using c by (auto simp: f_def decrement_def c_def)
  have cap: "capacity ?e' = c" by (simp add: capacity_def c(4))
  have phys0: "physical_index ?e' 0 = f" using f(1) unfolding physical_index_def cap by simp
  have physS: "physical_index ?e' (Suc i) = physical_index e i" for i
  proof -
    have "(f + Suc i) mod c = ((f + 1) mod c + i) mod c" by (simp add: mod_simps)
    then show ?thesis unfolding f(2) physical_index_def cap by (simp add: c_def)
  qed
  have fe: "physical_index e (c - 1) = f"
  proof -
    have "(front_index e + (c - 1)) mod c = ((f + 1) + (c - 1)) mod c"
      unfolding f(2) [symmetric] by (simp add: mod_simps)
    also have "\<dots> = f" using f(1) c(1) by simp
    finally show ?thesis by (simp add: physical_index_def c_def)
  qed
  have other: "physical_index e i \<noteq> f" if "i < c - 1" for i
    using phys_eq [of i e "c - 1"] that fe c_def c(1) by auto
  have slot: "slots ?e' ! physical_index ?e' i = (if i = 0 then Some v else slots e ! physical_index e (i - 1))"
    if "i < c" for i
  proof (cases i)
    case 0
    then show ?thesis using phys0 f(1) c(4) by simp
  next
    case (Suc j)
    then have "physical_index e j \<noteq> f" using other [of j] that by simp
    then show ?thesis using physS [of j] Suc by simp
  qed
  have inv: "dq_inv ?e'"
    unfolding dq_inv_def cap
  proof (intro conjI allI impI)
    have inv_e: "\<And>i. i < dq_size e \<Longrightarrow> slots e ! physical_index e i \<noteq> None"
      "\<And>i. dq_size e \<le> i \<Longrightarrow> i < c \<Longrightarrow> slots e ! physical_index e i = None"
      using e(1) by (simp_all add: dq_inv_def c_def)
    show "slots ?e' ! physical_index ?e' i \<noteq> None" if "i < dq_size ?e'" for i
      using slot [of i] inv_e(1) [of "i - 1"] that c(2) by simp
    show "slots ?e' ! physical_index ?e' i = None" if "dq_size ?e' \<le> i \<and> i < c" for i
      
    proof -
      have "dq_size e \<le> i - 1" "i - 1 < c" "i \<noteq> 0" using that by auto
      then show ?thesis using slot [of i] inv_e(2) [of "i - 1"] that by simp
    qed
  qed (use c f(1) in auto)
  have eq: "emplace_front v d = ?e'" by (simp add: emplace_front_def Let_def e_def f_def)
  show "dq_inv (emplace_front v d)" using inv by (simp add: eq)
  have "dq_list ?e' = v # dq_list e"
  proof (rule nth_equalityI)
    fix i
    assume "i < length (dq_list ?e')"
    then have "i < Suc (dq_size e)" by simp
    then show "dq_list ?e' ! i = (v # dq_list e) ! i"
      using slot [of i] c(2) by (cases i) (simp_all add: dq_list_def del: upt_Suc)
  qed simp
  then show "dq_list (emplace_front v d) = v # dq_list d" using e(2) by (simp add: eq)
qed

lemma dq_back_ok: "dq_inv d \<Longrightarrow> dq_list d \<noteq> [] \<Longrightarrow> dq_back d = Some (last (dq_list d))"
  by (auto simp: dq_back_def dq_list_def dq_inv_def last_map)

lemma pop_back_ok:
  assumes "dq_inv d" and "dq_list d \<noteq> []"
  shows "\<exists>d'. pop_back d = Some d' \<and> dq_inv d' \<and> dq_list d' = butlast (dq_list d)"
proof -
  define n where "n = dq_size d - 1"
  define b where "b = physical_index d n"
  have "0 < dq_size d" using assms(2) by (auto simp: dq_list_def)
  then have n: "dq_size d = Suc n" by (simp add: n_def)
  have c: "n < capacity d" "front_index d < capacity d" using assms(1) n by (auto simp: dq_inv_def)
  define d' where "d' = \<lparr>slots = (slots d)[b := None], dq_size = n, front_index = (if n = 0 then 0 else front_index d)\<rparr>"
  have d': "slots d' = (slots d)[b := None]" "dq_size d' = n" "front_index d' = (if n = 0 then 0 else front_index d)"
    by (simp_all add: d'_def)
  have cap: "capacity d' = capacity d" by (simp add: capacity_def d')
  have b: "b < capacity d" unfolding b_def using c by (intro phys_less) simp
  have slot: "slots d' ! physical_index d i = (if i = n then None else slots d ! physical_index d i)"
    if "i < capacity d" for i
    using that phys_eq [of i d n] c b by (auto simp: d' b_def capacity_def nth_list_update)
  have none: "slots d' ! physical_index d i = None" if "n \<le> i" "i < capacity d" for i
    using slot [OF that(2)] assms(1) n that by (auto simp: dq_inv_def)
  have "dq_inv d' \<and> dq_list d' = butlast (dq_list d)"
  proof (cases "n = 0")
    case True
    have all: "slots d' ! k = None" if k: "k < capacity d" for k
    proof -
      have "physical_index d ((k + capacity d - front_index d) mod capacity d) = k"
        unfolding physical_index_def using c k by (simp add: mod_simps)
      moreover have "(k + capacity d - front_index d) mod capacity d < capacity d" using c by simp
      ultimately show ?thesis using none [of "(k + capacity d - front_index d) mod capacity d"] True by simp
    qed
    have "physical_index d' i < capacity d" for i using phys_less [of d' i] c cap by simp
    then have "dq_inv d'" using True all cap c d' by (auto simp: dq_inv_def)
    moreover have "dq_list d' = butlast (dq_list d)" using True n d' by (simp add: dq_list_def)
    ultimately show ?thesis by blast
  next
    case False
    then have phys: "physical_index d' i = physical_index d i" for i by (simp add: physical_index_def cap d')
    have some: "slots d ! physical_index d i \<noteq> None" if "i < n" for i using assms(1) n that by (simp add: dq_inv_def)
    have "dq_inv d'"
      unfolding dq_inv_def cap phys d'(2)
    proof (intro conjI allI impI)
      show "slots d' ! physical_index d i \<noteq> None" if "i < n" for i using slot [of i] some [OF that] that c by simp
      show "slots d' ! physical_index d i = None" if "n \<le> i \<and> i < capacity d" for i using none that by blast
    qed (use c d' False in auto)
    moreover have "dq_list d' = butlast (dq_list d)"
    proof (rule nth_equalityI)
      fix i
      assume "i < length (dq_list d')"
      then have i: "i < n" by (simp add: d'(2))
      then have "dq_list d' ! i = dq_list d ! i"
        using slot [of i] c n by (simp add: dq_list_def phys d'(2) del: upt_Suc)
      then show "dq_list d' ! i = butlast (dq_list d) ! i" using i n by (simp add: nth_butlast)
    qed (simp add: d'(2) n)
    ultimately show ?thesis by blast
  qed
  moreover have "pop_back d = Some d'" by (simp add: pop_back_def Let_def n d'_def b_def)
  ultimately show ?thesis by blast
qed

subsection \<open>The interface\<close>

text \<open>A queue that one fills at the front and empties at the back, oldest first in \<open>content\<close>.\<close>

locale fifo =
  fixes new :: 'q
    and enq :: "'a \<Rightarrow> 'q \<Rightarrow> 'q"
    and oldest :: "'q \<Rightarrow> 'a option"
    and deq :: "'q \<Rightarrow> 'q option"
    and good :: "'q \<Rightarrow> bool"
    and content :: "'q \<Rightarrow> 'a list"
  assumes new_good: "good new" "content new = []"
    and enq_good: "good q \<Longrightarrow> good (enq v q)"
    and content_enq: "good q \<Longrightarrow> content (enq v q) = content q @ [v]"
    and oldest_content: "good q \<Longrightarrow> content q = v # vs \<Longrightarrow> oldest q = Some v"
    and deq_content: "good q \<Longrightarrow> content q = v # vs \<Longrightarrow> \<exists>q'. deq q = Some q' \<and> good q' \<and> content q' = vs"
begin

lemma enq_all: "good q \<Longrightarrow> good (fold enq vs q) \<and> content (fold enq vs q) = content q @ vs"
  by (induction vs arbitrary: q) (simp_all add: enq_good content_enq)

end

interpretation ring: fifo empty_deque emplace_front dq_back pop_back dq_inv "\<lambda>d. rev (dq_list d)"
proof
  fix q :: "'a deque" and v :: 'a and vs
  assume inv: "dq_inv q"
  show "dq_inv (emplace_front v q)" by (rule emplace_front_ok [OF inv])
  show "rev (dq_list (emplace_front v q)) = rev (dq_list q) @ [v]" by (simp add: emplace_front_ok [OF inv])
  assume "rev (dq_list q) = v # vs"
  then have l: "dq_list q = rev vs @ [v]" by (metis rev.simps(2) rev_rev_ident)
  then show "dq_back q = Some v" using dq_back_ok [OF inv] by simp
  show "\<exists>q'. pop_back q = Some q' \<and> dq_inv q' \<and> rev (dq_list q') = vs"
    using pop_back_ok [OF inv] l by auto
qed simp_all

lemma copy_from_ok: "dq_inv d \<Longrightarrow> dq_inv (copy_from d) \<and> dq_list (copy_from d) = dq_list d"
proof (cases "dq_size d = 0")
  case True
  then show ?thesis by (simp add: copy_from_def dq_list_def empty_deque_def dq_inv_def capacity_def)
next
  case False
  assume inv: "dq_inv d"
  let ?c = "copy_from d"
  have c: "capacity ?c = dq_size d" "dq_size ?c = dq_size d" "front_index ?c = 0"
    using False by (simp_all add: copy_from_def capacity_def)
  then have p: "physical_index ?c i = i" if "i < dq_size d" for i using that by (simp add: physical_index_def)
  have s: "slots ?c ! i = slots d ! physical_index d i" if "i < dq_size d" for i
    using that False by (simp add: copy_from_def)
  have "dq_inv ?c" using inv c p s False by (auto simp: dq_inv_def)
  moreover have "dq_list ?c = dq_list d" using c p s by (auto simp: dq_list_def intro!: map_cong)
  ultimately show ?thesis by blast
qed

text \<open>The ring buffer is a list: what is emplaced at its front is the new head, whether the buffer wraps
  or has to grow; \<open>back\<close> is the last element and \<open>pop_back\<close> removes it; a copy holds the same elements.\<close>

theorem deque_refines_list:
  assumes "dq_inv d"
  shows "dq_inv (emplace_front v d) \<and> dq_list (emplace_front v d) = v # dq_list d
     \<and> (dq_empty d \<longleftrightarrow> dq_list d = []) \<and> dq_list (copy_from d) = dq_list d
     \<and> (dq_list d \<noteq> [] \<longrightarrow> dq_back d = Some (last (dq_list d))
           \<and> (\<exists>d'. pop_back d = Some d' \<and> dq_inv d' \<and> dq_list d' = butlast (dq_list d)))"
proof -
  have "dq_empty d \<longleftrightarrow> dq_list d = []" by (simp add: dq_empty_def dq_list_def)
  then show ?thesis
    using emplace_front_ok [OF assms] dq_back_ok [OF assms] pop_back_ok [OF assms] copy_from_ok [OF assms] by simp
qed

theorem deque_refines_list_witness:
  "dq_list (emplace_front (7 :: nat) (fold emplace_front [1, 2, 3] empty_deque)) = [7, 3, 2, 1]"
proof -
  have "dq_inv (fold emplace_front [1, 2, 3 :: nat] empty_deque)"
    "dq_list (fold emplace_front [1, 2, 3 :: nat] empty_deque) = [3, 2, 1]"
    by (simp_all add: emplace_front_ok)
  then show ?thesis using deque_refines_list [of "fold emplace_front [1, 2, 3 :: nat] empty_deque" 7] by simp
qed

end
