(* ===== verification/IndexQueue.thy ===== *)
theory IndexQueue
  imports Deque
begin

text \<open>
  The queue between the crawler and the index workers: \<open>src/index/src/lib/indexQueue.cpp\<close>. Each operation
  holds the lock, so it is one step; a thread that waits for the condition variable has made no step
  yet. \<open>queue_step\<close> is the relation between the states that any interleaving of the threads goes through.
\<close>

record 'a IndexQueue =
  iq_queue :: "'a deque"
  iq_closed :: bool
  iq_pending :: nat
  maxQueuedItems :: nat

definition new_index_queue :: "nat \<Rightarrow> 'a IndexQueue" where
  "new_index_queue n = \<lparr>iq_queue = empty_deque, iq_closed = False, iq_pending = 0, maxQueuedItems = n\<rparr>"

definition index_queue_of :: "'a list \<Rightarrow> nat \<Rightarrow> 'a IndexQueue" where
  "index_queue_of items n = \<lparr>iq_queue = fold emplace_front items empty_deque, iq_closed = False,
     iq_pending = length items, maxQueuedItems = n\<rparr>"

text \<open>\<open>push\<close>: \<open>None\<close> while it waits.\<close>

definition iq_push :: "'a \<Rightarrow> 'a IndexQueue \<Rightarrow> 'a IndexQueue option" where
  "iq_push v q =
     (if \<not> iq_closed q \<and> dq_size (iq_queue q) \<ge> maxQueuedItems q then None
      else if iq_closed q then Some q
      else Some (q\<lparr>iq_queue := emplace_front v (iq_queue q), iq_pending := iq_pending q + 1\<rparr>))"

text \<open>\<open>pop\<close>: \<open>None\<close> while it waits, otherwise what it returns and the state after it.\<close>

definition iq_pop :: "'a IndexQueue \<Rightarrow> ('a option \<times> 'a IndexQueue) option" where
  "iq_pop q =
     (if dq_empty (iq_queue q) \<and> \<not> iq_closed q then None
      else if dq_empty (iq_queue q) then Some (None, q)
      else case (dq_back (iq_queue q), pop_back (iq_queue q)) of
          (Some val, Some rest) \<Rightarrow>
            Some (Some val, q\<lparr>iq_queue := rest,
              iq_pending := (if iq_pending q > 0 then iq_pending q - 1 else iq_pending q)\<rparr>)
        | _ \<Rightarrow> None)"

definition iq_shutdown :: "'a IndexQueue \<Rightarrow> 'a IndexQueue" where
  "iq_shutdown q = q\<lparr>iq_closed := True\<rparr>"

subsection \<open>Runs of the threads\<close>

datatype 'a iq_event = Pushed 'a | Dropped 'a | Popped 'a | Ended | Shutdown

inductive queue_step :: "'a IndexQueue \<Rightarrow> 'a iq_event \<Rightarrow> 'a IndexQueue \<Rightarrow> bool" where
  step_push: "iq_push v q = Some q' \<Longrightarrow> \<not> iq_closed q \<Longrightarrow> queue_step q (Pushed v) q'"
| step_drop: "iq_push v q = Some q' \<Longrightarrow> iq_closed q \<Longrightarrow> queue_step q (Dropped v) q'"
| step_pop: "iq_pop q = Some (Some v, q') \<Longrightarrow> queue_step q (Popped v) q'"
| step_end: "iq_pop q = Some (None, q') \<Longrightarrow> queue_step q Ended q'"
| step_shutdown: "queue_step q Shutdown (iq_shutdown q)"

inductive queue_run :: "'a IndexQueue \<Rightarrow> 'a iq_event list \<Rightarrow> 'a IndexQueue \<Rightarrow> bool" where
  run_none: "queue_run q [] q"
| run_more: "queue_run q es q' \<Longrightarrow> queue_step q' e q'' \<Longrightarrow> queue_run q (es @ [e]) q''"

inductive_cases queue_stepE: "queue_step q e q'"

fun pushed :: "'a iq_event list \<Rightarrow> 'a list" where
  "pushed [] = []"
| "pushed (Pushed v # es) = v # pushed es"
| "pushed (_ # es) = pushed es"

fun popped :: "'a iq_event list \<Rightarrow> 'a list" where
  "popped [] = []"
| "popped (Popped v # es) = v # popped es"
| "popped (_ # es) = popped es"

lemma pushed_snoc: "pushed (es @ [e]) = pushed es @ (case e of Pushed v \<Rightarrow> [v] | _ \<Rightarrow> [])"
  by (induction es rule: pushed.induct) (simp_all split: iq_event.split)

lemma popped_snoc: "popped (es @ [e]) = popped es @ (case e of Popped v \<Rightarrow> [v] | _ \<Rightarrow> [])"
  by (induction es rule: popped.induct) (simp_all split: iq_event.split)

text \<open>The items in the queue, the oldest first.\<close>

definition waiting :: "'a IndexQueue \<Rightarrow> 'a list" where
  "waiting q = rev (dq_list (iq_queue q))"

definition iq_inv :: "nat \<Rightarrow> 'a list \<Rightarrow> 'a iq_event list \<Rightarrow> 'a IndexQueue \<Rightarrow> bool" where
  "iq_inv n items es q \<longleftrightarrow> dq_inv (iq_queue q) \<and> maxQueuedItems q = n \<and> iq_pending q = length (waiting q)
     \<and> length (waiting q) \<le> max n (length items)
     \<and> items @ pushed es = popped es @ waiting q
     \<and> (iq_closed q \<longleftrightarrow> Shutdown \<in> set es)
     \<and> (Ended \<in> set es \<longrightarrow> iq_closed q \<and> waiting q = [])"

lemma iq_pop_None: "dq_inv (iq_queue q) \<Longrightarrow> iq_pop q = Some (None, q') \<Longrightarrow> waiting q = [] \<and> iq_closed q \<and> q' = q"
  by (auto simp: iq_pop_def waiting_def dq_list_def dq_empty_def split: if_splits option.splits)

lemma iq_pop_waiting:
  assumes "dq_inv (iq_queue q)" and "waiting q = v # vs"
  shows "\<exists>d'. dq_inv d' \<and> rev (dq_list d') = vs \<and> iq_pop q = Some (Some v,
     q\<lparr>iq_queue := d', iq_pending := (if iq_pending q > 0 then iq_pending q - 1 else iq_pending q)\<rparr>)"
proof -
  have "length (waiting q) \<noteq> 0" using assms(2) by simp
  then have "\<not> dq_empty (iq_queue q)" by (simp add: waiting_def dq_empty_def)
  moreover obtain d' where "dq_back (iq_queue q) = Some v" "pop_back (iq_queue q) = Some d'" "dq_inv d'" "rev (dq_list d') = vs"
    using ring.oldest_content [OF assms(1)] ring.deq_content [OF assms(1)] assms(2) unfolding waiting_def by blast
  ultimately show ?thesis by (auto simp: iq_pop_def)
qed

lemma iq_pop_Some:
  assumes "dq_inv (iq_queue q)" and "iq_pop q = Some (Some v, q')"
  shows "\<exists>d'. dq_inv d' \<and> waiting q = v # rev (dq_list d')
     \<and> q' = q\<lparr>iq_queue := d', iq_pending := (if iq_pending q > 0 then iq_pending q - 1 else iq_pending q)\<rparr>"
proof (cases "waiting q")
  case Nil
  then have "dq_empty (iq_queue q)" by (simp add: waiting_def dq_empty_def dq_list_def)
  then show ?thesis using assms(2) by (simp add: iq_pop_def split: if_splits)
next
  case (Cons w ws)
  then show ?thesis using iq_pop_waiting [OF assms(1) Cons] assms(2) by auto
qed

lemma queue_step_inv:
  assumes "iq_inv n items es q" and "queue_step q e q'"
  shows "iq_inv n items (es @ [e]) q'"
proof -
  have inv: "dq_inv (iq_queue q)" using assms(1) by (simp add: iq_inv_def)
  from assms(2) consider (push) v where "e = Pushed v" "iq_push v q = Some q'" "\<not> iq_closed q"
    | (drop) v where "e = Dropped v" "iq_push v q = Some q'" "iq_closed q"
    | (pop) v where "e = Popped v" "iq_pop q = Some (Some v, q')"
    | (nothing) "e = Ended" "iq_pop q = Some (None, q')"
    | (close) "e = Shutdown" "q' = iq_shutdown q"
    by (elim queue_stepE) blast+
  then show ?thesis
  proof cases
    case push
    have room: "length (waiting q) < n" and q': "q' = q\<lparr>iq_queue := emplace_front v (iq_queue q), iq_pending := iq_pending q + 1\<rparr>"
      using push assms(1) by (auto simp: iq_push_def iq_inv_def waiting_def split: if_splits)
    have "waiting q' = waiting q @ [v]" using ring.content_enq [OF inv] by (simp add: waiting_def q')
    then show ?thesis
      using push assms(1) room ring.enq_good [OF inv] by (auto simp: iq_inv_def q' pushed_snoc popped_snoc)
  next
    case drop
    then show ?thesis using assms(1) by (auto simp: iq_inv_def iq_push_def pushed_snoc popped_snoc)
  next
    case pop
    then obtain d' where d': "dq_inv d'" "waiting q = v # rev (dq_list d')"
      "q' = q\<lparr>iq_queue := d', iq_pending := (if iq_pending q > 0 then iq_pending q - 1 else iq_pending q)\<rparr>"
      using iq_pop_Some [OF inv] by blast
    have "waiting q' = rev (dq_list d')" by (simp add: d'(3) waiting_def)
    then show ?thesis using pop assms(1) d' by (auto simp: iq_inv_def pushed_snoc popped_snoc)
  next
    case nothing
    then show ?thesis using iq_pop_None [OF inv] assms(1) by (auto simp: iq_inv_def pushed_snoc popped_snoc)
  next
    case close
    then show ?thesis using assms(1) by (auto simp: iq_inv_def iq_shutdown_def waiting_def pushed_snoc popped_snoc)
  qed
qed

lemma queue_run_inv: "queue_run q es q' \<Longrightarrow> iq_inv n items [] q \<Longrightarrow> iq_inv n items es q'"
  by (induction rule: queue_run.induct) (auto intro: queue_step_inv)

lemma index_queue_of_inv: "iq_inv n items [] (index_queue_of items n)"
  using ring.enq_all [of empty_deque items]
  by (simp add: iq_inv_def index_queue_of_def waiting_def)

text \<open>C31. In whatever order the threads push, pop and shut down: the items come out in the order in which they
  went in, none is lost or taken twice, the queue never holds more than its limit (or what it began with),
  \<open>pending\<close> counts the items in it, and \<open>pop\<close> returns without an item only after a shutdown, when every item
  that was accepted has been taken.\<close>

theorem index_queue_fifo:
  assumes "queue_run (index_queue_of items n) es q"
  shows "items @ pushed es = popped es @ waiting q \<and> length (waiting q) \<le> max n (length items)
     \<and> iq_pending q = length (waiting q)
     \<and> (Ended \<in> set es \<longrightarrow> Shutdown \<in> set es \<and> popped es = items @ pushed es)"
  using queue_run_inv [OF assms index_queue_of_inv] by (auto simp: iq_inv_def)

lemma sample_run:
  "\<exists>q :: nat IndexQueue. queue_run (index_queue_of [4] 2) [Pushed 5, Popped 4, Shutdown] q"
proof -
  let ?q0 = "index_queue_of [4] 2 :: nat IndexQueue"
  obtain q1 where q1: "iq_push 5 ?q0 = Some q1" by (simp add: iq_push_def index_queue_of_def emplace_front_def Let_def
        ensure_capacity_for_one_more_def reallocate_def empty_deque_def capacity_def)
  have run1: "queue_run ?q0 ([] @ [Pushed 5]) q1"
    using q1 by (intro run_more [OF run_none] step_push) (simp_all add: index_queue_of_def)
  then have inv: "iq_inv 2 [4] [Pushed 5] q1" using queue_run_inv index_queue_of_inv by fastforce
  then have "waiting q1 = [4, 5]" by (simp add: iq_inv_def)
  then obtain q2 where q2: "iq_pop q1 = Some (Some 4, q2)"
    using iq_pop_waiting [of q1] inv unfolding iq_inv_def by blast
  have "queue_run ?q0 (([Pushed 5] @ [Popped 4]) @ [Shutdown]) (iq_shutdown q2)"
    using run1 q2 by (intro run_more [OF _ step_shutdown] run_more [OF _ step_pop]) simp_all
  then show ?thesis by auto
qed

theorem index_queue_fifo_witness:
  "\<exists>q :: nat IndexQueue. queue_run (index_queue_of [4] 2) [Pushed 5, Popped 4, Shutdown] q \<and> waiting q = [5]"
proof -
  obtain q :: "nat IndexQueue" where "queue_run (index_queue_of [4] 2) [Pushed 5, Popped 4, Shutdown] q"
    using sample_run by blast
  then show ?thesis using index_queue_fifo [of "[4]" 2 "[Pushed 5, Popped 4, Shutdown]" q] by auto
qed

end
