(* ===== verification/UrlNormalize.thy ===== *)
theory UrlNormalize
  imports Complex_Main Strings
begin

text \<open>
  The functions on URLs of \<open>src/crawler/url_dedup.cpp\<close>: the canonical form under which the crawler remembers
  a page, the resolution of a link against the page it stands on, and the checks a URL must pass. The
  loops over characters are \<open>takeWhile\<close> and \<open>dropWhile\<close>; \<open>npos\<close> is \<open>None\<close>. A comparison with a constant that
  has no NUL is equality of the characters (\<open>cstr_eq_iff\<close>).
\<close>

subsection \<open>Pieces of a URL\<close>

definition strip_slashes :: "string \<Rightarrow> string" where
  "strip_slashes s = rev (dropWhile (\<lambda>c. c = CHR ''/'') (rev s))"

definition trim :: "string \<Rightarrow> string" where
  "trim input =
     (let from_first = dropWhile isSpace input;
          to_last = rev (dropWhile isSpace (rev from_first))
      in strip_slashes to_last)"

definition toLower :: "string \<Rightarrow> string" where
  "toLower value = map toLowerAscii value"

definition startsWith :: "string \<Rightarrow> string \<Rightarrow> bool" where
  "startsWith value prefix \<longleftrightarrow> take (length prefix) value = prefix"

definition stripTrailingSlashFromPath :: "string \<Rightarrow> string" where
  "stripTrailingSlashFromPath tail =
     (if tail = [] then tail
      else let qpos = find_char (CHR ''?'') tail;
               pathPart = (case qpos of None \<Rightarrow> tail | Some q \<Rightarrow> take q tail);
               queryPart = (case qpos of None \<Rightarrow> [] | Some q \<Rightarrow> drop q tail)
           in strip_slashes pathPart @ queryPart)"

text \<open>\<open>find_first_of("/?")\<close> and the two sides of it.\<close>

definition split_host :: "string \<Rightarrow> string \<times> string" where
  "split_host rest =
     (case find_first_of ''/?'' rest of
        None \<Rightarrow> (rest, [])
      | Some hostEnd \<Rightarrow> (take hostEnd rest, drop hostEnd rest))"

definition drop_fragment :: "string \<Rightarrow> string" where
  "drop_fragment rest = (case find_char (CHR ''#'') rest of None \<Rightarrow> rest | Some p \<Rightarrow> take p rest)"

text \<open>The empty string is the answer for what is no web page.\<close>

definition normalizeUrl :: "string \<Rightarrow> string" where
  "normalizeUrl rawUrl =
     (let cleaned = trim rawUrl
      in if cleaned = [] then []
         else case find_sub ''://'' cleaned of
             None \<Rightarrow> []
           | Some schemePos \<Rightarrow>
               (let scheme = toLower (take schemePos cleaned)
                in if scheme \<noteq> ''http'' \<and> scheme \<noteq> ''https'' then []
                   else let rest = drop (schemePos + 3) cleaned
                        in if rest = [] then []
                           else let rest = drop_fragment rest
                                in if rest = [] then []
                                   else let (host, tail) = split_host rest
                                        in if host = [] then []
                                           else scheme @ ''://'' @ toLower host @ stripTrailingSlashFromPath tail))"

subsection \<open>Links\<close>

definition hasExplicitUnsupportedScheme :: "string \<Rightarrow> bool" where
  "hasExplicitUnsupportedScheme value =
     (case find_char (CHR '':'') value of
        None \<Rightarrow> False
      | Some colonPos \<Rightarrow>
          (case find_first_of ''/?#'' value of None \<Rightarrow> True | Some firstSeparator \<Rightarrow> colonPos < firstSeparator))"

lemma dropWhile_shorter: "takeWhile P xs \<noteq> [] \<Longrightarrow> length (dropWhile P xs) < length xs"
  by (cases xs) (auto simp: le_imp_less_Suc length_dropWhile_le split: if_splits)

function segments_loop :: "string \<Rightarrow> string list \<Rightarrow> string list" where
  "segments_loop path segments =
     (if path = [] then segments
      else let path = dropWhile (\<lambda>c. c = CHR ''/'') path;
               seg = takeWhile (\<lambda>c. c \<noteq> CHR ''/'') path;
               rest = dropWhile (\<lambda>c. c \<noteq> CHR ''/'') path
           in if seg = [] then segments_loop [] segments
              else if seg = ''.'' then segments_loop rest segments
              else if seg = ''..'' then segments_loop rest (if segments \<noteq> [] then butlast segments else segments)
              else segments_loop rest (segments @ [seg]))"
  by pat_completeness auto
termination
  by (relation "measure (length \<circ> fst)") (auto dest: dropWhile_shorter intro: less_le_trans [OF _ length_dropWhile_le])

declare segments_loop.simps [simp del]

definition join_segments :: "string list \<Rightarrow> string" where
  "join_segments segments =
     ''/'' @ concat (map (\<lambda>j. (if j > 0 then ''/'' else []) @ segments ! j) [0..<length segments])"

definition removeDotSegments :: "string \<Rightarrow> string" where
  "removeDotSegments path =
     (let normalized = join_segments (segments_loop path [])
      in if path \<noteq> [] \<and> last path = CHR ''/'' \<and> last normalized \<noteq> CHR ''/''
         then normalized @ ''/'' else normalized)"

text \<open>The directory of a path: what stands before the last \<open>/\<close>, with it.\<close>

definition base_dir :: "string \<Rightarrow> string" where
  "base_dir path = (case rfind_char (CHR ''/'') path of None \<Rightarrow> ''/'' | Some i \<Rightarrow> take (i + 1) path)"

text \<open>The part of \<open>absolutizeUrl\<close> after a context page is found.\<close>

definition resolve_link :: "string \<Rightarrow> string \<Rightarrow> string" where
  "resolve_link cleaned context =
     (case find_sub ''://'' context of
        None \<Rightarrow> []
      | Some schemePos \<Rightarrow>
          (let scheme = take schemePos context;
               rest = drop (schemePos + 3) context;
               authority = fst (split_host rest);
               pathAndQuery = (case find_first_of ''/?'' rest of None \<Rightarrow> ''/'' | Some hostEnd \<Rightarrow> drop hostEnd rest);
               path = (case find_char (CHR ''?'') pathAndQuery of
                         None \<Rightarrow> pathAndQuery | Some queryPos \<Rightarrow> take queryPos pathAndQuery);
               path = (if path = [] then ''/'' else path)
           in if startsWith cleaned ''//'' then normalizeUrl (scheme @ '':'' @ cleaned)
              else if cleaned ! 0 = CHR ''?'' then normalizeUrl (scheme @ ''://'' @ authority @ path @ cleaned)
              else let resolvedPath = (if cleaned ! 0 = CHR ''/'' then removeDotSegments cleaned
                                       else removeDotSegments (base_dir path @ cleaned))
                   in normalizeUrl (scheme @ ''://'' @ authority @ resolvedPath)))"

definition absolutizeUrl :: "string \<Rightarrow> string \<Rightarrow> string \<Rightarrow> string" where
  "absolutizeUrl rawUrl sourceUrl baseUrl =
     (let cleaned = trim rawUrl
      in if cleaned = [] \<or> cleaned ! 0 = CHR ''#'' then []
         else if startsWith cleaned ''http://'' \<or> startsWith cleaned ''https://'' then normalizeUrl cleaned
         else if hasExplicitUnsupportedScheme cleaned then []
         else let context = normalizeUrl baseUrl;
                  context = (if context = [] then normalizeUrl sourceUrl else context)
              in if context = [] then [] else resolve_link cleaned context)"

subsection \<open>Which pages the crawler takes\<close>

definition kAllowedTlds :: "string list" where
  "kAllowedTlds = [''com'', ''org'', ''gov'', ''edu'', ''ca'', ''co.uk'', ''com.au'', ''uk'', ''au'', ''net'', ''mil'', ''int'']"

definition hostHasAllowedTld :: "string \<Rightarrow> bool" where
  "hostHasAllowedTld host =
     (if host = [] then False
      else list_ex (\<lambda>tld. length tld \<le> length host
             \<and> (let suffixStart = length host - length tld
                in drop suffixStart host = tld
                   \<and> (length host = length tld \<or> host ! (suffixStart - 1) = CHR ''.''))) kAllowedTlds)"

text \<open>The host of the authority: without the user and the port, and without dots at its end.\<close>

definition host_of_authority :: "string \<Rightarrow> string" where
  "host_of_authority hostPort =
     rev (dropWhile (\<lambda>c. c = CHR ''.'')
       (rev (case rfind_char (CHR '':'') hostPort of None \<Rightarrow> hostPort | Some colonPos \<Rightarrow> take colonPos hostPort)))"

definition hasAllowedTld :: "string \<Rightarrow> bool" where
  "hasAllowedTld normalizedUrl =
     (case find_sub ''://'' normalizedUrl of
        None \<Rightarrow> False
      | Some schemePos \<Rightarrow>
          (let rest = drop (schemePos + 3) normalizedUrl
           in if rest = [] then False
              else let hostPort = fst (split_host rest)
                   in if hostPort = [] then False
                      else let hostPort = (case find_char (CHR ''@'') hostPort of
                                 None \<Rightarrow> hostPort | Some atPos \<Rightarrow> drop (atPos + 1) hostPort)
                           in if hostPort = [] \<or> hostPort ! 0 = CHR ''['' then False
                              else hostHasAllowedTld (host_of_authority hostPort)))"

definition badExts :: "string list" where
  "badExts = [''.pdf'', ''.doc'', ''.docx'', ''.xls'', ''.xlsx'', ''.zip'', ''.exe'', ''.jpg'', ''.jpeg'', ''.png'',
     ''.gif'', ''.bmp'', ''.svg'', ''.webp'', ''.mp4'', ''.webm'', ''.avi'', ''.mov'', ''.mkv'', ''.flv'', ''.mp3'',
     ''.wav'', ''.aac'', ''.flac'', ''.m4a'', ''.tar'', ''.gz'', ''.rar'', ''.7z'']"

definition hasAllowedFileExtension :: "string \<Rightarrow> bool" where
  "hasAllowedFileExtension url =
     (let lowerUrl = lowerAscii url
      in \<not> list_ex (\<lambda>ext. length ext \<le> length lowerUrl \<and> drop (length lowerUrl - length ext) lowerUrl = ext) badExts)"

definition hasReasonablePercentEncoding :: "string \<Rightarrow> bool" where
  "hasReasonablePercentEncoding normalizedUrl =
     (case find_sub ''://'' normalizedUrl of
        None \<Rightarrow> False
      | Some schemePos \<Rightarrow>
          (let rest = drop (schemePos + 3) normalizedUrl
           in case find_first_of ''/?'' rest of
                None \<Rightarrow> True
              | Some hostEnd \<Rightarrow>
                  (let tail = drop hostEnd rest;
                       percentCount = length (filter (\<lambda>c. c = CHR ''%'') tail)
                   in if tail = [] then True
                      else if percentCount \<le> 8 then True
                      else if length tail < 24 then False
                      else (of_nat percentCount :: rat) / of_nat (length tail) \<le> 1 / 10)))"

text \<open>\<open>None\<close> when the URL is refused, otherwise the \<open>canonicalOut\<close> of the caller.\<close>

definition passesUrlQualityChecks :: "string \<Rightarrow> string option" where
  "passesUrlQualityChecks rawUrl =
     (let normalizeOut = normalizeUrl rawUrl
      in if normalizeOut = [] then None
         else if \<not> hasAllowedTld normalizeOut then None
         else if \<not> hasAllowedFileExtension normalizeOut then None
         else if \<not> hasReasonablePercentEncoding normalizeOut then None
         else Some normalizeOut)"

subsection \<open>The canonical form\<close>

lemma toLower_simps [simp]: "toLower [] = []" "length (toLower s) = length s" "toLower (toLower s) = toLower s"
  by (simp_all add: toLower_def)

lemma toLower_special:
  assumes "\<not> isUpperAscii d" and "\<not> (97 \<le> code d \<and> code d \<le> 122)"
  shows "d \<in> set (toLower s) \<longleftrightarrow> d \<in> set s"
proof -
  have "d \<in> set (toLower s) \<longleftrightarrow> (\<exists>c \<in> set s. toLowerAscii c = d)" by (auto simp: toLower_def)
  then show ?thesis using toLowerAscii_eq_iff [OF assms] by auto
qed

lemma strip_slashes_id [simp]: "s \<noteq> [] \<Longrightarrow> last s \<noteq> CHR ''/'' \<Longrightarrow> strip_slashes s = s"
  by (cases s rule: rev_cases) (simp_all add: strip_slashes_def)

lemma strip_slashes_simps [simp]: "strip_slashes [] = []" "strip_slashes (strip_slashes s) = strip_slashes s"
  by (simp_all add: strip_slashes_def dropWhile_idem)

lemma strip_slashes_prefix: "\<exists>n. s = strip_slashes s @ replicate n (CHR ''/'')"
proof -
  have "rev s = takeWhile (\<lambda>c. c = CHR ''/'') (rev s) @ dropWhile (\<lambda>c. c = CHR ''/'') (rev s)" by simp
  moreover have "takeWhile (\<lambda>c. c = CHR ''/'') (rev s) = replicate (length (takeWhile (\<lambda>c. c = CHR ''/'') (rev s))) (CHR ''/'')"
    by (intro replicate_length_same [symmetric]) (auto dest: set_takeWhileD)
  ultimately show ?thesis unfolding strip_slashes_def by (metis rev_append rev_replicate rev_rev_ident)
qed

lemma strip_slashes_last: "strip_slashes s \<noteq> [] \<Longrightarrow> last (strip_slashes s) \<noteq> CHR ''/''"
  unfolding strip_slashes_def using hd_dropWhile [of "\<lambda>c. c = CHR ''/''" "rev s"] by (auto simp: last_rev)

lemma set_strip_slashes: "set (strip_slashes s) \<subseteq> set s"
  by (auto simp: strip_slashes_def dest: set_dropWhileD)

lemma strip_slashes_hd: "strip_slashes s \<noteq> [] \<Longrightarrow> strip_slashes s ! 0 = s ! 0"
  using strip_slashes_prefix [of s] by (metis length_greater_0_conv nth_append)

lemma find_sub_Some: "find_sub sub s = Some i \<Longrightarrow> i + length sub \<le> length s \<and> take (length sub) (drop i s) = sub"
  by (induction sub s arbitrary: i rule: find_sub.induct) (auto split: if_splits)

lemma trim_parts: "\<exists>pre post. s = pre @ trim s @ post"
proof -
  define u where "u = dropWhile isSpace s"
  define t where "t = rev (dropWhile isSpace (rev u))"
  have "s = takeWhile isSpace s @ u" by (simp add: u_def)
  moreover have "u = t @ rev (takeWhile isSpace (rev u))"
    unfolding t_def by (metis rev_append rev_rev_ident takeWhile_dropWhile_id)
  moreover obtain n where "t = strip_slashes t @ replicate n (CHR ''/'')" using strip_slashes_prefix by blast
  moreover have "trim s = strip_slashes t" by (simp add: trim_def t_def u_def Let_def)
  ultimately show ?thesis by (metis append.assoc)
qed

lemma trim_prefix: "length s \<le> length (trim s) \<Longrightarrow> trim s = s"
proof -
  assume len: "length s \<le> length (trim s)"
  obtain pre post where s: "s = pre @ trim s @ post" using trim_parts by blast
  then have "length s = length pre + (length (trim s) + length post)" by (metis length_append)
  then have "pre = []" "post = []" using len by auto
  then show ?thesis using s by simp
qed

text \<open>The tail of a URL after the host, as the canonical form has it.\<close>

definition canonical_tail :: "string \<Rightarrow> bool" where
  "canonical_tail tail \<longleftrightarrow> (tail = [] \<or> tail ! 0 \<in> {CHR ''/'', CHR ''?''}) \<and> CHR ''#'' \<notin> set tail
     \<and> stripTrailingSlashFromPath tail = tail"

definition canonical :: "string \<Rightarrow> bool" where
  "canonical n \<longleftrightarrow> (\<exists>scheme host tail. n = scheme @ ''://'' @ host @ tail
     \<and> (scheme = ''http'' \<or> scheme = ''https'') \<and> host \<noteq> [] \<and> toLower host = host
     \<and> set host \<inter> {CHR ''/'', CHR ''?'', CHR ''#''} = {} \<and> canonical_tail tail)"

lemma strip_tail_parts:
  "CHR ''?'' \<notin> set p \<Longrightarrow> stripTrailingSlashFromPath p = strip_slashes p"
  "CHR ''?'' \<notin> set p \<Longrightarrow> stripTrailingSlashFromPath (p @ CHR ''?'' # q) = strip_slashes p @ CHR ''?'' # q"
proof -
  assume "CHR ''?'' \<notin> set p"
  then have none: "find_char (CHR ''?'') p = None" "find_char (CHR ''?'') (p @ CHR ''?'' # q) = Some (length p)"
    by (auto simp: find_char_def find_if_None find_if_Some nth_append in_set_conv_nth)
  then show "stripTrailingSlashFromPath p = strip_slashes p"
    "stripTrailingSlashFromPath (p @ CHR ''?'' # q) = strip_slashes p @ CHR ''?'' # q"
    by (simp_all add: stripTrailingSlashFromPath_def)
qed

lemma split_at_query: "(CHR ''?'' \<notin> set t) \<or> (\<exists>p q. t = p @ CHR ''?'' # q \<and> CHR ''?'' \<notin> set p)"
  using split_list_first by fastforce

lemma strip_tail_canonical:
  assumes "tail = [] \<or> tail ! 0 \<in> {CHR ''/'', CHR ''?''}" and "CHR ''#'' \<notin> set tail"
  shows "canonical_tail (stripTrailingSlashFromPath tail)"
proof (cases "CHR ''?'' \<in> set tail")
  case False
  then have n: "CHR ''?'' \<notin> set (strip_slashes tail)" using set_strip_slashes by blast
  then show ?thesis
    using assms False strip_slashes_hd [of tail] set_strip_slashes [of tail]
    by (auto simp: canonical_tail_def strip_tail_parts)
next
  case True
  then obtain p q where t: "tail = p @ CHR ''?'' # q" "CHR ''?'' \<notin> set p" using split_at_query [of tail] by blast
  then have n: "CHR ''?'' \<notin> set (strip_slashes p)" using set_strip_slashes by blast
  have "strip_slashes p = [] \<or> (strip_slashes p @ CHR ''?'' # q) ! 0 = tail ! 0"
    using strip_slashes_hd [of p] t by (cases "strip_slashes p"; cases p) auto
  then show ?thesis
    using assms t n set_strip_slashes [of p] by (auto simp: canonical_tail_def strip_tail_parts)
qed

lemma find_host_end:
  "set h \<inter> {CHR ''/'', CHR ''?''} = {} \<Longrightarrow> t \<noteq> [] \<Longrightarrow> t ! 0 \<in> {CHR ''/'', CHR ''?''}
     \<Longrightarrow> find_first_of ''/?'' (h @ t) = Some (length h)"
  by (auto simp: find_first_of_def find_if_Some nth_append dest: nth_mem)

lemma split_host_parts:
  assumes "set h \<inter> {CHR ''/'', CHR ''?''} = {}" and "t = [] \<or> t ! 0 \<in> {CHR ''/'', CHR ''?''}"
  shows "split_host (h @ t) = (h, t)"
proof (cases t)
  case Nil
  then have "find_first_of ''/?'' (h @ t) = None" using assms by (auto simp: find_first_of_def find_if_None)
  then show ?thesis using Nil by (simp add: split_host_def)
next
  case (Cons c t')
  then have "find_first_of ''/?'' (h @ t) = Some (length h)" using assms by (intro find_host_end) auto
  then show ?thesis by (simp add: split_host_def)
qed

lemma find_if_take: "find_if P xs = Some i \<Longrightarrow> x \<in> set (take i xs) \<Longrightarrow> \<not> P x"
  unfolding find_if_Some by (metis in_set_conv_nth length_take min_less_iff_conj nth_take)

lemma split_host_result:
  assumes "split_host rest = (h, t)"
  shows "rest = h @ t" and "set h \<inter> {CHR ''/'', CHR ''?''} = {}" and "t = [] \<or> t ! 0 \<in> {CHR ''/'', CHR ''?''}"
proof -
  have "rest = h @ t \<and> set h \<inter> {CHR ''/'', CHR ''?''} = {} \<and> (t = [] \<or> t ! 0 \<in> {CHR ''/'', CHR ''?''})"
  proof (cases "find_first_of ''/?'' rest")
    case None
    then have "rest = h" "t = []" using assms by (simp_all add: split_host_def)
    moreover have "c \<notin> {CHR ''/'', CHR ''?''}" if "c \<in> set rest" for c
      using None that by (simp add: find_first_of_def find_if_None)
    ultimately show ?thesis by auto
  next
    case (Some i)
    then have i: "i < length rest" "rest ! i \<in> {CHR ''/'', CHR ''?''}" by (simp_all add: find_first_of_def find_if_Some)
    have h: "h = take i rest" "t = drop i rest" using assms Some by (simp_all add: split_host_def)
    have "c \<notin> {CHR ''/'', CHR ''?''}" if "c \<in> set h" for c
      using that find_if_take [OF Some [unfolded find_first_of_def], of c] by (simp add: h)
    moreover have "t ! 0 = rest ! i" using i(1) by (simp add: h)
    moreover have "rest = h @ t" by (simp add: h)
    ultimately show ?thesis using i(2) by auto
  qed
  then show "rest = h @ t" "set h \<inter> {CHR ''/'', CHR ''?''} = {}" "t = [] \<or> t ! 0 \<in> {CHR ''/'', CHR ''?''}"
    by blast+
qed

lemma drop_fragment_id: "CHR ''#'' \<notin> set s \<Longrightarrow> drop_fragment s = s"
  by (auto simp: drop_fragment_def find_char_def find_if_Some split: option.split dest: nth_mem)

lemma drop_fragment_none: "CHR ''#'' \<notin> set (drop_fragment s)"
proof (cases "find_char (CHR ''#'') s")
  case None
  then have "CHR ''#'' \<notin> set s" by (auto simp: find_char_def find_if_None)
  then show ?thesis by (simp add: drop_fragment_id)
next
  case (Some i)
  then show ?thesis using find_if_take [of "\<lambda>x. x = CHR ''#''" s i "CHR ''#''"] by (auto simp: drop_fragment_def find_char_def)
qed

lemma normalizeUrl_canonical:
  assumes "normalizeUrl s \<noteq> []"
  shows "canonical (normalizeUrl s)"
proof -
  obtain i where i: "find_sub ''://'' (trim s) = Some i"
    using assms by (auto simp: normalizeUrl_def Let_def split: if_splits option.splits)
  define scheme where "scheme = toLower (take i (trim s))"
  define rest where "rest = drop_fragment (drop (i + 3) (trim s))"
  obtain h t where ht: "split_host rest = (h, t)" by fastforce
  have n: "normalizeUrl s = scheme @ ''://'' @ toLower h @ stripTrailingSlashFromPath t" and
    ok: "scheme = ''http'' \<or> scheme = ''https''" "h \<noteq> []"
    using assms ht i by (auto simp: normalizeUrl_def Let_def scheme_def rest_def split: if_splits)
  note r = split_host_result [OF ht]
  have frag: "CHR ''#'' \<notin> set h" "CHR ''#'' \<notin> set t" using drop_fragment_none [of "drop (i + 3) (trim s)"] r(1) by (simp_all add: rest_def)
  have "set (toLower h) \<inter> {CHR ''/'', CHR ''?'', CHR ''#''} = {}"
    using r(2) frag by (auto simp: toLower_special isUpperAscii_def code_def)
  moreover have "toLower h \<noteq> []" using ok by (metis length_0_conv toLower_simps(2))
  ultimately show ?thesis
    unfolding canonical_def n using ok strip_tail_canonical [OF r(3) frag(2)] by fastforce
qed

lemma trim_id:
  assumes "s \<noteq> []" and "\<not> isSpace (hd s)" and "\<not> isSpace (last s)" and "last s \<noteq> CHR ''/''"
  shows "trim s = s"
proof -
  have "dropWhile isSpace s = s" using assms(1,2) by (cases s) auto
  moreover have "dropWhile isSpace (rev s) = rev s" using assms(1,3) by (cases s rule: rev_cases) auto
  ultimately show ?thesis using assms by (simp add: trim_def)
qed

lemma length_strip_slashes: "length (strip_slashes s) \<le> length s"
  by (simp add: strip_slashes_def) (metis length_dropWhile_le length_rev)

lemma trim_shorter:
  assumes "s \<noteq> []" and "isSpace (last s) \<or> last s = CHR ''/''"
  shows "trim s \<noteq> s"
proof
  assume eq: "trim s = s"
  define t where "t = rev (dropWhile isSpace (rev (dropWhile isSpace s)))"
  have t: "length t \<le> length s" unfolding t_def by (metis length_dropWhile_le length_rev order_trans)
  have "trim s = strip_slashes t" by (simp add: trim_def t_def Let_def)
  then have s: "s = strip_slashes t" using eq by simp
  then have "last s \<noteq> CHR ''/''" using strip_slashes_last assms(1) by metis
  then have sp: "isSpace (last s)" using assms(2) by blast
  have "length t = length s" using s t length_strip_slashes [of t] by simp
  then have "s = t" using s strip_slashes_prefix [of t] by (metis append_eq_append_conv append_Nil2)
  moreover have "t \<noteq> [] \<Longrightarrow> \<not> isSpace (last t)"
    unfolding t_def using hd_dropWhile [of isSpace "rev (dropWhile isSpace s)"] by (auto simp: last_rev)
  ultimately show False using sp assms(1) by simp
qed


lemma find_scheme:
  "find_sub ''://'' (''http://'' @ s) = Some 4" "find_sub ''://'' (''https://'' @ s) = Some 5"
  by simp_all

lemma normalizeUrl_fixpoint:
  assumes "canonical n" and "\<not> isSpace (last n)" and "last n \<noteq> CHR ''/''"
  shows "normalizeUrl n = n"
proof -
  obtain scheme h t where n: "n = scheme @ ''://'' @ h @ t" and scheme: "scheme = ''http'' \<or> scheme = ''https''"
    and h: "h \<noteq> []" "toLower h = h" "set h \<inter> {CHR ''/'', CHR ''?'', CHR ''#''} = {}" and t: "canonical_tail t"
    using assms(1) by (auto simp: canonical_def)
  have "hd n = CHR ''h''" "n \<noteq> []" using scheme by (auto simp: n)
  then have "trim n = n" using assms by (intro trim_id) (simp_all add: isSpace_def code_def)
  moreover have "find_sub ''://'' n = Some (length scheme)" using scheme find_scheme [of "h @ t"] by (auto simp: n)
  moreover have "toLower scheme = scheme" using scheme by (auto simp: toLower_def toLowerAscii_def isUpperAscii_def code_def)
  moreover have "drop_fragment (h @ t) = h @ t" using h(3) t by (intro drop_fragment_id) (auto simp: canonical_tail_def)
  moreover have "split_host (h @ t) = (h, t)" using h(3) t by (intro split_host_parts) (auto simp: canonical_tail_def)
  moreover have "stripTrailingSlashFromPath t = t" using t by (simp add: canonical_tail_def)
  ultimately show ?thesis
    using scheme h(1,2) by (simp add: normalizeUrl_def Let_def n)
qed

lemma normalizeUrl_shorter: "length (normalizeUrl s) \<le> length (trim s)"
proof (cases "normalizeUrl s = []")
  case False
  then obtain i where i: "find_sub ''://'' (trim s) = Some i"
    by (auto simp: normalizeUrl_def Let_def split: if_splits option.splits)
  define rest where "rest = drop_fragment (drop (i + 3) (trim s))"
  obtain h t where ht: "split_host rest = (h, t)" by fastforce
  have n: "normalizeUrl s = toLower (take i (trim s)) @ ''://'' @ toLower h @ stripTrailingSlashFromPath t"
    using False ht i by (auto simp: normalizeUrl_def Let_def rest_def split: if_splits)
  have "length (stripTrailingSlashFromPath t) \<le> length t"
    using split_at_query [of t] length_strip_slashes by (auto simp: strip_tail_parts)
  moreover have "length rest = length h + length t" using split_host_result(1) [OF ht] by simp
  moreover have "length rest \<le> length (drop (i + 3) (trim s))"
    unfolding rest_def drop_fragment_def by (simp split: option.split)
  moreover have "i + 3 \<le> length (trim s)" using find_sub_Some [OF i] by simp
  ultimately show ?thesis by (simp add: n)
qed simp

lemma normalizeUrl_fixpoint_iff:
  assumes "normalizeUrl s \<noteq> []"
  shows "normalizeUrl (normalizeUrl s) = normalizeUrl s
           \<longleftrightarrow> \<not> isSpace (last (normalizeUrl s)) \<and> last (normalizeUrl s) \<noteq> CHR ''/''"
proof
  let ?n = "normalizeUrl s"
  assume fp: "normalizeUrl ?n = ?n"
  have "trim ?n = ?n"
    using normalizeUrl_shorter [of ?n] fp trim_prefix [of ?n] by simp
  then show "\<not> isSpace (last ?n) \<and> last ?n \<noteq> CHR ''/''" using trim_shorter [OF assms] by blast
qed (use normalizeUrl_canonical [OF assms] normalizeUrl_fixpoint in blast)

lemma strip_tail_last:
  assumes "t \<noteq> []" and "last t \<noteq> CHR ''/''"
  shows "stripTrailingSlashFromPath t \<noteq> [] \<and> last (stripTrailingSlashFromPath t) = last t"
  using split_at_query [of t] assms by (auto simp: strip_tail_parts)

lemma toLowerAscii_space: "isSpace (toLowerAscii c) \<longleftrightarrow> isSpace c"
  using code_less [of c] by (auto simp: isSpace_def toLowerAscii_def isUpperAscii_def)

lemma toLowerAscii_slash: "toLowerAscii c = CHR ''/'' \<longleftrightarrow> c = CHR ''/''"
  by (rule toLowerAscii_eq_iff) (simp_all add: isUpperAscii_def code_def)

lemma trim_last: "trim s \<noteq> [] \<Longrightarrow> last (trim s) \<noteq> CHR ''/''"
  unfolding trim_def Let_def by (rule strip_slashes_last)

lemma normalizeUrl_last:
  assumes "normalizeUrl s \<noteq> []" and "CHR ''#'' \<notin> set s" and "\<forall>c \<in> set s. \<not> isSpace c"
  shows "\<not> isSpace (last (normalizeUrl s)) \<and> last (normalizeUrl s) \<noteq> CHR ''/''"
proof -
  obtain i where i: "find_sub ''://'' (trim s) = Some i"
    using assms(1) by (auto simp: normalizeUrl_def Let_def split: if_splits option.splits)
  define rest where "rest = drop (i + 3) (trim s)"
  have sub: "set (trim s) \<subseteq> set s" using trim_parts [of s] by (metis set_append Un_upper1 Un_upper2 order_trans)
  then have clean: "CHR ''#'' \<notin> set rest" "\<forall>c \<in> set rest. \<not> isSpace c"
    using assms(2,3) set_drop_subset [of "i + 3" "trim s"] unfolding rest_def by blast+
  obtain h t where ht: "split_host rest = (h, t)" by fastforce
  have n: "normalizeUrl s = toLower (take i (trim s)) @ ''://'' @ toLower h @ stripTrailingSlashFromPath t"
    and ne: "rest \<noteq> []" "h \<noteq> []"
    using assms(1) ht i drop_fragment_id [OF clean(1)] by (auto simp: normalizeUrl_def Let_def rest_def [symmetric] split: if_splits)
  have rest: "rest = h @ t" by (rule split_host_result(1) [OF ht])
  have l: "last rest = last (trim s)" using ne(1) by (simp add: rest_def)
  have "trim s \<noteq> []" using ne(1) by (auto simp: rest_def)
  then have last: "last rest \<noteq> CHR ''/''" "\<not> isSpace (last rest)" using trim_last l clean(2) ne(1) last_in_set by metis+
  show ?thesis
  proof (cases "t = []")
    case True
    then have "last (normalizeUrl s) = toLowerAscii (last rest)"
      using ne(2) rest by (simp add: n stripTrailingSlashFromPath_def toLower_def last_map)
    then show ?thesis using last by (simp add: toLowerAscii_space toLowerAscii_slash)
  next
    case False
    then have "last t = last rest" using rest by simp
    then show ?thesis using last strip_tail_last [OF False] by (simp add: n)
  qed
qed

text \<open>What \<open>normalizeUrl\<close> returns is empty or canonical: a lower-case web scheme and host, no fragment, no
  slash at the end of the path. Normalizing once more changes it exactly when it ends in a blank or a slash,
  which cannot happen for a URL without blanks and without a fragment; with one it does (\<open>http://a?q/#f\<close>), so
  that one page has two canonical forms.\<close>

theorem normalizeUrl_idempotent:
  "normalizeUrl s = [] \<or>
     canonical (normalizeUrl s) \<and>
     (normalizeUrl (normalizeUrl s) = normalizeUrl s
        \<longleftrightarrow> \<not> isSpace (last (normalizeUrl s)) \<and> last (normalizeUrl s) \<noteq> CHR ''/'') \<and>
     (CHR ''#'' \<notin> set s \<and> (\<forall>c \<in> set s. \<not> isSpace c) \<longrightarrow> normalizeUrl (normalizeUrl s) = normalizeUrl s)"
  using normalizeUrl_canonical [of s] normalizeUrl_fixpoint_iff [of s] normalizeUrl_last [of s] by blast

theorem normalizeUrl_idempotent_witness:
  "normalizeUrl ''HTTP://A.com/b/?q'' = ''http://a.com/b?q'' \<and> normalizeUrl ''http://a.com/b?q'' = ''http://a.com/b?q''
     \<and> normalizeUrl ''http://a?q/#f'' = ''http://a?q/'' \<and> normalizeUrl ''http://a?q/'' = ''http://a?q''"
proof -
  have 1: "normalizeUrl ''HTTP://A.com/b/?q'' = ''http://a.com/b?q''" by code_simp
  have 2: "normalizeUrl ''http://a?q/#f'' = ''http://a?q/''" by code_simp
  have 3: "normalizeUrl ''http://a?q/'' = ''http://a?q''" by code_simp
  have "CHR ''#'' \<notin> set ''HTTP://A.com/b/?q'' \<and> (\<forall>c \<in> set ''HTTP://A.com/b/?q''. \<not> isSpace c)"
    by (simp add: isSpace_def code_def)
  then have "normalizeUrl ''http://a.com/b?q'' = ''http://a.com/b?q''"
    using normalizeUrl_idempotent [of "''HTTP://A.com/b/?q''"] unfolding 1 by blast
  then show ?thesis using 1 2 3 by blast
qed

subsection \<open>Dot segments\<close>

text \<open>The reference: a stack of names over the fields between the slashes.\<close>

definition dot_step :: "string \<Rightarrow> string list \<Rightarrow> string list" where
  "dot_step seg segments =
     (if seg = [] \<or> seg = ''.'' then segments else if seg = ''..'' then butlast segments else segments @ [seg])"

lemma split_on_slashes: "fold dot_step (split_on c (dropWhile (\<lambda>x. x = c) s)) segs = fold dot_step (split_on c s) segs"
  by (induction s) (simp_all add: dot_step_def)

lemma split_on_take: "split_on c s = takeWhile (\<lambda>x. x \<noteq> c) s #
    (case dropWhile (\<lambda>x. x \<noteq> c) s of [] \<Rightarrow> [] | _ # r \<Rightarrow> split_on c r)"
proof -
  have "s = takeWhile (\<lambda>x. x \<noteq> c) s @ dropWhile (\<lambda>x. x \<noteq> c) s" by simp
  moreover have free: "c \<notin> set (takeWhile (\<lambda>x. x \<noteq> c) s)" by (auto dest: set_takeWhileD)
  ultimately show ?thesis
  proof (cases "dropWhile (\<lambda>x. x \<noteq> c) s")
    case Nil
    then have s: "takeWhile (\<lambda>x. x \<noteq> c) s = s" by (simp add: dropWhile_eq_Nil_conv)
    then have "c \<notin> set s" using free by metis
    then have "split_on c s = [s]" by (rule split_on_none)
    then show ?thesis unfolding Nil s by simp
  next
    case (Cons x r)
    then have "x = c" by (simp add: dropWhile_eq_Cons_conv)
    then have "s = takeWhile (\<lambda>x. x \<noteq> c) s @ c # r" using Cons by (metis takeWhile_dropWhile_id)
    then show ?thesis using Cons split_on_append [OF free, of r] by simp
  qed
qed

lemma segments_loop_eq: "segments_loop path segs = fold dot_step (split_on (CHR ''/'') path) segs"
proof (induction path segs rule: segments_loop.induct)
  case (1 path segs)
  define p where "p = dropWhile (\<lambda>c. c = CHR ''/'') path"
  define seg where "seg = takeWhile (\<lambda>c. c \<noteq> CHR ''/'') p"
  define rest where "rest = dropWhile (\<lambda>c. c \<noteq> CHR ''/'') p"
  have rest: "fold dot_step (split_on (CHR ''/'') rest) segs' =
      fold dot_step (case rest of [] \<Rightarrow> [] | _ # r \<Rightarrow> split_on (CHR ''/'') r) segs'" for segs'
  proof (cases rest)
    case (Cons x r)
    then have "x = CHR ''/''" by (simp add: rest_def dropWhile_eq_Cons_conv)
    then show ?thesis using Cons by (simp add: dot_step_def)
  qed (simp add: dot_step_def)
  have fold: "fold dot_step (split_on (CHR ''/'') path) segs = fold dot_step (split_on (CHR ''/'') rest) (dot_step seg segs)"
    using split_on_slashes [of "CHR ''/''" path segs] split_on_take [of "CHR ''/''" p] rest
    by (simp add: p_def [symmetric] seg_def [symmetric] rest_def [symmetric])
  show ?case
  proof (cases "path = [] \<or> seg = []")
    case True
    then have seg: "seg = []" by (auto simp: seg_def p_def)
    then have "rest = []"
      unfolding seg_def rest_def p_def by (metis hd_dropWhile list.exhaust_sel takeWhile_eq_Nil_iff dropWhile.simps(1))
    then have "fold dot_step (split_on (CHR ''/'') path) segs = segs"
      using fold seg by (simp add: dot_step_def [of "[]"])
    moreover have "segments_loop path segs = segs"
      using seg by (subst segments_loop.simps)
        (simp add: Let_def p_def [symmetric] seg_def [symmetric] segments_loop.simps [of "[]"])
    ultimately show ?thesis by simp
  next
    case False
    then have ne: "path \<noteq> []" "seg \<noteq> []" by simp_all
    note ih = 1(2-4) [OF ne(1) p_def seg_def rest_def ne(2)]
    show ?thesis
      unfolding fold using ne ih
      by (subst segments_loop.simps) (auto simp: Let_def p_def [symmetric] seg_def [symmetric] rest_def [symmetric] dot_step_def [of seg])
  qed
qed

lemma join_segments_eq:
  "join_segments segs = (if segs = [] then ''/'' else concat (map (\<lambda>s. CHR ''/'' # s) segs))"
proof (cases segs)
  case (Cons s ss)
  have "map (\<lambda>j. (if j > 0 then ''/'' else []) @ segs ! j) [0..<length segs]
      = s # map (\<lambda>j. CHR ''/'' # ss ! j) [0..<length ss]"
    unfolding Cons by (simp add: upt_conv_Cons map_Suc_upt [symmetric] del: upt_Suc)
  also have "map (\<lambda>j. CHR ''/'' # ss ! j) [0..<length ss] = map (\<lambda>s. CHR ''/'' # s) ss"
    by (rule nth_equalityI) simp_all
  finally show ?thesis by (simp add: join_segments_def Cons)
qed (simp add: join_segments_def)

text \<open>The segments of a path, and a path of given segments.\<close>

definition resolved :: "string \<Rightarrow> string list" where
  "resolved path = fold dot_step (split_on (CHR ''/'') path) []"

definition names :: "string list \<Rightarrow> bool" where
  "names segs \<longleftrightarrow> set segs \<inter> {[], ''.'', ''..''} = {} \<and> (\<forall>s \<in> set segs. CHR ''/'' \<notin> set s)"

lemma dot_step_names: "names segs \<Longrightarrow> CHR ''/'' \<notin> set s \<Longrightarrow> names (dot_step s segs)"
  by (auto simp: names_def dot_step_def dest: in_set_butlastD)

lemma fold_dot_step_names:
  "\<forall>s \<in> set ss. CHR ''/'' \<notin> set s \<Longrightarrow> names segs \<Longrightarrow> names (fold dot_step ss segs)"
  by (induction ss arbitrary: segs) (simp_all add: dot_step_names)

lemma names_resolved: "names (resolved path)"
  unfolding resolved_def by (rule fold_dot_step_names) (auto simp: names_def dest: split_on_no_sep)

lemma fold_dot_step_id: "names ss \<Longrightarrow> fold dot_step ss segs = segs @ ss"
  by (induction ss arbitrary: segs) (auto simp: names_def dot_step_def)

definition path_of :: "string list \<Rightarrow> bool \<Rightarrow> string" where
  "path_of segs dir = (if segs = [] then ''/'' else concat (map (\<lambda>s. CHR ''/'' # s) segs) @ (if dir then ''/'' else []))"

lemma last_concat_names:
  assumes "names segs" and "segs \<noteq> []"
  shows "last (concat (map (\<lambda>s. CHR ''/'' # s) segs)) \<noteq> CHR ''/''"
proof -
  obtain ss s where segs: "segs = ss @ [s]" using assms(2) by (cases segs rule: rev_cases) auto
  then have s: "s \<noteq> []" "CHR ''/'' \<notin> set s" using assms(1) by (auto simp: names_def)
  then have "last s \<noteq> CHR ''/''" using last_in_set by metis
  then show ?thesis using s by (simp add: segs)
qed

lemma removeDotSegments_eq:
  "removeDotSegments path = path_of (resolved path) (path \<noteq> [] \<and> last path = CHR ''/'')"
  using last_concat_names [OF names_resolved, of path]
  by (auto simp: removeDotSegments_def segments_loop_eq resolved_def [symmetric] join_segments_eq path_of_def Let_def)

lemma split_path_of:
  assumes "names segs"
  shows "split_on (CHR ''/'') (path_of segs dir) = [] # (if segs = [] then [[]] else segs @ (if dir then [[]] else []))"
proof -
  have free: "\<forall>s \<in> set segs. CHR ''/'' \<notin> set s" using assms by (simp add: names_def)
  define xs where "xs = (if segs = [] then [[]] else segs @ (if dir then [[]] else []))"
  have "path_of segs dir = [] @ concat (map (\<lambda>y. CHR ''/'' # y) xs)" by (simp add: path_of_def xs_def)
  moreover have "\<forall>s \<in> set xs. CHR ''/'' \<notin> set s" using free by (auto simp: xs_def)
  ultimately have "split_on (CHR ''/'') (path_of segs dir) = [] # xs"
    using concat_split_on [of "CHR ''/''" "[]" xs] by simp
  then show ?thesis by (simp add: xs_def)
qed

text \<open>C32. \<open>removeDotSegments\<close> resolves the fields between the slashes on a stack: no empty, \<open>.\<close> or \<open>..\<close> segment
  is left, a slash at the end stays unless nothing else is, and doing it twice changes nothing.\<close>

theorem removeDotSegments_resolves:
  "split_on (CHR ''/'') (removeDotSegments path) =
     [] # (if resolved path = [] then [[]]
           else resolved path @ (if path \<noteq> [] \<and> last path = CHR ''/'' then [[]] else []))
   \<and> set (resolved path) \<inter> {[], ''.'', ''..''} = {}
   \<and> removeDotSegments (removeDotSegments path) = removeDotSegments path"
proof -
  let ?r = "removeDotSegments path"
  have names: "names (resolved path)" by (rule names_resolved)
  have split: "split_on (CHR ''/'') ?r = [] # (if resolved path = [] then [[]]
      else resolved path @ (if path \<noteq> [] \<and> last path = CHR ''/'' then [[]] else []))"
    unfolding removeDotSegments_eq by (rule split_path_of [OF names])
  then have same: "resolved ?r = resolved path"
    unfolding resolved_def [of ?r] split by (auto simp: dot_step_def [of "[]"] fold_dot_step_id [OF names])
  have "resolved path \<noteq> [] \<Longrightarrow> (?r \<noteq> [] \<and> last ?r = CHR ''/'') \<longleftrightarrow> (path \<noteq> [] \<and> last path = CHR ''/'')"
    using last_concat_names [OF names] by (auto simp: removeDotSegments_eq [of path] path_of_def)
  then have "removeDotSegments ?r = ?r"
    unfolding removeDotSegments_eq [of ?r] same by (auto simp: removeDotSegments_eq [of path] path_of_def)
  then show ?thesis using split names by (simp add: names_def)
qed

subsection \<open>What the crawler takes\<close>

lemma hostHasAllowedTld_iff:
  "hostHasAllowedTld host \<longleftrightarrow> (\<exists>tld \<in> set kAllowedTlds. host = tld \<or> (\<exists>pre. host = pre @ ''.'' @ tld))"
proof -
  have one: "length tld \<le> length host \<and> drop (length host - length tld) host = tld
        \<and> (length host = length tld \<or> host ! (length host - length tld - 1) = CHR ''.'')
      \<longleftrightarrow> host = tld \<or> (\<exists>pre. host = pre @ ''.'' @ tld)" (is "?l \<longleftrightarrow> ?r") if "host \<noteq> []" for tld
  proof
    assume l: ?l
    define k where "k = length host - length tld"
    have host: "host = take k host @ tld" using l by (metis append_take_drop_id k_def)
    show ?r
    proof (cases "k = 0")
      case True
      then show ?thesis using host by simp
    next
      case False
      then have "k \<le> length host" "host ! (k - 1) = CHR ''.''" using l by (auto simp: k_def)
      then have "take k host = take (k - 1) host @ ''.''"
        using False take_Suc_conv_app_nth [of "k - 1" host] by simp
      then show ?thesis using host by (metis append.assoc)
    qed
  qed (auto simp: nth_append)
  show ?thesis
  proof (cases "host = []")
    case True
    then show ?thesis by (simp add: hostHasAllowedTld_def kAllowedTlds_def)
  next
    case False
    then show ?thesis
      unfolding hostHasAllowedTld_def Let_def list_ex_iff by (simp only: one [OF False] if_False)
  qed
qed

text \<open>A host as a page's URL has it: no user, no port, not an IPv6 literal, no dot at the end.\<close>

definition plain_host :: "string \<Rightarrow> bool" where
  "plain_host h \<longleftrightarrow> h \<noteq> [] \<and> toLower h = h \<and> last h \<noteq> CHR ''.'' \<and> h ! 0 \<noteq> CHR ''[''
     \<and> set h \<inter> {CHR ''/'', CHR ''?'', CHR ''#'', CHR ''@'', CHR '':''} = {}"

lemma host_of_plain: "plain_host h \<Longrightarrow> host_of_authority h = h"
proof -
  assume h: "plain_host h"
  then have "rfind_char (CHR '':'') h = None" by (simp add: rfind_char_None plain_host_def)
  moreover have "rev (dropWhile (\<lambda>c. c = CHR ''.'') (rev h)) = h"
    using h by (cases h rule: rev_cases) (auto simp: plain_host_def)
  ultimately show ?thesis by (simp add: host_of_authority_def)
qed

lemma hasAllowedTld_plain:
  assumes "scheme = ''http'' \<or> scheme = ''https''" and "plain_host h" and "t = [] \<or> t ! 0 \<in> {CHR ''/'', CHR ''?''}"
  shows "hasAllowedTld (scheme @ ''://'' @ h @ t) = hostHasAllowedTld h"
proof -
  have sub: "find_sub ''://'' (scheme @ ''://'' @ h @ t) = Some (length scheme)"
    using assms(1) find_scheme [of "h @ t"] by auto
  moreover have "split_host (h @ t) = (h, t)" using assms(2,3) by (intro split_host_parts) (auto simp: plain_host_def)
  moreover have "find_char (CHR ''@'') h = None" using assms(2) by (auto simp: find_char_def find_if_None plain_host_def)
  ultimately show ?thesis using assms(2) host_of_plain [OF assms(2)] by (simp add: hasAllowedTld_def plain_host_def)
qed

text \<open>On a canonical URL with a plain host the checks accept exactly the hosts that are one of the allowed
  domains or lie under one, no address that ends like a file of a kind the index cannot read, and no tail
  whose percent signs are more than eight and more than a tenth of it; an accepted URL is its own
  canonical form.\<close>

theorem quality_checks:
  assumes "scheme = ''http'' \<or> scheme = ''https''" and "plain_host h" and "canonical_tail t"
    and "\<not> isSpace (last (h @ t))" and "last (h @ t) \<noteq> CHR ''/''"
  shows "passesUrlQualityChecks (scheme @ ''://'' @ h @ t) =
     (if (\<exists>tld \<in> set kAllowedTlds. h = tld \<or> (\<exists>pre. h = pre @ ''.'' @ tld))
         \<and> (\<nexists>ext pre. ext \<in> set badExts \<and> lowerAscii (scheme @ ''://'' @ h @ t) = pre @ ext)
         \<and> (let p = length (filter (\<lambda>c. c = CHR ''%'') t) in p \<le> 8 \<or> 24 \<le> length t \<and> 10 * p \<le> length t)
      then Some (scheme @ ''://'' @ h @ t) else None)"
proof -
  let ?n = "scheme @ ''://'' @ h @ t"
  have t: "t = [] \<or> t ! 0 \<in> {CHR ''/'', CHR ''?''}" using assms(3) by (simp add: canonical_tail_def)
  have "canonical ?n" using assms(1-3) unfolding canonical_def plain_host_def by fast
  moreover have ne: "h @ t \<noteq> []" using assms(2) by (simp add: plain_host_def)
  moreover have "last ?n = last (h @ t)" using ne by (simp add: last_append)
  ultimately have n: "normalizeUrl ?n = ?n" using assms(4,5) by (intro normalizeUrl_fixpoint) simp_all
  have tld: "hasAllowedTld ?n \<longleftrightarrow> (\<exists>tld \<in> set kAllowedTlds. h = tld \<or> (\<exists>pre. h = pre @ ''.'' @ tld))"
    unfolding hasAllowedTld_plain [OF assms(1,2) t] by (rule hostHasAllowedTld_iff)
  have suffix: "length e \<le> length s \<and> drop (length s - length e) s = e \<longleftrightarrow> (\<exists>pre. s = pre @ e)" for e s :: string
    by (auto) (metis append_take_drop_id)
  have ext: "hasAllowedFileExtension ?n \<longleftrightarrow> (\<nexists>ext pre. ext \<in> set badExts \<and> lowerAscii ?n = pre @ ext)"
    unfolding hasAllowedFileExtension_def Let_def list_ex_iff suffix by blast
  have sub: "find_sub ''://'' ?n = Some (length scheme)" using assms(1) find_scheme [of "h @ t"] by auto
  have free: "set h \<inter> {CHR ''/'', CHR ''?''} = {}" using assms(2) by (auto simp: plain_host_def)
  have "hasReasonablePercentEncoding ?n \<longleftrightarrow>
      (let p = length (filter (\<lambda>c. c = CHR ''%'') t) in p \<le> 8 \<or> 24 \<le> length t \<and> 10 * p \<le> length t)"
  proof (cases t)
    case Nil
    have "find_first_of ''/?'' h = None" using free by (auto simp: find_first_of_def find_if_None)
    then show ?thesis using sub Nil by (simp add: hasReasonablePercentEncoding_def)
  next
    case (Cons c t')
    have "find_first_of ''/?'' (h @ t) = Some (length h)" using free t Cons by (intro find_host_end) auto
    moreover have "(of_nat p :: rat) / of_nat l \<le> 1 / 10 \<longleftrightarrow> 10 * p \<le> l" if "0 < l" for p l
      using that by (simp add: field_simps) (metis of_nat_le_iff of_nat_mult of_nat_numeral mult.commute)
    ultimately show ?thesis using sub Cons by (auto simp: hasReasonablePercentEncoding_def Let_def)
  qed
  then show ?thesis unfolding passesUrlQualityChecks_def Let_def n tld ext by (simp add: Let_def)
qed

theorem quality_checks_witness:
  "passesUrlQualityChecks ''http://umich.edu/a?b'' = Some ''http://umich.edu/a?b''
     \<and> passesUrlQualityChecks ''http://umich.edux'' = None"
proof
  have ok: "plain_host ''umich.edu''" "canonical_tail ''/a?b''"
    by code_simp+
  have "last (lowerAscii ''http://umich.edu/a?b'') = CHR ''b''" by code_simp
  moreover have "ext \<noteq> [] \<and> last ext \<noteq> CHR ''b''" if "ext \<in> set badExts" for ext
    using that by (auto simp: badExts_def)
  ultimately have ext: "\<nexists>ext pre. ext \<in> set badExts \<and> lowerAscii ''http://umich.edu/a?b'' = pre @ ext"
    by (metis last_append)
  have tld: "\<exists>tld \<in> set kAllowedTlds. ''umich.edu'' = tld \<or> (\<exists>pre. ''umich.edu'' = pre @ ''.'' @ tld)"
    by (intro bexI [of _ "''edu''"] disjI2 exI [of _ "''umich''"]) (simp_all add: kAllowedTlds_def)
  show "passesUrlQualityChecks ''http://umich.edu/a?b'' = Some ''http://umich.edu/a?b''"
    using quality_checks [of "''http''" "''umich.edu''" "''/a?b''"] ok tld ext by (simp add: isSpace_def code_def)
  show "passesUrlQualityChecks ''http://umich.edux'' = None" by code_simp
qed

subsection \<open>Relative links\<close>

definition slashed :: "string list \<Rightarrow> string" where
  "slashed segs = concat (map (\<lambda>s. CHR ''/'' # s) segs)"

lemma slashed_simps [simp]: "slashed [] = []" "slashed (s # ss) = CHR ''/'' # s @ slashed ss" "slashed (ss @ ts) = slashed ss @ slashed ts"
  by (simp_all add: slashed_def)

lemma split_slashed: "\<forall>s \<in> set segs. CHR ''/'' \<notin> set s \<Longrightarrow> split_on (CHR ''/'') (slashed segs) = [] # segs"
  using concat_split_on [of "CHR ''/''" "[]" segs] by (simp add: slashed_def)

lemma resolved_in_dir:
  assumes "names dirs"
  shows "resolved (slashed dirs @ CHR ''/'' # link) = fold dot_step (split_on (CHR ''/'') link) dirs"
proof -
  have "split_on (CHR ''/'') (slashed dirs) = [] # dirs" using assms by (intro split_slashed) (simp add: names_def)
  then have "split_on (CHR ''/'') (slashed dirs @ CHR ''/'' # link) = ([] # dirs) @ split_on (CHR ''/'') link"
    by (simp add: split_on_snoc)
  then show ?thesis using fold_dot_step_id [OF assms, of "[]"] by (simp add: resolved_def dot_step_def [of "[]"])
qed

lemma base_dir_slashed:
  assumes "CHR ''/'' \<notin> set page"
  shows "base_dir (slashed dirs @ CHR ''/'' # page) = slashed dirs @ ''/''"
proof -
  have "find_char (CHR ''/'') (rev page @ CHR ''/'' # rev (slashed dirs)) = Some (length page)"
    using assms by (auto simp: find_char_def find_if_Some nth_append rev_nth in_set_conv_nth)
  then show ?thesis by (simp add: base_dir_def rfind_char_def)
qed

definition all_chars :: "(char \<Rightarrow> bool) \<Rightarrow> string list \<Rightarrow> bool" where
  "all_chars P segs \<longleftrightarrow> (\<forall>s \<in> set segs. \<forall>c \<in> set s. P c)"

lemma all_chars_fold: "all_chars P segs \<Longrightarrow> all_chars P ss \<Longrightarrow> all_chars P (fold dot_step ss segs)"
proof (induction ss arbitrary: segs)
  case (Cons s ss)
  have "all_chars P (dot_step s segs)" using Cons.prems by (auto simp: all_chars_def dot_step_def dest: in_set_butlastD)
  then show ?case using Cons by (simp add: all_chars_def)
qed simp

lemma all_chars_split: "\<forall>c \<in> set s. P c \<Longrightarrow> all_chars P (split_on d s)"
proof (induction s)
  case (Cons x s)
  obtain t ts where "split_on d s = t # ts" using split_on_ne by (cases "split_on d s") auto
  then show ?case using Cons by (simp add: all_chars_def)
qed (simp add: all_chars_def)

lemma all_chars_slashed: "all_chars P segs \<Longrightarrow> c \<in> set (slashed segs) \<Longrightarrow> c = CHR ''/'' \<or> P c"
  by (induction segs) (auto simp: all_chars_def)

lemma normalizeUrl_of_names:
  assumes "scheme = ''http'' \<or> scheme = ''https''" and "h \<noteq> []" and "toLower h = h"
    and "set h \<inter> {CHR ''/'', CHR ''?'', CHR ''#''} = {}" and "\<forall>c \<in> set h. \<not> isSpace c"
    and "names segs" and "all_chars (\<lambda>c. \<not> isSpace c \<and> c \<noteq> CHR ''?'' \<and> c \<noteq> CHR ''#'') segs"
  shows "normalizeUrl (scheme @ ''://'' @ h @ path_of segs False) = scheme @ ''://'' @ h @ slashed segs"
proof (cases "segs = []")
  case True
  have l: "last h \<noteq> CHR ''/''" using assms(2,4) last_in_set by fastforce
  then have "last h \<noteq> CHR ''/''" .
  moreover obtain hs l where "h = hs @ [l]" using assms(2) by (cases h rule: rev_cases) auto
  ultimately have "trim (scheme @ ''://'' @ h @ ''/'') = trim (scheme @ ''://'' @ h)"
    using assms(1,5) by (auto simp: trim_def Let_def isSpace_def [of "CHR ''h''"] isSpace_def [of "CHR ''/''"] code_def strip_slashes_def)
  then have "normalizeUrl (scheme @ ''://'' @ h @ ''/'') = normalizeUrl (scheme @ ''://'' @ h)"
    by (simp add: normalizeUrl_def)
  also have "\<dots> = scheme @ ''://'' @ h"
  proof (rule normalizeUrl_fixpoint)
    have "canonical (scheme @ ''://'' @ h @ [])"
      unfolding canonical_def using assms(1-4) by (intro exI conjI) (auto simp: canonical_tail_def stripTrailingSlashFromPath_def)
    then show "canonical (scheme @ ''://'' @ h)" by simp
  qed (use l assms(2,5) in auto)
  finally show ?thesis using True by (simp add: path_of_def)
next
  case False
  have p: "path_of segs False = slashed segs" using False by (simp add: path_of_def slashed_def)
  have sub: "\<forall>c \<in> set (slashed segs). c = CHR ''/'' \<or> \<not> isSpace c \<and> c \<noteq> CHR ''?'' \<and> c \<noteq> CHR ''#''"
    using all_chars_slashed [OF assms(7)] by blast
  have last: "last (slashed segs) \<noteq> CHR ''/''" "slashed segs \<noteq> []"
    using last_concat_names [OF assms(6) False] False by (cases segs; simp add: slashed_def)+
  have free: "CHR ''?'' \<notin> set (slashed segs)" "CHR ''#'' \<notin> set (slashed segs)"
    using sub [rule_format, of "CHR ''?''"] sub [rule_format, of "CHR ''#''"] by auto
  have "slashed segs ! 0 = CHR ''/''" using False by (cases segs) simp_all
  then have "canonical_tail (slashed segs)" using free last by (simp add: canonical_tail_def strip_tail_parts)
  then have "canonical (scheme @ ''://'' @ h @ slashed segs)"
    unfolding canonical_def using assms(1-4) by blast
  moreover have "last (slashed segs) \<in> set (slashed segs)" using last(2) by simp
  then have "\<not> isSpace (last (slashed segs))" using sub last(1) by blast
  ultimately show ?thesis unfolding p using last by (intro normalizeUrl_fixpoint) simp_all
qed

text \<open>A base page: the host, the directories and the name of the page; and a link that is a relative path.\<close>

definition base_page :: "string \<Rightarrow> string \<Rightarrow> string list \<Rightarrow> string \<Rightarrow> bool" where
  "base_page scheme h dirs page \<longleftrightarrow> (scheme = ''http'' \<or> scheme = ''https'') \<and> h \<noteq> [] \<and> toLower h = h
     \<and> set h \<inter> {CHR ''/'', CHR ''?'', CHR ''#''} = {} \<and> (\<forall>c \<in> set h. \<not> isSpace c)
     \<and> names (dirs @ [page]) \<and> all_chars (\<lambda>c. \<not> isSpace c \<and> c \<noteq> CHR ''?'' \<and> c \<noteq> CHR ''#'') (dirs @ [page])"

definition relative_path :: "string \<Rightarrow> bool" where
  "relative_path link \<longleftrightarrow> link \<noteq> [] \<and> link ! 0 \<noteq> CHR ''/'' \<and> last link \<noteq> CHR ''/''
     \<and> (\<forall>c \<in> set link. \<not> isSpace c \<and> c \<noteq> CHR ''?'' \<and> c \<noteq> CHR ''#'' \<and> c \<noteq> CHR '':'')"

lemma base_page_normalized:
  assumes "base_page scheme h dirs page"
  shows "normalizeUrl (scheme @ ''://'' @ h @ slashed dirs @ CHR ''/'' # page) = scheme @ ''://'' @ h @ slashed dirs @ CHR ''/'' # page"
proof -
  have "path_of (dirs @ [page]) False = slashed dirs @ CHR ''/'' # page" by (simp add: path_of_def slashed_def)
  then show ?thesis
    using normalizeUrl_of_names [of scheme h "dirs @ [page]"] assms by (simp add: base_page_def)
qed

lemma resolve_relative:
  assumes b: "base_page scheme h dirs page" and l: "relative_path link"
  shows "resolve_link link (scheme @ ''://'' @ h @ slashed dirs @ CHR ''/'' # page)
     = scheme @ ''://'' @ h @ slashed (fold dot_step (split_on (CHR ''/'') link) dirs)"
proof -
  let ?path = "slashed dirs @ CHR ''/'' # page"
  let ?P = "\<lambda>c. \<not> isSpace c \<and> c \<noteq> CHR ''?'' \<and> c \<noteq> CHR ''#''"
  let ?segs = "fold dot_step (split_on (CHR ''/'') link) dirs"
  have scheme: "scheme = ''http'' \<or> scheme = ''https''" and h: "h \<noteq> []" "toLower h = h"
    "set h \<inter> {CHR ''/'', CHR ''?'', CHR ''#''} = {}" "\<forall>c \<in> set h. \<not> isSpace c"
    and names: "names dirs" "CHR ''/'' \<notin> set page" and chars: "all_chars ?P dirs" "\<forall>c \<in> set page. ?P c"
    using b by (auto simp: base_page_def names_def all_chars_def)
  have sub: "find_sub ''://'' (scheme @ ''://'' @ h @ ?path) = Some (length scheme)"
    using scheme find_scheme [of "h @ ?path"] by auto
  have first: "?path ! 0 = CHR ''/''" by (cases dirs) simp_all
  have host: "split_host (h @ ?path) = (h, ?path)" by (rule split_host_parts) (use h(3) first in auto)
  have host_end: "find_first_of ''/?'' (h @ ?path) = Some (length h)"
    by (rule find_host_end) (use h(3) first in auto)
  have "CHR ''?'' \<notin> set ?path" using all_chars_slashed [OF chars(1), of "CHR ''?''"] chars(2) by auto
  then have query: "find_char (CHR ''?'') ?path = None" by (auto simp: find_char_def find_if_None)
  obtain c cs where link: "link = c # cs" using l by (cases link) (auto simp: relative_path_def)
  then have start: "c \<noteq> CHR ''/''" "c \<noteq> CHR ''?''" "link ! 0 = c" using l by (auto simp: relative_path_def)
  have ends: "slashed dirs @ CHR ''/'' # link \<noteq> []" "last (slashed dirs @ CHR ''/'' # link) \<noteq> CHR ''/''"
    using l by (auto simp: relative_path_def)
  have dots: "removeDotSegments (base_dir ?path @ link) = path_of ?segs False"
    using base_dir_slashed [OF names(2), of dirs] resolved_in_dir [OF names(1), of link] ends
    by (simp add: removeDotSegments_eq)
  have "names ?segs" using names(1) by (intro fold_dot_step_names) (auto dest: split_on_no_sep)
  moreover have "all_chars ?P ?segs"
    by (intro all_chars_fold chars all_chars_split) (use l in \<open>simp add: relative_path_def\<close>)
  ultimately have "normalizeUrl (scheme @ ''://'' @ h @ path_of ?segs False) = scheme @ ''://'' @ h @ slashed ?segs"
    using scheme h by (intro normalizeUrl_of_names) simp_all
  moreover have "\<not> startsWith link ''//''" using start(1) by (simp add: startsWith_def link)
  ultimately show ?thesis
    using start host host_end query sub dots by (simp add: resolve_link_def Let_def)
qed

text \<open>A link that is a relative path is resolved as RFC 3986 says: its segments are applied, with \<open>.\<close> and
  \<open>..\<close>, to the directory of the base page.\<close>

theorem absolutizeUrl_relative:
  assumes "base_page scheme h dirs page" and "relative_path link"
  shows "absolutizeUrl link source (scheme @ ''://'' @ h @ slashed dirs @ CHR ''/'' # page)
     = scheme @ ''://'' @ h @ slashed (fold dot_step (split_on (CHR ''/'') link) dirs)"
proof -
  let ?base = "scheme @ ''://'' @ h @ slashed dirs @ CHR ''/'' # page"
  have ne: "link \<noteq> []" and clean: "\<forall>c \<in> set link. \<not> isSpace c" and last: "last link \<noteq> CHR ''/''"
    and free: "CHR '':'' \<notin> set link" "CHR ''#'' \<notin> set link"
    using assms(2) by (auto simp: relative_path_def)
  have trim: "trim link = link" using ne clean last by (intro trim_id) simp_all
  have "\<not> startsWith link s" if "CHR '':'' \<in> set s" for s
    using free(1) that set_take_subset [of "length s" link] by (auto simp: startsWith_def)
  moreover have "\<not> hasExplicitUnsupportedScheme link"
  proof -
    have "find_char (CHR '':'') link = None" using free(1) by (auto simp: find_char_def find_if_None)
    then show ?thesis by (simp add: hasExplicitUnsupportedScheme_def)
  qed
  moreover have "link ! 0 \<noteq> CHR ''#''" using free(2) ne by (metis nth_mem length_greater_0_conv)
  ultimately show ?thesis
    using ne trim base_page_normalized [OF assms(1)] resolve_relative [OF assms]
    by (simp add: absolutizeUrl_def Let_def)
qed

theorem absolutizeUrl_relative_witness:
  "absolutizeUrl ''../c/./d'' [] ''http://a.org/x/y/p'' = ''http://a.org/x/c/d''
     \<and> absolutizeUrl ''r?u=http://b.org'' [] ''http://a.org/x'' = ''http://a.org/r?u=http:/b.org''"
proof
  have "base_page ''http'' ''a.org'' [''x'', ''y''] ''p''" "relative_path ''../c/./d''" by code_simp+
  from absolutizeUrl_relative [OF this, of "[]"] show "absolutizeUrl ''../c/./d'' [] ''http://a.org/x/y/p'' = ''http://a.org/x/c/d''"
    by (simp add: dot_step_def)
  show "absolutizeUrl ''r?u=http://b.org'' [] ''http://a.org/x'' = ''http://a.org/r?u=http:/b.org''" by code_simp
qed

end
