(* ===== verification/BloomFilter.thy ===== *)
theory BloomFilter
  imports UrlNormalize ByteCodec
begin

text \<open>
  The duplicate check of the crawler: \<open>UrlBloomFilter\<close> of \<open>src/crawler/url_dedup.cpp\<close>. The two hash values of a
  key come from MD5, a library function: \<open>hash\<close> is a parameter of the operations. A bit index outside of the
  vector, a division by a bit count of 0, or counts that the file does not hold are \<open>None\<close>. The lock makes each
  operation one step.
\<close>

record UrlBloomFilter =
  bitCount :: nat
  hashCount :: nat
  bits :: "bool list"

type_synonym key_hash = "string \<Rightarrow> u64 \<times> u64"

definition kInvalidBloom :: string where
  "kInvalidBloom = ''invalid bloom configuration''"

text \<open>The constructor; \<open>double\<close> arithmetic is that of the reals.\<close>

definition new_bloom :: "nat \<Rightarrow> real \<Rightarrow> string + UrlBloomFilter" where
  "new_bloom expectedItems falsePositiveRate =
     (if expectedItems = 0 \<or> falsePositiveRate \<le> 0 \<or> falsePositiveRate \<ge> 1 then Inl kInvalidBloom
      else let m = - real expectedItems * ln falsePositiveRate / (ln 2 * ln 2);
               bc = nat \<lceil>m\<rceil>;
               bc = (if bc = 0 then 1 else bc);
               k = real bc / real expectedItems * ln 2;
               hc = nat \<lceil>k\<rceil>;
               hc = (if hc = 0 then 1 else hc)
           in Inr \<lparr>bitCount = bc, hashCount = hc, bits = replicate bc False\<rparr>)"

text \<open>The index of probe \<open>i\<close>, in 64-bit arithmetic.\<close>

definition probe_index :: "UrlBloomFilter \<Rightarrow> u64 \<times> u64 \<Rightarrow> nat \<Rightarrow> nat option" where
  "probe_index f h i =
     (if bitCount f = 0 then None
      else Some (unat (fst h + of_nat (i + 1) * snd h) mod bitCount f))"

definition getBit :: "UrlBloomFilter \<Rightarrow> nat \<Rightarrow> bool option" where
  "getBit f index = (if index < length (bits f) then Some (bits f ! index) else None)"

definition setBit :: "UrlBloomFilter \<Rightarrow> nat \<Rightarrow> UrlBloomFilter option" where
  "setBit f index = (if index < length (bits f) then Some (f\<lparr>bits := (bits f)[index := True]\<rparr>) else None)"

text \<open>The loops over \<open>i < hashCount\<close>, on the list of the \<open>i\<close> that are left.\<close>

fun contains_loop :: "UrlBloomFilter \<Rightarrow> u64 \<times> u64 \<Rightarrow> nat list \<Rightarrow> bool option" where
  "contains_loop f h [] = Some True"
| "contains_loop f h (i # is') =
     (case probe_index f h i of
        None \<Rightarrow> None
      | Some index \<Rightarrow>
          (case getBit f index of
             None \<Rightarrow> None
           | Some b \<Rightarrow> if \<not> b then Some False else contains_loop f h is'))"

fun set_loop :: "UrlBloomFilter \<Rightarrow> u64 \<times> u64 \<Rightarrow> nat list \<Rightarrow> UrlBloomFilter option" where
  "set_loop f h [] = Some f"
| "set_loop f h (i # is') =
     (case probe_index f h i of
        None \<Rightarrow> None
      | Some index \<Rightarrow> (case setBit f index of None \<Rightarrow> None | Some f' \<Rightarrow> set_loop f' h is'))"

definition probablyContains :: "key_hash \<Rightarrow> UrlBloomFilter \<Rightarrow> string \<Rightarrow> bool option" where
  "probablyContains hash f key = (if key = [] then Some False else contains_loop f (hash key) [0..<hashCount f])"

definition bloom_insert :: "key_hash \<Rightarrow> UrlBloomFilter \<Rightarrow> string \<Rightarrow> UrlBloomFilter option" where
  "bloom_insert hash f key = (if key = [] then Some f else set_loop f (hash key) [0..<hashCount f])"

fun check_loop :: "UrlBloomFilter \<Rightarrow> u64 \<times> u64 \<Rightarrow> nat list \<Rightarrow> (bool \<times> UrlBloomFilter) option" where
  "check_loop f h [] = Some (False, f)"
| "check_loop f h (i # is') =
     (case probe_index f h i of
        None \<Rightarrow> None
      | Some index \<Rightarrow>
          (case getBit f index of
             None \<Rightarrow> None
           | Some b \<Rightarrow>
               if \<not> b then map_option (\<lambda>f'. (True, f')) (set_loop f h [0..<hashCount f])
               else check_loop f h is'))"

definition checkAndInsert :: "key_hash \<Rightarrow> UrlBloomFilter \<Rightarrow> string \<Rightarrow> (bool \<times> UrlBloomFilter) option" where
  "checkAndInsert hash f key =
     (if key = [] then Some (False, f) else check_loop f (hash key) [0..<hashCount f])"

text \<open>The answer, the filter after it, and \<open>canonicalOut\<close> when it is set.\<close>

definition shouldEnqueueUrl :: "key_hash \<Rightarrow> string \<Rightarrow> UrlBloomFilter \<Rightarrow> (bool \<times> UrlBloomFilter \<times> string option) option" where
  "shouldEnqueueUrl hash rawUrl bloom =
     (case passesUrlQualityChecks rawUrl of
        None \<Rightarrow> Some (False, bloom, None)
      | Some canonicalOut \<Rightarrow>
          map_option (\<lambda>(fresh, bloom'). (fresh, bloom', Some canonicalOut)) (checkAndInsert hash bloom canonicalOut))"

subsection \<open>Snapshots\<close>

record BloomSnapshot =
  s_bitCount :: nat
  s_hashCount :: nat
  packedBits :: "u8 list"

text \<open>\<open>packed[i / 8] |= 1 << (i % 8)\<close> for each bit that is set.\<close>

definition pack_step :: "bool list \<Rightarrow> nat \<Rightarrow> u8 list \<Rightarrow> u8 list" where
  "pack_step bs i packed = (if bs ! i then packed[i div 8 := packed ! (i div 8) OR push_bit (i mod 8) 1] else packed)"

definition bloom_snapshot :: "UrlBloomFilter \<Rightarrow> BloomSnapshot" where
  "bloom_snapshot f =
     \<lparr>s_bitCount = bitCount f, s_hashCount = hashCount f,
      packedBits = fold (pack_step (bits f)) [0..<bitCount f] (replicate ((bitCount f + 7) div 8) 0)\<rparr>"

text \<open>What \<open>Checkpoint::writeSnapshot\<close> writes of it, and how it is read back.\<close>

definition bloom_bytes :: "BloomSnapshot \<Rightarrow> u8 list" where
  "bloom_bytes s = le_bytes 8 (of_nat (s_bitCount s) :: u64) @ le_bytes 4 (of_nat (s_hashCount s) :: u32) @ packedBits s"

definition deserializeFromStream :: "u8 list \<Rightarrow> UrlBloomFilter option" where
  "deserializeFromStream f =
     (case (read_at 8 0 f :: u64 option, read_at 4 8 f :: u32 option) of
        (Some bc, Some hc) \<Rightarrow>
          (let n = unat bc; packedSize = (n + 7) div 8; got = take packedSize (drop 12 f);
               packed = got @ replicate (packedSize - length got) 0
           in Some \<lparr>bitCount = n, hashCount = unat hc,
                     bits = map (\<lambda>i. packed ! (i div 8) AND push_bit (i mod 8) 1 \<noteq> 0) [0..<n]\<rparr>)
      | _ \<Rightarrow> None)"

subsection \<open>The bits of a key\<close>

definition bloom_ok :: "UrlBloomFilter \<Rightarrow> bool" where
  "bloom_ok f \<longleftrightarrow> 0 < bitCount f \<and> length (bits f) = bitCount f"

definition index_of :: "UrlBloomFilter \<Rightarrow> u64 \<times> u64 \<Rightarrow> nat \<Rightarrow> nat" where
  "index_of f h i = unat (fst h + of_nat (i + 1) * snd h) mod bitCount f"

definition holds :: "UrlBloomFilter \<Rightarrow> u64 \<times> u64 \<Rightarrow> bool" where
  "holds f h \<longleftrightarrow> (\<forall>i < hashCount f. bits f ! index_of f h i)"

text \<open>\<open>f'\<close> has the shape of \<open>f\<close> and at least its bits.\<close>

definition extends :: "UrlBloomFilter \<Rightarrow> UrlBloomFilter \<Rightarrow> bool" where
  "extends f f' \<longleftrightarrow> bloom_ok f' \<and> bitCount f' = bitCount f \<and> hashCount f' = hashCount f
     \<and> (\<forall>j < bitCount f. bits f ! j \<longrightarrow> bits f' ! j)"

lemma extends_refl: "bloom_ok f \<Longrightarrow> extends f f"
  by (simp add: extends_def)

lemma extends_trans: "extends f g \<Longrightarrow> extends g h \<Longrightarrow> extends f h"
  by (simp add: extends_def)

lemma probe_ok: "bloom_ok f \<Longrightarrow> probe_index f h i = Some (index_of f h i) \<and> index_of f h i < length (bits f)"
  by (simp add: probe_index_def index_of_def bloom_ok_def)

lemma holds_mono: "bloom_ok f \<Longrightarrow> extends f f' \<Longrightarrow> holds f h \<Longrightarrow> holds f' h"
  using probe_ok [of f h] by (auto simp: holds_def extends_def index_of_def bloom_ok_def)

lemma contains_loop_eq: "bloom_ok f \<Longrightarrow> contains_loop f h is' = Some (\<forall>i \<in> set is'. bits f ! index_of f h i)"
  by (induction is') (auto simp: probe_ok getBit_def)

lemma set_loop_ok:
  assumes "bloom_ok f"
  shows "\<exists>f'. set_loop f h is' = Some f' \<and> extends f f' \<and> (\<forall>i \<in> set is'. bits f' ! index_of f h i)"
  using assms
proof (induction is' arbitrary: f)
  case (Cons i is')
  let ?g = "f\<lparr>bits := (bits f)[index_of f h i := True]\<rparr>"
  have i: "index_of f h i < length (bits f)" using probe_ok [OF Cons.prems] by blast
  then have g: "bloom_ok ?g" "extends f ?g" "bits ?g ! index_of f h i"
    using Cons.prems by (auto simp: bloom_ok_def extends_def nth_list_update)
  obtain f' where f': "set_loop ?g h is' = Some f'" "extends ?g f'" "\<forall>j \<in> set is'. bits f' ! index_of ?g h j"
    using Cons.IH [OF g(1)] by blast
  have same: "index_of ?g h j = index_of f h j" for j by (simp add: index_of_def)
  have "bits f' ! index_of f h i" using f'(2) g(3) i Cons.prems by (simp add: extends_def bloom_ok_def)
  then show ?case
    using f' probe_ok [OF Cons.prems] extends_trans [OF g(2)] by (simp add: setBit_def same)
qed (simp add: extends_refl)

lemma check_loop_eq:
  "bloom_ok f \<Longrightarrow> check_loop f h is' =
     (if \<forall>i \<in> set is'. bits f ! index_of f h i then Some (False, f)
      else map_option (\<lambda>f'. (True, f')) (set_loop f h [0..<hashCount f]))"
  by (induction is') (auto simp: probe_ok getBit_def)

lemma probablyContains_eq: "bloom_ok f \<Longrightarrow> probablyContains hash f key = Some (key \<noteq> [] \<and> holds f (hash key))"
  by (auto simp: probablyContains_def contains_loop_eq holds_def)

lemma bloom_insert_ok:
  assumes "bloom_ok f"
  shows "\<exists>f'. bloom_insert hash f key = Some f' \<and> extends f f' \<and> (key \<noteq> [] \<longrightarrow> holds f' (hash key))"
proof (cases "key = []")
  case False
  obtain f' where "set_loop f (hash key) [0..<hashCount f] = Some f'" "extends f f'"
    "\<forall>i < hashCount f. bits f' ! index_of f (hash key) i"
    using set_loop_ok [OF assms, of "hash key" "[0..<hashCount f]"] by auto
  then show ?thesis using False by (auto simp: bloom_insert_def holds_def extends_def index_of_def)
qed (simp add: bloom_insert_def extends_refl assms)

lemma checkAndInsert_ok:
  assumes "bloom_ok f" and "key \<noteq> []"
  shows "if holds f (hash key) then checkAndInsert hash f key = Some (False, f)
     else \<exists>f'. checkAndInsert hash f key = Some (True, f') \<and> bloom_insert hash f key = Some f'"
  using check_loop_eq [OF assms(1), of "hash key" "[0..<hashCount f]"] bloom_insert_ok [OF assms(1), of hash key] assms(2)
  by (auto simp: checkAndInsert_def holds_def bloom_insert_def)

text \<open>The filter has no false negatives: what was inserted is contained, now and after any further
  insertion; and \<open>checkAndInsert\<close> is \<open>probablyContains\<close> followed by \<open>insert\<close> in one step. No index is out of range.\<close>

theorem bloom_no_false_negatives:
  assumes "bloom_ok f" and "key \<noteq> []"
  shows "\<exists>f'. bloom_insert hash f key = Some f' \<and> bloom_ok f' \<and> probablyContains hash f' key = Some True
     \<and> (\<forall>other. probablyContains hash f other = Some True \<longrightarrow> probablyContains hash f' other = Some True)
     \<and> checkAndInsert hash f key =
          (if probablyContains hash f key = Some True then Some (False, f) else Some (True, f'))"
proof -
  obtain f' where f': "bloom_insert hash f key = Some f'" "extends f f'" "holds f' (hash key)"
    using bloom_insert_ok [OF assms(1)] assms(2) by blast
  then have ok: "bloom_ok f'" by (simp add: extends_def)
  show ?thesis
    using f' ok assms checkAndInsert_ok [OF assms, of hash] holds_mono [OF assms(1) f'(2)]
    by (auto simp: probablyContains_eq split: if_splits)
qed

theorem bloom_no_false_negatives_witness:
  "\<exists>f'. bloom_insert (\<lambda>k. (of_nat (length k), 3)) \<lparr>bitCount = 5, hashCount = 2, bits = replicate 5 False\<rparr> ''ab'' = Some f'
     \<and> probablyContains (\<lambda>k. (of_nat (length k), 3)) f' ''ab'' = Some True"
proof -
  have "bloom_ok \<lparr>bitCount = 5, hashCount = 2, bits = replicate 5 False\<rparr>" by (simp add: bloom_ok_def)
  from bloom_no_false_negatives [OF this, of "''ab''" "\<lambda>k. (of_nat (length k), 3)"] show ?thesis by auto
qed

subsection \<open>A crawl\<close>

text \<open>The URLs that \<open>shouldEnqueueUrl\<close> accepts of a list, in canonical form, and the filter at the end.\<close>

fun enqueue_all :: "key_hash \<Rightarrow> string list \<Rightarrow> UrlBloomFilter \<Rightarrow> (string list \<times> UrlBloomFilter) option" where
  "enqueue_all hash [] bloom = Some ([], bloom)"
| "enqueue_all hash (url # urls) bloom =
     (case shouldEnqueueUrl hash url bloom of
        None \<Rightarrow> None
      | Some (fresh, bloom', canonicalOut) \<Rightarrow>
          map_option (\<lambda>(out, last). ((if fresh then [the canonicalOut] else []) @ out, last)) (enqueue_all hash urls bloom'))"

lemma passes_nonempty: "passesUrlQualityChecks url = Some c \<Longrightarrow> c \<noteq> []"
  by (auto simp: passesUrlQualityChecks_def Let_def split: if_splits)

lemma enqueue_all_ok:
  "bloom_ok bloom \<Longrightarrow> \<exists>out last. enqueue_all hash urls bloom = Some (out, last) \<and> extends bloom last \<and> distinct out
     \<and> (\<forall>c \<in> set out. \<not> holds bloom (hash c))
     \<and> (\<forall>url \<in> set urls. \<forall>c. passesUrlQualityChecks url = Some c \<longrightarrow> holds last (hash c))
     \<and> set out \<subseteq> {c. \<exists>url \<in> set urls. passesUrlQualityChecks url = Some c}"
proof (induction urls arbitrary: bloom)
  case Nil
  then show ?case by (simp add: extends_refl)
next
  case (Cons url urls)
  have skip: ?case if "shouldEnqueueUrl hash url bloom = Some (False, bloom, x)"
    "\<forall>c. passesUrlQualityChecks url = Some c \<longrightarrow> holds bloom (hash c)" for x
  proof -
    obtain out last where out: "enqueue_all hash urls bloom = Some (out, last)" "extends bloom last" "distinct out"
      "\<forall>c \<in> set out. \<not> holds bloom (hash c)"
      "\<forall>url \<in> set urls. \<forall>c. passesUrlQualityChecks url = Some c \<longrightarrow> holds last (hash c)"
      "set out \<subseteq> {c. \<exists>url \<in> set urls. passesUrlQualityChecks url = Some c}"
      using Cons.IH [OF Cons.prems] by blast
    have "enqueue_all hash (url # urls) bloom = Some (out, last)" using that(1) out(1) by simp
    moreover have "\<forall>c. passesUrlQualityChecks url = Some c \<longrightarrow> holds last (hash c)"
      using that(2) holds_mono [OF Cons.prems out(2)] by blast
    ultimately show ?thesis using out by (intro exI [of _ out] exI [of _ last]) auto
  qed
  show ?case
  proof (cases "passesUrlQualityChecks url")
    case None
    then show ?thesis by (intro skip) (simp_all add: shouldEnqueueUrl_def)
  next
    case (Some c)
    then have ne: "c \<noteq> []" by (rule passes_nonempty)
    note check = checkAndInsert_ok [OF Cons.prems ne, of hash]
    show ?thesis
    proof (cases "holds bloom (hash c)")
      case True
      then show ?thesis using check Some by (intro skip) (auto simp: shouldEnqueueUrl_def)
    next
      case False
      then obtain f' where f': "checkAndInsert hash bloom c = Some (True, f')" "extends bloom f'" "holds f' (hash c)"
        using check bloom_insert_ok [OF Cons.prems, of hash c] ne by auto
      then have ok: "bloom_ok f'" by (simp add: extends_def)
      obtain out last where out: "enqueue_all hash urls f' = Some (out, last)" "extends f' last" "distinct out"
        "\<forall>c \<in> set out. \<not> holds f' (hash c)"
        "\<forall>url \<in> set urls. \<forall>c. passesUrlQualityChecks url = Some c \<longrightarrow> holds last (hash c)"
        "set out \<subseteq> {c. \<exists>url \<in> set urls. passesUrlQualityChecks url = Some c}"
        using Cons.IH [OF ok] by blast
      have "c \<notin> set out" using out(4) f'(3) by blast
      moreover have "\<forall>c \<in> set out. \<not> holds bloom (hash c)"
        using out(4) holds_mono [OF Cons.prems f'(2)] by blast
      moreover have "enqueue_all hash (url # urls) bloom = Some (c # out, last)"
        using f'(1) out(1) Some by (simp add: shouldEnqueueUrl_def)
      moreover have "holds last (hash c)" by (rule holds_mono [OF ok out(2) f'(3)])
      ultimately show ?thesis
        using out False Some extends_trans [OF f'(2) out(2)] by (intro exI [of _ "c # out"] exI [of _ last]) auto
    qed
  qed
qed



subsection \<open>Snapshots of the filter\<close>

lemma pack_bits:
  assumes "n \<le> length bs" and "(n + 7) div 8 \<le> length packed"
  shows "length (fold (pack_step bs) [0..<n] packed) = length packed
     \<and> (\<forall>j < 8 * length packed. bit (fold (pack_step bs) [0..<n] packed ! (j div 8)) (j mod 8)
          \<longleftrightarrow> bit (packed ! (j div 8)) (j mod 8) \<or> j < n \<and> bs ! j)"
  using assms
proof (induction n)
  case (Suc n)
  define p where "p = fold (pack_step bs) [0..<n] packed"
  have ih: "length p = length packed" "\<And>j. j < 8 * length packed \<Longrightarrow>
      bit (p ! (j div 8)) (j mod 8) \<longleftrightarrow> bit (packed ! (j div 8)) (j mod 8) \<or> j < n \<and> bs ! j"
    using Suc by (simp_all add: p_def)
  have n: "n div 8 < length p" using Suc.prems ih(1) by linarith
  have step: "bit (pack_step bs n p ! (j div 8)) (j mod 8) \<longleftrightarrow> bit (p ! (j div 8)) (j mod 8) \<or> j = n \<and> bs ! n"
    if "j < 8 * length packed" for j
  proof (cases "j div 8 = n div 8")
    case True
    then have "j mod 8 = n mod 8 \<longleftrightarrow> j = n" by (metis mod_mult_div_eq)
    then show ?thesis using True n by (auto simp: pack_step_def bit_simps)
  next
    case False
    then show ?thesis using n by (auto simp: pack_step_def)
  qed
  have "fold (pack_step bs) [0..<Suc n] packed = pack_step bs n p" by (simp add: p_def)
  moreover have "length (pack_step bs n p) = length packed" by (simp add: pack_step_def ih(1))
  ultimately show ?case using ih(2) step by (auto simp: less_Suc_eq)
qed simp

lemma restored_bloom:
  assumes "bloom_ok f" and "bitCount f < 2 ^ 64" and "hashCount f < 2 ^ 32"
  shows "deserializeFromStream (bloom_bytes (bloom_snapshot f)) = Some f"
proof -
  let ?n = "bitCount f"
  let ?packed = "packedBits (bloom_snapshot f)"
  let ?file = "bloom_bytes (bloom_snapshot f)"
  have fl: "?file = le_bytes 8 (of_nat ?n :: u64) @ le_bytes 4 (of_nat (hashCount f) :: u32) @ ?packed"
    by (simp add: bloom_bytes_def bloom_snapshot_def del: le_bytes.simps)
  have bc: "(read_at 8 0 ?file :: u64 option) = Some (of_nat ?n)" unfolding fl by simp
  have "(read_at 4 (8 + 0) ?file :: u32 option) = read_at 4 0 (le_bytes 4 (of_nat (hashCount f) :: u32) @ ?packed)"
    unfolding fl by (rule read_at_skip) simp
  then have hc: "(read_at 4 8 ?file :: u32 option) = Some (of_nat (hashCount f))" by simp
  have sizes: "unat (of_nat ?n :: u64) = ?n" "unat (of_nat (hashCount f) :: u32) = hashCount f"
    using assms(2,3) by (simp_all add: unat_of_nat)
  have pack: "length ?packed = (?n + 7) div 8"
    "\<And>j. j < ?n \<Longrightarrow> bit (?packed ! (j div 8)) (j mod 8) \<longleftrightarrow> bits f ! j"
    using pack_bits [of ?n "bits f" "replicate ((?n + 7) div 8) 0"] assms(1)
    by (auto simp: bloom_snapshot_def bloom_ok_def)
  have "drop 12 ?file = ?packed" unfolding fl by (simp del: le_bytes.simps)
  moreover have "(?packed ! (j div 8) AND push_bit (j mod 8) 1 \<noteq> 0) = bits f ! j" if "j < ?n" for j
    using pack(2) [OF that] by (simp add: and_exp_eq_0_iff_not_bit push_bit_eq_mult)
  then have "map (\<lambda>j. ?packed ! (j div 8) AND push_bit (j mod 8) 1 \<noteq> 0) [0..<?n] = bits f"
    using assms(1) by (intro nth_equalityI) (simp_all add: bloom_ok_def)
  ultimately show ?thesis using pack(1) by (simp add: deserializeFromStream_def bc hc Let_def sizes)
qed

text \<open>A filter that a checkpoint wrote is the filter that is read back.\<close>

theorem bloom_round_trip:
  assumes "bloom_ok f" and "bitCount f < 2 ^ 64" and "hashCount f < 2 ^ 32"
  shows "deserializeFromStream (bloom_bytes (bloom_snapshot f)) = Some f"
  using assms by (rule restored_bloom)

theorem bloom_round_trip_witness:
  "deserializeFromStream (bloom_bytes (bloom_snapshot \<lparr>bitCount = 10, hashCount = 2, bits = replicate 9 False @ [True]\<rparr>))
     = Some \<lparr>bitCount = 10, hashCount = 2, bits = replicate 9 False @ [True]\<rparr>"
  by (rule bloom_round_trip) (simp_all add: bloom_ok_def)

text \<open>The constructor refuses exactly the configurations that make no sense; every other one gives a filter
  with at least one bit and one probe that contains nothing.\<close>

theorem new_bloom_empty:
  "case new_bloom n p of
     Inl e \<Rightarrow> n = 0 \<or> p \<le> 0 \<or> 1 \<le> p
   | Inr f \<Rightarrow> bloom_ok f \<and> 0 < hashCount f \<and> (\<forall>key. probablyContains hash f key = Some False)"
proof (cases "n = 0 \<or> p \<le> 0 \<or> p \<ge> 1")
  case True
  then show ?thesis by (simp add: new_bloom_def)
next
  case False
  then obtain bc hc where f: "new_bloom n p = Inr \<lparr>bitCount = bc, hashCount = hc, bits = replicate bc False\<rparr>" "0 < bc" "0 < hc"
    by (auto simp: new_bloom_def Let_def)
  let ?f = "\<lparr>bitCount = bc, hashCount = hc, bits = replicate bc False\<rparr>"
  have ok: "bloom_ok ?f" using f(2) by (simp add: bloom_ok_def)
  have "\<not> holds ?f h" for h using f(2,3) by (auto simp: holds_def index_of_def)
  then show ?thesis using f ok by (simp add: probablyContains_eq [OF ok])
qed

end
