(* ===== verification/FrontierItem.thy ===== *)
theory FrontierItem
  imports Complex_Main Strings
begin

text \<open>
  What the crawler knows of a URL it has not visited: \<open>src/crawler/FrontierItem.cpp\<close> and
  \<open>FrontierItemHelper.cpp\<close>, that is its score, and the line in which a checkpoint keeps it. Scores are
  rational numbers. \<open>Unnamed\<close> is a value of the enumeration that has no enumerator, which a line can hold.
\<close>

subsection \<open>Suffixes and hosts\<close>

datatype Suffix = COM | EDU | GOV | ORG | NET | MIL | INT' | OTHER | Unnamed int

fun suffix_int :: "Suffix \<Rightarrow> int" where
  "suffix_int COM = 0" | "suffix_int EDU = 1" | "suffix_int GOV = 2" | "suffix_int ORG = 3"
| "suffix_int NET = 4" | "suffix_int MIL = 5" | "suffix_int INT' = 6" | "suffix_int OTHER = 7"
| "suffix_int (Unnamed i) = i"

definition to_suffix :: "int \<Rightarrow> Suffix" where
  "to_suffix l =
     (let i = (l + 2 ^ 31) mod 2 ^ 32 - 2 ^ 31 in if 0 \<le> i \<and> i < 8 then [COM, EDU, GOV, ORG, NET, MIL, INT', OTHER] ! nat i else Unnamed i)"

definition stringToSuffix :: "string \<Rightarrow> Suffix" where
  "stringToSuffix tld =
     (if tld = ''com'' \<or> tld = ''com.au'' then COM
      else if tld = ''edu'' then EDU
      else if tld = ''gov'' then GOV
      else if tld = ''org'' then ORG
      else if tld = ''net'' then NET
      else if tld = ''mil'' then MIL
      else if tld = ''int'' then INT'
      else if tld = ''co.uk'' \<or> tld = ''ca'' \<or> tld = ''uk'' \<or> tld = ''au'' then ORG
      else OTHER)"

fun suffixScore :: "Suffix \<Rightarrow> rat" where
  "suffixScore EDU = 4" | "suffixScore GOV = 4" | "suffixScore ORG = 3" | "suffixScore COM = 3"
| "suffixScore NET = 2" | "suffixScore MIL = 2" | "suffixScore INT' = 2" | "suffixScore OTHER = 0"
| "suffixScore (Unnamed i) = 0"

definition extractRest :: "string \<Rightarrow> string" where
  "extractRest url = (case find_sub ''://'' url of None \<Rightarrow> url | Some schemePos \<Rightarrow> drop (schemePos + 3) url)"

text \<open>The host and the path.\<close>

definition splitHostAndPath :: "string \<Rightarrow> string \<times> string" where
  "splitHostAndPath rest =
     (case find_sub ''/'' rest of None \<Rightarrow> (rest, []) | Some slashPos \<Rightarrow> (take slashPos rest, drop slashPos rest))"

definition parseHost :: "string \<Rightarrow> Suffix \<times> nat" where
  "parseHost host =
     (if length host = 0 then (OTHER, 0)
      else case rfind_char (CHR ''.'') host of
          None \<Rightarrow> (OTHER, length host)
        | Some lastDot \<Rightarrow>
            (let tld = drop (lastDot + 1) host
             in case rfind_char (CHR ''.'') (take lastDot host) of
                 None \<Rightarrow> (stringToSuffix tld, lastDot)
               | Some secondLastDot \<Rightarrow>
                   if tld = ''uk'' \<or> tld = ''au'' \<or> tld = ''ca''
                   then let tld2 = drop (secondLastDot + 1) host
                        in (stringToSuffix tld2,
                            if secondLastDot > 0
                            then case rfind_char (CHR ''.'') (take secondLastDot host) of
                                None \<Rightarrow> secondLastDot
                              | Some thirdLastDot \<Rightarrow> secondLastDot - thirdLastDot - 1
                            else secondLastDot)
                   else (stringToSuffix tld, lastDot - secondLastDot - 1)))"

definition computePathDepth_item :: "string \<Rightarrow> nat" where
  "computePathDepth_item path =
     (if length path = 0 then 0
      else let effectiveLen = (if length path > 1 \<and> path ! (length path - 1) = CHR ''/'' then length path - 1 else length path)
           in length (filter (\<lambda>c. c = CHR ''/'') (take effectiveLen path)))"

subsection \<open>Signals\<close>

definition contains_any :: "string list \<Rightarrow> string \<Rightarrow> bool" where
  "contains_any subs s = list_ex (\<lambda>sub. find_sub sub s \<noteq> None) subs"

definition scorePathPatterns :: "string \<Rightarrow> rat" where
  "scorePathPatterns path =
     (if length path = 0 then 0
      else let lowerPath = lowerAscii path
           in if path = ''/'' \<or> path = ''/index.html'' then 2
              else (if contains_any [''/search'', ''/filter'', ''/tag/'', ''/category/'', ''/archive/'', ''/date/''] lowerPath
                    then - 3 / 2 else 0)
                 + (if contains_any [''/admin'', ''/login'', ''/account'', ''/settings''] lowerPath then - 2 else 0)
                 + (if contains_any [''/ads/'', ''/tracking/'', ''/analytics/''] lowerPath then - 3 else 0)
                 + (if contains_any [''/blog'', ''/article'', ''/news'', ''/tutorial'', ''/guide'', ''/docs'', ''/post''] lowerPath
                    then 1 else 0))"

definition scoreQueryStringComplexity :: "string \<Rightarrow> rat" where
  "scoreQueryStringComplexity url =
     (case find_sub ''?'' url of
        None \<Rightarrow> 0
      | Some queryPos \<Rightarrow>
          (let queryString = drop (queryPos + 1) url;
               paramCount = 1 + length (filter (\<lambda>c. c = CHR ''&'') queryString)
           in if paramCount \<ge> 3 \<or> length queryString > 100 then - 1 / 2 else 0))"

definition scoreSubdomainSignals :: "string \<Rightarrow> rat" where
  "scoreSubdomainSignals host =
     (let lowerHost = lowerAscii host
      in if list_ex (\<lambda>sub. find_sub sub lowerHost = Some 0) [''ads.'', ''tracking.'', ''mail.'', ''smtp.'', ''ftp.'']
         then - 2 else 0)"

subsection \<open>Items\<close>

record FrontierItem =
  link :: string
  suffix :: Suffix
  baseLength :: nat
  seedDistance :: nat
  pathDepth :: nat
  failed :: bool

definition frontier_item :: "string \<Rightarrow> FrontierItem" where
  "frontier_item url =
     (let (host, path) = splitHostAndPath (extractRest url);
          (s, b) = parseHost host
      in \<lparr>link = url, suffix = s, baseLength = b, seedDistance = 0, pathDepth = computePathDepth_item path, failed = False\<rparr>)"

definition child_item :: "string \<Rightarrow> FrontierItem \<Rightarrow> FrontierItem" where
  "child_item url parent = frontier_item url \<lparr>seedDistance := seedDistance parent + 1\<rparr>"

definition withSeedDistance :: "string \<Rightarrow> nat \<Rightarrow> FrontierItem" where
  "withSeedDistance url d = frontier_item url \<lparr>seedDistance := d\<rparr>"

definition withLink :: "FrontierItem \<Rightarrow> string \<Rightarrow> FrontierItem" where
  "withLink item url = withSeedDistance url (seedDistance item) \<lparr>failed := failed item\<rparr>"

definition markFailed :: "FrontierItem \<Rightarrow> FrontierItem" where
  "markFailed item = item\<lparr>failed := True\<rparr>"

definition getScore :: "FrontierItem \<Rightarrow> rat" where
  "getScore item =
     (let (host, path) = splitHostAndPath (extractRest (link item))
      in suffixScore (suffix item)
         - 1 / 10 * of_nat (baseLength item)
         - 1 / 5 * of_nat (pathDepth item)
         - 3 * of_nat (seedDistance item)
         - (if failed item then 10 else 0)
         + scorePathPatterns path
         + scoreQueryStringComplexity (link item)
         + scoreSubdomainSignals host)"

definition item_less :: "FrontierItem \<Rightarrow> FrontierItem \<Rightarrow> bool" where
  "item_less a b \<longleftrightarrow> getScore a < getScore b"

subsection \<open>Lines\<close>

text \<open>\<open>%zu\<close> and \<open>%d\<close>, and \<open>atol\<close>, which reads any number here; it must fit into a \<open>long\<close> in the program.\<close>

definition digit_char :: "nat \<Rightarrow> char" where
  "digit_char d = char_of (48 + d)"

fun show_nat :: "nat \<Rightarrow> string" where
  "show_nat n = (if n < 10 then [digit_char n] else show_nat (n div 10) @ [digit_char (n mod 10)])"

definition show_int :: "int \<Rightarrow> string" where
  "show_int i = (if i < 0 then CHR ''-'' # show_nat (nat (- i)) else show_nat (nat i))"

definition digits_value :: "string \<Rightarrow> int" where
  "digits_value s = foldl (\<lambda>v c. v * 10 + (int (code c) - 48)) 0 (takeWhile isAsciiDigit s)"

definition atol :: "string \<Rightarrow> int" where
  "atol s = (case dropWhile isSpace s of
       [] \<Rightarrow> 0
     | c # cs \<Rightarrow> if c = CHR ''-'' then - digits_value cs else if c = CHR ''+'' then digits_value cs else digits_value (c # cs))"

definition atol_size :: "string \<Rightarrow> nat" where
  "atol_size s = nat (atol s mod 2 ^ 64)"

definition clean_link :: "string \<Rightarrow> string" where
  "clean_link s = filter (\<lambda>c. code c \<noteq> 13 \<and> code c \<noteq> 10) s"

definition serializeToLine :: "FrontierItem \<Rightarrow> string" where
  "serializeToLine item =
     clean_link (link item) @ ''|'' @ show_int (suffix_int (suffix item)) @ ''|'' @ show_nat (baseLength item) @ ''|''
       @ show_nat (seedDistance item) @ ''|'' @ show_nat (pathDepth item) @ ''|'' @ (if failed item then ''1'' else ''0'')"

definition findPipe :: "string \<Rightarrow> nat \<Rightarrow> nat" where
  "findPipe line from = (case find_char (CHR ''|'') (drop from line) of None \<Rightarrow> length line | Some i \<Rightarrow> from + i)"

text \<open>A range that ends before it begins is the empty string.\<close>

definition field :: "string \<Rightarrow> nat \<Rightarrow> nat \<Rightarrow> string" where
  "field line start stop = take (stop - start) (drop start line)"

definition deserializeFromLine :: "string \<Rightarrow> FrontierItem" where
  "deserializeFromLine line =
     (let p0 = findPipe line 0; l = field line 0 p0;
          p1 = findPipe line (p0 + 1); s = to_suffix (atol (field line (p0 + 1) p1));
          p2 = findPipe line (p1 + 1); b = atol_size (field line (p1 + 1) p2);
          p3 = findPipe line (p2 + 1); d = atol_size (field line (p2 + 1) p3);
          p4 = findPipe line (p3 + 1); p = atol_size (field line (p3 + 1) p4);
          f = (atol (field line (p4 + 1) (length line)) \<noteq> 0)
      in \<lparr>link = l, suffix = s, baseLength = b, seedDistance = d, pathDepth = p, failed = f\<rparr>)"

subsection \<open>Numbers in a line\<close>

declare show_nat.simps [simp del]

lemma digit_char [simp]: "d < 10 \<Longrightarrow> isAsciiDigit (digit_char d)" "d < 10 \<Longrightarrow> code (digit_char d) = 48 + d"
  by (simp_all add: digit_char_def isAsciiDigit_def)

lemma show_nat_digits: "c \<in> set (show_nat n) \<Longrightarrow> isAsciiDigit c"
proof (induction n rule: show_nat.induct)
  case (1 n)
  then show ?case by (subst (asm) (2) show_nat.simps) (auto split: if_splits)
qed

lemma show_nat_value: "foldl (\<lambda>v c. v * 10 + (int (code c) - 48)) 0 (show_nat n) = int n"
proof (induction n rule: show_nat.induct)
  case (1 n)
  then show ?case by (subst show_nat.simps) (auto simp: zdiv_int zmod_int)
qed

lemma show_nat_ne [simp]: "show_nat n \<noteq> []"
  by (subst show_nat.simps) simp

lemma digits_value_show [simp]: "digits_value (show_nat n) = int n"
proof -
  have "takeWhile isAsciiDigit (show_nat n) = show_nat n" by (simp add: show_nat_digits takeWhile_eq_all_conv)
  then show ?thesis unfolding digits_value_def by (simp only: show_nat_value)
qed

lemma digit_not_special: "isAsciiDigit c \<Longrightarrow> \<not> isSpace c \<and> c \<noteq> CHR ''-'' \<and> c \<noteq> CHR ''+'' \<and> c \<noteq> CHR ''|''"
  by (auto simp: isAsciiDigit_def isSpace_def code_def)

lemma atol_show_nat [simp]: "atol (show_nat n) = int n"
proof -
  obtain c cs where s: "show_nat n = c # cs" by (cases "show_nat n") auto
  then have "isAsciiDigit c" using show_nat_digits [of c n] by simp
  then show ?thesis using digit_not_special [of c] s digits_value_show [of n] by (simp add: atol_def)
qed

lemma atol_show_int [simp]: "atol (show_int i) = i"
  by (auto simp: show_int_def atol_def [of "_ # _"] isSpace_def code_def)

lemma atol_size_show [simp]: "n < 2 ^ 63 \<Longrightarrow> atol_size (show_nat n) = n"
  by (simp add: atol_size_def)

lemma pipe_free: "CHR ''|'' \<notin> set (show_nat n)" "CHR ''|'' \<notin> set (show_int i)"
  using show_nat_digits digit_not_special by (auto simp: show_int_def)

text \<open>A field between two bars.\<close>

lemma line_field:
  assumes "line = pre @ x @ CHR ''|'' # post" and "CHR ''|'' \<notin> set x"
  shows "findPipe line (length pre) = length pre + length x" and "field line (length pre) (length pre + length x) = x"
proof -
  have "find_char (CHR ''|'') (x @ CHR ''|'' # post) = Some (length x)"
    using assms(2) by (auto simp: find_char_def find_if_Some nth_append in_set_conv_nth)
  then show "findPipe line (length pre) = length pre + length x" by (simp add: findPipe_def assms(1))
  show "field line (length pre) (length pre + length x) = x" by (simp add: field_def assms(1))
qed

lemma deserialize_fields:
  assumes "CHR ''|'' \<notin> set l" and "CHR ''|'' \<notin> set s" and "CHR ''|'' \<notin> set b" and "CHR ''|'' \<notin> set d" and "CHR ''|'' \<notin> set p"
  shows "deserializeFromLine (l @ ''|'' @ s @ ''|'' @ b @ ''|'' @ d @ ''|'' @ p @ ''|'' @ f) =
     \<lparr>link = l, suffix = to_suffix (atol s), baseLength = atol_size b, seedDistance = atol_size d,
      pathDepth = atol_size p, failed = (atol f \<noteq> 0)\<rparr>"
proof -
  let ?line = "l @ ''|'' @ s @ ''|'' @ b @ ''|'' @ d @ ''|'' @ p @ ''|'' @ f"
  note f0 = line_field [of ?line "[]" l, OF _ assms(1)]
  note f1 = line_field [of ?line "l @ ''|''" s, OF _ assms(2)]
  note f2 = line_field [of ?line "l @ ''|'' @ s @ ''|''" b, OF _ assms(3)]
  note f3 = line_field [of ?line "l @ ''|'' @ s @ ''|'' @ b @ ''|''" d, OF _ assms(4)]
  note f4 = line_field [of ?line "l @ ''|'' @ s @ ''|'' @ b @ ''|'' @ d @ ''|''" p, OF _ assms(5)]
  have last: "field (pre @ f) (length pre) (length (pre @ f)) = f" for pre by (simp add: field_def)
  note last = last [of "l @ ''|'' @ s @ ''|'' @ b @ ''|'' @ d @ ''|'' @ p @ ''|''"]
  define n0 n1 n2 n3 n4 where n: "n0 = length l" "n1 = n0 + 1 + length s" "n2 = n1 + 1 + length b"
    "n3 = n2 + 1 + length d" "n4 = n3 + 1 + length p"
  have p: "findPipe ?line 0 = n0" "findPipe ?line (n0 + 1) = n1" "findPipe ?line (n1 + 1) = n2"
    "findPipe ?line (n2 + 1) = n3" "findPipe ?line (n3 + 1) = n4"
    using f0(1) f1(1) f2(1) f3(1) f4(1) by (simp_all add: n ac_simps)
  have "field ?line 0 n0 = l" "field ?line (n0 + 1) n1 = s" "field ?line (n1 + 1) n2 = b" "field ?line (n2 + 1) n3 = d"
    "field ?line (n3 + 1) n4 = p" "field ?line (n4 + 1) (length ?line) = f"
    using f0(2) f1(2) f2(2) f3(2) f4(2) last by (simp_all add: n ac_simps)
  then show ?thesis unfolding deserializeFromLine_def Let_def p by simp
qed

definition enumerator :: "Suffix \<Rightarrow> bool" where
  "enumerator s \<longleftrightarrow> (case s of Unnamed i \<Rightarrow> False | _ \<Rightarrow> True)"

lemma to_suffix_int:
  assumes "enumerator s"
  shows "to_suffix (suffix_int s) = s"
  using assms by (cases s) (auto simp: enumerator_def to_suffix_def eval_nat_numeral)

definition small_item :: "FrontierItem \<Rightarrow> bool" where
  "small_item item \<longleftrightarrow> baseLength item < 2 ^ 63 \<and> seedDistance item < 2 ^ 63 \<and> pathDepth item < 2 ^ 63
     \<and> enumerator (suffix item)"

lemma item_restored:
  assumes "CHR ''|'' \<notin> set (link item)" and "small_item item"
  shows "deserializeFromLine (serializeToLine item) = item\<lparr>link := clean_link (link item)\<rparr>"
proof -
  have "CHR ''|'' \<notin> set (clean_link (link item))" using assms(1) by (auto simp: clean_link_def)
  moreover have "atol ''0'' = 0" "atol ''1'' = 1" by code_simp+
  ultimately show ?thesis
    using assms(2) unfolding serializeToLine_def
    by (subst deserialize_fields) (simp_all add: pipe_free small_item_def to_suffix_int)
qed

text \<open>The line of an item whose URL has no bar gives the item back, with the line breaks cut out of the
  URL; a bar in the URL shifts the fields, and part of the URL is lost.\<close>

theorem item_round_trip:
  assumes "CHR ''|'' \<notin> set (link item)" and "small_item item"
  shows "deserializeFromLine (serializeToLine item) = item\<lparr>link := clean_link (link item)\<rparr>"
  using assms by (rule item_restored)

theorem item_round_trip_witness:
  "deserializeFromLine (serializeToLine (frontier_item ''http://a.co.uk/b'')) = frontier_item ''http://a.co.uk/b''
     \<and> link (deserializeFromLine (serializeToLine (frontier_item ''http://a.org/b|c''))) = ''http://a.org/b''"
proof
  have "frontier_item ''http://a.co.uk/b'' = \<lparr>link = ''http://a.co.uk/b'', suffix = ORG, baseLength = 1,
      seedDistance = 0, pathDepth = 1, failed = False\<rparr>" "clean_link ''http://a.co.uk/b'' = ''http://a.co.uk/b''"
    by code_simp+
  then show "deserializeFromLine (serializeToLine (frontier_item ''http://a.co.uk/b'')) = frontier_item ''http://a.co.uk/b''"
    using item_round_trip [of "frontier_item ''http://a.co.uk/b''"] by (simp add: small_item_def enumerator_def)
  show "link (deserializeFromLine (serializeToLine (frontier_item ''http://a.org/b|c''))) = ''http://a.org/b''" by code_simp
qed

subsection \<open>The labels of a host\<close>

lemma rfind_split:
  "rfind_char c s = None \<Longrightarrow> split_on c s = [s]"
  "rfind_char c s = Some i \<Longrightarrow> split_on c s = split_on c (take i s) @ [drop (i + 1) s] \<and> i < length s"
proof -
  show "split_on c s = [s]" if "rfind_char c s = None"
    using that by (simp add: rfind_char_None split_on_none)
  assume i: "rfind_char c s = Some i"
  note r = rfind_char_Some [OF i]
  have "c \<notin> set (drop (i + 1) s)"
  proof
    assume "c \<in> set (drop (i + 1) s)"
    then obtain k where "k < length s - (i + 1)" "s ! (i + 1 + k) = c" by (auto simp: in_set_conv_nth)
    moreover from this(1) have "i + 1 + k < length s" by linarith
    ultimately show False using r(3) [of "i + 1 + k"] by simp
  qed
  then have "split_on c (take i s @ c # drop (i + 1) s) = split_on c (take i s) @ [drop (i + 1) s]"
    by (simp add: split_on_snoc split_on_none)
  moreover have "take i s @ c # drop (i + 1) s = s" using r(1,2) by (metis Suc_eq_plus1 id_take_nth_drop)
  ultimately show "split_on c s = split_on c (take i s) @ [drop (i + 1) s] \<and> i < length s" using r(1) by simp
qed

definition host_summary :: "string list \<Rightarrow> Suffix \<times> nat" where
  "host_summary labels_from_end =
     (case labels_from_end of
        [] \<Rightarrow> (OTHER, 0)
      | [name] \<Rightarrow> (OTHER, length name)
      | t # s # rest \<Rightarrow>
          if t \<in> {''uk'', ''au'', ''ca''} \<and> rest \<noteq> []
          then (stringToSuffix (s @ ''.'' @ t), length (hd rest)) else (stringToSuffix t, length s))"

text \<open>\<open>parseHost\<close> in terms of the labels of the host: under \<open>uk\<close>, \<open>au\<close> and \<open>ca\<close> the last two labels are
  looked up when there are three or more, otherwise the last one. So \<open>umich.ca\<close> counts as \<open>ORG\<close> and
  \<open>www.umich.ca\<close> as \<open>OTHER\<close>.\<close>

theorem parseHost_labels:
  "parseHost host = host_summary (rev (split_on (CHR ''.'') host))
     \<and> host_summary [''ca'', ''umich''] = (ORG, 5) \<and> host_summary [''ca'', ''umich'', ''www''] = (OTHER, 3)"
proof -
  have "parseHost host = host_summary (rev (split_on (CHR ''.'') host))"
  proof (cases "rfind_char (CHR ''.'') host")
    case None
    then show ?thesis using rfind_split(1) [OF None] by (auto simp: parseHost_def host_summary_def)
  next
    case (Some i)
    note s1 = rfind_split(2) [OF Some]
    have ne: "length host \<noteq> 0" using s1 by auto
    show ?thesis
    proof (cases "rfind_char (CHR ''.'') (take i host)")
      case None
      then show ?thesis
        using ne Some s1 rfind_split(1) [OF None] by (auto simp: parseHost_def host_summary_def Let_def)
    next
      case j: (Some j)
      note s2 = rfind_split(2) [OF j]
      have tail: "drop (j + 1) host = drop (j + 1) (take i host) @ ''.'' @ drop (i + 1) host"
      proof -
        have "host = take i host @ ''.'' @ drop (i + 1) host"
          using s1 rfind_char_Some(2) [OF Some] id_take_nth_drop [of i host] by simp
        then have "drop (j + 1) host = drop (j + 1) (take i host @ ''.'' @ drop (i + 1) host)" by simp
        then show ?thesis using s1 s2 by (simp add: drop_append del: drop_take)
      qed
      have short: "take j (take i host) = take j host" using s2 by (auto simp: min_def split: if_splits)
      define t where "t = drop (i + 1) host"
      define s where "s = drop (j + 1) (take i host)"
      have len: "length s = i - j - 1" using s1 s2 by (simp add: s_def)
      define rest where "rest = rev (split_on (CHR ''.'') (take j host))"
      have labels: "rev (split_on (CHR ''.'') host) = t # s # rest"
        using s1 s2 by (simp add: t_def s_def rest_def min_def)
      have base: "length (hd rest) = (if j > 0 then case rfind_char (CHR ''.'') (take j host) of None \<Rightarrow> j
          | Some k \<Rightarrow> j - k - 1 else j)"
      proof (cases "rfind_char (CHR ''.'') (take j host)")
        case None
        then show ?thesis using rfind_split(1) [OF None] s1 s2 by (simp add: rest_def)
      next
        case (Some k)
        then show ?thesis using rfind_split(2) [OF Some] s1 s2 by (simp add: rest_def)
      qed
      have drops: "drop (i + 1) host = t" "drop (j + 1) host = s @ ''.'' @ t" using tail by (simp_all only: t_def s_def)
      have "rest \<noteq> []" by (simp add: rest_def)
      then show ?thesis
        unfolding parseHost_def host_summary_def labels Some option.case j Let_def drops
        using ne base len by simp
    qed
  qed
  moreover have "host_summary [''ca'', ''umich''] = (ORG, 5)" "host_summary [''ca'', ''umich'', ''www''] = (OTHER, 3)"
    by (simp_all add: host_summary_def stringToSuffix_def)
  ultimately show ?thesis by blast
qed

subsection \<open>Scores\<close>

lemma signals_bounds:
  "- 13 / 2 \<le> scorePathPatterns p \<and> scorePathPatterns p \<le> 2"
  "- 1 / 2 \<le> scoreQueryStringComplexity u \<and> scoreQueryStringComplexity u \<le> 0"
  "- 2 \<le> scoreSubdomainSignals h \<and> scoreSubdomainSignals h \<le> 0"
  by (auto simp: scorePathPatterns_def scoreQueryStringComplexity_def scoreSubdomainSignals_def Let_def split: option.split)

lemma suffixScore_bounds: "0 \<le> suffixScore s \<and> suffixScore s \<le> 4"
  by (cases s) simp_all

text \<open>The score of an item is at most 6, falls by 3 for each step away from a seed and by 10 after a
  failure: of two items for pages with the same signals, the one that is four or more steps nearer to a
  seed wins even when it has failed.\<close>

theorem item_scores:
  "getScore item \<le> 6 \<and> getScore (item\<lparr>seedDistance := d + k\<rparr>) = getScore (item\<lparr>seedDistance := d\<rparr>) - 3 * of_nat k
     \<and> getScore (markFailed item) = getScore (item\<lparr>failed := False\<rparr>) - 10
     \<and> item_less (item\<lparr>seedDistance := d + 4 + k, failed := False\<rparr>) (item\<lparr>seedDistance := d, failed := True\<rparr>)"
proof -
  obtain h p where hp: "splitHostAndPath (extractRest (link item)) = (h, p)" by fastforce
  have n: "0 \<le> (of_nat (baseLength item) :: rat)" "0 \<le> (of_nat (pathDepth item) :: rat)" "0 \<le> (of_nat (seedDistance item) :: rat)"
    by simp_all
  have "getScore item = suffixScore (suffix item) - 1 / 10 * of_nat (baseLength item) - 1 / 5 * of_nat (pathDepth item)
      - 3 * of_nat (seedDistance item) - (if failed item then 10 else 0) + scorePathPatterns p
      + scoreQueryStringComplexity (link item) + scoreSubdomainSignals h"
    unfolding getScore_def hp Let_def by simp
  moreover have "0 \<le> (if failed item then 10 else 0 :: rat)" by simp
  ultimately have "getScore item \<le> 6"
    using signals_bounds(1) [of p] signals_bounds(2) [of "link item"] signals_bounds(3) [of h]
      suffixScore_bounds [of "suffix item"] n by linarith
  then show ?thesis by (simp add: getScore_def hp markFailed_def item_less_def)
qed

end
