(* ===== verification/DelayedQueue.thy ===== *)
theory DelayedQueue
  imports FrontierItem PriorityQueue
begin

text \<open>
  The queue of URLs that wait for the crawl delay of their host: \<open>src/crawler/DelayedQueue.cpp\<close>, on the heap of
  \<open>PriorityQueue\<close>. Times are milliseconds.
\<close>

record DelayedEntry =
  de_item :: FrontierItem
  readyAtMs :: int

text \<open>\<open>higherPriority(a, b)\<close> is \<open>EntryCompare(b, a)\<close>: the earlier entry is on top.\<close>

definition entry_before :: "DelayedEntry \<Rightarrow> DelayedEntry \<Rightarrow> bool" where
  "entry_before a b \<longleftrightarrow> readyAtMs b > readyAtMs a"

definition dly_push :: "FrontierItem \<Rightarrow> int \<Rightarrow> DelayedEntry list \<Rightarrow> DelayedEntry list" where
  "dly_push item t heap = pq_push entry_before \<lparr>de_item = item, readyAtMs = t\<rparr> heap"

definition dly_size :: "DelayedEntry list \<Rightarrow> nat" where
  "dly_size heap = length heap"

definition dly_empty :: "DelayedEntry list \<Rightarrow> bool" where
  "dly_empty heap \<longleftrightarrow> heap = []"

text \<open>The loop of \<open>drainReady\<close>, with the items it has collected; the heap shrinks in each round.\<close>

lemma pq_pop_shorter: "xs \<noteq> [] \<Longrightarrow> \<exists>ys. pq_pop hp xs = Some ys \<and> length ys < length xs"
proof -
  assume ne: "xs \<noteq> []"
  let ?b = "butlast (swap_at 0 (length xs - 1) xs)"
  have "length (siftDown hp ?b 0) = length ?b"
    using siftDown_mset [of 0 ?b hp] by (metis length_greater_0_conv size_mset)
  then have "length (siftDown hp ?b 0) < length xs" "length (butlast xs) < length xs" using ne by simp_all
  then show ?thesis using ne by (cases "length xs = 1") (auto simp: pq_pop_def length_Suc_conv)
qed

function drain_loop :: "int \<Rightarrow> DelayedEntry list \<Rightarrow> FrontierItem list \<Rightarrow> FrontierItem list \<times> DelayedEntry list" where
  "drain_loop now heap ready =
     (case pq_top heap of
        None \<Rightarrow> (ready, heap)
      | Some e \<Rightarrow>
          if readyAtMs e \<le> now
          then (case pq_pop entry_before heap of
              None \<Rightarrow> (ready, heap)
            | Some heap' \<Rightarrow> drain_loop now heap' (ready @ [de_item e]))
          else (ready, heap))"
  by pat_completeness auto
termination
proof (relation "measure (\<lambda>(now, heap, ready). length heap)"; clarsimp)
  fix heap heap' :: "DelayedEntry list" and e
  assume "pq_top heap = Some e" "pq_pop entry_before heap = Some heap'"
  then show "length heap' < length heap"
    using pq_pop_shorter [of heap entry_before] by (auto simp: pq_top_def split: if_splits)
qed

declare drain_loop.simps [simp del]

definition drainReady :: "int \<Rightarrow> DelayedEntry list \<Rightarrow> FrontierItem list \<times> DelayedEntry list" where
  "drainReady now heap = drain_loop now heap []"

interpretation delays: strict_priority entry_before
  by unfold_locales (auto simp: entry_before_def)

lemma drain_loop_spec:
  assumes "heap_inv entry_before heap"
  shows "\<exists>out rest. drain_loop now heap ready = (ready @ map de_item out, rest) \<and> heap_inv entry_before rest
     \<and> mset heap = mset out + mset rest
     \<and> sorted_wrt (\<lambda>a b. readyAtMs a \<le> readyAtMs b) out
     \<and> (\<forall>e \<in> set out. readyAtMs e \<le> now) \<and> (\<forall>e \<in> set rest. now < readyAtMs e)"
  using assms
proof (induction now heap ready rule: drain_loop.induct)
  case (1 now heap ready)
  show ?case
  proof (cases "heap = []")
    case True
    then show ?thesis using 1(2) by (auto simp: drain_loop.simps [of now "[]"] pq_top_def)
  next
    case False
    then have top: "pq_top heap = Some (heap ! 0)" by (simp add: pq_top_def)
    obtain ys where ys: "pq_pop entry_before heap = Some ys" "heap_inv entry_before ys"
      "mset heap = add_mset (heap ! 0) (mset ys)" "\<forall>y \<in> set ys. \<not> entry_before y (heap ! 0)"
      using delays.extract_spec [OF 1(2) False] by blast
    have order: "\<forall>y \<in> set ys. readyAtMs (heap ! 0) \<le> readyAtMs y" using ys(4) by (auto simp: entry_before_def)
    show ?thesis
    proof (cases "readyAtMs (heap ! 0) \<le> now")
      case True
      obtain out rest where o: "drain_loop now ys (ready @ [de_item (heap ! 0)]) = ((ready @ [de_item (heap ! 0)]) @ map de_item out, rest)"
        "heap_inv entry_before rest" "mset ys = mset out + mset rest" "sorted_wrt (\<lambda>a b. readyAtMs a \<le> readyAtMs b) out"
        "\<forall>e \<in> set out. readyAtMs e \<le> now" "\<forall>e \<in> set rest. now < readyAtMs e"
        using 1(1) [OF top True ys(1,2)] by blast
      have "set out \<subseteq> set ys" using o(3) by (metis set_mset_mset set_mset_union Un_upper1)
      then have "sorted_wrt (\<lambda>a b. readyAtMs a \<le> readyAtMs b) (heap ! 0 # out)" using o(4) order by auto
      moreover have "drain_loop now heap ready = (ready @ map de_item (heap ! 0 # out), rest)"
        using top True ys(1) o(1) by (simp add: drain_loop.simps [of now heap])
      ultimately show ?thesis using o ys(3) True by (intro exI [of _ "heap ! 0 # out"] exI [of _ rest]) simp
    next
      case late: False
      have "set heap = insert (heap ! 0) (set ys)" using ys(3) by (metis set_mset_add_mset_insert set_mset_mset)
      then have "\<forall>e \<in> set heap. now < readyAtMs e" using late order by auto
      moreover have "drain_loop now heap ready = (ready, heap)" using top late by (simp add: drain_loop.simps [of now heap])
      ultimately show ?thesis using 1(2) by (intro exI [of _ "[]"] exI [of _ heap]) simp
    qed
  qed
qed

text \<open>Whatever was pushed: \<open>drainReady\<close> hands out exactly the items that are ready by now, the earliest first,
  and keeps the others.\<close>

theorem drainReady_spec:
  "let heap = fold (\<lambda>(item, t). dly_push item t) pushes []; (ready, rest) = drainReady now heap
   in (\<exists>out. ready = map de_item out \<and> sorted_wrt (\<lambda>a b. readyAtMs a \<le> readyAtMs b) out
        \<and> mset out = mset (filter (\<lambda>e. readyAtMs e \<le> now) (map (\<lambda>(item, t). \<lparr>de_item = item, readyAtMs = t\<rparr>) pushes)))
      \<and> mset rest = mset (filter (\<lambda>e. now < readyAtMs e) (map (\<lambda>(item, t). \<lparr>de_item = item, readyAtMs = t\<rparr>) pushes))
      \<and> dly_size rest + length ready = length pushes"
proof -
  let ?entries = "map (\<lambda>(item, t). \<lparr>de_item = item, readyAtMs = t\<rparr>) pushes"
  define heap where "heap = fold (\<lambda>(item, t). dly_push item t) pushes []"
  have "fold (\<lambda>(item, t). dly_push item t) pushes h = fold (pq_push entry_before) ?entries h" for h
    by (induction pushes arbitrary: h) (auto simp: dly_push_def)
  then have heap: "heap_inv entry_before heap" "mset heap = mset ?entries"
    using pushes_heap [OF delays.strict_priority_axioms, of "[]" ?entries] by (simp_all add: heap_def heap_inv_def)
  obtain out rest where o: "drainReady now heap = (map de_item out, rest)" "mset heap = mset out + mset rest"
    "sorted_wrt (\<lambda>a b. readyAtMs a \<le> readyAtMs b) out" "\<forall>e \<in> set out. readyAtMs e \<le> now" "\<forall>e \<in> set rest. now < readyAtMs e"
    using drain_loop_spec [OF heap(1), of now "[]"] by (auto simp: drainReady_def)
  have all: "mset ?entries = mset out + mset rest" using heap(2) o(2) by simp
  have "filter_mset (\<lambda>e. readyAtMs e \<le> now) (mset out) = mset out" "filter_mset (\<lambda>e. readyAtMs e \<le> now) (mset rest) = {#}"
    "filter_mset (\<lambda>e. now < readyAtMs e) (mset out) = {#}" "filter_mset (\<lambda>e. now < readyAtMs e) (mset rest) = mset rest"
    using o(4,5) by (auto simp: filter_mset_eq_conv)
  then have split: "mset (filter (\<lambda>e. readyAtMs e \<le> now) ?entries) = mset out"
    "mset (filter (\<lambda>e. now < readyAtMs e) ?entries) = mset rest"
    unfolding mset_filter all by simp_all
  have "length ?entries = length out + length rest" using all by (metis size_mset size_union)
  then show ?thesis
    unfolding heap_def [symmetric] Let_def o(1) using o(3) split by (auto simp: dly_size_def)
qed

end
