(* ===== verification/Reservoir.thy ===== *)
theory Reservoir
  imports Complex_Main Prelude "HOL-Library.Multiset"
begin

text \<open>
  The reservoir of the frontier, \<open>Frontier::promoteReservoir\<close> of \<open>src/crawler/frontier.cpp\<close>: of a chunk of at most
  512 items from a moving cursor on, the best quarter leaves the reservoir. The items and their score are
  parameters here. An assignment to an element that the vector no longer has is \<open>None\<close>.
\<close>

record PromotionCandidate =
  pc_index :: nat
  pc_score :: rat

definition frontierReservoirSweepChunkSize :: nat where
  "frontierReservoirSweepChunkSize = 512"

definition frontierReservoirPromotionPercent :: nat where
  "frontierReservoirPromotionPercent = 25"

definition worst_winner :: "PromotionCandidate list \<Rightarrow> nat" where
  "worst_winner winners =
     fold (\<lambda>i w. if pc_score (winners ! i) < pc_score (winners ! w) then i else w) [1..<length winners] 0"

definition consider_candidate :: "nat \<Rightarrow> PromotionCandidate \<Rightarrow> PromotionCandidate list \<Rightarrow> PromotionCandidate list" where
  "consider_candidate winnersToKeep candidate winners =
     (if length winners < winnersToKeep then winners @ [candidate]
      else let worstWinnerIndex = worst_winner winners
           in if pc_score candidate > pc_score (winners ! worstWinnerIndex)
              then winners[worstWinnerIndex := candidate] else winners)"

definition pick_winners :: "('a \<Rightarrow> rat) \<Rightarrow> 'a list \<Rightarrow> nat \<Rightarrow> nat \<Rightarrow> nat \<Rightarrow> PromotionCandidate list" where
  "pick_winners score reservoir cursor scannedCount winnersToKeep =
     fold (\<lambda>offset winners.
         let index = (cursor + offset) mod length reservoir
         in consider_candidate winnersToKeep \<lparr>pc_index = index, pc_score = score (reservoir ! index)\<rparr> winners)
       [0..<scannedCount] []"

text \<open>One removal: the last element takes the place of the removed one.\<close>

definition swap_remove :: "nat \<Rightarrow> 'a list \<Rightarrow> 'a list option" where
  "swap_remove index reservoir =
     (if index + 1 \<noteq> length reservoir
      then (if index < length reservoir then Some (butlast (reservoir[index := last reservoir])) else None)
      else Some (butlast reservoir))"

definition max_winner :: "PromotionCandidate list \<Rightarrow> nat" where
  "max_winner winners =
     fold (\<lambda>i w. if pc_index (winners ! i) > pc_index (winners ! w) then i else w) [1..<length winners] 0"

text \<open>The two loops that remove the winners: from the largest index on, and from the last winner on.\<close>

function remove_largest_first :: "PromotionCandidate list \<Rightarrow> 'a list \<Rightarrow> 'a list option" where
  "remove_largest_first winners reservoir =
     (if winners = [] then Some reservoir
      else let maxIndexPos = max_winner winners;
               index = pc_index (winners ! maxIndexPos)
           in case swap_remove index reservoir of
                None \<Rightarrow> None
              | Some reservoir' \<Rightarrow>
                  remove_largest_first
                    (butlast (if maxIndexPos + 1 \<noteq> length winners
                              then winners[maxIndexPos := winners ! (length winners - 1)] else winners))
                    reservoir')"
  by pat_completeness auto
termination
  by (relation "measure (length \<circ> fst)") auto

function remove_last_first :: "PromotionCandidate list \<Rightarrow> 'a list \<Rightarrow> 'a list option" where
  "remove_last_first winners reservoir =
     (if winners = [] then Some reservoir
      else case swap_remove (pc_index (winners ! (length winners - 1))) reservoir of
          None \<Rightarrow> None
        | Some reservoir' \<Rightarrow> remove_last_first (butlast winners) reservoir')"
  by pat_completeness auto
termination
  by (relation "measure (length \<circ> fst)") auto

declare remove_largest_first.simps [simp del] remove_last_first.simps [simp del]

definition winners_to_keep :: "nat \<Rightarrow> nat" where
  "winners_to_keep scannedCount =
     (let w = (scannedCount * frontierReservoirPromotionPercent + 99) div 100;
          w = (if w = 0 then 1 else w)
      in if w > scannedCount then scannedCount else w)"

text \<open>One round of the loop: the promoted items, the reservoir and the cursor after it.\<close>

definition promote_chunk :: "('a \<Rightarrow> rat) \<Rightarrow> 'a list \<Rightarrow> nat \<Rightarrow> ('a list \<times> 'a list \<times> nat) option" where
  "promote_chunk score reservoir cursor0 =
     (let cursor = (if cursor0 \<ge> length reservoir then 0 else cursor0);
          scannedCount = (if length reservoir < frontierReservoirSweepChunkSize then length reservoir
                          else frontierReservoirSweepChunkSize);
          winners = pick_winners score reservoir cursor scannedCount (winners_to_keep scannedCount);
          promotedItems = map (\<lambda>w. reservoir ! pc_index w) winners;
          nextSweepCursor = (cursor + scannedCount) mod length reservoir;
          scannedChunkTouchesReservoirTail = (scannedCount = length reservoir \<or> cursor + scannedCount > length reservoir)
      in case (if scannedChunkTouchesReservoirTail then remove_largest_first winners reservoir
               else remove_last_first winners reservoir) of
           None \<Rightarrow> None
         | Some reservoir' \<Rightarrow>
             Some (promotedItems, reservoir', if reservoir' \<noteq> [] then nextSweepCursor mod length reservoir' else 0))"

subsection \<open>Winners\<close>

lemma fold_index_less:
  "0 < n \<Longrightarrow> fold (\<lambda>i w. if P i w then i else w) [1..<n] 0 < (n :: nat)"
proof -
  assume "0 < n"
  have "fold (\<lambda>i w. if P i w then i else w) [1..<m] 0 < n" if "m \<le> n" for m
    using that by (induction m) (auto simp: \<open>0 < n\<close>)
  then show ?thesis by simp
qed

lemma worst_winner_less: "winners \<noteq> [] \<Longrightarrow> worst_winner winners < length winners"
  unfolding worst_winner_def by (rule fold_index_less) simp

lemma max_winner_less: "winners \<noteq> [] \<Longrightarrow> max_winner winners < length winners"
  unfolding max_winner_def by (rule fold_index_less) simp

lemma max_winner_max:
  assumes "i < length winners"
  shows "pc_index (winners ! i) \<le> pc_index (winners ! max_winner winners)"
proof -
  let ?f = "fold (\<lambda>i w. if pc_index (winners ! i) > pc_index (winners ! w) then i else w)"
  have "\<forall>i < m. pc_index (winners ! i) \<le> pc_index (winners ! ?f [1..<m] 0)" if "0 < m" for m
    using that
  proof (induction m)
    case (Suc m)
    show ?case
    proof (cases "m = 0")
      case False
      then have ih: "\<forall>i < m. pc_index (winners ! i) \<le> pc_index (winners ! ?f [1..<m] 0)" using Suc.IH by simp
      have "?f [1..<Suc m] 0 = (if pc_index (winners ! m) > pc_index (winners ! ?f [1..<m] 0) then m else ?f [1..<m] 0)"
        using False by simp
      then show ?thesis using ih by (auto simp: less_Suc_eq intro: less_imp_le order.trans)
    qed simp
  qed simp
  moreover have "0 < length winners" using assms by linarith
  ultimately show ?thesis using assms unfolding max_winner_def by blast
qed

lemma length_consider: "length (consider_candidate k c ws) = (if length ws < k then Suc (length ws) else length ws)"
  by (simp add: consider_candidate_def Let_def)

lemma worst_winner_min:
  assumes "i < length winners"
  shows "pc_score (winners ! worst_winner winners) \<le> pc_score (winners ! i)"
proof -
  let ?f = "fold (\<lambda>i w. if pc_score (winners ! i) < pc_score (winners ! w) then i else w)"
  have "\<forall>i < m. pc_score (winners ! ?f [1..<m] 0) \<le> pc_score (winners ! i)" if "0 < m" for m
    using that
  proof (induction m)
    case (Suc m)
    show ?case
    proof (cases "m = 0")
      case False
      then have ih: "\<forall>i < m. pc_score (winners ! ?f [1..<m] 0) \<le> pc_score (winners ! i)" using Suc.IH by simp
      have "?f [1..<Suc m] 0 = (if pc_score (winners ! m) < pc_score (winners ! ?f [1..<m] 0) then m else ?f [1..<m] 0)"
        using False by simp
      then show ?thesis using ih by (auto simp: less_Suc_eq not_less intro: less_imp_le order.trans)
    qed simp
  qed simp
  moreover have "0 < length winners" using assms by linarith
  ultimately show ?thesis using assms unfolding worst_winner_def by blast
qed

text \<open>\<open>best_of_seen k ws n idx s\<close>: after \<open>n\<close> candidates the winners are the \<open>k\<close> best of them, at different indices.\<close>

definition best_of_seen :: "nat \<Rightarrow> PromotionCandidate list \<Rightarrow> nat \<Rightarrow> (nat \<Rightarrow> nat) \<Rightarrow> (nat \<Rightarrow> rat) \<Rightarrow> bool" where
  "best_of_seen k ws n idx s \<longleftrightarrow> length ws = min k n \<and> distinct (map pc_index ws)
     \<and> (\<forall>w \<in> set ws. \<exists>i < n. w = \<lparr>pc_index = idx i, pc_score = s i\<rparr>)
     \<and> (\<forall>i < n. idx i \<notin> set (map pc_index ws) \<longrightarrow> (\<forall>w \<in> set ws. s i \<le> pc_score w))"

lemma consider_best:
  assumes "0 < k" and "inj_on idx {..<Suc n}" and "best_of_seen k ws n idx s"
  shows "best_of_seen k (consider_candidate k \<lparr>pc_index = idx n, pc_score = s n\<rparr> ws) (Suc n) idx s"
proof -
  let ?c = "\<lparr>pc_index = idx n, pc_score = s n\<rparr>"
  have len: "length ws = min k n" and dist: "distinct (map pc_index ws)"
    and from_seen: "\<And>w. w \<in> set ws \<Longrightarrow> \<exists>i < n. w = \<lparr>pc_index = idx i, pc_score = s i\<rparr>"
    and best: "\<And>i w. i < n \<Longrightarrow> idx i \<notin> set (map pc_index ws) \<Longrightarrow> w \<in> set ws \<Longrightarrow> s i \<le> pc_score w"
    using assms(3) by (auto simp: best_of_seen_def)
  have new: "idx n \<notin> set (map pc_index ws)"
  proof
    assume "idx n \<in> set (map pc_index ws)"
    then obtain i where "i < n" "idx n = idx i" using from_seen by force
    then show False using assms(2) by (auto dest: inj_onD [where x = n])
  qed
  have seen: "\<exists>i < Suc n. w = \<lparr>pc_index = idx i, pc_score = s i\<rparr>" if "w = ?c \<or> w \<in> set ws" for w
    using that from_seen [of w] by (metis less_Suc_eq)
  show ?thesis
  proof (cases "length ws < k")
    case True
    then have "n < k" "length ws = n" using len by auto
    have "idx i \<in> set (map pc_index ws)" if "i < n" for i
    proof -
      have "set (map pc_index ws) \<subseteq> idx ` {..<n}" using from_seen by force
      moreover have "card (set (map pc_index ws)) = n" using dist \<open>length ws = n\<close> by (metis distinct_card length_map)
      moreover have "card (idx ` {..<n}) = n" using assms(2) by (simp add: card_image inj_on_def)
      ultimately have "set (map pc_index ws) = idx ` {..<n}" by (intro card_subset_eq) simp_all
      then show ?thesis using that by blast
    qed
    then show ?thesis
      using True dist new seen \<open>n < k\<close> \<open>length ws = n\<close>
      by (auto simp: best_of_seen_def consider_candidate_def less_Suc_eq)
  next
    case full: False
    then have k: "length ws = k" "k \<le> n" using len by auto
    then have ne: "ws \<noteq> []" using assms(1) by auto
    define m where "m = worst_winner ws"
    have m: "m < length ws" unfolding m_def by (rule worst_winner_less [OF ne])
    have low: "pc_score (ws ! m) \<le> pc_score w" if "w \<in> set ws" for w
      using that worst_winner_min [of _ ws] unfolding m_def by (metis in_set_conv_nth)
    show ?thesis
    proof (cases "pc_score ?c > pc_score (ws ! m)")
      case False
      then have "s i \<le> pc_score w" if "i < Suc n" "idx i \<notin> set (map pc_index ws)" "w \<in> set ws" for i w
        using best [of i w] low [OF that(3)] that by (cases "i = n") auto
      then show ?thesis
        using full False k dist seen by (auto simp: best_of_seen_def consider_candidate_def Let_def m_def)
    next
      case True
      define vs where "vs = ws[m := ?c]"
      have idx_vs: "map pc_index vs = (map pc_index ws)[m := idx n]" by (simp add: vs_def map_update)
      have "distinct (map pc_index vs)" unfolding idx_vs using dist new by (intro distinct_list_update) auto
      moreover have in_vs: "w = ?c \<or> w \<in> set ws" if "w \<in> set vs" for w
        using that set_update_subset_insert [of ws m ?c] by (auto simp: vs_def)
      moreover have "s i \<le> pc_score w" if i: "i < Suc n" "idx i \<notin> set (map pc_index vs)" "w \<in> set vs" for i w
      proof -
        have wide: "pc_score (ws ! m) \<le> pc_score w" using in_vs [OF i(3)] low True by auto
        have ne_n: "i \<noteq> n" using i(2) m by (auto simp: idx_vs set_update_memI)
        show ?thesis
        proof (cases "idx i \<in> set (map pc_index ws)")
          case False
          then have "s i \<le> pc_score (ws ! m)" using best [of i "ws ! m"] i(1) ne_n m by simp
          then show ?thesis using wide by simp
        next
          case old: True
          then obtain j where j: "j < length ws" "pc_index (ws ! j) = idx i" by (auto simp: in_set_conv_nth)
          have "j = m"
          proof (rule ccontr)
            assume "j \<noteq> m"
            then have "vs ! j = ws ! j" "j < length vs" using j by (simp_all add: vs_def)
            then show False using i(2) j(2) by (metis length_map nth_map nth_mem)
          qed
          then obtain i' where "i' < n" "ws ! m = \<lparr>pc_index = idx i', pc_score = s i'\<rparr>" using from_seen [of "ws ! m"] m by auto
          then have "i' = i" using j(2) \<open>j = m\<close> i(1) assms(2) by (auto dest: inj_onD)
          then show ?thesis using wide \<open>ws ! m = _\<close> by simp
        qed
      qed
      ultimately have "best_of_seen k vs (Suc n) idx s" using k seen by (auto simp: best_of_seen_def vs_def)
      then show ?thesis using full True by (simp add: consider_candidate_def Let_def m_def vs_def)
    qed
  qed
qed

lemma fold_best:
  assumes "0 < k" and "inj_on idx {..<n}"
  shows "best_of_seen k (fold (\<lambda>i. consider_candidate k \<lparr>pc_index = idx i, pc_score = s i\<rparr>) [0..<n] []) n idx s"
  using assms(2)
proof (induction n)
  case 0
  then show ?case by (simp add: best_of_seen_def)
next
  case (Suc n)
  then have "inj_on idx {..<n}" by (auto intro: inj_on_subset)
  then show ?case using consider_best [OF assms(1) Suc.prems] Suc.IH by simp
qed

subsection \<open>Removal\<close>

lemma swap_remove_ok:
  assumes "index < length r"
  shows "\<exists>r'. swap_remove index r = Some r' \<and> length r' = length r - 1 \<and> mset r = add_mset (r ! index) (mset r')
     \<and> (\<forall>j < length r'. j \<noteq> index \<longrightarrow> r' ! j = r ! j)"
proof -
  obtain xs x where r: "r = xs @ [x]" using assms by (cases r rule: rev_cases) auto
  show ?thesis
  proof (cases "index + 1 = length r")
    case True
    then show ?thesis using r by (auto simp: swap_remove_def nth_append)
  next
    case False
    then have i: "index < length xs" using assms r by simp
    have "mset (xs[index := x]) = add_mset x (mset xs - {#xs ! index#})" using i by (rule mset_update)
    then have "add_mset (xs ! index) (mset (xs[index := x])) = add_mset x (mset xs)" using i by simp
    moreover have "butlast (r[index := last r]) = xs[index := x]" using i r by (simp add: list_update_append1)
    ultimately show ?thesis using i r False by (auto simp: swap_remove_def nth_append)
  qed
qed

definition removed_items :: "PromotionCandidate list \<Rightarrow> 'a list \<Rightarrow> 'a list" where
  "removed_items winners r = map (\<lambda>w. r ! pc_index w) winners"

lemma removed_items_cong:
  "(\<And>w. w \<in> set ws \<Longrightarrow> r' ! pc_index w = r ! pc_index w) \<Longrightarrow> removed_items ws r' = removed_items ws r"
  by (simp add: removed_items_def)

lemma remove_largest_first_ok:
  "distinct (map pc_index ws) \<Longrightarrow> \<forall>w \<in> set ws. pc_index w < length r
     \<Longrightarrow> \<exists>r'. remove_largest_first ws r = Some r' \<and> mset r = mset (removed_items ws r) + mset r'"
proof (induction "length ws" arbitrary: ws r)
  case 0
  then show ?case by (simp add: remove_largest_first.simps [of "[]"] removed_items_def)
next
  case (Suc n)
  then have ne: "ws \<noteq> []" by auto
  define p where "p = max_winner ws"
  have p: "p < length ws" unfolding p_def by (rule max_winner_less [OF ne])
  let ?i = "pc_index (ws ! p)"
  have largest: "pc_index w \<le> ?i" if "w \<in> set ws" for w
    using that max_winner_max [of _ ws] by (auto simp: p_def in_set_conv_nth)
  have i: "?i < length r" using Suc.prems(2) p by simp
  obtain r' where r': "swap_remove ?i r = Some r'" "length r' = length r - 1" "mset r = add_mset (r ! ?i) (mset r')"
    "\<forall>j < length r'. j \<noteq> ?i \<longrightarrow> r' ! j = r ! j" using swap_remove_ok [OF i] by blast
  define ws' where "ws' = butlast (if p + 1 \<noteq> length ws then ws[p := ws ! (length ws - 1)] else ws)"
  have split: "mset ws = add_mset (ws ! p) (mset ws')"
  proof -
    obtain xs x where ws: "ws = xs @ [x]" using ne by (cases ws rule: rev_cases) auto
    show ?thesis
    proof (cases "p + 1 = length ws")
      case True
      then show ?thesis using ws by (simp add: ws'_def nth_append)
    next
      case False
      then have "p < length xs" using p ws by simp
      then show ?thesis using False ws by (simp add: ws'_def list_update_append1 nth_append mset_update)
    qed
  qed
  have dist: "distinct (map pc_index ws')" "?i \<notin> set (map pc_index ws')"
  proof -
    have "mset (map pc_index ws) = mset (?i # map pc_index ws')" using split by simp
    then have "distinct (?i # map pc_index ws')" using Suc.prems(1) by (metis mset_eq_imp_distinct_iff)
    then show "distinct (map pc_index ws')" "?i \<notin> set (map pc_index ws')" by simp_all
  qed
  have sub: "w \<in> set ws" if "w \<in> set ws'" for w using that split by (metis insert_iff set_mset_add_mset_insert set_mset_mset)
  have small: "pc_index w < ?i" if "w \<in> set ws'" for w
    using largest [OF sub [OF that]] dist(2) that by (metis image_eqI le_neq_implies_less set_map)
  have "length ws' = n" using split Suc.hyps(2) by (metis diff_Suc_1 size_add_mset size_mset)
  moreover have "\<forall>w \<in> set ws'. pc_index w < length r'" using small i r'(2) by fastforce
  ultimately obtain r'' where r'': "remove_largest_first ws' r' = Some r''" "mset r' = mset (removed_items ws' r') + mset r''"
    using Suc.hyps(1) [of ws' r'] dist(1) by auto
  have "removed_items ws' r' = removed_items ws' r"
  proof (rule removed_items_cong)
    fix w assume "w \<in> set ws'"
    then have "pc_index w < ?i" by (rule small)
    then show "r' ! pc_index w = r ! pc_index w" using r'(2,4) i by auto
  qed
  moreover have "mset (removed_items ws r) = add_mset (r ! ?i) (mset (removed_items ws' r))"
    using split by (simp add: removed_items_def)
  moreover have "remove_largest_first ws r = Some r''"
    unfolding remove_largest_first.simps [of ws r] Let_def p_def [symmetric] r'(1) option.case ws'_def [symmetric]
    using ne r''(1) by simp
  ultimately show ?case using r'(3) r''(2) by simp
qed

lemma remove_last_first_ok:
  "distinct (map pc_index ws) \<Longrightarrow> \<forall>w \<in> set ws. pc_index w + length ws \<le> length r
     \<Longrightarrow> \<exists>r'. remove_last_first ws r = Some r' \<and> mset r = mset (removed_items ws r) + mset r'"
proof (induction ws arbitrary: r rule: rev_induct)
  case Nil
  then show ?case by (simp add: remove_last_first.simps [of "[]"] removed_items_def)
next
  case (snoc w ws)
  have w: "pc_index w < length r" using snoc.prems(2) by auto
  obtain r' where r': "swap_remove (pc_index w) r = Some r'" "length r' = length r - 1"
    "mset r = add_mset (r ! pc_index w) (mset r')" "\<forall>j < length r'. j \<noteq> pc_index w \<longrightarrow> r' ! j = r ! j"
    using swap_remove_ok [OF w] by blast
  have fits: "\<forall>v \<in> set ws. pc_index v + length ws \<le> length r'" using snoc.prems(2) r'(2) by auto
  then obtain r'' where r'': "remove_last_first ws r' = Some r''" "mset r' = mset (removed_items ws r') + mset r''"
    using snoc.IH [of r'] snoc.prems(1) by auto
  have "removed_items ws r' = removed_items ws r"
  proof (rule removed_items_cong)
    fix v assume v: "v \<in> set ws"
    then have "0 < length ws" by (cases ws) auto
    moreover have "pc_index v + length ws \<le> length r'" using fits v by blast
    ultimately have "pc_index v < length r'" by linarith
    moreover have "pc_index w \<notin> pc_index ` set ws" using snoc.prems(1) by simp
    then have "pc_index v \<noteq> pc_index w" using v by (metis imageI)
    ultimately show "r' ! pc_index v = r ! pc_index v" using r'(4) by blast
  qed
  moreover have "remove_last_first (ws @ [w]) r = Some r''"
    using r'(1) r''(1) by (simp add: remove_last_first.simps [of "ws @ [w]" r])
  moreover have "removed_items (ws @ [w]) r = removed_items ws r @ [r ! pc_index w]" by (simp add: removed_items_def)
  ultimately show ?case using r'(3) r''(2) by simp
qed

lemma length_swap_remove: "swap_remove i r = Some r' \<Longrightarrow> length r' + 1 = length r"
  by (auto simp: swap_remove_def split: if_splits)

lemma length_remove_last_first: "remove_last_first ws r = Some r' \<Longrightarrow> length r' + length ws = length r"
proof (induction ws arbitrary: r rule: rev_induct)
  case Nil
  then show ?case by (simp add: remove_last_first.simps [of "[]"])
next
  case (snoc w ws)
  then obtain r1 where r1: "swap_remove (pc_index w) r = Some r1" "remove_last_first ws r1 = Some r'"
    by (auto simp: remove_last_first.simps [of "ws @ [w]" r] split: option.splits)
  then show ?case using snoc.IH [OF r1(2)] length_swap_remove [OF r1(1)] by simp
qed

lemma length_remove_largest_first: "remove_largest_first ws r = Some r' \<Longrightarrow> length r' + length ws = length r"
proof (induction "length ws" arbitrary: ws r)
  case 0
  then show ?case by (simp add: remove_largest_first.simps [of "[]"])
next
  case (Suc n)
  then have ne: "ws \<noteq> []" by auto
  define p where "p = max_winner ws"
  define ws' where "ws' = butlast (if p + 1 \<noteq> length ws then ws[p := ws ! (length ws - 1)] else ws)"
  obtain r1 where r1: "swap_remove (pc_index (ws ! p)) r = Some r1" "remove_largest_first ws' r1 = Some r'"
    using Suc.prems ne unfolding remove_largest_first.simps [of ws r] Let_def p_def [symmetric] ws'_def [symmetric]
    by (simp split: option.splits)
  have "length ws' = n" using Suc.hyps(2) [symmetric] by (simp add: ws'_def)
  then show ?case using Suc.hyps(1) [OF _ r1(2)] Suc.hyps(2) length_swap_remove [OF r1(1)] by simp
qed

text \<open>A removal that stays inside of the vector loses nothing, whatever the order.\<close>

lemma remove_last_first_inside: "remove_last_first ws r = Some r' \<Longrightarrow> w \<in> set ws \<Longrightarrow> pc_index w < length r"
proof (induction ws arbitrary: r rule: rev_induct)
  case (snoc v ws)
  then obtain r1 where r1: "swap_remove (pc_index v) r = Some r1" "remove_last_first ws r1 = Some r'"
    by (auto simp: remove_last_first.simps [of "ws @ [v]" r] split: option.splits)
  then show ?case using snoc.IH [OF r1(2)] snoc.prems(2) length_swap_remove [OF r1(1)]
    by (auto simp: swap_remove_def split: if_splits)
qed simp

lemma remove_last_first_conserves:
  "remove_last_first ws r = Some r' \<Longrightarrow> distinct (map pc_index ws) \<Longrightarrow> mset r = mset (removed_items ws r) + mset r'"
proof (induction ws arbitrary: r rule: rev_induct)
  case Nil
  then show ?case by (simp add: remove_last_first.simps [of "[]"] removed_items_def)
next
  case (snoc w ws)
  have w: "pc_index w < length r" using remove_last_first_inside [OF snoc.prems(1), of w] by simp
  obtain r1 where r1: "swap_remove (pc_index w) r = Some r1" "remove_last_first ws r1 = Some r'"
    using snoc.prems(1) by (auto simp: remove_last_first.simps [of "ws @ [w]" r] split: option.splits)
  have sw: "length r1 = length r - 1" "mset r = add_mset (r ! pc_index w) (mset r1)"
    "\<forall>j < length r1. j \<noteq> pc_index w \<longrightarrow> r1 ! j = r ! j" using swap_remove_ok [OF w] r1(1) by auto
  have "mset r1 = mset (removed_items ws r1) + mset r'" using snoc.IH [OF r1(2)] snoc.prems(2) by simp
  moreover have "removed_items ws r1 = removed_items ws r"
  proof (rule removed_items_cong)
    fix v assume v: "v \<in> set ws"
    have "pc_index w \<notin> pc_index ` set ws" using snoc.prems(2) by simp
    then have "pc_index v \<noteq> pc_index w" using v by (metis imageI)
    then show "r1 ! pc_index v = r ! pc_index v" using sw(3) remove_last_first_inside [OF r1(2) v] by blast
  qed
  moreover have "removed_items (ws @ [w]) r = removed_items ws r @ [r ! pc_index w]" by (simp add: removed_items_def)
  ultimately show ?case using sw(2) by simp
qed

subsection \<open>One round\<close>

definition scan_count :: "'a list \<Rightarrow> nat" where
  "scan_count r = min (length r) frontierReservoirSweepChunkSize"

definition scan_start :: "'a list \<Rightarrow> nat \<Rightarrow> nat" where
  "scan_start r cursor = (if cursor \<ge> length r then 0 else cursor)"

text \<open>The chunk reaches the end of the vector, or stays away from it by the number of its winners.\<close>

definition safe_chunk :: "'a list \<Rightarrow> nat \<Rightarrow> bool" where
  "safe_chunk r cursor \<longleftrightarrow>
     (let c = scan_start r cursor; n = scan_count r
      in n = length r \<or> c + n > length r \<or> c + n + winners_to_keep n \<le> length r + 1)"

lemma winners_to_keep_bounds: "0 < n \<Longrightarrow> 0 < winners_to_keep n \<and> winners_to_keep n \<le> n"
  by (simp add: winners_to_keep_def Let_def)

lemma inj_mod_offset: "n \<le> length r \<Longrightarrow> inj_on (\<lambda>i. (c + i) mod length r) {..<n}"
  by (rule inj_onI) (auto intro: mod_shift_inj)

lemma pick_winners_best:
  fixes r cursor
  defines "c \<equiv> scan_start r cursor" and "n \<equiv> scan_count r"
  assumes "r \<noteq> []"
  shows "best_of_seen (winners_to_keep n) (pick_winners score r c n (winners_to_keep n)) n
           (\<lambda>i. (c + i) mod length r) (\<lambda>i. score (r ! ((c + i) mod length r)))"
proof -
  have "0 < winners_to_keep n" "n \<le> length r"
    using assms(3) winners_to_keep_bounds [of n] by (simp_all add: n_def scan_count_def frontierReservoirSweepChunkSize_def)
  then show ?thesis
    using fold_best [of "winners_to_keep n" "\<lambda>i. (c + i) mod length r" n] inj_mod_offset [of n r c]
    by (simp add: pick_winners_def Let_def)
qed

lemma scan_bounds:
  "r \<noteq> [] \<Longrightarrow> scan_start r cursor < length r \<and> 0 < scan_count r \<and> scan_count r \<le> length r"
  by (simp add: scan_start_def scan_count_def frontierReservoirSweepChunkSize_def)

lemma promote_chunk_eq:
  "promote_chunk score r cursor =
     (let c = scan_start r cursor; n = scan_count r; ws = pick_winners score r c n (winners_to_keep n)
      in case (if n = length r \<or> c + n > length r then remove_largest_first ws r else remove_last_first ws r) of
           None \<Rightarrow> None
         | Some r' \<Rightarrow> Some (removed_items ws r, r', if r' \<noteq> [] then (c + n) mod length r mod length r' else 0))"
proof -
  have "(if length r < frontierReservoirSweepChunkSize then length r else frontierReservoirSweepChunkSize) = scan_count r"
    by (simp add: scan_count_def min_def)
  moreover have "(if cursor \<ge> length r then 0 else cursor) = scan_start r cursor" by (simp add: scan_start_def)
  ultimately show ?thesis unfolding promote_chunk_def Let_def removed_items_def by (simp only:)
qed

lemma promote_chunk_ok:
  assumes "r \<noteq> []" and "safe_chunk r cursor"
  shows "\<exists>ws r' cursor'. promote_chunk score r cursor = Some (removed_items ws r, r', cursor')
     \<and> mset r = mset (removed_items ws r) + mset r' \<and> ws \<noteq> [] \<and> length ws = winners_to_keep (scan_count r)
     \<and> (r' \<noteq> [] \<longrightarrow> cursor' < length r')
     \<and> best_of_seen (winners_to_keep (scan_count r)) ws (scan_count r)
          (\<lambda>i. (scan_start r cursor + i) mod length r) (\<lambda>i. score (r ! ((scan_start r cursor + i) mod length r)))"
proof -
  let ?c = "scan_start r cursor" and ?n = "scan_count r"
  let ?k = "winners_to_keep ?n"
  define ws where "ws = pick_winners score r ?c ?n ?k"
  note b = scan_bounds [OF assms(1), of cursor]
  have k: "0 < ?k" "?k \<le> ?n" using winners_to_keep_bounds [of ?n] b by simp_all
  have best: "best_of_seen ?k ws ?n (\<lambda>i. (?c + i) mod length r) (\<lambda>i. score (r ! ((?c + i) mod length r)))"
    unfolding ws_def by (rule pick_winners_best [OF assms(1)])
  then have len: "length ws = ?k" and dist: "distinct (map pc_index ws)"
    and idx: "\<And>w. w \<in> set ws \<Longrightarrow> \<exists>i < ?n. pc_index w = (?c + i) mod length r"
    using k by (auto simp: best_of_seen_def min_def) fastforce
  have in_r: "\<forall>w \<in> set ws. pc_index w < length r" using idx assms(1) by fastforce
  obtain r' where r': "(if ?n = length r \<or> ?c + ?n > length r then remove_largest_first ws r else remove_last_first ws r) = Some r'"
    "mset r = mset (removed_items ws r) + mset r'"
  proof (cases "?n = length r \<or> ?c + ?n > length r")
    case True
    then show ?thesis using that remove_largest_first_ok [OF dist in_r] by auto
  next
    case False
    then have far: "?c + ?n + ?k \<le> length r + 1" "?c + ?n \<le> length r" using assms(2) by (auto simp: safe_chunk_def Let_def)
    have "pc_index w + length ws \<le> length r" if w: "w \<in> set ws" for w
    proof -
      obtain i where i: "i < ?n" "pc_index w = (?c + i) mod length r" using idx [OF w] by blast
      then have "pc_index w = ?c + i" using far(2) by simp
      then show ?thesis using i(1) far(1) len by linarith
    qed
    then have "\<forall>w \<in> set ws. pc_index w + length ws \<le> length r" by blast
    then obtain r' where "remove_last_first ws r = Some r'" "mset r = mset (removed_items ws r) + mset r'"
      using remove_last_first_ok [OF dist, of r] by blast
    then show ?thesis using that False by simp
  qed
  have "ws \<noteq> []" using len k by auto
  moreover have "promote_chunk score r cursor =
      Some (removed_items ws r, r', if r' \<noteq> [] then (?c + ?n) mod length r mod length r' else 0)"
    unfolding promote_chunk_eq Let_def ws_def [symmetric] r'(1) by simp
  ultimately show ?thesis using r'(2) len best by (intro exI [of _ ws] exI [of _ r']) auto
qed

lemma promote_chunk_shorter:
  assumes "promote_chunk score r cursor = Some (promoted, r', cursor')" and "r \<noteq> []"
  shows "length r' < length r"
proof -
  define ws where "ws = pick_winners score r (scan_start r cursor) (scan_count r) (winners_to_keep (scan_count r))"
  have "0 < length ws"
    using pick_winners_best [OF assms(2), of score cursor] winners_to_keep_bounds [of "scan_count r"]
      scan_bounds [OF assms(2), of cursor] by (auto simp: best_of_seen_def ws_def)
  moreover have "length r' + length ws = length r"
    using assms(1) length_remove_last_first [of ws r] length_remove_largest_first [of ws r]
    unfolding promote_chunk_eq Let_def ws_def [symmetric] by (auto split: option.splits if_splits)
  ultimately show ?thesis by linarith
qed

lemma promote_chunk_mset:
  assumes "promote_chunk score r cursor = Some (promoted, r', cursor')" and "r \<noteq> []"
  shows "mset r = mset promoted + mset r'"
proof -
  let ?c = "scan_start r cursor" and ?n = "scan_count r"
  define ws where "ws = pick_winners score r ?c ?n (winners_to_keep ?n)"
  have best: "best_of_seen (winners_to_keep ?n) ws ?n (\<lambda>i. (?c + i) mod length r) (\<lambda>i. score (r ! ((?c + i) mod length r)))"
    unfolding ws_def by (rule pick_winners_best [OF assms(2)])
  then have dist: "distinct (map pc_index ws)" and in_r: "\<forall>w \<in> set ws. pc_index w < length r"
    using assms(2) by (auto simp: best_of_seen_def)
  have "promoted = removed_items ws r"
    "(if ?n = length r \<or> ?c + ?n > length r then remove_largest_first ws r else remove_last_first ws r) = Some r'"
    using assms(1) unfolding promote_chunk_eq Let_def ws_def [symmetric] by (auto split: option.splits)
  then show ?thesis
    using remove_largest_first_ok [OF dist in_r] remove_last_first_conserves [of ws r r', OF _ dist] by (auto split: if_splits)
qed

text \<open>A round of the promotion takes the best quarter of its chunk out of the reservoir and loses nothing,
  when the chunk reaches the end of the vector or stays away from it by the number of its winners: the
  promoted items and what is left are the reservoir, and no item of the chunk that stays scores higher than
  a promoted one.\<close>

theorem promote_chunk_conserves:
  assumes "r \<noteq> []" and "safe_chunk r cursor"
  shows "\<exists>promoted r' cursor'. promote_chunk score r cursor = Some (promoted, r', cursor')
     \<and> mset r = mset promoted + mset r' \<and> length promoted = winners_to_keep (scan_count r)
     \<and> (r' \<noteq> [] \<longrightarrow> cursor' < length r')
     \<and> (\<exists>chunk. length chunk = scan_count r \<and> mset promoted \<subseteq># mset chunk
          \<and> (\<forall>p \<in># mset promoted. \<forall>q \<in># mset chunk - mset promoted. score q \<le> score p))"
proof -
  let ?n = "scan_count r"
  let ?idx = "\<lambda>i. (scan_start r cursor + i) mod length r"
  obtain ws r' cursor' where p: "promote_chunk score r cursor = Some (removed_items ws r, r', cursor')"
    "mset r = mset (removed_items ws r) + mset r'" "length ws = winners_to_keep ?n" "r' \<noteq> [] \<longrightarrow> cursor' < length r'"
    and best: "best_of_seen (winners_to_keep ?n) ws ?n ?idx (\<lambda>i. score (r ! ?idx i))"
    using promote_chunk_ok [OF assms, of score] by blast
  define indices where "indices = map ?idx [0..<?n]"
  define won_indices where "won_indices = map pc_index ws"
  define chunk where "chunk = map (\<lambda>j. r ! j) indices"
  have inj: "inj_on ?idx {..<?n}" using scan_bounds [OF assms(1), of cursor] by (intro inj_mod_offset) simp
  have dist: "distinct (map pc_index ws)" and won: "\<forall>w \<in> set ws. \<exists>i < ?n. w = \<lparr>pc_index = ?idx i, pc_score = score (r ! ?idx i)\<rparr>"
    and rest: "\<forall>i < ?n. ?idx i \<notin> set (map pc_index ws) \<longrightarrow> (\<forall>w \<in> set ws. score (r ! ?idx i) \<le> pc_score w)"
    using best by (simp_all add: best_of_seen_def)
  have "distinct indices" using inj by (simp add: indices_def distinct_map atLeast0LessThan)
  then have all: "mset indices = mset_set (set indices)" by (simp add: mset_set_set)
  have won_all: "mset won_indices = mset_set (set won_indices)" unfolding won_indices_def mset_set_set [OF dist] ..
  have sub: "set won_indices \<subseteq> set indices" using won by (force simp: won_indices_def indices_def)
  then have le: "mset won_indices \<subseteq># mset indices"
    unfolding all won_all by (intro subset_imp_msubset_mset_set) simp_all
  have prom: "mset (removed_items ws r) = image_mset (\<lambda>j. r ! j) (mset won_indices)"
    by (simp add: removed_items_def won_indices_def multiset.map_comp comp_def)
  have "mset chunk = image_mset (\<lambda>j. r ! j) (mset indices)" by (simp add: chunk_def)
  then have chunk: "mset (removed_items ws r) \<subseteq># mset chunk"
    "mset chunk - mset (removed_items ws r) = image_mset (\<lambda>j. r ! j) (mset indices - mset won_indices)"
    using le by (simp_all add: prom image_mset_subseteq_mono image_mset_Diff)
  have "score q \<le> score p" if pq: "p \<in># mset (removed_items ws r)" "q \<in># mset chunk - mset (removed_items ws r)" for p q
  proof -
    obtain j where j: "j \<in># mset indices - mset won_indices" "q = r ! j" using pq(2) unfolding chunk(2) by auto
    then have "j \<in> set indices" "j \<notin> set won_indices"
      unfolding all won_all mset_set_Diff [OF finite_set sub, symmetric] by simp_all
    then obtain i where i: "i < ?n" "?idx i \<notin> set (map pc_index ws)" "q = r ! ?idx i"
      using j(2) by (auto simp: indices_def won_indices_def)
    obtain w where w: "w \<in> set ws" "p = r ! pc_index w" using pq(1) by (auto simp: removed_items_def)
    then have "pc_score w = score p" using won by fastforce
    moreover have "score (r ! ?idx i) \<le> pc_score w" using rest i w(1) by blast
    ultimately show ?thesis using i(3) by simp
  qed
  then show ?thesis
    using p chunk by (intro exI [of _ "removed_items ws r"] exI [of _ r'] exI [of _ cursor'] conjI exI [of _ chunk])
      (auto simp: removed_items_def chunk_def indices_def)
qed

theorem promote_chunk_conserves_witness:
  "\<exists>promoted r' cursor'. promote_chunk (\<lambda>x :: nat. of_nat x) [4, 9, 2, 7, 5] 3 = Some (promoted, r', cursor')
     \<and> mset promoted + mset r' = {#4, 9, 2, 7, 5#} \<and> length promoted = 2"
proof -
  have "safe_chunk [4, 9, 2, 7, 5 :: nat] 3"
    by (simp add: safe_chunk_def scan_count_def frontierReservoirSweepChunkSize_def)
  from promote_chunk_conserves [OF _ this, of "\<lambda>x. of_nat x"] show ?thesis
    by (auto simp: scan_count_def frontierReservoirSweepChunkSize_def winners_to_keep_def
        frontierReservoirPromotionPercent_def)
qed

subsection \<open>A chunk close to the end\<close>

text \<open>600 items, of which number 0 is a poor one, 1 to 127 are good and 511 is the best.\<close>

definition crowded_score :: "nat \<Rightarrow> rat" where
  "crowded_score x = (if x = 511 then 2 else if 1 \<le> x \<and> x \<le> 127 then 1 else 0)"

definition cand :: "nat \<Rightarrow> PromotionCandidate" where
  "cand x = \<lparr>pc_index = x, pc_score = crowded_score x\<rparr>"

lemma worst_winner_first:
  "winners \<noteq> [] \<Longrightarrow> \<forall>i < length winners. pc_score (winners ! 0) \<le> pc_score (winners ! i) \<Longrightarrow> worst_winner winners = 0"
proof -
  assume first: "\<forall>i < length winners. pc_score (winners ! 0) \<le> pc_score (winners ! i)"
  have "fold (\<lambda>i w. if pc_score (winners ! i) < pc_score (winners ! w) then i else w) [1..<m] 0 = 0"
    if "m \<le> length winners" for m
    using that
  proof (induction m)
    case (Suc m)
    then have "\<not> pc_score (winners ! m) < pc_score (winners ! 0)" using first by (simp add: not_less)
    then show ?case using Suc by simp
  qed simp
  then show ?thesis by (simp add: worst_winner_def)
qed

lemma fill_winners:
  "m \<le> k \<Longrightarrow> fold (\<lambda>i. consider_candidate k (cand i)) [0..<m] [] = map cand [0..<m]"
  by (induction m) (simp_all add: consider_candidate_def)

lemma poor_candidates:
  assumes "length ws = 128" and "worst_winner ws = 0" and "pc_score (ws ! 0) = 0" and "m \<le> 511"
  shows "fold (\<lambda>i. consider_candidate 128 (cand i)) [128..<m] ws = ws"
  using assms(4)
proof (induction m)
  case (Suc m)
  show ?case
  proof (cases "m < 128")
    case False
    then have "pc_score (cand m) = 0" using Suc.prems by (simp add: cand_def crowded_score_def)
    then have "consider_candidate 128 (cand m) ws = ws" using assms(1-3) by (simp add: consider_candidate_def)
    moreover have "fold (\<lambda>i. consider_candidate 128 (cand i)) [128..<m] ws = ws" using Suc by simp
    ultimately show ?thesis using False by simp
  qed simp
qed simp

lemma crowded_winners:
  "pick_winners crowded_score [0..<600] 0 512 128 = cand 511 # map cand [1..<128]"
proof -
  let ?f = "\<lambda>i. consider_candidate 128 (cand i)"
  let ?ws = "map cand [0..<128]"
  have "pick_winners crowded_score [0..<600] 0 512 128 = fold ?f [0..<512] []"
    unfolding pick_winners_def by (intro fold_cong) (simp_all add: cand_def Let_def del: upt_rec_numeral)
  also have "[0..<512] = [0..<128] @ [128..<511] @ [511 :: nat]"
    using upt_add_eq_append [of 0 128 384] upt_add_eq_append [of 128 511 1] by (simp del: upt_rec_numeral add: upt_rec [of 511 512])
  also have "fold ?f \<dots> [] = ?f 511 (fold ?f [128..<511] (fold ?f [0..<128] []))" by (simp del: upt_rec_numeral)
  also have "fold ?f [0..<128] [] = ?ws" by (rule fill_winners) simp
  also have w: "worst_winner ?ws = 0"
    by (rule worst_winner_first) (simp_all del: upt_rec_numeral add: cand_def crowded_score_def)
  have "fold ?f [128..<511] ?ws = ?ws"
    by (rule poor_candidates) (simp_all add: w del: upt_rec_numeral, simp add: cand_def crowded_score_def)
  also have "?f 511 ?ws = ?ws[0 := cand 511]"
    by (simp add: consider_candidate_def w del: upt_rec_numeral) (simp add: cand_def crowded_score_def)
  also have "\<dots> = cand 511 # map cand [1..<128]"
    by (simp add: upt_conv_Cons del: upt_rec_numeral)
  finally show ?thesis .
qed

text \<open>When the chunk ends short of the end of the vector by fewer items than it has winners, the removal can
  run off: with 600 items and the cursor at 0 the last assignment goes to an element that the vector no longer has.\<close>

theorem promote_chunk_runs_off:
  "\<not> safe_chunk [0..<600 :: nat] 0 \<and> promote_chunk crowded_score [0..<600] 0 = None"
proof
  have n: "scan_count [0..<600 :: nat] = 512" "winners_to_keep 512 = 128" "scan_start [0..<600 :: nat] 0 = 0"
    by (simp_all add: scan_count_def scan_start_def frontierReservoirSweepChunkSize_def winners_to_keep_def
        frontierReservoirPromotionPercent_def del: upt_rec_numeral)
  then show "\<not> safe_chunk [0..<600 :: nat] 0" by (simp add: safe_chunk_def Let_def del: upt_rec_numeral)
  let ?ws = "map cand [1..<128]"
  have last: "remove_last_first (w # ws) r = Option.bind (remove_last_first ws r) (\<lambda>r'. swap_remove (pc_index w) r')" for w ws r
    by (induction ws arbitrary: r rule: rev_induct)
      (auto simp: remove_last_first.simps [of "[]"] remove_last_first.simps [of "[w]"] remove_last_first.simps [of "w # _ @ [_]"]
        remove_last_first.simps [of "_ @ [_]"] nth_append split: option.splits)
  have "remove_last_first (cand 511 # ?ws) [0..<600 :: nat] = None"
  proof (cases "remove_last_first ?ws [0..<600 :: nat]")
    case (Some r')
    then have "length r' = 473" using length_remove_last_first [OF Some] by (simp del: upt_rec_numeral)
    then have "swap_remove 511 r' = None" by (simp add: swap_remove_def)
    then show ?thesis using Some by (simp add: last cand_def del: upt_rec_numeral)
  qed (simp add: last)
  then show "promote_chunk crowded_score [0..<600] 0 = None"
    by (simp add: promote_chunk_eq Let_def n crowded_winners del: upt_rec_numeral)
qed

end
