(* ===== verification/BufferedQueue.thy ===== *)
theory BufferedQueue
  imports Deque
begin

text \<open>
  \<open>Frontier::BufferedQueue\<close> of \<open>src/crawler/frontier.h\<close>: a queue on a vector, whose front moves forward and is
  compacted away now and then. What stands before \<open>frontIndex\<close> has been handed out. It provides the interface
  \<open>fifo\<close> of \<open>Deque\<close>. Reading past the end of the vector is \<open>None\<close>.
\<close>

record 'a BufferedQueue =
  storage :: "'a list"
  frontIndex :: nat

definition bq_new :: "'a BufferedQueue" where
  "bq_new = \<lparr>storage = [], frontIndex = 0\<rparr>"

definition bq_empty :: "'a BufferedQueue \<Rightarrow> bool" where
  "bq_empty q \<longleftrightarrow> frontIndex q \<ge> length (storage q)"

definition bq_size :: "'a BufferedQueue \<Rightarrow> nat" where
  "bq_size q = (if bq_empty q then 0 else length (storage q) - frontIndex q)"

definition bq_front :: "'a BufferedQueue \<Rightarrow> 'a option" where
  "bq_front q = (if frontIndex q < length (storage q) then Some (storage q ! frontIndex q) else None)"

definition bq_nth :: "'a BufferedQueue \<Rightarrow> nat \<Rightarrow> 'a option" where
  "bq_nth q i = (if frontIndex q + i < length (storage q) then Some (storage q ! (frontIndex q + i)) else None)"

definition bq_pushBack :: "'a \<Rightarrow> 'a BufferedQueue \<Rightarrow> 'a BufferedQueue" where
  "bq_pushBack v q = q\<lparr>storage := storage q @ [v]\<rparr>"

definition compact :: "'a BufferedQueue \<Rightarrow> 'a BufferedQueue" where
  "compact q =
     (let activeSize = bq_size q;
          moved = fold (\<lambda>i xs. xs[i := xs ! (frontIndex q + i)]) [0..<activeSize] (storage q)
      in \<lparr>storage = take activeSize moved, frontIndex = 0\<rparr>)"

definition compactBeforeFrontInsert :: "'a BufferedQueue \<Rightarrow> 'a BufferedQueue" where
  "compactBeforeFrontInsert q =
     (if frontIndex q > 0 \<and> (frontIndex q = length (storage q) \<or> frontIndex q * 2 \<ge> length (storage q))
      then compact q else q)"

definition maybeCompact :: "'a BufferedQueue \<Rightarrow> 'a BufferedQueue" where
  "maybeCompact q =
     (if frontIndex q = 0 then q
      else if frontIndex q \<ge> length (storage q) then \<lparr>storage = [], frontIndex = 0\<rparr>
      else if frontIndex q < 32 \<or> frontIndex q * 2 < length (storage q) then q
      else compact q)"

text \<open>\<open>vector::insert\<close> at an index beyond the end does nothing.\<close>

definition bq_pushFront :: "'a \<Rightarrow> 'a BufferedQueue \<Rightarrow> 'a BufferedQueue" where
  "bq_pushFront v q =
     (let q = compactBeforeFrontInsert q
      in if frontIndex q > length (storage q) then q
         else q\<lparr>storage := take (frontIndex q) (storage q) @ v # drop (frontIndex q) (storage q)\<rparr>)"

definition bq_popFront :: "'a BufferedQueue \<Rightarrow> ('a \<times> 'a BufferedQueue) option" where
  "bq_popFront q =
     (if frontIndex q < length (storage q)
      then Some (storage q ! frontIndex q, maybeCompact (q\<lparr>frontIndex := frontIndex q + 1\<rparr>))
      else None)"

definition eraseAt :: "nat \<Rightarrow> 'a BufferedQueue \<Rightarrow> 'a BufferedQueue" where
  "eraseAt index q =
     (let absoluteIndex = frontIndex q + index;
          moved = fold (\<lambda>i xs. xs[i - 1 := xs ! i]) [absoluteIndex + 1..<length (storage q)] (storage q)
      in maybeCompact (q\<lparr>storage := butlast moved\<rparr>))"

definition bq_forEach :: "('a \<Rightarrow> 's \<Rightarrow> 's) \<Rightarrow> 'a BufferedQueue \<Rightarrow> 's \<Rightarrow> 's" where
  "bq_forEach fn q = fold (\<lambda>i. fn (storage q ! i)) [frontIndex q..<length (storage q)]"

subsection \<open>The list it stands for\<close>

definition bq_list :: "'a BufferedQueue \<Rightarrow> 'a list" where
  "bq_list q = drop (frontIndex q) (storage q)"

definition bq_inv :: "'a BufferedQueue \<Rightarrow> bool" where
  "bq_inv q \<longleftrightarrow> frontIndex q \<le> length (storage q)"

lemma bq_new [simp]: "bq_inv bq_new" "bq_list bq_new = []"
  by (simp_all add: bq_inv_def bq_new_def bq_list_def)

lemma bq_empty_iff: "bq_empty q \<longleftrightarrow> bq_list q = []"
  by (simp add: bq_empty_def bq_list_def)

lemma bq_size_eq [simp]: "bq_size q = length (bq_list q)"
  by (simp add: bq_size_def bq_empty_def bq_list_def)

lemma move_down:
  "f + n \<le> length xs \<Longrightarrow> fold (\<lambda>i xs. xs[i := xs ! (f + i)]) [0..<n] xs
     = map (\<lambda>j. if j < n then xs ! (f + j) else xs ! j) [0..<length xs]"
proof (induction n)
  case 0
  then show ?case by (simp add: map_nth)
next
  case (Suc n)
  then show ?case by (intro nth_equalityI) (auto simp: nth_list_update less_Suc_eq)
qed

lemma compact_ok: "bq_inv q \<Longrightarrow> bq_inv (compact q) \<and> bq_list (compact q) = bq_list q"
proof -
  assume inv: "bq_inv q"
  let ?n = "length (storage q) - frontIndex q"
  have "storage (compact q) = take ?n (map (\<lambda>j. if j < ?n then storage q ! (frontIndex q + j) else storage q ! j) [0..<length (storage q)])"
    using move_down [of "frontIndex q" ?n "storage q"] inv by (simp add: compact_def Let_def bq_inv_def bq_list_def)
  also have "\<dots> = drop (frontIndex q) (storage q)" using inv by (intro nth_equalityI) (auto simp: bq_inv_def)
  finally show ?thesis by (simp add: bq_inv_def bq_list_def compact_def Let_def)
qed

lemma maybeCompact_ok: "bq_inv q \<Longrightarrow> bq_inv (maybeCompact q) \<and> bq_list (maybeCompact q) = bq_list q"
  using compact_ok [of q] by (auto simp: maybeCompact_def bq_inv_def bq_list_def)

lemma pushBack_ok: "bq_inv q \<Longrightarrow> bq_inv (bq_pushBack v q) \<and> bq_list (bq_pushBack v q) = bq_list q @ [v]"
  by (simp add: bq_pushBack_def bq_inv_def bq_list_def)

lemma pushFront_ok: "bq_inv q \<Longrightarrow> bq_inv (bq_pushFront v q) \<and> bq_list (bq_pushFront v q) = v # bq_list q"
proof -
  assume inv: "bq_inv q"
  have "bq_inv (compactBeforeFrontInsert q) \<and> bq_list (compactBeforeFrontInsert q) = bq_list q"
    using compact_ok [OF inv] inv by (simp add: compactBeforeFrontInsert_def)
  then show ?thesis by (auto simp: bq_pushFront_def Let_def bq_inv_def bq_list_def)
qed

lemma popFront_ok:
  assumes "bq_inv q" and "bq_list q = v # vs"
  shows "\<exists>q'. bq_popFront q = Some (v, q') \<and> bq_inv q' \<and> bq_list q' = vs"
proof -
  let ?q = "q\<lparr>frontIndex := frontIndex q + 1\<rparr>"
  have less: "frontIndex q < length (storage q)" using assms(2) by (auto simp: bq_list_def intro: ccontr)
  then have "storage q ! frontIndex q = v \<and> drop (frontIndex q + 1) (storage q) = vs"
    using assms(2) Cons_nth_drop_Suc [OF less] by (simp add: bq_list_def)
  moreover have "bq_inv ?q" using less by (simp add: bq_inv_def)
  ultimately show ?thesis using less maybeCompact_ok [of ?q] by (simp add: bq_popFront_def bq_list_def)
qed

lemma popFront_None: "bq_popFront q = None \<longleftrightarrow> bq_list q = []"
  by (simp add: bq_popFront_def bq_list_def)

lemma popFront_Some: "bq_inv q \<Longrightarrow> bq_popFront q = Some (v, r) \<Longrightarrow> bq_inv r \<and> bq_list q = v # bq_list r"
  using popFront_ok [of q] popFront_None [of q] by (cases "bq_list q") fastforce+

lemma forEach_eq: "bq_forEach fn q s = fold fn (bq_list q) s"
proof -
  have "bq_list q = map (\<lambda>i. storage q ! i) [frontIndex q..<length (storage q)]"
    by (rule nth_equalityI) (simp_all add: bq_list_def)
  then show ?thesis by (simp add: bq_forEach_def fold_map comp_def)
qed

interpretation buffered: fifo bq_new bq_pushBack bq_front "\<lambda>q. map_option snd (bq_popFront q)" bq_inv bq_list
proof
  fix q :: "'a BufferedQueue" and v vs
  assume q: "bq_inv q"
  show "bq_inv (bq_pushBack v q)" "bq_list (bq_pushBack v q) = bq_list q @ [v]" using pushBack_ok [OF q] by simp_all
  assume l: "bq_list q = v # vs"
  show "bq_front q = Some v"
    using l by (cases "frontIndex q < length (storage q)") (auto simp: bq_front_def bq_list_def Cons_nth_drop_Suc [symmetric])
  show "\<exists>q'. map_option snd (bq_popFront q) = Some q' \<and> bq_inv q' \<and> bq_list q' = vs"
    using popFront_ok [OF q l] by auto
qed simp_all

lemma shift_left:
  "k \<le> n \<Longrightarrow> n \<le> length xs \<Longrightarrow> 0 < k \<Longrightarrow> fold (\<lambda>i xs. xs[i - 1 := xs ! i]) [k..<n] xs
     = map (\<lambda>j. if k - 1 \<le> j \<and> j + 1 < n then xs ! (j + 1) else xs ! j) [0..<length xs]"
proof (induction n)
  case 0
  then show ?case by simp
next
  case (Suc n)
  show ?case
  proof (cases "k = Suc n")
    case True
    then show ?thesis by (intro nth_equalityI) auto
  next
    case False
    then show ?thesis using Suc by (intro nth_equalityI) (auto simp: nth_list_update)
  qed
qed

lemma eraseAt_ok:
  assumes "bq_inv q" and "i < length (bq_list q)"
  shows "bq_inv (eraseAt i q) \<and> bq_list (eraseAt i q) = take i (bq_list q) @ drop (i + 1) (bq_list q)"
proof -
  let ?f = "frontIndex q" and ?n = "length (storage q)"
  have i: "?f + i < ?n" using assms(2) by (simp add: bq_list_def)
  define moved where "moved = fold (\<lambda>i xs. xs[i - 1 := xs ! i]) [?f + i + 1..<?n] (storage q)"
  have moved: "moved = map (\<lambda>j. if ?f + i \<le> j \<and> j + 1 < ?n then storage q ! (j + 1) else storage q ! j) [0..<?n]"
    unfolding moved_def using i shift_left [of "?f + i + 1" ?n "storage q"] by simp
  let ?q = "q\<lparr>storage := butlast moved\<rparr>"
  have inv: "bq_inv ?q" using i by (simp add: bq_inv_def moved)
  have "drop ?f (butlast moved) = take i (drop ?f (storage q)) @ drop (i + 1) (drop ?f (storage q))"
    using i by (intro nth_equalityI) (auto simp: moved nth_butlast nth_append ac_simps)
  then have "bq_list ?q = take i (bq_list q) @ drop (i + 1) (bq_list q)" by (simp add: bq_list_def)
  moreover have "eraseAt i q = maybeCompact ?q" by (simp add: eraseAt_def moved_def Let_def)
  ultimately show ?thesis using maybeCompact_ok [OF inv] by simp
qed

text \<open>The buffered queue is a list: additions at both ends, removal at the front and in the middle, whenever
  it compacts its vector.\<close>

theorem buffered_queue_refines_list:
  assumes "bq_inv q"
  shows "bq_list (bq_pushBack v q) = bq_list q @ [v] \<and> bq_list (bq_pushFront v q) = v # bq_list q
     \<and> (bq_empty q \<longleftrightarrow> bq_list q = []) \<and> bq_size q = length (bq_list q)
     \<and> (case bq_popFront q of None \<Rightarrow> bq_list q = [] | Some (w, q') \<Rightarrow> bq_inv q' \<and> bq_list q = w # bq_list q')
     \<and> (i < bq_size q \<longrightarrow> bq_list (eraseAt i q) = take i (bq_list q) @ drop (i + 1) (bq_list q))
     \<and> bq_inv (bq_pushBack v q) \<and> bq_inv (bq_pushFront v q)"
proof -
  have "case bq_popFront q of None \<Rightarrow> bq_list q = [] | Some (w, q') \<Rightarrow> bq_inv q' \<and> bq_list q = w # bq_list q'"
    using popFront_ok [OF assms] popFront_None [of q] by (cases "bq_list q") fastforce+
  then show ?thesis
    using pushBack_ok [OF assms] pushFront_ok [OF assms] eraseAt_ok [OF assms] by (simp add: bq_empty_iff)
qed

theorem buffered_queue_refines_list_witness:
  "bq_list (bq_pushFront 9 (fold bq_pushBack [1, 2, 3 :: nat] bq_new)) = [9, 1, 2, 3]"
proof -
  have "bq_inv (fold bq_pushBack [1, 2, 3 :: nat] bq_new)" "bq_list (fold bq_pushBack [1, 2, 3 :: nat] bq_new) = [1, 2, 3]"
    using buffered.enq_all [of bq_new "[1, 2, 3 :: nat]"] by simp_all
  then show ?thesis using buffered_queue_refines_list [of "fold bq_pushBack [1, 2, 3 :: nat] bq_new" 9 0] by simp
qed

end
