(* ===== verification/LineFile.thy ===== *)
theory LineFile
  imports FrontierItem
begin

text \<open>
  Files of lines, as the frontier and the checkpoint use them: \<open>fprintf("%s\n")\<close> to write a line and \<open>fgets\<close>
  with a buffer of 8192 bytes to read one. A file is the list of its characters. \<open>writeDiskChunk\<close> and
  \<open>readDiskChunk\<close> of \<open>src/crawler/frontier.cpp\<close> are here.
\<close>

definition newline :: char where
  "newline = char_of (10 :: nat)"

definition nul :: char where
  "nul = char_of (0 :: nat)"

text \<open>The C string that begins with these characters.\<close>

definition c_str :: "string \<Rightarrow> string" where
  "c_str s = takeWhile (\<lambda>c. c \<noteq> nul) s"

text \<open>\<open>fgets\<close>: at most 8191 characters, up to the first line break and with it; the buffer as a C string.
  \<open>None\<close> at the end of the file.\<close>

definition buffer_size :: nat where
  "buffer_size = 8192"

definition fgets :: "string \<Rightarrow> (string \<times> string) option" where
  "fgets f =
     (if f = [] then None
      else let n = (case find_char newline (take (buffer_size - 1) f) of
                      None \<Rightarrow> min (buffer_size - 1) (length f) | Some i \<Rightarrow> i + 1)
           in Some (c_str (take n f), drop n f))"

text \<open>The line break at the end of what was read is overwritten.\<close>

definition strip_newline :: "string \<Rightarrow> string" where
  "strip_newline lineBuf = (if lineBuf \<noteq> [] \<and> last lineBuf = newline then butlast lineBuf else lineBuf)"

definition write_line :: "string \<Rightarrow> string" where
  "write_line line = c_str line @ [newline]"

definition writeDiskChunk :: "FrontierItem list \<Rightarrow> string" where
  "writeDiskChunk items = concat (map (\<lambda>item. write_line (serializeToLine item)) items)"

lemma fgets_shorter: "fgets f = Some (l, f') \<Longrightarrow> length f' < length f"
  by (auto simp: fgets_def Let_def buffer_size_def find_char_def find_if_Some split: if_splits option.splits)

function readDiskChunk :: "string \<Rightarrow> FrontierItem list" where
  "readDiskChunk f =
     (case fgets f of
        None \<Rightarrow> []
      | Some (lineBuf, f') \<Rightarrow>
          (let line = strip_newline lineBuf
           in (if line \<noteq> [] then [deserializeFromLine line] else []) @ readDiskChunk f'))"
  by pat_completeness auto
termination
  by (relation "measure length") (auto dest: fgets_shorter)

declare readDiskChunk.simps [simp del]

subsection \<open>Lines come back\<close>

text \<open>A line that one \<open>fgets\<close> reads: no NUL, no line break, and short.\<close>

definition short_line :: "string \<Rightarrow> bool" where
  "short_line l \<longleftrightarrow> nul \<notin> set l \<and> newline \<notin> set l \<and> length l + 1 < buffer_size"

lemma c_str_id: "nul \<notin> set s \<Longrightarrow> c_str s = s"
  by (auto simp: c_str_def takeWhile_eq_all_conv)

lemma fgets_line:
  assumes "short_line l"
  shows "fgets (l @ newline # f) = Some (l @ [newline], f)"
proof -
  let ?buf = "take (buffer_size - 1) (l @ newline # f)"
  have "?buf = l @ newline # take (buffer_size - 2 - length l) f"
    using assms by (auto simp: short_line_def take_Cons' not_less)
  then have "find_char newline ?buf = Some (length l)"
    using assms by (auto simp: find_char_def find_if_Some nth_append short_line_def in_set_conv_nth)
  moreover have "c_str (l @ [newline]) = l @ [newline]"
    using assms by (intro c_str_id) (simp add: short_line_def newline_def nul_def)
  ultimately show ?thesis by (simp add: fgets_def)
qed

lemma strip_newline_line [simp]: "strip_newline (l @ [newline]) = l"
  by (simp add: strip_newline_def)

text \<open>An item that survives a file of lines.\<close>

definition storable :: "FrontierItem \<Rightarrow> bool" where
  "storable item \<longleftrightarrow> CHR ''|'' \<notin> set (link item) \<and> nul \<notin> set (link item) \<and> small_item item
     \<and> clean_link (link item) = link item \<and> length (serializeToLine item) + 1 < buffer_size"

lemma nul_code: "c = nul \<longleftrightarrow> code c = 0" "nul = c \<longleftrightarrow> code c = 0" "c = newline \<longleftrightarrow> code c = 10" "newline = c \<longleftrightarrow> code c = 10"
  using code_inject [of c nul] code_inject [of c newline] by (auto simp: nul_def newline_def)

lemma show_chars:
  assumes "c \<in> set (show_nat n) \<or> c \<in> set (show_int i)"
  shows "code c \<noteq> 0 \<and> code c \<noteq> 10"
proof -
  have "isAsciiDigit c \<or> c = CHR ''-''" using assms show_nat_digits by (auto simp: show_int_def split: if_splits)
  then show ?thesis by (auto simp: isAsciiDigit_def) (simp_all add: code_def)
qed

lemma short_line_item:
  assumes "storable item"
  shows "short_line (serializeToLine item)"
proof -
  have "code c \<noteq> 0 \<and> code c \<noteq> 10" if c: "c \<in> set (serializeToLine item)" for c
  proof -
    have bar: "code (CHR ''|'') = 124" "code (CHR ''0'') = 48" "code (CHR ''1'') = 49" by (simp_all add: code_def)
    have "code c \<noteq> 0 \<and> code c \<noteq> 10" if "c \<in> set (clean_link (link item))"
    proof -
      have "c \<in> set (link item)" using that by (simp add: clean_link_def)
      then have "c \<noteq> nul" using assms by (auto simp: storable_def)
      then show ?thesis using that by (simp add: clean_link_def nul_code)
    qed
    then show ?thesis
      using c show_chars bar unfolding serializeToLine_def by (auto split: if_splits)
  qed
  then have "c \<noteq> nul \<and> c \<noteq> newline" if "c \<in> set (serializeToLine item)" for c using that by (simp add: nul_code)
  then show ?thesis using assms by (auto simp: short_line_def storable_def)
qed

lemma read_lines:
  "\<forall>item \<in> set items. storable item \<Longrightarrow> readDiskChunk (writeDiskChunk items @ f) = items @ readDiskChunk f"
proof (induction items)
  case Nil
  then show ?case by (simp add: writeDiskChunk_def)
next
  case (Cons item items)
  have item: "storable item" using Cons.prems by simp
  have line: "short_line (serializeToLine item)" by (rule short_line_item [OF item])
  have "writeDiskChunk (item # items) @ f = serializeToLine item @ newline # writeDiskChunk items @ f"
    using line by (simp add: writeDiskChunk_def write_line_def c_str_id short_line_def)
  moreover have "serializeToLine item \<noteq> []" by (simp add: serializeToLine_def)
  moreover have "deserializeFromLine (serializeToLine item) = item"
    using item item_restored [of item] by (simp add: storable_def)
  ultimately show ?case
    using Cons fgets_line [OF line] by (simp add: readDiskChunk.simps [of "serializeToLine item @ _"])
qed

lemma read_written: "\<forall>item \<in> set items. storable item \<Longrightarrow> readDiskChunk (writeDiskChunk items) = items"
  using read_lines [of items "[]"] by (simp add: readDiskChunk.simps [of "[]"] fgets_def)

text \<open>A chunk of items that the frontier writes to the disk is read back as it was.\<close>

theorem disk_chunk_round_trip:
  assumes "\<forall>item \<in> set items. storable item"
  shows "readDiskChunk (writeDiskChunk items) = items"
  using assms by (rule read_written)

theorem disk_chunk_round_trip_witness:
  "readDiskChunk (writeDiskChunk [frontier_item ''http://a.org/b'', frontier_item ''http://c.com'']) =
     [frontier_item ''http://a.org/b'', frontier_item ''http://c.com'']"
proof (rule disk_chunk_round_trip)
  have 1: "frontier_item ''http://a.org/b'' = \<lparr>link = ''http://a.org/b'', suffix = ORG, baseLength = 1,
      seedDistance = 0, pathDepth = 1, failed = False\<rparr>" by code_simp
  have 2: "frontier_item ''http://c.com'' = \<lparr>link = ''http://c.com'', suffix = COM, baseLength = 1,
      seedDistance = 0, pathDepth = 0, failed = False\<rparr>" by code_simp
  show "\<forall>item \<in> set [frontier_item ''http://a.org/b'', frontier_item ''http://c.com'']. storable item"
    unfolding 1 2 by (simp add: storable_def small_item_def enumerator_def nul_code clean_link_def code_def buffer_size_def
        serializeToLine_def show_int_def show_nat.simps)
qed

end
