(* ===== verification/Frontier.thy ===== *)
theory Frontier
  imports Reservoir BufferedQueue LineFile PriorityQueue "HOL-Library.AList"
begin

text \<open>
  The frontier of the crawler: \<open>src/crawler/frontier.cpp\<close>. New URLs go to a reservoir, beyond its limit to a second
  one whose overflow is written to chunk files; URLs are promoted from the reservoir to the queues of their
  hosts, and a host hands out one URL at a time. Each public operation holds the lock and is one function
  from state to state here; \<open>activeHostKey\<close>, which belongs to a thread, is passed and returned. The hash table
  of the hosts is an association list, the chunk files are listed with the two numbers of their names,
  and \<open>nowMillis\<close> reads the next value of \<open>clock\<close>. A result \<open>None\<close> is undefined behaviour (\<open>Reservoir\<close>).
\<close>

subsection \<open>The state\<close>

record HostQueue =
  items :: "FrontierItem BufferedQueue"
  blockedUntilMs :: int
  sleepGeneration :: nat
  inFlight :: bool
  inReadyQueue :: bool
  inSleepingQueue :: bool

record SleepingHost =
  wakeAtMs :: int
  generation :: nat
  sleepingKey :: string

record Frontier =
  hostQueues :: "(string \<times> HostQueue) list"
  readyHosts :: "string BufferedQueue"
  sleepingHosts :: "SleepingHost list"
  reservoir :: "FrontierItem list"
  disk_back_reservoir :: "FrontierItem list"
  diskBackedChunksOnDisk :: nat
  reservoirSweepCursor :: nat
  closed :: bool
  autoCloseWhenDrained :: bool
  pending :: nat
  queued :: nat
  maxQueued :: nat
  disk :: "((nat \<times> nat) \<times> string) list"
  disk_writable :: bool
  clock :: "nat \<Rightarrow> int"
  ticks :: nat

definition new_host :: HostQueue where
  "new_host = \<lparr>items = bq_new, blockedUntilMs = 0, sleepGeneration = 0, inFlight = False,
     inReadyQueue = False, inSleepingQueue = False\<rparr>"

text \<open>\<open>higherPriority(a, b)\<close>: the host that wakes up earlier.\<close>

definition wakes_before :: "SleepingHost \<Rightarrow> SleepingHost \<Rightarrow> bool" where
  "wakes_before a b \<longleftrightarrow> wakeAtMs b > wakeAtMs a"

definition frontierDiskBackBackupPercent :: nat where "frontierDiskBackBackupPercent = 70"
definition frontierReservoirRefillPercent :: nat where "frontierReservoirRefillPercent = 50"
definition frontierDiskBackRefillPercent :: nat where "frontierDiskBackRefillPercent = 30"

definition resolveFrontierMaxQueuedItems :: "nat \<Rightarrow> nat" where
  "resolveFrontierMaxQueuedItems configured = (if configured \<noteq> 0 then configured else 1000000)"

definition nowMillis :: "Frontier \<Rightarrow> int \<times> Frontier" where
  "nowMillis f = (clock f (ticks f), f\<lparr>ticks := ticks f + 1\<rparr>)"

definition extractHostKey :: "string \<Rightarrow> string" where
  "extractHostKey url =
     (let hostStart = (case find_sub ''://'' url of None \<Rightarrow> 0 | Some schemeEnd \<Rightarrow> schemeEnd + 3)
      in takeWhile (\<lambda>c. \<not> (c = CHR ''/'' \<or> c = CHR '':'' \<or> c = CHR ''?'' \<or> c = CHR ''#'')) (drop hostStart url))"

subsection \<open>Chunk files\<close>

definition chunk_bytes_of :: "FrontierItem list \<Rightarrow> nat \<Rightarrow> ((nat \<times> nat) \<times> string) list \<Rightarrow> ((nat \<times> nat) \<times> string) list" where
  "chunk_bytes_of its chunkIndex d = AList.update (chunkIndex, length its) (writeDiskChunk its) d"

definition findDiskChunk :: "nat \<Rightarrow> ((nat \<times> nat) \<times> string) list \<Rightarrow> ((nat \<times> nat) \<times> string) option" where
  "findDiskChunk chunkIndex d = find (\<lambda>e. fst (fst e) = chunkIndex) d"

definition doBackUp :: "Frontier \<Rightarrow> Frontier" where
  "doBackUp f =
     (if length (disk_back_reservoir f) < maxQueued f then f
      else let n = length (disk_back_reservoir f);
               backupCount = n * frontierDiskBackBackupPercent div 100;
               backupCount = (if backupCount > n then n else backupCount);
               backup = take backupCount (disk_back_reservoir f);
               nextChunkIndex = diskBackedChunksOnDisk f + 1
           in if \<not> disk_writable f then f
              else f\<lparr>disk := chunk_bytes_of backup nextChunkIndex (disk f),
                     disk_back_reservoir := drop backupCount (disk_back_reservoir f),
                     diskBackedChunksOnDisk := nextChunkIndex\<rparr>)"

definition refillReservoirFromDiskBacked :: "Frontier \<Rightarrow> Frontier" where
  "refillReservoirFromDiskBacked f =
     (if length (reservoir f) \<ge> maxQueued f \<or> disk_back_reservoir f = [] then f
      else let refillCount = maxQueued f * frontierReservoirRefillPercent div 100;
               refillCount = (if refillCount > length (disk_back_reservoir f) then length (disk_back_reservoir f)
                              else refillCount)
           in f\<lparr>reservoir := reservoir f @ take refillCount (disk_back_reservoir f),
                disk_back_reservoir := drop refillCount (disk_back_reservoir f)\<rparr>)"

definition loadDiskBackedChunkFromDisk :: "Frontier \<Rightarrow> bool \<times> Frontier" where
  "loadDiskBackedChunkFromDisk f =
     (if diskBackedChunksOnDisk f = 0 then (False, f)
      else case findDiskChunk (diskBackedChunksOnDisk f) (disk f) of
          None \<Rightarrow> (False, f)
        | Some (name, bytes) \<Rightarrow>
            (True, f\<lparr>disk_back_reservoir := disk_back_reservoir f @ readDiskChunk bytes,
                     disk := AList.delete name (disk f),
                     diskBackedChunksOnDisk := diskBackedChunksOnDisk f - 1\<rparr>))"

definition recoverDiskBackedChunkCount :: "Frontier \<Rightarrow> Frontier" where
  "recoverDiskBackedChunkCount f =
     (let found = filter (\<lambda>(i, n). i \<noteq> 0 \<and> n \<noteq> 0) (map fst (disk f));
          recoveredQueuedItems = sum_list (map snd found)
      in f\<lparr>diskBackedChunksOnDisk := fold (\<lambda>(i, n) m. if i > m then i else m) found 0,
           queued := queued f + recoveredQueuedItems,
           pending := pending f + recoveredQueuedItems\<rparr>)"

subsection \<open>Hosts\<close>

definition get_host :: "string \<Rightarrow> Frontier \<Rightarrow> HostQueue option" where
  "get_host key f = map_of (hostQueues f) key"

definition put_host :: "string \<Rightarrow> HostQueue \<Rightarrow> Frontier \<Rightarrow> Frontier" where
  "put_host key h f = f\<lparr>hostQueues := AList.update key h (hostQueues f)\<rparr>"

text \<open>\<open>host\<close> is the entry of the table with its changes so far.\<close>

definition scheduleHost :: "string \<Rightarrow> HostQueue \<Rightarrow> int \<Rightarrow> Frontier \<Rightarrow> Frontier" where
  "scheduleHost hostKey host now f =
     (if bq_empty (items host) \<or> inFlight host \<or> inReadyQueue host then put_host hostKey host f
      else if blockedUntilMs host > now
      then (if \<not> inSleepingQueue host
            then put_host hostKey (host\<lparr>inSleepingQueue := True\<rparr>)
                   (f\<lparr>sleepingHosts := pq_push wakes_before
                        \<lparr>wakeAtMs = blockedUntilMs host, generation = sleepGeneration host, sleepingKey = hostKey\<rparr>
                        (sleepingHosts f)\<rparr>)
            else put_host hostKey host f)
      else let host = (if blockedUntilMs host \<noteq> 0 \<and> blockedUntilMs host \<le> now then host\<lparr>blockedUntilMs := 0\<rparr> else host)
           in put_host hostKey (host\<lparr>inSleepingQueue := False, inReadyQueue := True\<rparr>)
                (f\<lparr>readyHosts := bq_pushBack hostKey (readyHosts f)\<rparr>))"

text \<open>What happens to the host of a sleeping entry that is due.\<close>

definition wake_host :: "SleepingHost \<Rightarrow> int \<Rightarrow> Frontier \<Rightarrow> Frontier" where
  "wake_host sleeping now f =
     (case get_host (sleepingKey sleeping) f of
        None \<Rightarrow> f
      | Some host \<Rightarrow>
          if sleepGeneration host \<noteq> generation sleeping \<or> bq_empty (items host) \<or> inFlight host \<or> inReadyQueue host then f
          else if blockedUntilMs host > now then f
          else put_host (sleepingKey sleeping)
                 (host\<lparr>blockedUntilMs := 0, inSleepingQueue := False, inReadyQueue := True\<rparr>)
                 (f\<lparr>readyHosts := bq_pushBack (sleepingKey sleeping) (readyHosts f)\<rparr>))"

lemma extractTop_shorter: "extractTop hp xs = Some (x, ys) \<Longrightarrow> length ys < length xs"
proof -
  assume e: "extractTop hp xs = Some (x, ys)"
  let ?b = "butlast (xs[0 := xs ! (length xs - 1)])"
  have "length (siftDown hp ?b 0) = length ?b"
    using siftDown_mset [of 0 ?b hp] by (metis length_greater_0_conv size_mset)
  then show ?thesis using e by (auto simp: extractTop_def Let_def length_Suc_conv split: if_splits)
qed

lemma sleepingHosts_wake [simp]: "sleepingHosts (wake_host s now f) = sleepingHosts f"
  by (simp add: wake_host_def put_host_def split: option.split)

function promoteSleepingHosts :: "int \<Rightarrow> Frontier \<Rightarrow> Frontier" where
  "promoteSleepingHosts now f =
     (case pq_top (sleepingHosts f) of
        None \<Rightarrow> f
      | Some first \<Rightarrow>
          if wakeAtMs first \<le> now
          then (case extractTop wakes_before (sleepingHosts f) of
                  None \<Rightarrow> f
                | Some (sleeping, rest) \<Rightarrow>
                    promoteSleepingHosts now (wake_host sleeping now (f\<lparr>sleepingHosts := rest\<rparr>)))
          else f)"
  by pat_completeness auto
termination
  by (relation "measure (\<lambda>(now, f). length (sleepingHosts f))") (auto dest: extractTop_shorter)

declare promoteSleepingHosts.simps [simp del]

definition enqueueScheduledItem :: "FrontierItem \<Rightarrow> int \<Rightarrow> Frontier \<Rightarrow> Frontier" where
  "enqueueScheduledItem item now f =
     (let hostKey = extractHostKey (link item);
          host = (case get_host hostKey f of None \<Rightarrow> new_host | Some h \<Rightarrow> h)
      in scheduleHost hostKey (host\<lparr>items := bq_pushBack item (items host)\<rparr>) now f)"

subsection \<open>Promotion\<close>

lemma reservoir_put [simp]: "reservoir (put_host k h f) = reservoir f"
  by (simp add: put_host_def)

lemma reservoir_schedule [simp]: "reservoir (scheduleHost k h now f) = reservoir f"
  by (simp add: scheduleHost_def Let_def)

lemma reservoir_enqueue [simp]: "reservoir (enqueueScheduledItem item now f) = reservoir f"
  by (simp add: enqueueScheduledItem_def Let_def)

lemma reservoir_enqueues [simp]: "reservoir (fold (\<lambda>item. enqueueScheduledItem item now) is' f) = reservoir f"
  by (induction is' arbitrary: f) simp_all

function promote_loop :: "int \<Rightarrow> Frontier \<Rightarrow> Frontier option" where
  "promote_loop now f =
     (if bq_empty (readyHosts f) \<and> reservoir f \<noteq> []
      then (case promote_chunk getScore (reservoir f) (reservoirSweepCursor f) of
              None \<Rightarrow> None
            | Some (promotedItems, reservoir', cursor') \<Rightarrow>
                (let f = f\<lparr>reservoir := reservoir', reservoirSweepCursor := cursor'\<rparr>;
                     f = fold (\<lambda>item. enqueueScheduledItem item now) promotedItems f;
                     (now', f) = nowMillis f
                 in promote_loop now' f))
      else Some f)"
  by pat_completeness auto
termination
  by (relation "measure (\<lambda>(now, f). length (reservoir f))") (auto simp: nowMillis_def dest: promote_chunk_shorter)

declare promote_loop.simps [simp del]

definition promoteReservoir :: "int \<Rightarrow> Frontier \<Rightarrow> Frontier option" where
  "promoteReservoir now f =
     (let reservoirRefillChunkSize = maxQueued f * frontierReservoirRefillPercent div 100;
          diskBackRefillSize = maxQueued f * frontierDiskBackRefillPercent div 100;
          f = (if length (disk_back_reservoir f) < diskBackRefillSize then snd (loadDiskBackedChunkFromDisk f) else f);
          f = (if length (reservoir f) < reservoirRefillChunkSize then refillReservoirFromDiskBacked f else f)
      in if \<not> bq_empty (readyHosts f) \<or> reservoir f = [] then Some f else promote_loop now f)"

subsection \<open>The operations\<close>

definition pushInternal :: "FrontierItem \<Rightarrow> bool \<Rightarrow> Frontier \<Rightarrow> Frontier" where
  "pushInternal item countTowardsPending f =
     (if link item = [] then f
      else let f = (if countTowardsPending then f\<lparr>pending := pending f + 1\<rparr> else f);
               f = f\<lparr>queued := queued f + 1\<rparr>
           in if length (reservoir f) < maxQueued f then f\<lparr>reservoir := reservoir f @ [item]\<rparr>
              else let f = doBackUp f in f\<lparr>disk_back_reservoir := disk_back_reservoir f @ [item]\<rparr>)"

definition push_item :: "FrontierItem \<Rightarrow> Frontier \<Rightarrow> Frontier" where
  "push_item item f = (if closed f \<or> link item = [] then f else pushInternal item True f)"

definition push_url :: "string \<Rightarrow> Frontier \<Rightarrow> Frontier" where
  "push_url url f = (if closed f \<or> url = [] then f else pushInternal (frontier_item url) True f)"

definition pushMany :: "FrontierItem list \<Rightarrow> Frontier \<Rightarrow> Frontier" where
  "pushMany its f =
     (if closed f \<or> its = [] then f
      else fold (\<lambda>item f. if link item \<noteq> [] then pushInternal item True f else f) its f)"

definition pushMany_urls :: "string list \<Rightarrow> Frontier \<Rightarrow> Frontier" where
  "pushMany_urls urls f =
     (if closed f \<or> urls = [] then f
      else fold (\<lambda>url f. if url \<noteq> [] then pushInternal (frontier_item url) True f else f) urls f)"

definition pushDeferred :: "FrontierItem list \<Rightarrow> Frontier \<Rightarrow> Frontier" where
  "pushDeferred its f =
     (if closed f \<or> its = [] then f
      else fold (\<lambda>item f. if link item \<noteq> [] then pushInternal item False f else f) its f)"

definition empty_frontier :: "bool \<Rightarrow> nat \<Rightarrow> ((nat \<times> nat) \<times> string) list \<Rightarrow> bool \<Rightarrow> (nat \<Rightarrow> int) \<Rightarrow> Frontier" where
  "empty_frontier autoClose maxQueuedItems d writable clk =
     \<lparr>hostQueues = [], readyHosts = bq_new, sleepingHosts = [], reservoir = [], disk_back_reservoir = [],
      diskBackedChunksOnDisk = 0, reservoirSweepCursor = 0, closed = False, autoCloseWhenDrained = autoClose,
      pending = 0, queued = 0, maxQueued = resolveFrontierMaxQueuedItems maxQueuedItems,
      disk = d, disk_writable = writable, clock = clk, ticks = 0\<rparr>"

definition close_if_drained :: "Frontier \<Rightarrow> Frontier" where
  "close_if_drained f = (if pending f = 0 \<and> autoCloseWhenDrained f then f\<lparr>closed := True\<rparr> else f)"

text \<open>The constructors: from the items of a checkpoint, and from the lines of a seed list.\<close>

definition frontier_of_items ::
  "FrontierItem list \<Rightarrow> bool \<Rightarrow> nat \<Rightarrow> ((nat \<times> nat) \<times> string) list \<Rightarrow> bool \<Rightarrow> (nat \<Rightarrow> int) \<Rightarrow> Frontier" where
  "frontier_of_items its autoClose maxQueuedItems d writable clk =
     close_if_drained
       (fold (\<lambda>item f. if link item \<noteq> [] then pushInternal item True f else f) its
          (recoverDiskBackedChunkCount (empty_frontier autoClose maxQueuedItems d writable clk)))"

definition frontier_of_seeds ::
  "string list \<Rightarrow> bool \<Rightarrow> nat \<Rightarrow> ((nat \<times> nat) \<times> string) list \<Rightarrow> bool \<Rightarrow> (nat \<Rightarrow> int) \<Rightarrow> Frontier" where
  "frontier_of_seeds seeds autoClose maxQueuedItems d writable clk =
     close_if_drained
       (fold (\<lambda>line f. pushInternal (frontier_item (c_str line)) True f) seeds
          (recoverDiskBackedChunkCount (empty_frontier autoClose maxQueuedItems d writable clk)))"

definition frontier_snapshot :: "Frontier \<Rightarrow> FrontierItem list" where
  "frontier_snapshot f =
     fold (\<lambda>(k, h) result. bq_forEach (\<lambda>item r. r @ [item]) (items h) result) (hostQueues f) []
       @ reservoir f @ disk_back_reservoir f"

definition snoozeCurrent :: "FrontierItem \<Rightarrow> int \<Rightarrow> string \<Rightarrow> Frontier \<Rightarrow> string \<times> Frontier" where
  "snoozeCurrent item readyAt hostKey f =
     (if hostKey = [] then (hostKey, f)
      else case get_host hostKey f of
          None \<Rightarrow> ([], f)
        | Some host \<Rightarrow>
            (let host = host\<lparr>inFlight := False\<rparr>;
                 (host, f) = (if link item \<noteq> [] then (host\<lparr>items := bq_pushFront item (items host)\<rparr>, f\<lparr>queued := queued f + 1\<rparr>)
                              else (host, f));
                 host = (if readyAt > blockedUntilMs host then host\<lparr>blockedUntilMs := readyAt\<rparr> else host);
                 host = host\<lparr>sleepGeneration := sleepGeneration host + 1\<rparr>;
                 (now, f) = nowMillis f
             in ([], if blockedUntilMs host > now
                     then put_host hostKey (host\<lparr>inSleepingQueue := True\<rparr>)
                            (f\<lparr>sleepingHosts := pq_push wakes_before
                                 \<lparr>wakeAtMs = blockedUntilMs host, generation = sleepGeneration host, sleepingKey = hostKey\<rparr>
                                 (sleepingHosts f)\<rparr>)
                     else scheduleHost hostKey host now f)))"

lemma popFront_shorter: "bq_popFront q = Some (v, q') \<Longrightarrow> length (bq_list q') < length (bq_list q)"
proof -
  assume p: "bq_popFront q = Some (v, q')"
  then have i: "frontIndex q < length (storage q)" by (simp add: bq_popFront_def split: if_splits)
  then have "bq_list q = storage q ! frontIndex q # drop (Suc (frontIndex q)) (storage q)"
    by (simp add: bq_list_def Cons_nth_drop_Suc)
  then show ?thesis using popFront_ok [of q "storage q ! frontIndex q"] p i by (auto simp: bq_inv_def)
qed

text \<open>The loop of \<open>pop\<close> over the hosts that are ready.\<close>

function dispatch :: "Frontier \<Rightarrow> (FrontierItem \<times> string) option \<times> Frontier" where
  "dispatch f =
     (case bq_popFront (readyHosts f) of
        None \<Rightarrow> (None, f)
      | Some (hostKey, rest) \<Rightarrow>
          (let f = f\<lparr>readyHosts := rest\<rparr>
           in case get_host hostKey f of
                None \<Rightarrow> dispatch f
              | Some host \<Rightarrow>
                  (let host = host\<lparr>inReadyQueue := False\<rparr>
                   in if inFlight host \<or> bq_empty (items host) then dispatch (put_host hostKey host f)
                      else case bq_popFront (items host) of
                          None \<Rightarrow> (None, f)
                        | Some (item, its) \<Rightarrow>
                            (Some (item, hostKey),
                             put_host hostKey (host\<lparr>items := its, inFlight := True\<rparr>) (f\<lparr>queued := queued f - 1\<rparr>)))))"
  by pat_completeness auto
termination
  by (relation "measure (\<lambda>f. length (bq_list (readyHosts f)))")
    (auto simp: put_host_def dest: popFront_shorter)

declare dispatch.simps [simp del]

text \<open>One turn of the loop of \<open>pop\<close>: an item with the key of its host, the end, or waiting for the condition variable.\<close>

datatype pop_result = PopItem FrontierItem string | PopEnd | PopWait

definition pop_turn :: "Frontier \<Rightarrow> (pop_result \<times> Frontier) option" where
  "pop_turn f =
     (let (now, f) = nowMillis f; f = promoteSleepingHosts now f
      in case promoteReservoir now f of
           None \<Rightarrow> None
         | Some f \<Rightarrow>
             (case dispatch f of
                (Some (item, hostKey), f) \<Rightarrow> Some (PopItem item hostKey, f)
              | (None, f) \<Rightarrow> Some (if closed f then PopEnd else PopWait, f)))"

definition releaseActiveHost :: "int \<Rightarrow> string \<Rightarrow> Frontier \<Rightarrow> string \<times> Frontier" where
  "releaseActiveHost now hostKey f =
     (if hostKey = [] then (hostKey, f)
      else case get_host hostKey f of
          None \<Rightarrow> ([], f)
        | Some host \<Rightarrow> ([], scheduleHost hostKey (host\<lparr>inFlight := False\<rparr>) now f))"

definition taskDone :: "string \<Rightarrow> Frontier \<Rightarrow> string \<times> Frontier" where
  "taskDone hostKey f =
     (let (now, f) = nowMillis f
      in if pending f = 0 then releaseActiveHost now hostKey f
         else let (hostKey, f) = releaseActiveHost now hostKey (f\<lparr>pending := pending f - 1\<rparr>)
              in (hostKey, if pending f = 0 then (if autoCloseWhenDrained f then f\<lparr>closed := True\<rparr> else f) else f))"

definition frontier_shutdown :: "Frontier \<Rightarrow> Frontier" where
  "frontier_shutdown f = f\<lparr>closed := True\<rparr>"

definition frontier_size :: "Frontier \<Rightarrow> nat" where
  "frontier_size f = length (reservoir f) + length (disk_back_reservoir f)"

definition frontier_empty :: "Frontier \<Rightarrow> bool" where
  "frontier_empty f \<longleftrightarrow> queued f = 0"

definition hasInFlightWork :: "Frontier \<Rightarrow> bool" where
  "hasInFlightWork f \<longleftrightarrow> pending f > queued f"

end
