(* ===== verification/FrontierConserve.thy ===== *)
theory FrontierConserve
  imports Frontier
begin

text \<open>
  No URL is lost in the frontier: every operation of \<open>Frontier\<close> leaves the multiset of the waiting items as it
  is, but for those that it takes in or hands out, wherever they are (the queue of a host, one of the two
  reservoirs, a chunk file), and \<open>queued\<close> counts them.
\<close>

subsection \<open>What waits\<close>

definition host_items :: "(string \<times> HostQueue) list \<Rightarrow> FrontierItem multiset" where
  "host_items hs = sum_list (map (\<lambda>e. mset (bq_list (items (snd e)))) hs)"

definition disk_items :: "((nat \<times> nat) \<times> string) list \<Rightarrow> FrontierItem multiset" where
  "disk_items d = sum_list (map (\<lambda>e. mset (readDiskChunk (snd e))) d)"

definition waiting_items :: "Frontier \<Rightarrow> FrontierItem multiset" where
  "waiting_items f = host_items (hostQueues f) + mset (reservoir f) + mset (disk_back_reservoir f) + disk_items (disk f)"

text \<open>An item that the frontier can handle: it survives a chunk file and names a host.\<close>

definition crawlable :: "FrontierItem \<Rightarrow> bool" where
  "crawlable item \<longleftrightarrow> storable item \<and> link item \<noteq> [] \<and> extractHostKey (link item) \<noteq> []"

definition tables_ok :: "Frontier \<Rightarrow> bool" where
  "tables_ok f \<longleftrightarrow> distinct (map fst (hostQueues f)) \<and> (\<forall>e \<in> set (hostQueues f). bq_inv (items (snd e)))
     \<and> bq_inv (readyHosts f) \<and> heap_inv wakes_before (sleepingHosts f)"

text \<open>The chunk files have different numbers, none above the counter, and the sizes of their names.\<close>

definition disk_ok :: "Frontier \<Rightarrow> bool" where
  "disk_ok f \<longleftrightarrow> distinct (map (fst \<circ> fst) (disk f))
     \<and> (\<forall>e \<in> set (disk f). 0 < fst (fst e) \<and> fst (fst e) \<le> diskBackedChunksOnDisk f
          \<and> length (readDiskChunk (snd e)) = snd (fst e))"

definition frontier_ok :: "Frontier \<Rightarrow> bool" where
  "frontier_ok f \<longleftrightarrow> tables_ok f \<and> disk_ok f \<and> (\<forall>item \<in># waiting_items f. crawlable item)
     \<and> queued f = size (waiting_items f)"

lemma host_items_update:
  assumes "distinct (map fst hs)"
  shows "host_items (AList.update k h hs) + (case map_of hs k of None \<Rightarrow> {#} | Some h' \<Rightarrow> mset (bq_list (items h')))
     = host_items hs + mset (bq_list (items h))"
  using assms
proof (induction hs)
  case (Cons e hs)
  show ?case
  proof (cases "fst e = k")
    case True
    then have "map_of hs k = None" using Cons.prems by (auto simp: map_of_eq_None_iff)
    then show ?thesis using True by (cases e) (simp add: host_items_def)
  next
    case False
    then show ?thesis using Cons by (cases e) (simp add: host_items_def)
  qed
qed (simp add: host_items_def)

lemma set_update_hosts: "e \<in> set (AList.update k h hs) \<Longrightarrow> e = (k, h) \<or> e \<in> set hs"
  by (induction hs) (auto split: if_splits)

lemma tables_put_host:
  "tables_ok f \<Longrightarrow> bq_inv (items h) \<Longrightarrow> tables_ok (put_host k h f)"
  by (auto simp: tables_ok_def put_host_def distinct_update dest: set_update_hosts)

interpretation wakes: strict_priority wakes_before
  by unfold_locales (auto simp: wakes_before_def)

lemma tables_get_host: "tables_ok f \<Longrightarrow> get_host k f = Some h \<Longrightarrow> bq_inv (items h)"
  by (auto simp: tables_ok_def get_host_def dest: map_of_SomeD)

lemma tables_sleep: "tables_ok f \<Longrightarrow> tables_ok (f\<lparr>sleepingHosts := pq_push wakes_before e (sleepingHosts f)\<rparr>)"
  by (simp add: tables_ok_def wakes.push_heap)

lemma tables_ready: "tables_ok f \<Longrightarrow> tables_ok (f\<lparr>readyHosts := bq_pushBack k (readyHosts f)\<rparr>)"
  by (simp add: tables_ok_def pushBack_ok)

text \<open>What a step of the scheduling leaves alone.\<close>

definition same_stores :: "Frontier \<Rightarrow> Frontier \<Rightarrow> bool" where
  "same_stores f g \<longleftrightarrow> reservoir g = reservoir f \<and> disk_back_reservoir g = disk_back_reservoir f \<and> disk g = disk f
     \<and> diskBackedChunksOnDisk g = diskBackedChunksOnDisk f \<and> maxQueued g = maxQueued f \<and> disk_writable g = disk_writable f
     \<and> closed g = closed f \<and> autoCloseWhenDrained g = autoCloseWhenDrained f \<and> pending g = pending f
     \<and> clock g = clock f \<and> ticks g = ticks f \<and> reservoirSweepCursor g = reservoirSweepCursor f"

lemma same_stores_refl [simp]: "same_stores f f"
  by (simp add: same_stores_def)

lemma same_stores_trans: "same_stores f g \<Longrightarrow> same_stores g h \<Longrightarrow> same_stores f h"
  by (simp add: same_stores_def)

lemma scheduleHost_stores: "same_stores f (scheduleHost k h now f) \<and> queued (scheduleHost k h now f) = queued f"
  by (simp add: scheduleHost_def put_host_def same_stores_def Let_def)

lemma put_host_items:
  assumes "tables_ok f"
  shows "host_items (hostQueues (put_host k h f)) + (case get_host k f of None \<Rightarrow> {#} | Some h' \<Rightarrow> mset (bq_list (items h')))
     = host_items (hostQueues f) + mset (bq_list (items h))"
  using assms host_items_update [of "hostQueues f" k h] by (simp add: put_host_def get_host_def tables_ok_def)

lemma scheduleHost_ok:
  assumes "tables_ok f" and "bq_inv (items h)"
  shows "tables_ok (scheduleHost k h now f)"
    and "host_items (hostQueues (scheduleHost k h now f)) + (case get_host k f of None \<Rightarrow> {#} | Some h' \<Rightarrow> mset (bq_list (items h')))
       = host_items (hostQueues f) + mset (bq_list (items h))"
proof -
  obtain h' g where g: "scheduleHost k h now f = put_host k h' g" "items h' = items h" "tables_ok g"
    "hostQueues g = hostQueues f"
    using that assms(1) tables_sleep [OF assms(1)] tables_ready [OF assms(1)]
    by (cases "bq_empty (items h) \<or> inFlight h \<or> inReadyQueue h"; cases "blockedUntilMs h > now"; cases "inSleepingQueue h")
      (auto simp: scheduleHost_def Let_def)
  show "tables_ok (scheduleHost k h now f)" using g assms(2) by (simp add: tables_put_host)
  show "host_items (hostQueues (scheduleHost k h now f)) + (case get_host k f of None \<Rightarrow> {#} | Some h' \<Rightarrow> mset (bq_list (items h')))
       = host_items (hostQueues f) + mset (bq_list (items h))"
    using put_host_items [OF g(3), of k h'] g(1,2,4) by (simp add: get_host_def)
qed

subsection \<open>Scheduling moves nothing\<close>

text \<open>\<open>g\<close> has the tables in order and the same items with the hosts as \<open>f\<close>.\<close>

definition same_items :: "Frontier \<Rightarrow> Frontier \<Rightarrow> bool" where
  "same_items f g \<longleftrightarrow> tables_ok g \<and> host_items (hostQueues g) = host_items (hostQueues f)"

lemma same_items_refl: "tables_ok f \<Longrightarrow> same_items f f"
  by (simp add: same_items_def)

lemma same_items_trans: "same_items f g \<Longrightarrow> same_items g h \<Longrightarrow> same_items f h"
  by (simp add: same_items_def)

lemma tables_cong:
  "tables_ok f \<Longrightarrow> hostQueues g = hostQueues f \<Longrightarrow> readyHosts g = readyHosts f \<Longrightarrow> sleepingHosts g = sleepingHosts f
     \<Longrightarrow> tables_ok g"
  by (simp add: tables_ok_def)

lemma wake_host_ok:
  assumes "tables_ok f"
  shows "same_items f (wake_host s now f) \<and> same_stores f (wake_host s now f) \<and> queued (wake_host s now f) = queued f"
proof (cases "get_host (sleepingKey s) f")
  case None
  then show ?thesis using assms by (simp add: wake_host_def same_items_refl)
next
  case (Some h)
  let ?k = "sleepingKey s"
  let ?g = "f\<lparr>readyHosts := bq_pushBack ?k (readyHosts f)\<rparr>"
  let ?h = "h\<lparr>blockedUntilMs := 0, inSleepingQueue := False, inReadyQueue := True\<rparr>"
  have g: "tables_ok ?g" by (rule tables_ready [OF assms])
  have "tables_ok (put_host ?k ?h ?g)" using tables_put_host [OF g, of ?h] tables_get_host [OF assms Some] by simp
  moreover have "host_items (hostQueues (put_host ?k ?h ?g)) = host_items (hostQueues f)"
    using put_host_items [OF g, of ?k ?h] Some by (simp add: get_host_def)
  moreover have "same_stores f (put_host ?k ?h ?g) \<and> queued (put_host ?k ?h ?g) = queued f"
    by (simp add: put_host_def same_stores_def)
  ultimately show ?thesis using Some assms by (simp add: wake_host_def same_items_def)
qed

lemma promoteSleepingHosts_ok:
  "tables_ok f \<Longrightarrow> same_items f (promoteSleepingHosts now f) \<and> same_stores f (promoteSleepingHosts now f)
     \<and> queued (promoteSleepingHosts now f) = queued f"
proof (induction now f rule: promoteSleepingHosts.induct)
  case (1 now f)
  have stop: ?case if "promoteSleepingHosts now f = f" using that 1(2) by (simp add: same_items_refl)
  show ?case
  proof (cases "sleepingHosts f")
    case Nil
    then show ?thesis by (intro stop) (simp add: promoteSleepingHosts.simps [of now f] pq_top_def)
  next
    case (Cons top tl)
    then have ne: "sleepingHosts f \<noteq> []" and pt: "pq_top (sleepingHosts f) = Some top" by (simp_all add: pq_top_def)
    show ?thesis
    proof (cases "wakeAtMs top \<le> now")
      case False
      then show ?thesis using pt by (intro stop) (simp add: promoteSleepingHosts.simps [of now f])
    next
      case True
      have "heap_inv wakes_before (sleepingHosts f)" using 1(2) by (simp add: tables_ok_def)
      then obtain rest where e: "extractTop wakes_before (sleepingHosts f) = Some (top, rest)" "heap_inv wakes_before rest"
        using wakes.extract_spec [OF _ ne] Cons by auto
      let ?f = "f\<lparr>sleepingHosts := rest\<rparr>"
      let ?w = "wake_host top now ?f"
      have f: "tables_ok ?f" using 1(2) e(2) by (simp add: tables_ok_def)
      note w = wake_host_ok [OF f, of top now]
      have "same_items f ?w" "same_stores f ?w" "queued ?w = queued f"
        using w by (simp_all add: same_items_def same_stores_def)
      moreover have "promoteSleepingHosts now f = promoteSleepingHosts now ?w"
        using pt True e(1) by (simp add: promoteSleepingHosts.simps [of now f])
      moreover have "tables_ok ?w" using w by (simp add: same_items_def)
      ultimately show ?thesis
        using 1(1) [OF pt True e(1) refl] same_items_trans same_stores_trans by metis
    qed
  qed
qed

lemma enqueueScheduledItem_ok:
  fixes item now
  assumes "tables_ok f"
  defines "g \<equiv> enqueueScheduledItem item now f"
  shows "tables_ok g \<and> host_items (hostQueues g) = add_mset item (host_items (hostQueues f)) \<and> same_stores f g
     \<and> queued g = queued f"
proof -
  define key where "key = extractHostKey (link item)"
  define h where "h = (case get_host key f of None \<Rightarrow> new_host | Some h \<Rightarrow> h)"
  have h: "bq_inv (items h)" using tables_get_host [OF assms(1)] by (auto simp: h_def new_host_def split: option.split)
  let ?h = "h\<lparr>items := bq_pushBack item (items h)\<rparr>"
  have push: "bq_inv (items ?h)" "bq_list (items ?h) = bq_list (items h) @ [item]" using pushBack_ok [OF h] by simp_all
  have g: "g = scheduleHost key ?h now f" by (simp add: g_def enqueueScheduledItem_def key_def h_def Let_def)
  have "(case get_host key f of None \<Rightarrow> {#} | Some h' \<Rightarrow> mset (bq_list (items h'))) = mset (bq_list (items h))"
    by (simp add: h_def new_host_def split: option.split)
  then show ?thesis
    using scheduleHost_ok [OF assms(1) push(1), of key now] scheduleHost_stores [of f key ?h now] push(2) by (simp add: g)
qed

lemma enqueue_items_ok:
  fixes its now
  assumes "tables_ok f"
  defines "g \<equiv> fold (\<lambda>item. enqueueScheduledItem item now) its f"
  shows "tables_ok g \<and> host_items (hostQueues g) = mset its + host_items (hostQueues f) \<and> same_stores f g \<and> queued g = queued f"
  unfolding g_def using assms(1)
proof (induction its arbitrary: f)
  case (Cons item its)
  note e = enqueueScheduledItem_ok [OF Cons.prems, of item now]
  have "tables_ok (enqueueScheduledItem item now f)" using e by blast
  from Cons.IH [OF this] show ?case using e by (auto simp: same_stores_def)
qed simp

lemma promote_loop_ok:
  "tables_ok f \<Longrightarrow> promote_loop now f = Some g \<Longrightarrow>
     tables_ok g \<and> host_items (hostQueues g) + mset (reservoir g) = host_items (hostQueues f) + mset (reservoir f)
     \<and> disk_back_reservoir g = disk_back_reservoir f \<and> disk g = disk f
     \<and> diskBackedChunksOnDisk g = diskBackedChunksOnDisk f \<and> queued g = queued f
     \<and> closed g = closed f \<and> pending g = pending f \<and> (bq_list (readyHosts g) \<noteq> [] \<or> reservoir g = [])"
proof (induction now f rule: promote_loop.induct)
  case (1 now f)
  show ?case
  proof (cases "bq_empty (readyHosts f) \<and> reservoir f \<noteq> []")
    case False
    then show ?thesis using 1(2,3) by (auto simp: promote_loop.simps [of now f] bq_empty_iff)
  next
    case True
    then obtain promoted r' c' where p: "promote_chunk getScore (reservoir f) (reservoirSweepCursor f) = Some (promoted, r', c')"
      using 1(3) by (auto simp: promote_loop.simps [of now f] split: option.splits)
    have m: "mset (reservoir f) = mset promoted + mset r'" using promote_chunk_mset [OF p] True by blast
    define f1 where "f1 = f\<lparr>reservoir := r', reservoirSweepCursor := c'\<rparr>"
    define f2 where "f2 = fold (\<lambda>item. enqueueScheduledItem item now) promoted f1"
    define f3 where "f3 = f2\<lparr>ticks := ticks f2 + 1\<rparr>"
    have t1: "tables_ok f1" using 1(2) by (simp add: f1_def tables_ok_def)
    have t2: "tables_ok f2 \<and> host_items (hostQueues f2) = mset promoted + host_items (hostQueues f1) \<and> same_stores f1 f2
        \<and> queued f2 = queued f1" unfolding f2_def by (rule enqueue_items_ok [OF t1])
    have t3: "tables_ok f3" using t2 by (auto simp: f3_def tables_ok_def)
    have eq: "promote_loop now f = promote_loop (clock f2 (ticks f2)) f3"
      using True p by (simp add: promote_loop.simps [of now f] Let_def f1_def f2_def f3_def nowMillis_def)
    have "promote_loop (clock f2 (ticks f2)) f3 = Some g" using eq 1(3) by simp
    moreover have "nowMillis f2 = (clock f2 (ticks f2), f3)" by (simp add: nowMillis_def f3_def)
    ultimately show ?thesis
      using 1(1) [OF True p refl refl f1_def f2_def _ refl t3] t2 m
      by (auto simp: f1_def f3_def same_stores_def ac_simps)
  qed
qed

subsection \<open>The chunk files\<close>

lemma disk_items_delete:
  "distinct (map fst d) \<Longrightarrow> map_of d name = Some bytes \<Longrightarrow> disk_items d = mset (readDiskChunk bytes) + disk_items (AList.delete name d)"
proof (induction d)
  case (Cons e d)
  show ?case
  proof (cases "fst e = name")
    case True
    then have "name \<notin> fst ` set d" using Cons.prems(1) by auto
    then have "AList.delete name d = d" by (rule AList.delete_id)
    then show ?thesis using True Cons.prems(2) by (cases e) (simp add: disk_items_def)
  next
    case False
    then show ?thesis using Cons by (cases e) (simp add: disk_items_def)
  qed
qed simp

lemma disk_items_update_new:
  "name \<notin> fst ` set d \<Longrightarrow> disk_items (AList.update name bytes d) = mset (readDiskChunk bytes) + disk_items d"
  by (induction d) (auto simp: disk_items_def)

lemma update_new_append: "name \<notin> fst ` set d \<Longrightarrow> AList.update name bytes d = d @ [(name, bytes)]"
  by (induction d) auto

lemma frontier_ok_cong:
  "frontier_ok f \<Longrightarrow> tables_ok g \<Longrightarrow> disk_ok g \<Longrightarrow> waiting_items g = waiting_items f \<Longrightarrow> queued g = queued f \<Longrightarrow> frontier_ok g"
  by (simp add: frontier_ok_def)

lemma storable_mset: "\<forall>i \<in># waiting_items f. crawlable i \<Longrightarrow> i \<in> set (disk_back_reservoir f) \<Longrightarrow> storable i"
  by (simp add: waiting_items_def crawlable_def)

definition backup_count :: "nat \<Rightarrow> nat" where
  "backup_count n = (let b = n * frontierDiskBackBackupPercent div 100 in if b > n then n else b)"

lemma doBackUp_eq:
  fixes f defines "backup \<equiv> take (backup_count (length (disk_back_reservoir f))) (disk_back_reservoir f)"
  assumes "\<forall>e \<in> set (disk f). fst (fst e) \<le> diskBackedChunksOnDisk f"
    and "\<not> (length (disk_back_reservoir f) < maxQueued f \<or> \<not> disk_writable f)"
  shows "doBackUp f = f\<lparr>disk := disk f @ [((diskBackedChunksOnDisk f + 1, length backup), writeDiskChunk backup)],
     disk_back_reservoir := drop (backup_count (length (disk_back_reservoir f))) (disk_back_reservoir f),
     diskBackedChunksOnDisk := diskBackedChunksOnDisk f + 1\<rparr>"
proof -
  let ?i = "diskBackedChunksOnDisk f + 1"
  have "(?i, length backup) \<notin> fst ` set (disk f)"
  proof
    assume "(?i, length backup) \<in> fst ` set (disk f)"
    then obtain e where "e \<in> set (disk f)" "fst e = (?i, length backup)" by auto
    then have "?i \<le> diskBackedChunksOnDisk f" using assms(2) by (metis fst_conv)
    then show False by simp
  qed
  then have "chunk_bytes_of backup ?i (disk f) = disk f @ [((?i, length backup), writeDiskChunk backup)]"
    unfolding chunk_bytes_of_def by (rule update_new_append)
  moreover have "doBackUp f = f\<lparr>disk := chunk_bytes_of backup ?i (disk f),
      disk_back_reservoir := drop (backup_count (length (disk_back_reservoir f))) (disk_back_reservoir f),
      diskBackedChunksOnDisk := ?i\<rparr>"
    using assms(3) by (simp add: doBackUp_def Let_def backup_count_def backup_def)
  ultimately show ?thesis by simp
qed

lemma doBackUp_ok:
  assumes "frontier_ok f"
  shows "frontier_ok (doBackUp f) \<and> waiting_items (doBackUp f) = waiting_items f \<and> pending (doBackUp f) = pending f
     \<and> closed (doBackUp f) = closed f \<and> reservoir (doBackUp f) = reservoir f \<and> maxQueued (doBackUp f) = maxQueued f"
proof (cases "length (disk_back_reservoir f) < maxQueued f \<or> \<not> disk_writable f")
  case True
  then show ?thesis using assms by (auto simp: doBackUp_def Let_def)
next
  case False
  define k where "k = backup_count (length (disk_back_reservoir f))"
  let ?backup = "take k (disk_back_reservoir f)"
  let ?i = "diskBackedChunksOnDisk f + 1"
  have ok: "disk_ok f" "tables_ok f" and crawl: "\<forall>i \<in># waiting_items f. crawlable i" using assms by (simp_all add: frontier_ok_def)
  have small: "\<forall>e \<in> set (disk f). fst (fst e) \<le> diskBackedChunksOnDisk f" using ok(1) by (auto simp: disk_ok_def)
  note eq = doBackUp_eq [OF small False, folded k_def]
  have read: "readDiskChunk (writeDiskChunk ?backup) = ?backup"
  proof -
    have "storable i" if "i \<in> set ?backup" for i
      using storable_mset [OF crawl in_set_takeD [OF that]] .
    then show ?thesis by (intro read_written) blast
  qed
  have new: "?i \<notin> (fst \<circ> fst) ` set (disk f)" using small by force
  have "disk_ok (doBackUp f)"
    using ok(1) new read unfolding disk_ok_def eq by (auto simp: le_Suc_eq)
  moreover have "waiting_items (doBackUp f) = waiting_items f"
  proof -
    have "mset (disk_back_reservoir f) = mset ?backup + mset (drop k (disk_back_reservoir f))"
      by (metis append_take_drop_id mset_append)
    then show ?thesis by (simp add: eq waiting_items_def disk_items_def read)
  qed
  moreover have "tables_ok (doBackUp f)" using ok(2) by (rule tables_cong) (simp_all add: eq)
  ultimately show ?thesis using frontier_ok_cong [OF assms] by (simp add: eq)
qed

lemma find_name:
  assumes "findDiskChunk i d = Some (name, bytes)" and "distinct (map (fst \<circ> fst) d)"
  shows "(name, bytes) \<in> set d" and "fst name = i" and "map_of d name = Some bytes" and "distinct (map fst d)"
proof -
  show names: "distinct (map fst d)" using assms(2) by (simp add: distinct_map inj_on_def)
  obtain j where j: "j < length d" "fst (fst (d ! j)) = i" "(name, bytes) = d ! j"
    using assms(1) unfolding findDiskChunk_def find_Some_iff by blast
  then show "(name, bytes) \<in> set d" "fst name = i" by (metis nth_mem) (use j in \<open>metis fst_conv\<close>)
  then show "map_of d name = Some bytes" using names by (simp add: map_of_eq_Some_iff)
qed

lemma loadDiskBackedChunk_ok:
  assumes "frontier_ok f"
  defines "g \<equiv> snd (loadDiskBackedChunkFromDisk f)"
  shows "frontier_ok g \<and> waiting_items g = waiting_items f \<and> pending g = pending f \<and> closed g = closed f
     \<and> hostQueues g = hostQueues f \<and> readyHosts g = readyHosts f"
proof (cases "diskBackedChunksOnDisk f = 0 \<or> findDiskChunk (diskBackedChunksOnDisk f) (disk f) = None")
  case True
  then show ?thesis using assms(1) by (auto simp: g_def loadDiskBackedChunkFromDisk_def)
next
  case False
  let ?n = "diskBackedChunksOnDisk f"
  obtain name bytes where e: "findDiskChunk ?n (disk f) = Some (name, bytes)" using False by auto
  have ok: "disk_ok f" "tables_ok f" using assms(1) by (simp_all add: frontier_ok_def)
  have dist: "distinct (map (fst \<circ> fst) (disk f))" using ok(1) by (simp add: disk_ok_def)
  note nm = find_name [OF e dist]
  have g: "g = f\<lparr>disk_back_reservoir := disk_back_reservoir f @ readDiskChunk bytes, disk := AList.delete name (disk f),
      diskBackedChunksOnDisk := ?n - 1\<rparr>"
    using False e by (simp add: g_def loadDiskBackedChunkFromDisk_def)
  have sub: "x \<in> set (disk f) \<and> fst x \<noteq> name" if "x \<in> set (AList.delete name (disk f))" for x
    using that by (auto simp: AList.delete_eq)
  have other: "fst (fst x) \<noteq> ?n" if "x \<in> set (AList.delete name (disk f))" for x
  proof
    assume "fst (fst x) = ?n"
    then have "(fst \<circ> fst) x = (fst \<circ> fst) (name, bytes)" using nm(2) by simp
    then have "x = (name, bytes)" using dist sub [OF that] nm(1) by (meson distinct_map inj_on_contraD)
    then show False using sub [OF that] by simp
  qed
  have "distinct (map (fst \<circ> fst) (AList.delete name (disk f)))"
    using dist by (simp add: AList.delete_eq distinct_map_filter)
  moreover have "0 < fst (fst x) \<and> fst (fst x) \<le> ?n - 1 \<and> length (readDiskChunk (snd x)) = snd (fst x)"
    if x: "x \<in> set (AList.delete name (disk f))" for x
  proof -
    have "0 < fst (fst x) \<and> fst (fst x) \<le> ?n \<and> length (readDiskChunk (snd x)) = snd (fst x)"
      using ok(1) sub [OF x] by (simp add: disk_ok_def)
    then show ?thesis using other [OF x] by linarith
  qed
  ultimately have "disk_ok g" unfolding disk_ok_def g by simp
  moreover have "waiting_items g = waiting_items f"
    using disk_items_delete [OF nm(4,3)] by (simp add: g waiting_items_def)
  moreover have "tables_ok g" using ok(2) by (rule tables_cong) (simp_all add: g)
  ultimately show ?thesis using frontier_ok_cong [OF assms(1)] by (simp add: g)
qed

lemma refillReservoir_ok:
  assumes "frontier_ok f"
  defines "g \<equiv> refillReservoirFromDiskBacked f"
  shows "frontier_ok g \<and> waiting_items g = waiting_items f \<and> pending g = pending f \<and> closed g = closed f
     \<and> hostQueues g = hostQueues f \<and> readyHosts g = readyHosts f"
proof (cases "length (reservoir f) \<ge> maxQueued f \<or> disk_back_reservoir f = []")
  case True
  then show ?thesis using assms(1) by (auto simp: g_def refillReservoirFromDiskBacked_def)
next
  case False
  then obtain k where g: "g = f\<lparr>reservoir := reservoir f @ take k (disk_back_reservoir f),
      disk_back_reservoir := drop k (disk_back_reservoir f)\<rparr>"
    by (auto simp: g_def refillReservoirFromDiskBacked_def Let_def)
  have "mset (disk_back_reservoir f) = mset (take k (disk_back_reservoir f)) + mset (drop k (disk_back_reservoir f))"
    by (metis append_take_drop_id mset_append)
  then have "waiting_items g = waiting_items f" by (simp add: g waiting_items_def)
  moreover have f: "tables_ok f" "disk_ok f" using assms(1) by (simp_all add: frontier_ok_def)
  have "tables_ok g" using f(1) by (rule tables_cong) (simp_all add: g)
  moreover have "disk_ok g" using f(2) by (simp add: disk_ok_def g)
  ultimately show ?thesis using frontier_ok_cong [OF assms(1)] by (simp add: g)
qed

text \<open>What \<open>promoteReservoir\<close> does before its loop.\<close>

definition refilled :: "Frontier \<Rightarrow> Frontier" where
  "refilled f =
     (let f1 = (if length (disk_back_reservoir f) < maxQueued f * frontierDiskBackRefillPercent div 100
                then snd (loadDiskBackedChunkFromDisk f) else f)
      in if length (reservoir f1) < maxQueued f * frontierReservoirRefillPercent div 100
         then refillReservoirFromDiskBacked f1 else f1)"

lemma maxQueued_load [simp]: "maxQueued (snd (loadDiskBackedChunkFromDisk f)) = maxQueued f"
  by (simp add: loadDiskBackedChunkFromDisk_def split: option.split)

lemma promoteReservoir_refilled:
  "promoteReservoir now f =
     (if \<not> bq_empty (readyHosts (refilled f)) \<or> reservoir (refilled f) = [] then Some (refilled f)
      else promote_loop now (refilled f))"
  by (simp add: promoteReservoir_def refilled_def Let_def)

lemma refilled_ok:
  assumes "frontier_ok f"
  shows "frontier_ok (refilled f) \<and> waiting_items (refilled f) = waiting_items f \<and> pending (refilled f) = pending f
     \<and> closed (refilled f) = closed f \<and> hostQueues (refilled f) = hostQueues f \<and> readyHosts (refilled f) = readyHosts f"
proof -
  define f1 where "f1 = (if length (disk_back_reservoir f) < maxQueued f * frontierDiskBackRefillPercent div 100
      then snd (loadDiskBackedChunkFromDisk f) else f)"
  have f1: "frontier_ok f1 \<and> waiting_items f1 = waiting_items f \<and> pending f1 = pending f \<and> closed f1 = closed f
      \<and> hostQueues f1 = hostQueues f \<and> readyHosts f1 = readyHosts f"
    using loadDiskBackedChunk_ok [OF assms] assms by (simp add: f1_def)
  have "refilled f = (if length (reservoir f1) < maxQueued f * frontierReservoirRefillPercent div 100
      then refillReservoirFromDiskBacked f1 else f1)"
    unfolding refilled_def Let_def f1_def ..
  then show ?thesis using f1 refillReservoir_ok [of f1] by simp
qed

lemma promoteReservoir_ok:
  assumes "frontier_ok f" and "promoteReservoir now f = Some g"
  shows "frontier_ok g \<and> waiting_items g = waiting_items f \<and> pending g = pending f \<and> closed g = closed f
     \<and> host_items (hostQueues g) + mset (reservoir g) = host_items (hostQueues f) + mset (reservoir (refilled f))
     \<and> disk_back_reservoir g = disk_back_reservoir (refilled f) \<and> disk g = disk (refilled f)
     \<and> diskBackedChunksOnDisk g = diskBackedChunksOnDisk (refilled f)
     \<and> (bq_list (readyHosts g) = [] \<longrightarrow> reservoir g = [])"
proof (cases "\<not> bq_empty (readyHosts (refilled f)) \<or> reservoir (refilled f) = []")
  case True
  then show ?thesis using promoteReservoir_refilled [of now f] assms(2) refilled_ok [OF assms(1)] by (auto simp: bq_empty_iff)
next
  case False
  note f2 = refilled_ok [OF assms(1)]
  have loop: "promote_loop now (refilled f) = Some g" using False promoteReservoir_refilled [of now f] assms(2) by simp
  have "tables_ok (refilled f)" using f2 by (simp add: frontier_ok_def)
  from promote_loop_ok [OF this loop]
  have l: "tables_ok g" "waiting_items g = waiting_items (refilled f)" "queued g = queued (refilled f)"
    "pending g = pending (refilled f)" "closed g = closed (refilled f)" "disk g = disk (refilled f)"
    "diskBackedChunksOnDisk g = diskBackedChunksOnDisk (refilled f)" "bq_list (readyHosts g) \<noteq> [] \<or> reservoir g = []"
    "disk_back_reservoir g = disk_back_reservoir (refilled f)"
    "host_items (hostQueues g) + mset (reservoir g) = host_items (hostQueues f) + mset (reservoir (refilled f))"
    using f2 by (auto simp: waiting_items_def)
  have "disk_ok g" using f2 l(6,7) by (simp add: frontier_ok_def disk_ok_def)
  then have "frontier_ok g" using l(1-3) f2 by (intro frontier_ok_cong [of "refilled f" g]) auto
  then show ?thesis using l f2 by auto
qed

subsection \<open>The operations\<close>

text \<open>The table changes and the counters may, the stores do not.\<close>

lemma frontier_ok_tables:
  assumes "frontier_ok f" and "tables_ok g" and "same_stores f g" and "queued g = size (waiting_items g)"
    and "host_items (hostQueues g) \<subseteq># host_items (hostQueues f)"
  shows "frontier_ok g"
proof -
  have "disk_ok g" using assms(1,3) by (simp add: frontier_ok_def disk_ok_def same_stores_def)
  moreover have "waiting_items g \<subseteq># waiting_items f" using assms(3,5) by (simp add: waiting_items_def same_stores_def)
  then have "\<forall>item \<in># waiting_items g. crawlable item" using assms(1) by (auto simp: frontier_ok_def dest: mset_subset_eqD)
  ultimately show ?thesis using assms(2,4) by (simp add: frontier_ok_def)
qed

lemma promoteSleeping_frontier_ok:
  fixes now assumes "frontier_ok f"
  defines "g \<equiv> promoteSleepingHosts now f"
  shows "frontier_ok g \<and> waiting_items g = waiting_items f \<and> pending g = pending f \<and> closed g = closed f"
proof -
  have "tables_ok f" using assms(1) by (simp add: frontier_ok_def)
  then have g: "tables_ok g" "host_items (hostQueues g) = host_items (hostQueues f)" "same_stores f g" "queued g = queued f"
    using promoteSleepingHosts_ok [of f now] by (simp_all add: g_def same_items_def)
  then have w: "waiting_items g = waiting_items f" by (simp add: waiting_items_def same_stores_def)
  have "frontier_ok g"
    by (rule frontier_ok_tables [OF assms(1)]) (use g w assms(1) in \<open>simp_all add: frontier_ok_def\<close>)
  then show ?thesis using w g(3) by (simp add: same_stores_def)
qed

definition handed :: "(FrontierItem \<times> string) option \<Rightarrow> FrontierItem multiset" where
  "handed r = mset (map fst (case r of None \<Rightarrow> [] | Some p \<Rightarrow> [p]))"

lemma handed_simps [simp]: "handed None = {#}" "handed (Some (item, key)) = {#item#}"
  by (simp_all add: handed_def)

lemma dispatch_ok:
  "frontier_ok f \<Longrightarrow> dispatch f = (r, g) \<Longrightarrow>
     frontier_ok g \<and> pending g = pending f \<and> closed g = closed f \<and> waiting_items f = handed r + waiting_items g
     \<and> (r = None \<longrightarrow> bq_list (readyHosts g) = [])"
proof (induction f rule: dispatch.induct)
  case (1 f)
  have tables: "tables_ok f" and count: "queued f = size (waiting_items f)" using 1(3) by (simp_all add: frontier_ok_def)
  show ?case
  proof (cases "bq_popFront (readyHosts f)")
    case None
    then have "dispatch f = (None, f)" by (simp add: dispatch.simps [of f])
    then show ?thesis using None 1(3,4) popFront_None [of "readyHosts f"] by auto
  next
    case (Some p)
    obtain key rest where p: "p = (key, rest)" by (cases p)
    have rd: "bq_inv (readyHosts f)" using tables by (simp add: tables_ok_def)
    then have rest: "bq_inv rest" using popFront_Some [OF rd] Some p by blast
    let ?f = "f\<lparr>readyHosts := rest\<rparr>"
    have f: "frontier_ok ?f" using 1(3) rest by (simp add: frontier_ok_def tables_ok_def disk_ok_def waiting_items_def)
    have w: "waiting_items ?f = waiting_items f" by (simp add: waiting_items_def)
    show ?thesis
    proof (cases "get_host key ?f")
      case None
      have "dispatch f = dispatch ?f" using Some p None by (simp add: dispatch.simps [of f] Let_def)
      then show ?thesis using 1(1) [OF Some p [symmetric] refl None f] 1(4) w by simp
    next
      case h: (Some h)
      let ?h = "h\<lparr>inReadyQueue := False\<rparr>"
      have hq: "bq_inv (items h)" by (rule tables_get_host [of ?f key]) (use f h in \<open>simp_all add: frontier_ok_def\<close>)
      have t: "tables_ok ?f" using f by (simp add: frontier_ok_def)
      show ?thesis
      proof (cases "inFlight ?h \<or> bq_empty (items ?h)")
        case True
        let ?g = "put_host key ?h ?f"
        have same: "host_items (hostQueues ?g) = host_items (hostQueues ?f)" using put_host_items [OF t, of key ?h] h by simp
        have wg: "waiting_items ?g = waiting_items f" using same by (simp add: waiting_items_def put_host_def)
        have "frontier_ok ?g"
          by (rule frontier_ok_tables [OF f])
            (use same wg count hq t tables_put_host in \<open>simp_all add: same_stores_def, simp_all add: put_host_def\<close>)
        moreover have "dispatch f = dispatch ?g" using Some p h True by (auto simp: dispatch.simps [of f] Let_def)
        ultimately show ?thesis using 1(2) [OF Some p [symmetric] refl h refl True] 1(4) wg by (simp add: put_host_def)
      next
        case False
        then obtain item its where l: "bq_list (items h) = item # its" by (cases "bq_list (items h)") (auto simp: bq_empty_iff)
        obtain q where q: "bq_popFront (items h) = Some (item, q)" "bq_inv q" "bq_list q = its" using popFront_ok [OF hq l] by blast
        let ?h' = "?h\<lparr>items := q, inFlight := True\<rparr>"
        let ?g = "put_host key ?h' (?f\<lparr>queued := queued ?f - 1\<rparr>)"
        have d: "dispatch f = (Some (item, key), ?g)" using Some p h False q(1) by (simp add: dispatch.simps [of f] Let_def)
        have t': "tables_ok (?f\<lparr>queued := queued ?f - 1\<rparr>)" using t by (simp add: tables_ok_def)
        have gone: "host_items (hostQueues f) = add_mset item (host_items (hostQueues ?g))"
          using put_host_items [OF t', of key ?h'] h l q(3) by (simp add: get_host_def)
        then have wg: "waiting_items f = add_mset item (waiting_items ?g)" by (simp add: waiting_items_def put_host_def)
        moreover have "tables_ok ?g" using tables_put_host [OF t', of ?h'] q(2) by simp
        moreover have "host_items (hostQueues ?g) \<subseteq># host_items (hostQueues f)" by (subst gone) simp
        moreover have "same_stores f ?g" by (simp add: same_stores_def put_host_def)
        moreover have "queued ?g = size (waiting_items f) - 1" using count by (simp add: put_host_def)
        ultimately have "frontier_ok ?g" by (intro frontier_ok_tables [OF 1(3)]) (simp_all del: size_eq_0_iff_empty)
        then show ?thesis using d 1(4) wg by (auto simp: put_host_def)
      qed
    qed
  qed
qed

lemma frontier_ok_tick: "frontier_ok f \<Longrightarrow> frontier_ok (f\<lparr>ticks := t\<rparr>)"
  by (simp add: frontier_ok_def tables_ok_def disk_ok_def waiting_items_def)

lemma pop_turn_cases:
  assumes "pop_turn f = Some (r, g)"
  obtains now f3 d where "promoteReservoir now (promoteSleepingHosts now (f\<lparr>ticks := ticks f + 1\<rparr>)) = Some f3"
    "dispatch f3 = (d, g)"
    "r = (case d of Some (item, key) \<Rightarrow> PopItem item key | None \<Rightarrow> if closed g then PopEnd else PopWait)"
proof -
  define now where "now = clock f (ticks f)"
  obtain f3 where f3: "promoteReservoir now (promoteSleepingHosts now (f\<lparr>ticks := ticks f + 1\<rparr>)) = Some f3"
    using assms by (auto simp: pop_turn_def nowMillis_def Let_def now_def split: option.splits)
  obtain d g' where d: "dispatch f3 = (d, g')" by fastforce
  have "pop_turn f = Some (case d of Some (item, key) \<Rightarrow> PopItem item key | None \<Rightarrow> if closed g' then PopEnd else PopWait, g')"
    using f3 d by (simp add: pop_turn_def nowMillis_def Let_def now_def split: option.splits prod.splits)
  then show thesis using that [OF f3, of d] d assms by simp
qed

lemma pop_turn_ok:
  assumes "frontier_ok f" and "pop_turn f = Some (r, g)"
  shows "frontier_ok g \<and> pending g = pending f \<and> closed g = closed f
     \<and> (case r of
          PopItem item key \<Rightarrow> waiting_items f = add_mset item (waiting_items g)
        | PopEnd \<Rightarrow> closed g \<and> waiting_items g = waiting_items f
        | PopWait \<Rightarrow> \<not> closed g \<and> waiting_items g = waiting_items f)"
proof -
  obtain now f3 d where f3: "promoteReservoir now (promoteSleepingHosts now (f\<lparr>ticks := ticks f + 1\<rparr>)) = Some f3"
    and d: "dispatch f3 = (d, g)"
    and r: "r = (case d of Some (item, key) \<Rightarrow> PopItem item key | None \<Rightarrow> if closed g then PopEnd else PopWait)"
    using pop_turn_cases [OF assms(2)] by blast
  have f1: "frontier_ok (f\<lparr>ticks := ticks f + 1\<rparr>)" by (rule frontier_ok_tick [OF assms(1)])
  have w1: "waiting_items (f\<lparr>ticks := ticks f + 1\<rparr>) = waiting_items f" by (simp add: waiting_items_def)
  note f2 = promoteSleeping_frontier_ok [OF f1, of now]
  have f3': "frontier_ok f3 \<and> waiting_items f3 = waiting_items f \<and> pending f3 = pending f \<and> closed f3 = closed f"
    using promoteReservoir_ok [OF _ f3] f2 w1 by simp
  then have g: "frontier_ok g" "pending g = pending f" "closed g = closed f" "waiting_items f = handed d + waiting_items g"
    using dispatch_ok [of f3 d g] d by simp_all
  show ?thesis
  proof (cases d)
    case None
    then show ?thesis using r g by auto
  next
    case (Some ik)
    then show ?thesis using r g by (cases ik) auto
  qed
qed

subsection \<open>What comes in and goes back\<close>

lemma pushInternal_ok:
  fixes item count
  assumes "frontier_ok f" and "crawlable item"
  defines "g \<equiv> pushInternal item count f"
  shows "frontier_ok g \<and> waiting_items g = add_mset item (waiting_items f) \<and> pending g = pending f + of_bool count
     \<and> closed g = closed f \<and> autoCloseWhenDrained g = autoCloseWhenDrained f"
proof -
  define f1 where "f1 = f\<lparr>pending := pending f + of_bool count, queued := queued f + 1\<rparr>"
  have item: "link item \<noteq> []" using assms(2) by (simp add: crawlable_def)
  have f: "tables_ok f" "disk_ok f" "\<forall>i \<in># waiting_items f. crawlable i" "queued f = size (waiting_items f)"
    using assms(1) by (simp_all add: frontier_ok_def)
  have put: "frontier_ok (h\<lparr>pending := p, queued := queued h + 1, reservoir := reservoir h @ [item]\<rparr>)"
    "waiting_items (h\<lparr>pending := p, queued := queued h + 1, reservoir := reservoir h @ [item]\<rparr>) = add_mset item (waiting_items h)"
    "frontier_ok (h\<lparr>pending := p, queued := queued h + 1, disk_back_reservoir := disk_back_reservoir h @ [item]\<rparr>)"
    "waiting_items (h\<lparr>pending := p, queued := queued h + 1, disk_back_reservoir := disk_back_reservoir h @ [item]\<rparr>)
       = add_mset item (waiting_items h)" if "frontier_ok h" for h p
    using that assms(2) by (auto simp: frontier_ok_def tables_ok_def disk_ok_def waiting_items_def)
  have g: "g = (if length (reservoir f) < maxQueued f then f1\<lparr>reservoir := reservoir f @ [item]\<rparr>
      else (doBackUp f1)\<lparr>disk_back_reservoir := disk_back_reservoir (doBackUp f1) @ [item]\<rparr>)"
    using item by (simp add: g_def pushInternal_def Let_def f1_def)
  have b: "doBackUp f1 = (doBackUp f)\<lparr>pending := pending f + of_bool count, queued := queued f + 1\<rparr>"
    by (simp add: doBackUp_def f1_def Let_def)
  have q: "queued (doBackUp f) = queued f" "autoCloseWhenDrained (doBackUp f) = autoCloseWhenDrained f"
    by (simp_all add: doBackUp_def Let_def)
  note bu = doBackUp_ok [OF assms(1)]
  show ?thesis
  proof (cases "length (reservoir f) < maxQueued f")
    case True
    then show ?thesis using put(1,2) [OF assms(1), of "pending f + of_bool count"] by (simp add: g f1_def)
  next
    case False
    then have "g = (doBackUp f)\<lparr>pending := pending f + of_bool count, queued := queued (doBackUp f) + 1,
        disk_back_reservoir := disk_back_reservoir (doBackUp f) @ [item]\<rparr>" by (simp add: g b q)
    then show ?thesis using put(3,4) [of "doBackUp f" "pending f + of_bool count"] bu q by simp
  qed
qed

lemma pushes_ok:
  assumes "frontier_ok f" and "\<forall>item \<in> set its. crawlable item"
  defines "g \<equiv> fold (\<lambda>item f. if link item \<noteq> [] then pushInternal item True f else f) its f"
  shows "frontier_ok g \<and> waiting_items g = mset its + waiting_items f \<and> pending g = pending f + length its
     \<and> closed g = closed f \<and> autoCloseWhenDrained g = autoCloseWhenDrained f"
  using assms(1,2) unfolding g_def
proof (induction its arbitrary: f)
  case (Cons item its)
  have item: "crawlable item" "link item \<noteq> []" using Cons.prems(2) by (simp_all add: crawlable_def)
  note p = pushInternal_ok [OF Cons.prems(1) item(1), of True]
  have "frontier_ok (pushInternal item True f)" "\<forall>item \<in> set its. crawlable item" using p Cons.prems(2) by simp_all
  from Cons.IH [OF this] show ?case using p item(2) by simp
qed simp

lemma pushMany_ok:
  assumes "frontier_ok f" and "\<forall>item \<in> set its. crawlable item"
  defines "g \<equiv> pushMany its f"
  shows "frontier_ok g \<and> waiting_items g = (if closed f then {#} else mset its) + waiting_items f
     \<and> pending g = pending f + (if closed f then 0 else length its)
     \<and> closed g = closed f \<and> autoCloseWhenDrained g = autoCloseWhenDrained f"
  using pushes_ok [OF assms(1,2)] assms(1) by (auto simp: g_def pushMany_def)

text \<open>The host of an item that is handed back to the schedule, with another item or without.\<close>

lemma reschedule_ok:
  assumes "frontier_ok f" and "get_host key f = Some h" and "bq_inv (items h')"
    and "bq_list (items h') = ret @ bq_list (items h)" and "\<forall>item \<in> set ret. crawlable item"
    and "tables_ok f1" and "host_items (hostQueues f1) = host_items (hostQueues f)"
    and "get_host key f1 = Some h" and "same_stores f f1" and "queued f1 = queued f + length ret"
    and "f2 = put_host key h' f1 \<or> f2 = scheduleHost key h' now f1"
  shows "frontier_ok f2 \<and> waiting_items f2 = mset ret + waiting_items f \<and> pending f2 = pending f \<and> closed f2 = closed f
     \<and> autoCloseWhenDrained f2 = autoCloseWhenDrained f"
proof -
  have t: "tables_ok f2"
    using assms(3,6,11) tables_put_host scheduleHost_ok(1) by blast
  have h: "host_items (hostQueues f2) = mset ret + host_items (hostQueues f)"
    using assms(4,7,8,11) put_host_items [OF assms(6), of key h'] scheduleHost_ok(2) [OF assms(6,3), of key now]
    by auto
  have s: "same_stores f1 f2" "queued f2 = queued f1"
    using assms(11) scheduleHost_stores [of f1 key h' now] by (auto simp: put_host_def same_stores_def)
  have st: "same_stores f f2" by (rule same_stores_trans [OF assms(9) s(1)])
  have w: "waiting_items f2 = mset ret + waiting_items f" using st h by (simp add: waiting_items_def same_stores_def)
  have "disk_ok f2" using assms(1) st by (simp add: frontier_ok_def disk_ok_def same_stores_def)
  moreover have "queued f2 = size (waiting_items f2)" using assms(1,10) s(2) w by (simp add: frontier_ok_def)
  moreover have "\<forall>i \<in># waiting_items f2. crawlable i" using assms(1,5) w by (auto simp: frontier_ok_def)
  ultimately show ?thesis using t w st by (simp add: frontier_ok_def same_stores_def)
qed

lemma releaseActiveHost_ok:
  assumes "frontier_ok f" and "releaseActiveHost now key f = (k, g)"
  shows "frontier_ok g \<and> waiting_items g = waiting_items f \<and> pending g = pending f \<and> closed g = closed f
     \<and> autoCloseWhenDrained g = autoCloseWhenDrained f"
proof (cases "get_host key f")
  case None
  then show ?thesis using assms by (simp add: releaseActiveHost_def split: if_splits)
next
  case (Some h)
  have t: "tables_ok f" using assms(1) by (simp add: frontier_ok_def)
  have inv: "bq_inv (items (h\<lparr>inFlight := False\<rparr>))" using tables_get_host [OF t Some] by simp
  show ?thesis
  proof (cases "key = []")
    case True
    then show ?thesis using assms by (simp add: releaseActiveHost_def)
  next
    case False
    then have "g = scheduleHost key (h\<lparr>inFlight := False\<rparr>) now f" using assms(2) Some by (simp add: releaseActiveHost_def)
    then show ?thesis
      using reschedule_ok [OF assms(1) Some inv, of "[]" f g now] t Some by simp
  qed
qed

lemma taskDone_ok:
  assumes "frontier_ok f" and "taskDone key f = (k, g)"
  shows "frontier_ok g \<and> waiting_items g = waiting_items f \<and> pending g = pending f - 1
     \<and> autoCloseWhenDrained g = autoCloseWhenDrained f
     \<and> (closed g \<longleftrightarrow> closed f \<or> pending f = 1 \<and> autoCloseWhenDrained f)"
proof -
  define f1 where "f1 = f\<lparr>ticks := ticks f + 1, pending := pending f - 1\<rparr>"
  have f1: "frontier_ok f1" "waiting_items f1 = waiting_items f"
    using assms(1) by (simp_all add: f1_def frontier_ok_def tables_ok_def disk_ok_def waiting_items_def)
  show ?thesis
  proof (cases "pending f = 0")
    case True
    then have "releaseActiveHost (clock f (ticks f)) key (f\<lparr>ticks := ticks f + 1\<rparr>) = (k, g)"
      using assms(2) by (simp add: taskDone_def nowMillis_def)
    from releaseActiveHost_ok [OF frontier_ok_tick [OF assms(1)] this] show ?thesis
      using True by (simp add: waiting_items_def)
  next
    case False
    obtain k' g' where r: "releaseActiveHost (clock f (ticks f)) key f1 = (k', g')" by fastforce
    have g: "g = (if pending g' = 0 \<and> autoCloseWhenDrained g' then g'\<lparr>closed := True\<rparr> else g')"
      using assms(2) False r by (simp add: taskDone_def nowMillis_def f1_def split: if_splits)
    have "frontier_ok (h\<lparr>closed := True\<rparr>)" "waiting_items (h\<lparr>closed := True\<rparr>) = waiting_items h" if "frontier_ok h" for h
      using that by (simp_all add: frontier_ok_def tables_ok_def disk_ok_def waiting_items_def)
    then show ?thesis using releaseActiveHost_ok [OF f1(1) r] f1(2) False by (auto simp: g f1_def)
  qed
qed

lemma snoozeCurrent_ok:
  assumes "frontier_ok f" and "crawlable item" and "key \<noteq> []" and "get_host key f = Some h"
    and "snoozeCurrent item readyAt key f = (k, g)"
  shows "frontier_ok g \<and> waiting_items g = add_mset item (waiting_items f) \<and> pending g = pending f \<and> closed g = closed f
     \<and> autoCloseWhenDrained g = autoCloseWhenDrained f"
proof -
  define h' where "h' = h\<lparr>items := bq_pushFront item (items h), inFlight := False,
      blockedUntilMs := (if readyAt > blockedUntilMs h then readyAt else blockedUntilMs h),
      sleepGeneration := sleepGeneration h + 1\<rparr>"
  define now where "now = clock f (ticks f)"
  define f1 where "f1 = f\<lparr>queued := queued f + 1, ticks := ticks f + 1\<rparr>"
  define f2 where "f2 = f1\<lparr>sleepingHosts := pq_push wakes_before
      \<lparr>wakeAtMs = blockedUntilMs h', generation = sleepGeneration h', sleepingKey = key\<rparr> (sleepingHosts f)\<rparr>"
  have t: "tables_ok f" using assms(1) by (simp add: frontier_ok_def)
  note front = pushFront_ok [OF tables_get_host [OF t assms(4)], of item]
  have g: "g = (if blockedUntilMs h' > now then put_host key (h'\<lparr>inSleepingQueue := True\<rparr>) f2 else scheduleHost key h' now f1)"
    using assms(2-5) by (auto simp: snoozeCurrent_def nowMillis_def Let_def h'_def now_def f1_def f2_def crawlable_def) (cases f; cases h; simp)+
  have t1: "tables_ok f1" "tables_ok f2" using t by (simp_all add: f1_def f2_def tables_ok_def wakes.push_heap)
  let ?f = "f\<lparr>ticks := ticks f + 1\<rparr>"
  have f: "frontier_ok ?f" "get_host key ?f = Some h" using frontier_ok_tick [OF assms(1)] assms(4) by (simp_all add: get_host_def)
  have w: "waiting_items ?f = waiting_items f" by (simp add: waiting_items_def)
  have same: "same_stores ?f f1" "same_stores ?f f2" by (simp_all add: f1_def f2_def same_stores_def)
  have items: "bq_inv (items h')" "bq_list (items h') = [item] @ bq_list (items h)" using front by (simp_all add: h'_def)
  show ?thesis
  proof (cases "blockedUntilMs h' > now")
    case True
    then show ?thesis
      using reschedule_ok [OF f, of "h'\<lparr>inSleepingQueue := True\<rparr>" "[item]" f2 g now] g items t1 same assms(2,4) w
      by (simp add: f1_def f2_def get_host_def)
  next
    case False
    then show ?thesis
      using reschedule_ok [OF f, of h' "[item]" f1 g now] g items t1 same assms(2,4) w by (simp add: f1_def get_host_def)
  qed
qed

end
