(* ===== verification/FrontierSchedule.thy ===== *)
theory FrontierSchedule
  imports FrontierConserve
begin

text \<open>
  The schedule of the frontier: a host with URLs is in the queue of the ready hosts, asleep with an entry for the
  time when it wakes up, or handed out; a host is handed out once at a time. So a call of \<open>pop\<close> that waits leaves
  nothing behind that nobody would wake it up for.
\<close>

subsection \<open>The state of a host\<close>

definition ready :: "Frontier \<Rightarrow> string list" where
  "ready f = bq_list (readyHosts f)"

definition wake_entry :: "string \<Rightarrow> HostQueue \<Rightarrow> SleepingHost" where
  "wake_entry k h = \<lparr>wakeAtMs = blockedUntilMs h, generation = sleepGeneration h, sleepingKey = k\<rparr>"

text \<open>A host whose flags agree with the queues, but that may have been left without a place.\<close>

definition host_flags :: "Frontier \<Rightarrow> string \<Rightarrow> HostQueue \<Rightarrow> bool" where
  "host_flags f k h \<longleftrightarrow> bq_inv (items h)
     \<and> (inReadyQueue h \<longleftrightarrow> k \<in> set (ready f))
     \<and> (inReadyQueue h \<longrightarrow> bq_list (items h) \<noteq> [] \<and> \<not> inFlight h \<and> \<not> inSleepingQueue h)
     \<and> (inSleepingQueue h \<longrightarrow> bq_list (items h) \<noteq> [] \<and> \<not> inFlight h \<and> wake_entry k h \<in> set (sleepingHosts f))
     \<and> (\<forall>i \<in> set (bq_list (items h)). extractHostKey (link i) = k)"

definition host_placed :: "HostQueue \<Rightarrow> bool" where
  "host_placed h \<longleftrightarrow> (bq_list (items h) = [] \<or> inFlight h \<or> inReadyQueue h \<or> inSleepingQueue h)
     \<and> (inSleepingQueue h \<or> blockedUntilMs h \<le> 0)"

definition queues_ok :: "Frontier \<Rightarrow> bool" where
  "queues_ok f \<longleftrightarrow> distinct (ready f) \<and> bq_inv (readyHosts f) \<and> heap_inv wakes_before (sleepingHosts f)"

text \<open>All hosts but one.\<close>

definition others_ok :: "string \<Rightarrow> Frontier \<Rightarrow> bool" where
  "others_ok k f \<longleftrightarrow> queues_ok f \<and> (\<forall>k' \<in> set (ready f). k' = k \<or> get_host k' f \<noteq> None)
     \<and> (\<forall>k' h. k' \<noteq> k \<longrightarrow> get_host k' f = Some h \<longrightarrow> host_flags f k' h \<and> host_placed h)"

definition sched_ok :: "Frontier \<Rightarrow> bool" where
  "sched_ok f \<longleftrightarrow> queues_ok f \<and> (\<forall>k \<in> set (ready f). get_host k f \<noteq> None)
     \<and> (\<forall>k h. get_host k f = Some h \<longrightarrow> host_flags f k h \<and> host_placed h)"

definition flying :: "Frontier \<Rightarrow> string set" where
  "flying f = {k. \<exists>h. get_host k f = Some h \<and> inFlight h}"

lemma get_put_host: "get_host k' (put_host k h f) = (if k' = k then Some h else get_host k' f)"
  by (simp add: get_host_def put_host_def update_conv')

lemma ready_put_host [simp]: "ready (put_host k h f) = ready f" "readyHosts (put_host k h f) = readyHosts f"
  "sleepingHosts (put_host k h f) = sleepingHosts f"
  by (simp_all add: ready_def put_host_def)

lemma sched_ok_cong:
  "hostQueues g = hostQueues f \<Longrightarrow> readyHosts g = readyHosts f \<Longrightarrow> sleepingHosts g = sleepingHosts f
     \<Longrightarrow> sched_ok g = sched_ok f"
  by (simp add: sched_ok_def queues_ok_def ready_def get_host_def host_flags_def)

lemma flying_cong: "hostQueues g = hostQueues f \<Longrightarrow> flying g = flying f"
  by (simp add: flying_def get_host_def)

lemma sched_ok_others: "sched_ok f \<Longrightarrow> others_ok k f"
  by (auto simp: sched_ok_def others_ok_def)

lemma flying_put_host: "flying (put_host k h f) = (if inFlight h then insert k (flying f) else flying f - {k})"
  by (auto simp: flying_def get_put_host split: if_splits)

lemma others_sched:
  assumes "others_ok k f" and "k \<in> set (ready f) \<Longrightarrow> get_host k f \<noteq> None"
    and "\<And>h. get_host k f = Some h \<Longrightarrow> host_flags f k h \<and> host_placed h"
  shows "sched_ok f"
  unfolding sched_ok_def
proof (intro conjI allI impI ballI)
  show "queues_ok f" using assms(1) by (simp add: others_ok_def)
  show "get_host k' f \<noteq> None" if "k' \<in> set (ready f)" for k'
    using assms(1,2) that by (cases "k' = k") (auto simp: others_ok_def)
  show "host_flags f k' h" "host_placed h" if "get_host k' f = Some h" for k' h
    using assms(1,3) that by (cases "k' = k"; simp add: others_ok_def)+
qed

text \<open>The host is put back with its flags right.\<close>

lemma put_host_sched:
  assumes "others_ok k f" and "host_flags f k h" and "host_placed h"
  shows "sched_ok (put_host k h f)"
proof -
  have "host_flags (put_host k h f) k' h' = host_flags f k' h'" for k' h' by (simp add: host_flags_def)
  then show ?thesis using assms by (auto simp: sched_ok_def others_ok_def get_put_host queues_ok_def split: if_splits)
qed

lemma sleep_set [simp]: "set (pq_push wakes_before e xs) = insert e (set xs)"
  by (metis wakes.mset_pq_push set_mset_add_mset_insert set_mset_mset)

text \<open>More entries of sleeping hosts change nothing, and neither does one more ready host for the others.\<close>

lemma others_sleep:
  "others_ok k f \<Longrightarrow> others_ok k (f\<lparr>sleepingHosts := pq_push wakes_before e (sleepingHosts f)\<rparr>)"
  unfolding others_ok_def queues_ok_def host_flags_def
  by (auto simp: ready_def get_host_def wakes.push_heap)

lemma others_ready:
  assumes "others_ok k f" and "k \<notin> set (ready f)"
  shows "others_ok k (f\<lparr>readyHosts := bq_pushBack k (readyHosts f)\<rparr>)"
proof -
  have inv: "bq_inv (readyHosts f)" using assms(1) by (simp add: others_ok_def queues_ok_def)
  show ?thesis using assms pushBack_ok [OF inv] unfolding others_ok_def queues_ok_def host_flags_def
    by (auto simp: ready_def get_host_def)
qed

lemma scheduleHost_sched:
  assumes "others_ok k f" and "host_flags f k h"
    and "bq_list (items h) = [] \<or> inFlight h \<or> inReadyQueue h \<Longrightarrow> inSleepingQueue h \<or> blockedUntilMs h \<le> 0"
  shows "sched_ok (scheduleHost k h now f)"
    and "flying (scheduleHost k h now f) = (if inFlight h then insert k (flying f) else flying f - {k})"
proof -
  consider "bq_empty (items h) \<or> inFlight h \<or> inReadyQueue h"
    | "\<not> (bq_empty (items h) \<or> inFlight h \<or> inReadyQueue h)" "blockedUntilMs h > now" "inSleepingQueue h"
    | "\<not> (bq_empty (items h) \<or> inFlight h \<or> inReadyQueue h)" "blockedUntilMs h > now" "\<not> inSleepingQueue h"
    | "\<not> (bq_empty (items h) \<or> inFlight h \<or> inReadyQueue h)" "\<not> blockedUntilMs h > now" by blast
  then have "sched_ok (scheduleHost k h now f)
     \<and> flying (scheduleHost k h now f) = (if inFlight h then insert k (flying f) else flying f - {k})"
  proof cases
    case 1
    then have "host_placed h" using assms(3) by (auto simp: host_placed_def bq_empty_iff)
    then show ?thesis using 1 put_host_sched [OF assms(1,2)] by (simp add: scheduleHost_def flying_put_host)
  next
    case 2
    then have "host_placed h" by (auto simp: host_placed_def)
    then show ?thesis using 2 put_host_sched [OF assms(1,2)] by (simp add: scheduleHost_def flying_put_host)
  next
    case 3
    let ?h = "h\<lparr>inSleepingQueue := True\<rparr>"
    let ?f = "f\<lparr>sleepingHosts := pq_push wakes_before (wake_entry k h) (sleepingHosts f)\<rparr>"
    have "host_flags ?f k ?h" using 3 assms(2)
      by (auto simp: host_flags_def ready_def wake_entry_def bq_empty_iff)
    moreover have "scheduleHost k h now f = put_host k ?h ?f" using 3 by (simp add: scheduleHost_def wake_entry_def)
    ultimately show ?thesis using put_host_sched [OF others_sleep [OF assms(1)]] 3
      by (simp add: flying_put_host host_placed_def flying_cong [of ?f f])
  next
    case 4
    let ?h = "(if blockedUntilMs h \<noteq> 0 then h\<lparr>blockedUntilMs := 0\<rparr> else h)\<lparr>inSleepingQueue := False, inReadyQueue := True\<rparr>"
    let ?f = "f\<lparr>readyHosts := bq_pushBack k (readyHosts f)\<rparr>"
    have k: "k \<notin> set (ready f)" using 4 assms(2) by (auto simp: host_flags_def)
    have "bq_inv (readyHosts f)" using assms(1) by (simp add: others_ok_def queues_ok_def)
    then have "host_flags ?f k ?h" using 4 assms(2) pushBack_ok [of "readyHosts f" k]
      by (auto simp: host_flags_def ready_def bq_empty_iff)
    moreover have "scheduleHost k h now f = put_host k ?h ?f" using 4 by (simp add: scheduleHost_def Let_def)
    ultimately show ?thesis using put_host_sched [OF others_ready [OF assms(1) k]] 4
      by (simp add: flying_put_host host_placed_def flying_cong [of ?f f])
  qed
  then show "sched_ok (scheduleHost k h now f)"
    "flying (scheduleHost k h now f) = (if inFlight h then insert k (flying f) else flying f - {k})" by simp_all
qed

subsection \<open>Waking up and enqueueing\<close>

text \<open>The entry at the top of the heap is taken out and its host is woken up, if it is the entry of a sleeping host.\<close>

lemma wake_host_sched:
  assumes "sched_ok f" and "mset (sleepingHosts f) = add_mset s (mset rest)" and "heap_inv wakes_before rest"
    and "wakeAtMs s \<le> now"
  defines "g \<equiv> wake_host s now (f\<lparr>sleepingHosts := rest\<rparr>)"
  shows "sched_ok g \<and> flying g = flying f"
proof -
  let ?f = "f\<lparr>sleepingHosts := rest\<rparr>" and ?k = "sleepingKey s"
  have entries: "set (sleepingHosts f) = insert s (set rest)"
    using assms(2) by (metis set_mset_add_mset_insert set_mset_mset)
  have host: "host_flags f k h \<and> host_placed h" if "get_host k f = Some h" for k h
    using assms(1) that by (auto simp: sched_ok_def)
  have g_f: "get_host k ?f = get_host k f" for k by (simp add: get_host_def)
  have fl: "flying ?f = flying f" by (rule flying_cong) simp
  have other: "host_flags ?f k h" if "get_host k f = Some h" "wake_entry k h \<noteq> s" for k h
    using host [OF that(1)] that(2) entries by (auto simp: host_flags_def ready_def)
  have others: "others_ok ?k ?f"
  proof -
    have "host_flags ?f k h" if "k \<noteq> ?k" "get_host k f = Some h" for k h
    proof -
      have "wake_entry k h \<noteq> s" using that(1) by (auto simp: wake_entry_def)
      then show ?thesis by (rule other [OF that(2)])
    qed
    then show ?thesis using assms(1,3) host unfolding others_ok_def sched_ok_def queues_ok_def
      by (auto simp: g_f ready_def)
  qed
  show ?thesis
  proof (cases "get_host ?k f")
    case None
    have "?k \<notin> set (ready ?f)" using assms(1) None by (auto simp: sched_ok_def ready_def)
    then have "sched_ok ?f" using None by (intro others_sched [OF others]) (auto simp: g_f)
    then show ?thesis using None fl by (simp add: g_def wake_host_def g_f)
  next
    case (Some h)
    note h = host [OF Some]
    show ?thesis
    proof (cases "sleepGeneration h \<noteq> generation s \<or> bq_empty (items h) \<or> inFlight h \<or> inReadyQueue h \<or> blockedUntilMs h > now")
      case True
      then have "wake_entry ?k h \<noteq> s \<or> \<not> inSleepingQueue h"
        using h assms(4) by (cases s) (auto simp: host_flags_def wake_entry_def bq_empty_iff)
      then have flags: "host_flags ?f ?k h" using other [OF Some] h by (auto simp: host_flags_def ready_def)
      have "sched_ok ?f" using flags h Some by (intro others_sched [OF others]) (simp_all add: g_f)
      then show ?thesis using True Some fl by (auto simp: g_def wake_host_def g_f)
    next
      case False
      let ?g = "?f\<lparr>readyHosts := bq_pushBack ?k (readyHosts ?f)\<rparr>"
      let ?h = "h\<lparr>blockedUntilMs := 0, inSleepingQueue := False, inReadyQueue := True\<rparr>"
      have k: "?k \<notin> set (ready ?f)" using False h by (auto simp: host_flags_def ready_def)
      have inv: "bq_inv (readyHosts ?f)" using assms(1) by (simp add: sched_ok_def queues_ok_def)
      have "host_flags ?g ?k ?h" using False h pushBack_ok [OF inv, of ?k] by (auto simp: host_flags_def ready_def bq_empty_iff)
      moreover have "g = put_host ?k ?h ?g" using False Some by (simp add: g_def wake_host_def g_f)
      moreover have "?k \<notin> flying f" "flying ?g = flying f"
        using False Some by (simp add: flying_def) (rule flying_cong, simp)
      ultimately show ?thesis using put_host_sched [OF others_ready [OF others k]] False fl
        by (simp add: flying_put_host host_placed_def)
    qed
  qed
qed

lemma promoteSleepingHosts_sched:
  "sched_ok f \<Longrightarrow> sched_ok (promoteSleepingHosts now f) \<and> flying (promoteSleepingHosts now f) = flying f"
proof (induction now f rule: promoteSleepingHosts.induct)
  case (1 now f)
  show ?case
  proof (cases "sleepingHosts f = [] \<or> \<not> wakeAtMs (sleepingHosts f ! 0) \<le> now")
    case True
    then have "promoteSleepingHosts now f = f"
      by (cases "sleepingHosts f") (auto simp: promoteSleepingHosts.simps [of now f] pq_top_def)
    then show ?thesis using 1(2) by simp
  next
    case False
    then have ne: "sleepingHosts f \<noteq> []" and due: "wakeAtMs (sleepingHosts f ! 0) \<le> now"
      and pt: "pq_top (sleepingHosts f) = Some (sleepingHosts f ! 0)" by (auto simp: pq_top_def)
    have "heap_inv wakes_before (sleepingHosts f)" using 1(2) by (simp add: sched_ok_def queues_ok_def)
    from wakes.extract_spec [OF this ne] obtain rest where
      e: "extractTop wakes_before (sleepingHosts f) = Some (sleepingHosts f ! 0, rest)" "heap_inv wakes_before rest"
      "mset (sleepingHosts f) = add_mset (sleepingHosts f ! 0) (mset rest)" by blast
    note w = wake_host_sched [OF 1(2) e(3,2) due]
    have "promoteSleepingHosts now f
        = promoteSleepingHosts now (wake_host (sleepingHosts f ! 0) now (f\<lparr>sleepingHosts := rest\<rparr>))"
      using pt due e(1) by (simp add: promoteSleepingHosts.simps [of now f])
    then show ?thesis using 1(1) [OF pt due e(1) refl] w by simp
  qed
qed

lemma enqueueScheduledItem_sched:
  assumes "sched_ok f"
  shows "sched_ok (enqueueScheduledItem item now f) \<and> flying (enqueueScheduledItem item now f) = flying f
     \<and> (\<exists>h. get_host (extractHostKey (link item)) (enqueueScheduledItem item now f) = Some h \<and> bq_list (items h) \<noteq> [])"
proof -
  define key where "key = extractHostKey (link item)"
  define h where "h = (case get_host key f of None \<Rightarrow> new_host | Some h \<Rightarrow> h)"
  have "host_flags f key h \<and> (inSleepingQueue h \<or> blockedUntilMs h \<le> 0)"
  proof (cases "get_host key f")
    case None
    then have "key \<notin> set (ready f)" using assms by (auto simp: sched_ok_def)
    then show ?thesis using None by (simp add: h_def host_flags_def new_host_def)
  next
    case (Some h')
    then show ?thesis using assms by (simp add: sched_ok_def h_def host_placed_def)
  qed
  then have h: "host_flags f key h" "inSleepingQueue h \<or> blockedUntilMs h \<le> 0" by simp_all
  let ?h = "h\<lparr>items := bq_pushBack item (items h)\<rparr>"
  have push: "bq_inv (items ?h)" "bq_list (items ?h) = bq_list (items h) @ [item]"
    using h pushBack_ok [of "items h" item] by (simp_all add: host_flags_def)
  have flags: "host_flags f key ?h" using h push by (auto simp: host_flags_def wake_entry_def key_def)
  have g: "enqueueScheduledItem item now f = scheduleHost key ?h now f"
    by (simp add: enqueueScheduledItem_def key_def h_def Let_def)
  have "inFlight h \<longleftrightarrow> key \<in> flying f" by (auto simp: h_def flying_def new_host_def split: option.split)
  moreover have "\<exists>h'. get_host key (scheduleHost key ?h now f) = Some h' \<and> items h' = items ?h"
    by (simp add: scheduleHost_def get_put_host Let_def)
  ultimately show ?thesis using scheduleHost_sched [OF sched_ok_others [OF assms] flags, of now] push h(2)
    by (auto simp: g key_def [symmetric])
qed

subsection \<open>Promotion and dispatch\<close>

text \<open>The settings stay, and so do the hosts that are handed out.\<close>

definition kept :: "Frontier \<Rightarrow> Frontier \<Rightarrow> bool" where
  "kept f g \<longleftrightarrow> autoCloseWhenDrained g = autoCloseWhenDrained f \<and> maxQueued g = maxQueued f \<and> flying g = flying f"

lemma kept_refl [simp]: "kept f f"
  by (simp add: kept_def)

lemma kept_trans: "kept f g \<Longrightarrow> kept g h \<Longrightarrow> kept f h"
  by (simp add: kept_def)

lemma kept_stores: "same_stores f g \<Longrightarrow> flying g = flying f \<Longrightarrow> kept f g"
  by (simp add: kept_def same_stores_def)

lemma same_hosts:
  assumes "sched_ok f" and "hostQueues g = hostQueues f" and "readyHosts g = readyHosts f" and "sleepingHosts g = sleepingHosts f"
    and "autoCloseWhenDrained g = autoCloseWhenDrained f" and "maxQueued g = maxQueued f"
  shows "sched_ok g \<and> kept f g"
  using assms sched_ok_cong [of g f] flying_cong [of g f] by (simp add: kept_def)

lemma enqueue_items_sched:
  "tables_ok f \<Longrightarrow> sched_ok f \<Longrightarrow> sched_ok (fold (\<lambda>item. enqueueScheduledItem item now) its f)
     \<and> kept f (fold (\<lambda>item. enqueueScheduledItem item now) its f)"
proof (induction its arbitrary: f)
  case (Cons item its)
  note e = enqueueScheduledItem_ok [OF Cons.prems(1), of item now] enqueueScheduledItem_sched [OF Cons.prems(2), of item now]
  then have "kept f (enqueueScheduledItem item now f)" by (intro kept_stores) simp_all
  then show ?case using Cons.IH [of "enqueueScheduledItem item now f"] e kept_trans by auto
qed simp

lemma promote_loop_sched:
  "tables_ok f \<Longrightarrow> sched_ok f \<Longrightarrow> promote_loop now f = Some g \<Longrightarrow> sched_ok g \<and> kept f g"
proof (induction now f rule: promote_loop.induct)
  case (1 now f)
  show ?case
  proof (cases "bq_empty (readyHosts f) \<and> reservoir f \<noteq> []")
    case False
    then show ?thesis using 1(3,4) by (auto simp: promote_loop.simps [of now f])
  next
    case True
    then obtain promoted r' c' where p: "promote_chunk getScore (reservoir f) (reservoirSweepCursor f) = Some (promoted, r', c')"
      using 1(4) by (auto simp: promote_loop.simps [of now f] split: option.splits)
    define f1 where "f1 = f\<lparr>reservoir := r', reservoirSweepCursor := c'\<rparr>"
    define f2 where "f2 = fold (\<lambda>item. enqueueScheduledItem item now) promoted f1"
    define f3 where "f3 = f2\<lparr>ticks := ticks f2 + 1\<rparr>"
    have t1: "tables_ok f1" using 1(2) by (simp add: f1_def tables_ok_def)
    have s1: "sched_ok f1" "kept f f1"
      using same_hosts [OF 1(3), of f1] by (simp_all add: f1_def)
    have t2: "tables_ok f2" unfolding f2_def using enqueue_items_ok [OF t1] by blast
    have s2: "sched_ok f2 \<and> kept f1 f2" unfolding f2_def by (rule enqueue_items_sched [OF t1 s1(1)])
    have t3: "tables_ok f3" using t2 by (auto simp: f3_def tables_ok_def)
    have s3: "sched_ok f3" "kept f2 f3"
      using same_hosts [of f2 f3] s2 by (simp_all add: f3_def)
    have "promote_loop now f = promote_loop (clock f2 (ticks f2)) f3"
      using True p by (simp add: promote_loop.simps [of now f] Let_def f1_def f2_def f3_def nowMillis_def)
    then have "promote_loop (clock f2 (ticks f2)) f3 = Some g" using 1(4) by simp
    moreover have "nowMillis f2 = (clock f2 (ticks f2), f3)" by (simp add: nowMillis_def f3_def)
    ultimately have "sched_ok g \<and> kept f3 g"
      using 1(1) [OF True p refl refl f1_def f2_def _ refl t3 s3(1)] by simp
    then show ?thesis using s1(2) s2 s3(2) kept_trans by blast
  qed
qed

lemma refilled_hosts [simp]:
  "readyHosts (refilled f) = readyHosts f" "hostQueues (refilled f) = hostQueues f" "sleepingHosts (refilled f) = sleepingHosts f"
  "autoCloseWhenDrained (refilled f) = autoCloseWhenDrained f" "maxQueued (refilled f) = maxQueued f"
  by (simp_all add: refilled_def refillReservoirFromDiskBacked_def loadDiskBackedChunkFromDisk_def Let_def split: option.split)

lemma promoteReservoir_sched:
  assumes "tables_ok f" and "sched_ok f" and "promoteReservoir now f = Some g"
  shows "sched_ok g \<and> kept f g"
proof -
  have r: "sched_ok (refilled f)" "kept f (refilled f)" "tables_ok (refilled f)"
    using same_hosts [OF assms(2), of "refilled f"] assms(1) by (simp_all add: tables_ok_def)
  show ?thesis
    using assms(3) r promote_loop_sched [OF r(3,1), of now g] kept_trans [OF r(2)]
    by (auto simp: promoteReservoir_refilled split: if_splits)
qed

lemma dispatch_sched:
  assumes "sched_ok f" and "dispatch f = (d, g)"
  shows "sched_ok g \<and> autoCloseWhenDrained g = autoCloseWhenDrained f \<and> maxQueued g = maxQueued f
     \<and> disk g = disk f \<and> diskBackedChunksOnDisk g = diskBackedChunksOnDisk f \<and> sleepingHosts g = sleepingHosts f
     \<and> (case d of None \<Rightarrow> g = f \<and> ready f = []
        | Some (item, key) \<Rightarrow> key = extractHostKey (link item) \<and> key \<notin> flying f \<and> flying g = insert key (flying f)
            \<and> (\<exists>h. get_host key g = Some h))"
proof (cases "ready f")
  case Nil
  then have "bq_popFront (readyHosts f) = None" by (simp add: ready_def popFront_None)
  then show ?thesis using assms Nil by (auto simp: dispatch.simps [of f])
next
  case (Cons key rest)
  have inv: "bq_inv (readyHosts f)" using assms(1) by (simp add: sched_ok_def queues_ok_def)
  obtain q where q: "bq_popFront (readyHosts f) = Some (key, q)" "bq_inv q" "bq_list q = rest"
    using popFront_ok [OF inv] Cons by (auto simp: ready_def)
  obtain h where h: "get_host key f = Some h" using assms(1) Cons by (auto simp: sched_ok_def)
  have flags: "host_flags f key h" using assms(1) h by (auto simp: sched_ok_def)
  then have hh: "bq_inv (items h)" "bq_list (items h) \<noteq> []" "\<not> inFlight h" "\<not> inSleepingQueue h"
    "\<forall>i \<in> set (bq_list (items h)). extractHostKey (link i) = key"
    using Cons by (auto simp: host_flags_def)
  obtain item its where l: "bq_list (items h) = item # its" using hh(2) by (cases "bq_list (items h)") auto
  obtain r where r: "bq_popFront (items h) = Some (item, r)" "bq_inv r" "bq_list r = its" using popFront_ok [OF hh(1) l] by blast
  let ?h = "h\<lparr>inReadyQueue := False, items := r, inFlight := True\<rparr>"
  let ?f = "f\<lparr>readyHosts := q, queued := queued f - 1\<rparr>"
  have d: "dispatch f = (Some (item, key), put_host key ?h ?f)"
    using q(1) h hh r(1) by (simp add: dispatch.simps [of f] get_host_def bq_empty_iff Let_def)
  have fresh: "key \<notin> set rest" using assms(1) Cons by (auto simp: sched_ok_def queues_ok_def)
  have rd: "ready ?f = rest" using q(3) by (simp add: ready_def)
  have others: "others_ok key ?f"
    using assms(1) Cons q(2) rd unfolding others_ok_def sched_ok_def queues_ok_def host_flags_def
    by (auto simp: get_host_def)
  have hf: "host_flags ?f key ?h" using hh l r(2,3) fresh rd by (auto simp: host_flags_def)
  have "host_placed h" using assms(1) h by (auto simp: sched_ok_def)
  then have "sched_ok (put_host key ?h ?f)" using hh(4) by (intro put_host_sched [OF others hf]) (simp add: host_placed_def)
  moreover have "flying ?f = flying f" by (rule flying_cong) simp
  moreover have "key \<notin> flying f" using h hh(3) by (simp add: flying_def)
  ultimately show ?thesis using d assms(2) hh(5) l
    by (auto simp: flying_put_host get_put_host) (simp_all add: put_host_def)
qed

subsection \<open>The operations\<close>

lemma pushInternal_hosts [simp]:
  "hostQueues (pushInternal item c f) = hostQueues f" "readyHosts (pushInternal item c f) = readyHosts f"
  "sleepingHosts (pushInternal item c f) = sleepingHosts f" "maxQueued (pushInternal item c f) = maxQueued f"
  "autoCloseWhenDrained (pushInternal item c f) = autoCloseWhenDrained f"
  by (simp_all add: pushInternal_def doBackUp_def Let_def)

lemma pushes_sched:
  "sched_ok f \<Longrightarrow> sched_ok (fold (\<lambda>item f. if link item \<noteq> [] then pushInternal item True f else f) its f)
     \<and> kept f (fold (\<lambda>item f. if link item \<noteq> [] then pushInternal item True f else f) its f)"
proof (induction its arbitrary: f)
  case (Cons item its)
  have "sched_ok (pushInternal item True f) \<and> kept f (pushInternal item True f)"
    by (rule same_hosts [OF Cons.prems]) simp_all
  then show ?case using Cons.IH [of "pushInternal item True f"] Cons.IH [OF Cons.prems] kept_trans by auto
qed simp

lemma pushMany_sched: "sched_ok f \<Longrightarrow> sched_ok (pushMany its f) \<and> kept f (pushMany its f)"
  using pushes_sched [of f its] by (simp add: pushMany_def)

lemma close_if_drained_sched: "sched_ok f \<Longrightarrow> sched_ok (close_if_drained f) \<and> kept f (close_if_drained f)"
  by (rule same_hosts) (simp_all add: close_if_drained_def)

text \<open>A host that is handed out comes back.\<close>

lemma releaseActiveHost_sched:
  assumes "sched_ok f" and "key \<noteq> []" and "get_host key f = Some h" and "inFlight h"
    and "releaseActiveHost now key f = (k, g)"
  shows "sched_ok g \<and> flying g = flying f - {key} \<and> autoCloseWhenDrained g = autoCloseWhenDrained f \<and> maxQueued g = maxQueued f"
proof -
  have flags: "host_flags f key (h\<lparr>inFlight := False\<rparr>)"
    using assms(1,3,4) by (auto simp: sched_ok_def host_flags_def wake_entry_def)
  have "host_placed h" "\<not> inSleepingQueue h" using assms(1,3,4) by (auto simp: sched_ok_def host_flags_def)
  then have "blockedUntilMs h \<le> 0" by (simp add: host_placed_def)
  moreover have "g = scheduleHost key (h\<lparr>inFlight := False\<rparr>) now f" using assms(2,3,5) by (simp add: releaseActiveHost_def)
  ultimately show ?thesis
    using scheduleHost_sched [OF sched_ok_others [OF assms(1)] flags, of now] scheduleHost_stores
    by (simp add: same_stores_def)
qed

lemma taskDone_sched:
  assumes "sched_ok f" and "key \<noteq> []" and "get_host key f = Some h" and "inFlight h" and "taskDone key f = (k, g)"
  shows "sched_ok g \<and> flying g = flying f - {key} \<and> autoCloseWhenDrained g = autoCloseWhenDrained f \<and> maxQueued g = maxQueued f"
proof -
  obtain p k' g' where r: "releaseActiveHost (clock f (ticks f)) key (f\<lparr>ticks := ticks f + 1, pending := p\<rparr>) = (k', g')"
    and g: "g = g' \<or> g = g'\<lparr>closed := True\<rparr>"
  proof (cases "pending f = 0")
    case True
    then have "f\<lparr>ticks := ticks f + 1, pending := pending f\<rparr> = f\<lparr>ticks := ticks f + 1\<rparr>" by (cases f) simp
    moreover have "releaseActiveHost (clock f (ticks f)) key (f\<lparr>ticks := ticks f + 1\<rparr>) = (k, g)"
      using assms(5) True by (simp add: taskDone_def nowMillis_def)
    ultimately show thesis using that [of "pending f" k g] by metis
  next
    case False
    obtain k' g' where "releaseActiveHost (clock f (ticks f)) key (f\<lparr>ticks := ticks f + 1, pending := pending f - 1\<rparr>) = (k', g')"
      by fastforce
    then show thesis using that [of "pending f - 1" k' g'] assms(5) False by (auto simp: taskDone_def nowMillis_def split: if_splits)
  qed
  let ?f = "f\<lparr>ticks := ticks f + 1, pending := p\<rparr>"
  have f: "sched_ok ?f" "flying ?f = flying f" using same_hosts [OF assms(1), of ?f] by (simp_all add: kept_def)
  have "get_host key ?f = Some h" using assms(3) by (simp add: get_host_def)
  note g' = releaseActiveHost_sched [OF f(1) assms(2) this assms(4) r]
  moreover have "sched_ok (g'\<lparr>closed := True\<rparr>) \<and> kept g' (g'\<lparr>closed := True\<rparr>)"
    by (rule same_hosts) (use g' in simp_all)
  ultimately have "sched_ok g \<and> kept g' g" using g by (metis kept_refl)
  then show ?thesis using g' f(2) by (simp add: kept_def)
qed

lemma snoozeCurrent_sched:
  assumes "sched_ok f" and "link item \<noteq> []" and "key \<noteq> []" and "extractHostKey (link item) = key"
    and "get_host key f = Some h" and "inFlight h" and "snoozeCurrent item readyAt key f = (k, g)"
  shows "sched_ok g \<and> flying g = flying f - {key} \<and> autoCloseWhenDrained g = autoCloseWhenDrained f \<and> maxQueued g = maxQueued f"
proof -
  have flags: "host_flags f key h" "\<not> inReadyQueue h" "\<not> inSleepingQueue h"
    using assms(1,5,6) by (auto simp: sched_ok_def host_flags_def)
  have "bq_inv (items h)" using flags by (simp add: host_flags_def)
  note front = pushFront_ok [OF this, of item]
  define h' where "h' = h\<lparr>items := bq_pushFront item (items h), inFlight := False,
      blockedUntilMs := (if readyAt > blockedUntilMs h then readyAt else blockedUntilMs h),
      sleepGeneration := sleepGeneration h + 1\<rparr>"
  define now where "now = clock f (ticks f)"
  define f1 where "f1 = f\<lparr>queued := queued f + 1, ticks := ticks f + 1\<rparr>"
  define f2 where "f2 = f1\<lparr>sleepingHosts := pq_push wakes_before (wake_entry key h') (sleepingHosts f1)\<rparr>"
  have g: "g = (if blockedUntilMs h' > now then put_host key (h'\<lparr>inSleepingQueue := True\<rparr>) f2 else scheduleHost key h' now f1)"
    using assms(2,3,5,7)
    by (auto simp: snoozeCurrent_def nowMillis_def Let_def h'_def now_def f1_def f2_def wake_entry_def) (cases f; cases h; simp)+
  have f1: "sched_ok f1" "kept f f1" using same_hosts [OF assms(1), of f1] by (simp_all add: f1_def)
  have o2: "others_ok key f2" unfolding f2_def by (rule others_sleep [OF sched_ok_others [OF f1(1)]])
  have "flying f2 = flying f1" by (rule flying_cong) (simp add: f2_def)
  moreover have r: "ready f1 = ready f" "ready f2 = ready f" by (simp_all add: f1_def f2_def ready_def)
  moreover have "host_flags f2 key (h'\<lparr>inSleepingQueue := True\<rparr>)" "host_flags f1 key h'"
    using flags front assms(4) r by (auto simp: host_flags_def h'_def f2_def wake_entry_def)
  moreover have "\<not> (bq_list (items h') = [] \<or> inFlight h' \<or> inReadyQueue h')"
    using flags(2) front by (simp add: h'_def)
  moreover have "autoCloseWhenDrained g = autoCloseWhenDrained f \<and> maxQueued g = maxQueued f"
    using g scheduleHost_stores [of f1 key h' now] by (simp add: put_host_def f1_def f2_def same_stores_def)
  ultimately show ?thesis
    using g f1 put_host_sched [OF o2, of "h'\<lparr>inSleepingQueue := True\<rparr>"] scheduleHost_sched [OF sched_ok_others [OF f1(1)], of key h' now]
    by (auto simp: flying_put_host host_placed_def kept_def h'_def)
qed

lemma pop_turn_sched:
  assumes "frontier_ok f" and "sched_ok f" and "pop_turn f = Some (r, g)"
  shows "sched_ok g \<and> autoCloseWhenDrained g = autoCloseWhenDrained f \<and> maxQueued g = maxQueued f
     \<and> (case r of
          PopItem item key \<Rightarrow> key = extractHostKey (link item) \<and> key \<notin> flying f \<and> flying g = insert key (flying f)
        | _ \<Rightarrow> flying g = flying f \<and> ready g = [] \<and> reservoir g = [])"
proof -
  obtain now f3 d where f3: "promoteReservoir now (promoteSleepingHosts now (f\<lparr>ticks := ticks f + 1\<rparr>)) = Some f3"
    and d: "dispatch f3 = (d, g)"
    and r: "r = (case d of Some (item, key) \<Rightarrow> PopItem item key | None \<Rightarrow> if closed g then PopEnd else PopWait)"
    using pop_turn_cases [OF assms(3)] by blast
  let ?f1 = "f\<lparr>ticks := ticks f + 1\<rparr>"
  have f1: "sched_ok ?f1" "kept f ?f1" "frontier_ok ?f1"
    using same_hosts [OF assms(2), of ?f1] frontier_ok_tick [OF assms(1)] by simp_all
  have "tables_ok ?f1" using f1(3) by (simp add: frontier_ok_def)
  then have f2: "sched_ok (promoteSleepingHosts now ?f1)" "kept ?f1 (promoteSleepingHosts now ?f1)"
    "frontier_ok (promoteSleepingHosts now ?f1)"
    using promoteSleepingHosts_sched [OF f1(1), of now] promoteSleepingHosts_ok [of ?f1 now] kept_stores
      promoteSleeping_frontier_ok [OF f1(3), of now] by blast+
  then have "tables_ok (promoteSleepingHosts now ?f1)" by (simp add: frontier_ok_def)
  from promoteReservoir_sched [OF this f2(1) f3] have f3': "sched_ok f3" "kept f f3"
    using f1(2) f2(2) kept_trans by blast+
  note e = promoteReservoir_ok [OF f2(3) f3]
  note g = dispatch_sched [OF f3'(1) d]
  show ?thesis
  proof (cases d)
    case None
    then show ?thesis using r g e f3'(2) by (auto simp: kept_def ready_def)
  next
    case (Some ik)
    then show ?thesis using r g f3'(2) by (cases ik) (auto simp: kept_def)
  qed
qed

subsection \<open>Nothing is left behind\<close>

text \<open>The chunk files are numbered without a gap and none is empty, with the limits that keep it so.\<close>

definition chunks_ok :: "Frontier \<Rightarrow> bool" where
  "chunks_ok f \<longleftrightarrow> 4 \<le> maxQueued f \<and> fst ` fst ` set (disk f) = {1..diskBackedChunksOnDisk f}
     \<and> (\<forall>e \<in> set (disk f). snd (fst e) \<noteq> 0)"

lemma doBackUp_chunks:
  assumes "frontier_ok f" and "chunks_ok f"
  shows "chunks_ok (doBackUp f)"
proof (cases "length (disk_back_reservoir f) < maxQueued f \<or> \<not> disk_writable f")
  case True
  then show ?thesis using assms(2) by (auto simp: doBackUp_def Let_def)
next
  case False
  let ?n = "length (disk_back_reservoir f)"
  have "4 \<le> ?n" using False assms(2) by (simp add: chunks_ok_def)
  then have len: "length (take (backup_count ?n) (disk_back_reservoir f)) \<noteq> 0"
    by (auto simp: backup_count_def frontierDiskBackBackupPercent_def Let_def)
  have "\<forall>e \<in> set (disk f). fst (fst e) \<le> diskBackedChunksOnDisk f" using assms(1) by (auto simp: frontier_ok_def disk_ok_def)
  note eq = doBackUp_eq [OF this False]
  have "{1..Suc m} = insert (Suc m) {1..m}" for m :: nat by auto
  then show ?thesis using assms(2) len unfolding chunks_ok_def eq by simp
qed

lemma pushInternal_chunks:
  assumes "frontier_ok f" and "chunks_ok f"
  shows "chunks_ok (pushInternal item c f)"
proof -
  have "doBackUp (f\<lparr>pending := p, queued := q\<rparr>) = (doBackUp f)\<lparr>pending := p, queued := q\<rparr>"
    "doBackUp (f\<lparr>queued := q\<rparr>) = (doBackUp f)\<lparr>queued := q\<rparr>" for p q
    by (simp_all add: doBackUp_def Let_def)
  then show ?thesis using assms(2) doBackUp_chunks [OF assms] by (simp add: pushInternal_def chunks_ok_def Let_def)
qed

lemma loadDiskBackedChunk_chunks:
  fixes f assumes "frontier_ok f" and "chunks_ok f"
  defines "g \<equiv> snd (loadDiskBackedChunkFromDisk f)"
  shows "chunks_ok g" and "diskBackedChunksOnDisk f \<noteq> 0 \<Longrightarrow> disk_back_reservoir g \<noteq> []" and "reservoir g = reservoir f"
proof -
  let ?n = "diskBackedChunksOnDisk f"
  show "reservoir g = reservoir f" by (simp add: g_def loadDiskBackedChunkFromDisk_def split: option.split)
  have "chunks_ok g \<and> (?n \<noteq> 0 \<longrightarrow> disk_back_reservoir g \<noteq> [])"
  proof (cases "?n = 0")
    case True
    then show ?thesis using assms(2) by (simp add: g_def loadDiskBackedChunkFromDisk_def)
  next
    case False
    have ok: "disk_ok f" using assms(1) by (simp add: frontier_ok_def)
    have "?n \<in> fst ` fst ` set (disk f)" using assms(2) False by (auto simp: chunks_ok_def)
    then obtain x where "x \<in> set (disk f)" "fst (fst x) = ?n" by auto
    then have "findDiskChunk ?n (disk f) \<noteq> None" unfolding findDiskChunk_def find_None_iff by blast
    then obtain name bytes where e: "findDiskChunk ?n (disk f) = Some (name, bytes)" by auto
    have dist: "distinct (map (fst \<circ> fst) (disk f))" using ok by (simp add: disk_ok_def)
    note nm = find_name [OF e dist]
    have g: "g = f\<lparr>disk_back_reservoir := disk_back_reservoir f @ readDiskChunk bytes, disk := AList.delete name (disk f),
        diskBackedChunksOnDisk := ?n - 1\<rparr>"
      using False e by (simp add: g_def loadDiskBackedChunkFromDisk_def)
    have "length (readDiskChunk bytes) = snd name" "snd name \<noteq> 0"
      using ok assms(2) nm(1) by (auto simp: disk_ok_def chunks_ok_def)
    moreover have "fst ` fst ` set (AList.delete name (disk f)) = {1..?n - 1}"
    proof -
      have inj: "inj_on (fst \<circ> fst) (set (disk f))" using dist by (simp add: distinct_map)
      have del: "set (AList.delete name (disk f)) = set (disk f) - {(name, bytes)}"
        using nm(1,4) by (auto simp: AList.delete_eq) (metis eq_key_imp_eq_value)
      have "(fst \<circ> fst) ` (set (disk f) - {(name, bytes)}) = (fst \<circ> fst) ` set (disk f) - (fst \<circ> fst) ` {(name, bytes)}"
        using nm(1) by (intro inj_on_image_set_diff [OF inj]) auto
      also have "\<dots> = {1..?n} - {?n}" using assms(2) nm(2) by (simp add: chunks_ok_def image_comp)
      finally show ?thesis using del by (auto simp: image_comp)
    qed
    moreover have "snd (fst x) \<noteq> 0" if "x \<in> set (AList.delete name (disk f))" for x
      using that assms(2) by (auto simp: AList.delete_eq chunks_ok_def)
    ultimately show ?thesis using assms(2) by (auto simp: g chunks_ok_def)
  qed
  then show "chunks_ok g" and "?n \<noteq> 0 \<Longrightarrow> disk_back_reservoir g \<noteq> []" by blast+
qed

lemma refilled_chunks:
  assumes "frontier_ok f" and "chunks_ok f"
  shows "chunks_ok (refilled f)" and "reservoir (refilled f) = [] \<Longrightarrow> disk_back_reservoir (refilled f) = [] \<and> disk (refilled f) = []"
proof -
  define f1 where "f1 = (if length (disk_back_reservoir f) < maxQueued f * frontierDiskBackRefillPercent div 100
      then snd (loadDiskBackedChunkFromDisk f) else f)"
  have r: "refilled f = (if length (reservoir f1) < maxQueued f * frontierReservoirRefillPercent div 100
      then refillReservoirFromDiskBacked f1 else f1)" unfolding refilled_def Let_def f1_def ..
  note load = loadDiskBackedChunk_chunks [OF assms]
  have max: "4 \<le> maxQueued f" using assms(2) by (simp add: chunks_ok_def)
  have f1: "chunks_ok f1" "maxQueued f1 = maxQueued f" using load(1) assms(2) by (simp_all add: f1_def)
  then show "chunks_ok (refilled f)"
    by (simp add: r refillReservoirFromDiskBacked_def Let_def chunks_ok_def)
  assume empty: "reservoir (refilled f) = []"
  have bk: "disk_back_reservoir f1 = []" "reservoir f1 = []" "disk_back_reservoir (refilled f) = disk_back_reservoir f1"
    "disk (refilled f) = disk f1"
    using empty max f1(2)
    by (auto simp: r refillReservoirFromDiskBacked_def Let_def frontierReservoirRefillPercent_def split: if_splits)
  have "diskBackedChunksOnDisk f = 0"
  proof (rule ccontr)
    assume n: "diskBackedChunksOnDisk f \<noteq> 0"
    have "1 \<le> maxQueued f * frontierDiskBackRefillPercent div 100" using max by (simp add: frontierDiskBackRefillPercent_def)
    then show False using load(2) n bk(1) by (auto simp: f1_def split: if_splits)
  qed
  then have "disk f = []" "f1 = f"
    using assms(2) by (simp_all add: f1_def chunks_ok_def loadDiskBackedChunkFromDisk_def)
  then show "disk_back_reservoir (refilled f) = [] \<and> disk (refilled f) = []" using bk by simp
qed

lemma hosted_item:
  assumes "host_items (hostQueues f) \<noteq> {#}" and "tables_ok f"
  shows "\<exists>k h. get_host k f = Some h \<and> bq_list (items h) \<noteq> []"
proof -
  have "\<exists>e \<in> set hs. bq_list (items (snd e)) \<noteq> []" if "host_items hs \<noteq> {#}" for hs
    using that by (induction hs) (auto simp: host_items_def)
  then obtain k h where "(k, h) \<in> set (hostQueues f)" "bq_list (items h) \<noteq> []" using assms(1) by force
  then show ?thesis using assms(2) by (auto simp: tables_ok_def get_host_def)
qed

text \<open>When \<open>pop\<close> finds nothing, nothing waits, or a host is handed out or asleep.\<close>

lemma pop_turn_chunks:
  assumes "frontier_ok f" and "sched_ok f" and "chunks_ok f" and "pop_turn f = Some (r, g)"
  shows "chunks_ok g"
    and "r = PopWait \<or> r = PopEnd \<Longrightarrow> waiting_items g = {#} \<or> flying g \<noteq> {} \<or> sleepingHosts g \<noteq> []"
proof -
  obtain now f3 d where f3: "promoteReservoir now (promoteSleepingHosts now (f\<lparr>ticks := ticks f + 1\<rparr>)) = Some f3"
    and d: "dispatch f3 = (d, g)"
    and r: "r = (case d of Some (item, key) \<Rightarrow> PopItem item key | None \<Rightarrow> if closed g then PopEnd else PopWait)"
    using pop_turn_cases [OF assms(4)] by blast
  define f2 where "f2 = promoteSleepingHosts now (f\<lparr>ticks := ticks f + 1\<rparr>)"
  have f1: "sched_ok (f\<lparr>ticks := ticks f + 1\<rparr>)" "frontier_ok (f\<lparr>ticks := ticks f + 1\<rparr>)"
    using same_hosts [OF assms(2), of "f\<lparr>ticks := ticks f + 1\<rparr>"] frontier_ok_tick [OF assms(1)] by simp_all
  then have t1: "tables_ok (f\<lparr>ticks := ticks f + 1\<rparr>)" by (simp add: frontier_ok_def)
  have f2: "frontier_ok f2" "same_stores (f\<lparr>ticks := ticks f + 1\<rparr>) f2" "sched_ok f2"
    using promoteSleeping_frontier_ok [OF f1(2), of now] promoteSleepingHosts_ok [OF t1, of now]
      promoteSleepingHosts_sched [OF f1(1), of now] by (simp_all add: f2_def)
  then have c2: "chunks_ok f2" using assms(3) by (simp add: chunks_ok_def same_stores_def)
  have e: "frontier_ok f3" "host_items (hostQueues f3) + mset (reservoir f3) = host_items (hostQueues f2) + mset (reservoir (refilled f2))"
    "disk_back_reservoir f3 = disk_back_reservoir (refilled f2)" "disk f3 = disk (refilled f2)"
    "diskBackedChunksOnDisk f3 = diskBackedChunksOnDisk (refilled f2)" "bq_list (readyHosts f3) = [] \<Longrightarrow> reservoir f3 = []"
    using promoteReservoir_ok [OF f2(1) f3 [folded f2_def]] by blast+
  have "tables_ok f2" using f2(1) by (simp add: frontier_ok_def)
  note s3 = promoteReservoir_sched [OF this f2(3) f3 [folded f2_def]]
  have s: "sched_ok f3" "maxQueued f3 = maxQueued f2" using s3 by (simp_all add: kept_def)
  note g = dispatch_sched [OF s(1) d]
  show "chunks_ok g" using g e(4,5) s(2) refilled_chunks(1) [OF f2(1) c2] by (simp add: chunks_ok_def)
  assume "r = PopWait \<or> r = PopEnd"
  then have "d = None" using r by (auto split: option.splits)
  then have g3: "g = f3" "ready f3 = []" using g by simp_all
  then have none: "reservoir f3 = []" using e(6) by (simp add: ready_def)
  show "waiting_items g = {#} \<or> flying g \<noteq> {} \<or> sleepingHosts g \<noteq> []"
  proof (cases "host_items (hostQueues f3) = {#}")
    case True
    then have "reservoir (refilled f2) = []" using e(2) none by simp
    then show ?thesis using refilled_chunks(2) [OF f2(1) c2] True e(3,4) none g3(1) by (simp add: waiting_items_def disk_items_def)
  next
    case False
    have t3: "tables_ok f3" using e(1) by (simp add: frontier_ok_def)
    obtain k h where h: "get_host k f3 = Some h" "bq_list (items h) \<noteq> []" using hosted_item [OF False t3] by blast
    then have "host_flags f3 k h" "host_placed h" using s(1) by (auto simp: sched_ok_def)
    then have "inFlight h \<or> sleepingHosts f3 \<noteq> []" using h(2) g3(2) by (auto simp: host_flags_def host_placed_def)
    then show ?thesis using h(1) g3(1) by (auto simp: flying_def)
  qed
qed

subsection \<open>Progress\<close>

text \<open>When all sleeping hosts are due, nobody stays asleep: a host that is not asleep is not blocked.\<close>

lemma promoteSleepingHosts_due:
  "sched_ok f \<Longrightarrow> \<forall>s \<in> set (sleepingHosts f). wakeAtMs s \<le> now \<Longrightarrow> sleepingHosts (promoteSleepingHosts now f) = []"
proof (induction now f rule: promoteSleepingHosts.induct)
  case (1 now f)
  show ?case
  proof (cases "sleepingHosts f = []")
    case True
    then show ?thesis by (simp add: promoteSleepingHosts.simps [of now f] pq_top_def)
  next
    case False
    then have pt: "pq_top (sleepingHosts f) = Some (sleepingHosts f ! 0)" and due: "wakeAtMs (sleepingHosts f ! 0) \<le> now"
      using 1(3) by (cases "sleepingHosts f"; simp add: pq_top_def)+
    have "heap_inv wakes_before (sleepingHosts f)" using 1(2) by (simp add: sched_ok_def queues_ok_def)
    from wakes.extract_spec [OF this False] obtain rest where
      e: "extractTop wakes_before (sleepingHosts f) = Some (sleepingHosts f ! 0, rest)" "heap_inv wakes_before rest"
      "mset (sleepingHosts f) = add_mset (sleepingHosts f ! 0) (mset rest)" by blast
    have "set (sleepingHosts f) = insert (sleepingHosts f ! 0) (set rest)"
      using e(3) by (metis set_mset_add_mset_insert set_mset_mset)
    then have rest: "\<forall>s \<in> set rest. wakeAtMs s \<le> now" using 1(3) by simp
    have "promoteSleepingHosts now f
        = promoteSleepingHosts now (wake_host (sleepingHosts f ! 0) now (f\<lparr>sleepingHosts := rest\<rparr>))"
      using pt due e(1) by (simp add: promoteSleepingHosts.simps [of now f])
    then show ?thesis using 1(1) [OF pt due e(1) refl] wake_host_sched [OF 1(2) e(3,2) due] rest by simp
  qed
qed

lemma enqueueScheduledItem_awake:
  assumes "sched_ok f" and "sleepingHosts f = []" and "0 \<le> now"
  shows "sleepingHosts (enqueueScheduledItem item now f) = []"
proof -
  define key where "key = extractHostKey (link item)"
  define h where "h = (case get_host key f of None \<Rightarrow> new_host | Some h \<Rightarrow> h)"
  have "\<not> inSleepingQueue h \<and> (inSleepingQueue h \<or> blockedUntilMs h \<le> 0)"
  proof (cases "get_host key f")
    case None
    then show ?thesis by (simp add: h_def new_host_def)
  next
    case (Some h')
    then have "host_flags f key h' \<and> host_placed h'" using assms(1) by (simp add: sched_ok_def)
    then show ?thesis using assms(2) Some by (auto simp: h_def host_flags_def host_placed_def)
  qed
  then have "\<not> blockedUntilMs h > now" using assms(3) by linarith
  moreover have "enqueueScheduledItem item now f = scheduleHost key (h\<lparr>items := bq_pushBack item (items h)\<rparr>) now f"
    by (simp add: enqueueScheduledItem_def key_def h_def Let_def)
  ultimately show ?thesis using assms(2) by (simp add: scheduleHost_def Let_def)
qed

lemma enqueue_items_awake:
  "sched_ok f \<Longrightarrow> sleepingHosts f = [] \<Longrightarrow> 0 \<le> now \<Longrightarrow>
     sleepingHosts (fold (\<lambda>item. enqueueScheduledItem item now) its f) = []"
  by (induction its arbitrary: f) (simp_all add: enqueueScheduledItem_sched enqueueScheduledItem_awake)

lemma promote_loop_awake:
  "tables_ok f \<Longrightarrow> sched_ok f \<Longrightarrow> sleepingHosts f = [] \<Longrightarrow> 0 \<le> now \<Longrightarrow> \<forall>n. 0 \<le> clock f n \<Longrightarrow>
     promote_loop now f = Some g \<Longrightarrow> sleepingHosts g = []"
proof (induction now f rule: promote_loop.induct)
  case (1 now f)
  show ?case
  proof (cases "bq_empty (readyHosts f) \<and> reservoir f \<noteq> []")
    case False
    then show ?thesis using 1(4,7) by (auto simp: promote_loop.simps [of now f])
  next
    case True
    then obtain promoted r' c' where p: "promote_chunk getScore (reservoir f) (reservoirSweepCursor f) = Some (promoted, r', c')"
      using 1(7) by (auto simp: promote_loop.simps [of now f] split: option.splits)
    define f1 where "f1 = f\<lparr>reservoir := r', reservoirSweepCursor := c'\<rparr>"
    define f2 where "f2 = fold (\<lambda>item. enqueueScheduledItem item now) promoted f1"
    define f3 where "f3 = f2\<lparr>ticks := ticks f2 + 1\<rparr>"
    have t1: "tables_ok f1" using 1(2) by (simp add: f1_def tables_ok_def)
    have s1: "sched_ok f1" "sleepingHosts f1 = []" "clock f1 = clock f"
      using same_hosts [OF 1(3), of f1] 1(4) by (simp_all add: f1_def)
    have t2: "tables_ok f2" "clock f2 = clock f"
      using enqueue_items_ok [OF t1, of now promoted] s1(3) by (simp_all add: f2_def same_stores_def)
    have s2: "sched_ok f2" "sleepingHosts f2 = []"
      using enqueue_items_sched [OF t1 s1(1), of now promoted] enqueue_items_awake [OF s1(1,2) 1(5), of promoted]
      by (simp_all add: f2_def)
    have t3: "tables_ok f3" using t2 by (auto simp: f3_def tables_ok_def)
    have s3: "sched_ok f3" "sleepingHosts f3 = []" "\<forall>n. 0 \<le> clock f3 n" "0 \<le> clock f2 (ticks f2)"
      using same_hosts [of f2 f3] s2 t2(2) 1(6) by (simp_all add: f3_def)
    have "promote_loop now f = promote_loop (clock f2 (ticks f2)) f3"
      using True p by (simp add: promote_loop.simps [of now f] Let_def f1_def f2_def f3_def nowMillis_def)
    then have "promote_loop (clock f2 (ticks f2)) f3 = Some g" using 1(7) by simp
    moreover have "nowMillis f2 = (clock f2 (ticks f2), f3)" by (simp add: nowMillis_def f3_def)
    ultimately show ?thesis
      using 1(1) [OF True p refl refl f1_def f2_def _ refl t3 s3(1,2,4,3)] by simp
  qed
qed

lemma pop_turn_progress:
  assumes "frontier_ok f" and "sched_ok f" and "chunks_ok f" and "pop_turn f = Some (r, g)"
    and "flying f = {}" and "waiting_items f \<noteq> {#}" and "\<forall>n. 0 \<le> clock f n"
    and "\<forall>s \<in> set (sleepingHosts f). wakeAtMs s \<le> clock f (ticks f)"
  shows "\<exists>item key. r = PopItem item key"
proof (rule ccontr)
  assume "\<nexists>item key. r = PopItem item key"
  then have r: "r = PopWait \<or> r = PopEnd" by (cases r) auto
  define now where "now = clock f (ticks f)"
  define f1 where "f1 = f\<lparr>ticks := ticks f + 1\<rparr>"
  define f2 where "f2 = promoteSleepingHosts now f1"
  have f1: "sched_ok f1" "frontier_ok f1" using same_hosts [OF assms(2), of f1] frontier_ok_tick [OF assms(1)] by (simp_all add: f1_def)
  then have t1: "tables_ok f1" by (simp add: frontier_ok_def)
  have f2: "sched_ok f2" "frontier_ok f2" "clock f2 = clock f"
    using promoteSleepingHosts_sched [OF f1(1), of now] promoteSleeping_frontier_ok [OF f1(2), of now]
      promoteSleepingHosts_ok [OF t1, of now] by (simp_all add: f2_def f1_def same_stores_def)
  have awake: "sleepingHosts f2 = []" unfolding f2_def by (rule promoteSleepingHosts_due [OF f1(1)]) (use assms(8) in \<open>simp add: f1_def now_def\<close>)
  obtain f3 d where f3: "promoteReservoir now f2 = Some f3" and d: "dispatch f3 = (d, g)"
    using assms(4) by (auto simp: pop_turn_def nowMillis_def Let_def now_def f1_def f2_def split: option.splits prod.splits)
  have t2: "tables_ok f2" using f2(2) by (simp add: frontier_ok_def)
  have ref: "sched_ok (refilled f2)" "tables_ok (refilled f2)" using same_hosts [OF f2(1), of "refilled f2"] t2 by (simp_all add: tables_ok_def)
  have "clock (refilled f2) = clock f"
    using f2(3) by (simp add: refilled_def refillReservoirFromDiskBacked_def loadDiskBackedChunkFromDisk_def Let_def split: option.split)
  then have "sleepingHosts f3 = []"
    using f3 promote_loop_awake [OF ref(2,1), of now f3] awake assms(7)
    by (auto simp: promoteReservoir_refilled now_def split: if_splits)
  then have "sleepingHosts g = []" using dispatch_sched [OF _ d] promoteReservoir_sched [OF t2 f2(1) f3] by simp
  moreover have "flying g = {}" using pop_turn_sched [OF assms(1,2,4)] assms(5) r by auto
  moreover have "waiting_items g \<noteq> {#}" using pop_turn_ok [OF assms(1,4)] assms(6) r by auto
  ultimately show False using pop_turn_chunks(2) [OF assms(1-4) r] by blast
qed

end
