(* ===== verification/Crawl.thy ===== *)
theory Crawl
  imports FrontierSchedule
begin

text \<open>
  The frontier and the workers of the crawler (\<open>WorkerThread\<close> of \<open>src/crawler/Crawler.cpp\<close> and
  \<open>CrawlerWorkerThread\<close> of \<open>src/main_distributed.cpp\<close>) as a step relation over the calls under the lock of the
  frontier: a worker takes an item with \<open>pop\<close>, may give new items to \<open>pushMany\<close>, and hands its item back with
  \<open>taskDone\<close> or \<open>snoozeCurrent\<close>; \<open>busy\<close> lists the items that the workers hold, with the host key of the thread.
\<close>

record Crawl =
  frontier :: Frontier
  busy :: "(FrontierItem \<times> string) list"
  taken_in :: "FrontierItem multiset"
  finished :: "FrontierItem multiset"
  stopped :: bool

inductive crawl_step :: "Crawl \<Rightarrow> Crawl \<Rightarrow> bool" where
  step_pop: "pop_turn (frontier c) = Some (PopItem item key, g) \<Longrightarrow>
     crawl_step c (c\<lparr>frontier := g, busy := (item, key) # busy c\<rparr>)"
| step_wait: "pop_turn (frontier c) = Some (PopWait, g) \<Longrightarrow> crawl_step c (c\<lparr>frontier := g\<rparr>)"
| step_end: "pop_turn (frontier c) = Some (PopEnd, g) \<Longrightarrow> crawl_step c (c\<lparr>frontier := g\<rparr>)"
| step_push: "\<forall>item \<in> set its. crawlable item \<Longrightarrow>
     crawl_step c (c\<lparr>frontier := pushMany its (frontier c),
       taken_in := (if closed (frontier c) then {#} else mset its) + taken_in c\<rparr>)"
| step_done: "(item, key) \<in> set (busy c) \<Longrightarrow> taskDone key (frontier c) = (k, g) \<Longrightarrow>
     crawl_step c (c\<lparr>frontier := g, busy := remove1 (item, key) (busy c), finished := add_mset item (finished c)\<rparr>)"
| step_snooze: "(item, key) \<in> set (busy c) \<Longrightarrow> snoozeCurrent item readyAt key (frontier c) = (k, g) \<Longrightarrow>
     crawl_step c (c\<lparr>frontier := g, busy := remove1 (item, key) (busy c)\<rparr>)"
| step_shutdown: "crawl_step c (c\<lparr>frontier := frontier_shutdown (frontier c), stopped := True\<rparr>)"

text \<open>A crawl begins with the items of a checkpoint or of a seed list and with the chunk files of an earlier run.\<close>

definition fresh_crawl ::
  "FrontierItem list \<Rightarrow> bool \<Rightarrow> nat \<Rightarrow> ((nat \<times> nat) \<times> string) list \<Rightarrow> bool \<Rightarrow> (nat \<Rightarrow> int) \<Rightarrow> Crawl" where
  "fresh_crawl its autoClose maxItems d writable clk =
     \<lparr>frontier = frontier_of_items its autoClose maxItems d writable clk, busy = [],
      taken_in = mset its + disk_items d, finished = {#}, stopped = False\<rparr>"

definition saved_ok :: "((nat \<times> nat) \<times> string) list \<Rightarrow> bool" where
  "saved_ok d \<longleftrightarrow> distinct (map (fst \<circ> fst) d)
     \<and> (\<forall>e \<in> set d. 0 < fst (fst e) \<and> 0 < snd (fst e) \<and> length (readDiskChunk (snd e)) = snd (fst e)
          \<and> (\<forall>item \<in> set (readDiskChunk (snd e)). crawlable item))"

inductive crawl_run :: "Crawl \<Rightarrow> Crawl \<Rightarrow> bool" for c0 where
  run_start: "crawl_run c0 c0"
| run_step: "crawl_run c0 c \<Longrightarrow> crawl_step c c' \<Longrightarrow> crawl_run c0 c'"

subsection \<open>The invariant\<close>

definition crawl_ok :: "Crawl \<Rightarrow> bool" where
  "crawl_ok c \<longleftrightarrow> frontier_ok (frontier c) \<and> sched_ok (frontier c)
     \<and> flying (frontier c) = set (map snd (busy c)) \<and> distinct (map snd (busy c))
     \<and> (\<forall>(item, key) \<in> set (busy c). crawlable item \<and> key = extractHostKey (link item))
     \<and> taken_in c = waiting_items (frontier c) + mset (map fst (busy c)) + finished c
     \<and> pending (frontier c) = size (waiting_items (frontier c)) + length (busy c)
     \<and> (closed (frontier c) \<longleftrightarrow> stopped c \<or> autoCloseWhenDrained (frontier c) \<and> pending (frontier c) = 0)"

text \<open>What a worker holds belongs to a host that is handed out, and is still in the hands of nobody else.\<close>

lemma busy_host:
  assumes "crawl_ok c" and "(item, key) \<in> set (busy c)"
  obtains h where "get_host key (frontier c) = Some h" "inFlight h" "key \<noteq> []" "crawlable item" "key = extractHostKey (link item)"
proof -
  have "\<forall>(item, key) \<in> set (busy c). crawlable item \<and> key = extractHostKey (link item)"
    and "flying (frontier c) = set (map snd (busy c))" using assms(1) by (simp_all add: crawl_ok_def)
  then have ik: "crawlable item" "key = extractHostKey (link item)" and "key \<in> flying (frontier c)"
    using bspec [OF _ assms(2)] imageI [OF assms(2), of snd] by (auto simp del: split_paired_All)
  then obtain h where "get_host key (frontier c) = Some h" "inFlight h" unfolding flying_def by blast
  then show thesis using that ik by (simp add: crawlable_def)
qed

lemma busy_removed:
  assumes "distinct (map snd b)" and "(item, key) \<in> set b"
  shows "set (map snd (remove1 (item, key) b)) = set (map snd b) - {key}" and "distinct (map snd (remove1 (item, key) b))"
    and "mset (map fst b) = add_mset item (mset (map fst (remove1 (item, key) b)))"
    and "length b = Suc (length (remove1 (item, key) b))"
proof -
  have d: "distinct b" and inj: "inj_on snd (set b)" using assms(1) by (simp_all add: distinct_map)
  have "snd ` (set b - {(item, key)}) = snd ` set b - snd ` {(item, key)}"
    using assms(2) by (intro inj_on_image_set_diff [OF inj]) auto
  then show "set (map snd (remove1 (item, key) b)) = set (map snd b) - {key}" using d by simp
  show "distinct (map snd (remove1 (item, key) b))"
    using d inj by (simp add: distinct_map) (meson inj_on_subset Diff_subset)
  have "mset b = add_mset (item, key) (mset (remove1 (item, key) b))" using assms(2) by simp
  then have "image_mset fst (mset b) = image_mset fst (add_mset (item, key) (mset (remove1 (item, key) b)))" by simp
  then show "mset (map fst b) = add_mset item (mset (map fst (remove1 (item, key) b)))" by simp
  show "length b = Suc (length (remove1 (item, key) b))" using assms(2) length_pos_if_in_set [OF assms(2)] by (simp add: length_remove1)
qed

lemma crawl_ok_handed_back:
  assumes "crawl_ok c" and "(item, key) \<in> set (busy c)" and "frontier_ok g" and "sched_ok g"
    and "flying g = flying (frontier c) - {key}"
    and "waiting_items g + fin = add_mset item (waiting_items (frontier c) + finished c)"
    and "Suc (pending g) = size (waiting_items g) + length (busy c)"
    and "closed g \<longleftrightarrow> stopped c \<or> autoCloseWhenDrained g \<and> pending g = 0"
  shows "crawl_ok (c\<lparr>frontier := g, busy := remove1 (item, key) (busy c), finished := fin\<rparr>)"
proof -
  have dist: "distinct (map snd (busy c))" and fl: "flying (frontier c) = set (map snd (busy c))"
    and all: "\<forall>(item, key) \<in> set (busy c). crawlable item \<and> key = extractHostKey (link item)"
    and total: "taken_in c = waiting_items (frontier c) + mset (map fst (busy c)) + finished c"
    using assms(1) by (simp_all add: crawl_ok_def)
  note r = busy_removed [OF dist assms(2)]
  have "\<forall>(item, key) \<in> set (remove1 (item, key) (busy c)). crawlable item \<and> key = extractHostKey (link item)"
    using all by (meson set_remove1_subset subsetD)
  moreover have "taken_in c = waiting_items g + mset (map fst (remove1 (item, key) (busy c))) + fin"
    using total r(3) assms(6) by (simp add: ac_simps)
  moreover have "pending g = size (waiting_items g) + length (remove1 (item, key) (busy c))" using assms(7) r(4) by simp
  ultimately show ?thesis using assms(3,4,5,8) fl r(1,2) by (simp add: crawl_ok_def)
qed

lemma crawl_step_ok:
  assumes "crawl_ok c" and "crawl_step c c'"
  shows "crawl_ok c'"
proof -
  have f: "frontier_ok (frontier c)" "sched_ok (frontier c)" using assms(1) by (simp_all add: crawl_ok_def)
  show ?thesis using assms(2)
  proof (cases rule: crawl_step.cases)
    case (step_pop item key g)
    then have pop: "pop_turn (frontier c) = Some (PopItem item key, g)" by simp
    note p = pop_turn_ok [OF f(1) pop] pop_turn_sched [OF f pop]
    have "crawlable item" using f(1) p(1) by (simp add: frontier_ok_def)
    then show ?thesis using assms(1) step_pop(1,2) p by (auto simp: crawl_ok_def)
  next
    case (step_wait g)
    then have pop: "pop_turn (frontier c) = Some (PopWait, g)" by simp
    show ?thesis using assms(1) step_wait(1,2) pop_turn_ok [OF f(1) pop] pop_turn_sched [OF f pop]
      by (auto simp: crawl_ok_def)
  next
    case (step_end g)
    then have pop: "pop_turn (frontier c) = Some (PopEnd, g)" by simp
    show ?thesis using assms(1) step_end(1,2) pop_turn_ok [OF f(1) pop] pop_turn_sched [OF f pop]
      by (auto simp: crawl_ok_def)
  next
    case (step_push its)
    then show ?thesis using assms(1) pushMany_ok [OF f(1), of its] pushMany_sched [OF f(2), of its]
      by (auto simp: crawl_ok_def kept_def)
  next
    case (step_done item key k g)
    then have m: "(item, key) \<in> set (busy c)" and dn: "taskDone key (frontier c) = (k, g)" by simp_all
    obtain h where h: "get_host key (frontier c) = Some h" "inFlight h" "key \<noteq> []"
      using busy_host [OF assms(1) m] by blast
    note d = taskDone_ok [OF f(1) dn] taskDone_sched [OF f(2) h(3,1,2) dn]
    have p: "pending (frontier c) = size (waiting_items (frontier c)) + length (busy c)" "0 < length (busy c)"
      using assms(1) length_pos_if_in_set [OF m] by (simp_all add: crawl_ok_def)
    then have cl: "closed (frontier c) \<longleftrightarrow> stopped c" using assms(1) by (simp add: crawl_ok_def)
    have pos: "0 < pending (frontier c)" using p by linarith
    have one: "pending (frontier c) = 1 \<longleftrightarrow> pending (frontier c) - 1 = 0" using pos by linarith
    have g: "closed g \<longleftrightarrow> closed (frontier c) \<or> pending (frontier c) = 1 \<and> autoCloseWhenDrained (frontier c)"
      "autoCloseWhenDrained g = autoCloseWhenDrained (frontier c)" "pending g = pending (frontier c) - 1" using d by blast+
    have "closed g \<longleftrightarrow> stopped c \<or> autoCloseWhenDrained g \<and> pending g = 0" unfolding g cl one by blast
    moreover have "Suc (pending g) = size (waiting_items g) + length (busy c)" using d p(1) pos by simp
    moreover have "waiting_items g + add_mset item (finished c) = add_mset item (waiting_items (frontier c) + finished c)"
      using d by simp
    ultimately show ?thesis unfolding step_done(1) using d crawl_ok_handed_back [OF assms(1) m] by blast
  next
    case (step_snooze item key readyAt k g)
    then have m: "(item, key) \<in> set (busy c)" and snooze: "snoozeCurrent item readyAt key (frontier c) = (k, g)" by simp_all
    obtain h where h: "get_host key (frontier c) = Some h" "inFlight h" "key \<noteq> []" "crawlable item" "extractHostKey (link item) = key"
      using busy_host [OF assms(1) m] by blast
    then have "link item \<noteq> []" by (simp add: crawlable_def)
    note d = snoozeCurrent_ok [OF f(1) h(4,3,1) snooze] snoozeCurrent_sched [OF f(2) this h(3,5,1,2) snooze]
    have p: "pending (frontier c) = size (waiting_items (frontier c)) + length (busy c)" "0 < length (busy c)"
      using assms(1) length_pos_if_in_set [OF m] by (simp_all add: crawl_ok_def)
    then have cl: "closed (frontier c) \<longleftrightarrow> stopped c" using assms(1) by (simp add: crawl_ok_def)
    have pos: "0 < pending (frontier c)" using p by linarith
    then have "closed g \<longleftrightarrow> stopped c \<or> autoCloseWhenDrained g \<and> pending g = 0" using d cl by simp
    moreover have "Suc (pending g) = size (waiting_items g) + length (busy c)" using d p(1) by simp
    moreover have "waiting_items g + finished c = add_mset item (waiting_items (frontier c) + finished c)" using d by simp
    ultimately have "crawl_ok (c\<lparr>frontier := g, busy := remove1 (item, key) (busy c), finished := finished c\<rparr>)"
      using d crawl_ok_handed_back [OF assms(1) m] by blast
    moreover have "c\<lparr>frontier := g, busy := remove1 (item, key) (busy c), finished := finished c\<rparr> = c'"
      using step_snooze(1) by (cases c) simp
    ultimately show ?thesis by simp
  next
    case step_shutdown
    then show ?thesis using assms(1) same_hosts [OF f(2), of "frontier_shutdown (frontier c)"]
      by (simp add: crawl_ok_def frontier_shutdown_def frontier_ok_def tables_ok_def disk_ok_def waiting_items_def kept_def)
  qed
qed

subsection \<open>The beginning\<close>

lemma fold_max_index:
  "fold (\<lambda>(i, n) m. if i > m then i else m) xs m0 = Max (insert m0 (set (map fst xs)))" for m0 :: nat
proof (induction xs arbitrary: m0)
  case (Cons x xs)
  obtain i n where x: "x = (i, n)" by fastforce
  have "fold (\<lambda>(i, n) m. if i > m then i else m) (x # xs) m0 = fold (\<lambda>(i, n) m. if i > m then i else m) xs (max i m0)"
    by (simp add: x max_def)
  also have "\<dots> = Max (insert (max i m0) (set (map fst xs)))" by (rule Cons.IH)
  also have "\<dots> = Max (insert m0 (insert i (set (map fst xs))))"
    by (cases "xs = []") (simp_all add: max.left_commute max.commute max.assoc)
  finally show ?case by (simp add: x)
qed simp

lemma size_disk_items:
  "\<forall>e \<in> set d. length (readDiskChunk (snd e)) = snd (fst e) \<Longrightarrow> size (disk_items d) = sum_list (map (snd \<circ> fst) d)"
  by (induction d) (simp_all add: disk_items_def)

lemma recovered_ok:
  fixes autoClose maxItems d writable clk
  assumes "saved_ok d"
  defines "f \<equiv> recoverDiskBackedChunkCount (empty_frontier autoClose maxItems d writable clk)"
  shows "frontier_ok f \<and> sched_ok f \<and> flying f = {} \<and> waiting_items f = disk_items d \<and> pending f = size (disk_items d)
     \<and> \<not> closed f \<and> diskBackedChunksOnDisk f = Max (insert 0 (set (map (fst \<circ> fst) d)))"
proof -
  have ok: "distinct (map (fst \<circ> fst) d)" "\<And>e. e \<in> set d \<Longrightarrow> 0 < fst (fst e) \<and> 0 < snd (fst e)"
    "\<And>e. e \<in> set d \<Longrightarrow> length (readDiskChunk (snd e)) = snd (fst e)"
    "\<And>e item. e \<in> set d \<Longrightarrow> item \<in> set (readDiskChunk (snd e)) \<Longrightarrow> crawlable item"
    using assms(1) by (auto simp: saved_ok_def)
  have all: "filter (\<lambda>(i, n). 0 < i \<and> 0 < n) (map fst d) = map fst d"
    using ok(2) by (intro filter_True) fastforce
  define n where "n = Max (insert 0 (set (map (fst \<circ> fst) d)))"
  have f: "f = (empty_frontier autoClose maxItems d writable clk)\<lparr>diskBackedChunksOnDisk := n,
      queued := size (disk_items d), pending := size (disk_items d)\<rparr>"
    using size_disk_items [of d] ok(3) unfolding f_def n_def recoverDiskBackedChunkCount_def
    by (simp add: empty_frontier_def all fold_max_index Let_def image_comp)
  have w: "waiting_items f = disk_items d" by (simp add: f empty_frontier_def waiting_items_def host_items_def)
  have le: "fst (fst e) \<le> n" if "e \<in> set d" for e unfolding n_def using that by (intro Max_ge) auto
  have "\<forall>item \<in># disk_items d. crawlable item"
    using ok(4) by (induction d) (auto simp: disk_items_def)
  moreover have "disk_ok f" using ok le by (simp add: disk_ok_def f empty_frontier_def)
  moreover have "tables_ok f" by (simp add: tables_ok_def f empty_frontier_def heap_inv_def)
  ultimately have "frontier_ok f" using w by (simp add: frontier_ok_def) (simp add: f)
  moreover have "sched_ok f" by (simp add: sched_ok_def queues_ok_def f empty_frontier_def ready_def get_host_def heap_inv_def)
  moreover have "flying f = {}" by (simp add: flying_def f empty_frontier_def get_host_def)
  moreover have "pending f = size (disk_items d)" "\<not> closed f" "diskBackedChunksOnDisk f = n" by (simp_all add: f empty_frontier_def)
  ultimately show ?thesis using w n_def by blast
qed

lemma fresh_crawl_ok:
  assumes "saved_ok d" and "\<forall>item \<in> set its. crawlable item"
  shows "crawl_ok (fresh_crawl its autoClose maxItems d writable clk)"
proof -
  define f0 where "f0 = recoverDiskBackedChunkCount (empty_frontier autoClose maxItems d writable clk)"
  define f1 where "f1 = fold (\<lambda>item f. if link item \<noteq> [] then pushInternal item True f else f) its f0"
  note f0 = recovered_ok [OF assms(1), of autoClose maxItems writable clk, folded f0_def]
  have f1: "frontier_ok f1 \<and> waiting_items f1 = mset its + waiting_items f0 \<and> pending f1 = pending f0 + length its
     \<and> closed f1 = closed f0" "sched_ok f1 \<and> kept f0 f1"
    using pushes_ok [OF _ assms(2), of f0] pushes_sched [of f0 its] f0 by (simp_all add: f1_def)
  have f: "frontier_of_items its autoClose maxItems d writable clk = close_if_drained f1"
    by (simp add: frontier_of_items_def f1_def f0_def)
  have "frontier_ok (close_if_drained f1) \<and> waiting_items (close_if_drained f1) = waiting_items f1
      \<and> pending (close_if_drained f1) = pending f1"
    using f1 by (simp add: close_if_drained_def frontier_ok_def tables_ok_def disk_ok_def waiting_items_def)
  moreover have "closed (close_if_drained f1) \<longleftrightarrow> autoCloseWhenDrained (close_if_drained f1) \<and> pending (close_if_drained f1) = 0"
    using f0 f1(1) by (auto simp: close_if_drained_def)
  moreover have "sched_ok (close_if_drained f1)" "flying (close_if_drained f1) = {}"
    using close_if_drained_sched [of f1] f1(2) f0 by (simp_all add: kept_def)
  ultimately show ?thesis using f0 f1(1) by (simp add: crawl_ok_def fresh_crawl_def f)
qed

lemma crawl_run_ok:
  assumes "crawl_run (fresh_crawl its autoClose maxItems d writable clk) c" and "saved_ok d" and "\<forall>item \<in> set its. crawlable item"
  shows "crawl_ok c"
  using assms(1)
proof induction
  case run_start
  then show ?case using fresh_crawl_ok assms(2,3) by blast
next
  case (run_step c c')
  then show ?case using crawl_step_ok by blast
qed

subsection \<open>A small crawl\<close>

definition page_item :: FrontierItem where
  "page_item = \<lparr>link = ''http://a.org/b'', suffix = ORG, baseLength = 1, seedDistance = 0, pathDepth = 1, failed = False\<rparr>"

abbreviation small_crawl :: Crawl where
  "small_crawl \<equiv> fresh_crawl [page_item] True 0 [] True (\<lambda>n. int n)"

lemma page_item_host: "extractHostKey (link page_item) = ''a.org''"
  unfolding page_item_def by code_simp

lemma page_item_crawlable: "crawlable page_item"
  using page_item_host
  by (simp add: crawlable_def storable_def small_item_def enumerator_def nul_code clean_link_def code_def buffer_size_def
      serializeToLine_def show_int_def show_nat.simps page_item_def)

lemma promote_one: "promote_chunk score [x] 0 = Some ([x], [], 0)"
  by (simp add: promote_chunk_def winners_to_keep_def frontierReservoirSweepChunkSize_def frontierReservoirPromotionPercent_def
      pick_winners_def consider_candidate_def Let_def remove_largest_first.simps max_winner_def swap_remove_def)

lemma small_start:
  "frontier small_crawl = (empty_frontier True 0 [] True (\<lambda>n. int n))\<lparr>reservoir := [page_item], pending := 1, queued := 1\<rparr>"
proof -
  have "link page_item \<noteq> []" by (simp add: page_item_def)
  then show ?thesis
    by (simp add: fresh_crawl_def frontier_of_items_def empty_frontier_def recoverDiskBackedChunkCount_def pushInternal_def
        close_if_drained_def Let_def resolveFrontierMaxQueuedItems_def)
qed

lemma small_pop: "\<exists>g. pop_turn (frontier small_crawl) = Some (PopItem page_item ''a.org'', g) \<and> pending g = 1
    \<and> autoCloseWhenDrained g"
  unfolding small_start
  by (simp add: pop_turn_def nowMillis_def Let_def empty_frontier_def promoteSleepingHosts.simps pq_top_def
      promoteReservoir_def resolveFrontierMaxQueuedItems_def frontierReservoirRefillPercent_def
      frontierDiskBackRefillPercent_def loadDiskBackedChunkFromDisk_def refillReservoirFromDiskBacked_def bq_empty_def bq_new_def
      promote_loop.simps promote_one enqueueScheduledItem_def page_item_host get_host_def new_host_def scheduleHost_def
      bq_pushBack_def put_host_def dispatch.simps bq_popFront_def maybeCompact_def)

lemma small_busy: "\<exists>c. crawl_run small_crawl c \<and> busy c = [(page_item, ''a.org'')] \<and> taken_in c = {#page_item#}
    \<and> finished c = {#} \<and> pending (frontier c) = 1 \<and> autoCloseWhenDrained (frontier c)"
proof -
  obtain g where g: "pop_turn (frontier small_crawl) = Some (PopItem page_item ''a.org'', g)" "pending g = 1" "autoCloseWhenDrained g"
    using small_pop by blast
  have "crawl_run small_crawl (small_crawl\<lparr>frontier := g, busy := (page_item, ''a.org'') # busy small_crawl\<rparr>)"
    by (rule run_step [OF run_start step_pop [OF g(1)]])
  then show ?thesis using g(2,3) by (intro exI conjI) (assumption, simp_all add: fresh_crawl_def disk_items_def)
qed

lemma small_hypotheses: "saved_ok []" "\<forall>item \<in> set [page_item]. crawlable item"
  "(0 :: nat) = 0 \<or> (4 :: nat) \<le> 0" "fst ` fst ` set ([] :: ((nat \<times> nat) \<times> string) list) = {1..length ([] :: ((nat \<times> nat) \<times> string) list)}"
  using page_item_crawlable by (simp_all add: saved_ok_def)

subsection \<open>The properties\<close>



text \<open>C6. One URL per host: two workers never hold URLs of the same host at the same time.\<close>

theorem one_url_per_host:
  assumes "crawl_run (fresh_crawl its autoClose maxItems d writable clk) c" and "saved_ok d" and "\<forall>item \<in> set its. crawlable item"
  shows "distinct (map (extractHostKey \<circ> link \<circ> fst) (busy c))"
proof -
  have "crawl_ok c" by (rule crawl_run_ok [OF assms])
  then have "\<forall>p \<in> set (busy c). extractHostKey (link (fst p)) = snd p" "distinct (map snd (busy c))"
    by (auto simp: crawl_ok_def)
  moreover from this have "map (extractHostKey \<circ> link \<circ> fst) (busy c) = map snd (busy c)" by simp
  ultimately show ?thesis by metis
qed

theorem one_url_per_host_witness:
  "\<exists>c. crawl_run small_crawl c \<and> busy c \<noteq> [] \<and> distinct (map (extractHostKey \<circ> link \<circ> fst) (busy c))"
proof -
  obtain c where c: "crawl_run small_crawl c" "busy c = [(page_item, ''a.org'')]" using small_busy by blast
  then show ?thesis using one_url_per_host [OF c(1) small_hypotheses(1,2)] by (intro exI [of _ c]) simp
qed

text \<open>The chunk files stay in order.\<close>

lemma pushes_chunks:
  assumes "frontier_ok f" and "chunks_ok f" and "\<forall>item \<in> set its. crawlable item"
  shows "chunks_ok (fold (\<lambda>item f. if link item \<noteq> [] then pushInternal item True f else f) its f)"
  using assms
proof (induction its arbitrary: f)
  case (Cons item its)
  have "crawlable item" "link item \<noteq> []" using Cons.prems(3) by (simp_all add: crawlable_def)
  then show ?case
    using Cons.IH [of "pushInternal item True f"] pushInternal_ok [OF Cons.prems(1), of item True]
      pushInternal_chunks [OF Cons.prems(1,2), of item True] Cons.prems(3) by simp
qed simp

lemma chunks_ok_put [simp]: "chunks_ok (put_host k h f) = chunks_ok f"
  by (simp add: chunks_ok_def put_host_def)

lemma chunks_ok_schedule [simp]: "chunks_ok (scheduleHost k h now f) = chunks_ok f"
  using scheduleHost_stores [of f k h now] by (simp add: chunks_ok_def same_stores_def)

lemma chunks_ok_fields [simp]:
  "chunks_ok (f\<lparr>ticks := t\<rparr>) = chunks_ok f" "chunks_ok (f\<lparr>pending := p\<rparr>) = chunks_ok f"
  "chunks_ok (f\<lparr>queued := p\<rparr>) = chunks_ok f" "chunks_ok (f\<lparr>closed := b\<rparr>) = chunks_ok f"
  "chunks_ok (f\<lparr>sleepingHosts := hs\<rparr>) = chunks_ok f"
  by (simp_all add: chunks_ok_def)

lemma handed_back_chunks:
  "taskDone key f = (k, g) \<Longrightarrow> chunks_ok f \<Longrightarrow> chunks_ok g"
  "snoozeCurrent item readyAt key f = (k, g) \<Longrightarrow> chunks_ok f \<Longrightarrow> chunks_ok g"
proof -
  have release: "chunks_ok (snd (releaseActiveHost now key f)) = chunks_ok f" for now f
    by (simp add: releaseActiveHost_def split: option.split)
  show "taskDone key f = (k, g) \<Longrightarrow> chunks_ok f \<Longrightarrow> chunks_ok g"
    using release [of "clock f (ticks f)" "f\<lparr>ticks := ticks f + 1\<rparr>"]
      release [of "clock f (ticks f)" "f\<lparr>ticks := ticks f + 1, pending := pending f - 1\<rparr>"]
    by (auto simp: taskDone_def nowMillis_def split: if_splits prod.splits)
  show "snoozeCurrent item readyAt key f = (k, g) \<Longrightarrow> chunks_ok f \<Longrightarrow> chunks_ok g"
    by (cases "get_host key f") (auto simp: snoozeCurrent_def nowMillis_def Let_def split: if_splits)
qed

lemma crawl_step_chunks:
  assumes "crawl_ok c" and "chunks_ok (frontier c)" and "crawl_step c c'"
  shows "chunks_ok (frontier c')"
proof -
  have f: "frontier_ok (frontier c)" "sched_ok (frontier c)" using assms(1) by (simp_all add: crawl_ok_def)
  show ?thesis using assms(3)
  proof (cases rule: crawl_step.cases)
    case (step_push its)
    then show ?thesis using pushes_chunks [OF f(1) assms(2), of its] assms(2) by (simp add: pushMany_def)
  qed (use assms(2) pop_turn_chunks(1) [OF f assms(2)] handed_back_chunks in
      \<open>auto simp: frontier_shutdown_def\<close>)
qed

lemma crawl_run_chunks:
  assumes "crawl_run (fresh_crawl its autoClose maxItems d writable clk) c" and "saved_ok d" and "\<forall>item \<in> set its. crawlable item"
    and "maxItems = 0 \<or> 4 \<le> maxItems" and "fst ` fst ` set d = {1..length d}"
  shows "chunks_ok (frontier c)"
  using assms(1)
proof induction
  case run_start
  define f0 where "f0 = recoverDiskBackedChunkCount (empty_frontier autoClose maxItems d writable clk)"
  note f0 = recovered_ok [OF assms(2), of autoClose maxItems writable clk, folded f0_def]
  have "set (map (fst \<circ> fst) d) = {1..length d}" using assms(5) by (simp add: image_comp)
  moreover have "Max (insert 0 {1..n}) = n" for n :: nat
    by (intro Max_eqI) auto
  ultimately have "diskBackedChunksOnDisk f0 = length d" using f0 by simp
  moreover have "disk f0 = d" "maxQueued f0 = resolveFrontierMaxQueuedItems maxItems"
    by (simp_all add: f0_def recoverDiskBackedChunkCount_def empty_frontier_def Let_def)
  moreover have "4 \<le> resolveFrontierMaxQueuedItems maxItems" using assms(4) by (auto simp: resolveFrontierMaxQueuedItems_def)
  moreover have "\<forall>e \<in> set d. snd (fst e) \<noteq> 0" using assms(2) by (auto simp: saved_ok_def)
  ultimately have "chunks_ok f0" using assms(5) by (simp add: chunks_ok_def)
  then show ?case using pushes_chunks [OF _ _ assms(3), of f0] f0
    by (simp add: fresh_crawl_def frontier_of_items_def close_if_drained_def f0_def [symmetric])
next
  case (run_step c c')
  then show ?case using crawl_step_chunks crawl_run_ok [OF _ assms(2,3)] by blast
qed





text \<open>The limits matter: with \<open>maxQueuedItems\<close> 1 the second URL stays behind in the second reservoir for ever,
  since half of one item is none, and a worker waits although nobody works and no host sleeps.\<close>

theorem limit_of_one_strands:
  "\<exists>c g. crawl_run (fresh_crawl [page_item, page_item] True 1 [] True (\<lambda>n. int n)) c
     \<and> busy c = [] \<and> sleepingHosts (frontier c) = [] \<and> disk_back_reservoir (frontier c) = [page_item]
     \<and> pop_turn (frontier c) = Some (PopWait, g) \<and> hostQueues g = hostQueues (frontier c) \<and> disk_back_reservoir g = [page_item]"
proof -
  let ?c = "fresh_crawl [page_item, page_item] True 1 [] True (\<lambda>n. int n)"
  note defs = pop_turn_def nowMillis_def Let_def promoteSleepingHosts.simps pq_top_def
    promoteReservoir_def frontierReservoirRefillPercent_def frontierDiskBackRefillPercent_def bq_empty_def bq_new_def
    promote_loop.simps promote_one enqueueScheduledItem_def page_item_host get_host_def new_host_def scheduleHost_def
    bq_pushBack_def put_host_def dispatch.simps bq_popFront_def maybeCompact_def
  have "link page_item \<noteq> []" by (simp add: page_item_def)
  then have start: "frontier ?c = (empty_frontier True 1 [] True (\<lambda>n. int n))\<lparr>reservoir := [page_item],
      disk_back_reservoir := [page_item], pending := 2, queued := 2\<rparr>"
    by (simp add: fresh_crawl_def frontier_of_items_def empty_frontier_def recoverDiskBackedChunkCount_def pushInternal_def
        doBackUp_def close_if_drained_def Let_def resolveFrontierMaxQueuedItems_def)
  obtain g where g: "pop_turn (frontier ?c) = Some (PopItem page_item ''a.org'', g)"
    "readyHosts g = bq_new" "sleepingHosts g = []" "reservoir g = []" "disk_back_reservoir g = [page_item]" "maxQueued g = 1"
    "hostQueues g = [(''a.org'', new_host\<lparr>inFlight := True\<rparr>)]" "diskBackedChunksOnDisk g = 0" "pending g = 2" "\<not> closed g"
    unfolding start empty_frontier_def resolveFrontierMaxQueuedItems_def by (simp add: defs)
  define h where "h = g\<lparr>ticks := ticks g + 1, pending := 1, hostQueues := [(''a.org'', new_host)]\<rparr>"
  have h: "taskDone ''a.org'' g = ([], h)" using g
    by (simp add: taskDone_def releaseActiveHost_def h_def defs)
  have p: "pop_turn h = Some (PopWait, h\<lparr>ticks := ticks h + 1\<rparr>)" using g by (simp add: h_def defs)
  let ?c1 = "?c\<lparr>frontier := g, busy := (page_item, ''a.org'') # busy ?c\<rparr>"
  let ?c2 = "?c1\<lparr>frontier := h, busy := remove1 (page_item, ''a.org'') (busy ?c1), finished := add_mset page_item (finished ?c1)\<rparr>"
  have r1: "crawl_run ?c ?c1" by (rule run_step [OF run_start step_pop [OF g(1)]])
  have "crawl_step ?c1 ?c2" by (rule step_done [of page_item "''a.org''" ?c1 "[]"]) (use h in simp_all)
  then have "crawl_run ?c ?c2" by (rule run_step [OF r1])
  then show ?thesis using g p by (intro exI [of _ ?c2] exI [of _ "h\<lparr>ticks := ticks h + 1\<rparr>"]) (simp add: fresh_crawl_def h_def)
qed

end
