(* ===== verification/RobotsCache.thy ===== *)
theory RobotsCache
  imports Strings "HOL-Library.AList"
begin

text \<open>
  Politeness: \<open>src/crawler/RobotsCache.cpp\<close>. The cache keeps for each origin its \<open>robots.txt\<close>, of a type that is
  left open here with the function \<open>UrlAllowed\<close>, and the time of the last access. The lock is
  held to look an origin up, to insert it and to reserve a time, so these three are the steps of a call; the time is
  read before the last one, and calls of other threads may come in between. The table is an association list.
\<close>

record 'r CacheEntry =
  robots :: "'r option"
  lastAccessedMs :: int

type_synonym 'r robots_cache = "(string \<times> 'r CacheEntry) list"

datatype RobotCheckStatus = ALLOWED | DELAYED | DISALLOWED

definition DEFAULT_CRAWL_DELAY_MS :: int where
  "DEFAULT_CRAWL_DELAY_MS = 500"

definition extractOrigin :: "string \<Rightarrow> string" where
  "extractOrigin url =
     (case find_sub ''://'' url of
        None \<Rightarrow> []
      | Some schemeEnd \<Rightarrow>
          let hostStart = schemeEnd + 3
          in take hostStart url @ takeWhile (\<lambda>c. c \<noteq> CHR ''/'') (drop hostStart url))"

text \<open>Insertion after a fetch: an entry that another thread has made in the meantime stays.\<close>

definition insert_robots :: "string \<Rightarrow> 'r option \<Rightarrow> 'r robots_cache \<Rightarrow> 'r robots_cache" where
  "insert_robots origin r cache =
     (case map_of cache origin of
        None \<Rightarrow> AList.update origin \<lparr>robots = r, lastAccessedMs = 0\<rparr> cache
      | Some entry \<Rightarrow> cache)"

text \<open>The reservation at the end of a call, with the delay of the rules that hold for the URL.\<close>

definition reserve :: "string \<Rightarrow> int \<Rightarrow> int \<Rightarrow> 'r robots_cache \<Rightarrow> (RobotCheckStatus \<times> int) \<times> 'r robots_cache" where
  "reserve origin crawlDelay now cache =
     (case map_of cache origin of
        None \<Rightarrow> ((ALLOWED, 0), cache)
      | Some entry \<Rightarrow>
          let delayMs = crawlDelay * 1000;
              delayMs = (if delayMs < DEFAULT_CRAWL_DELAY_MS then DEFAULT_CRAWL_DELAY_MS else delayMs);
              last = lastAccessedMs entry
          in if last \<noteq> 0 \<and> now < last + delayMs then ((DELAYED, last + delayMs), cache)
             else ((ALLOWED, 0), AList.update origin (entry\<lparr>lastAccessedMs := now\<rparr>) cache))"

text \<open>A whole call without others in between.\<close>

definition checkAndReserve ::
  "('r \<Rightarrow> string \<Rightarrow> bool \<times> int) \<Rightarrow> (string \<Rightarrow> 'r option) \<Rightarrow> string \<Rightarrow> int \<Rightarrow> 'r robots_cache
     \<Rightarrow> (RobotCheckStatus \<times> int) \<times> 'r robots_cache" where
  "checkAndReserve urlAllowed fetchRobotsTxt url now cache =
     (let origin = extractOrigin url
      in if origin = [] then ((ALLOWED, 0), cache)
         else let cache = (if map_of cache origin = None then insert_robots origin (fetchRobotsTxt origin) cache else cache);
                  robotsPtr = (case map_of cache origin of None \<Rightarrow> None | Some entry \<Rightarrow> robots entry);
                  (allowed, crawlDelay) = (case robotsPtr of None \<Rightarrow> (True, 0) | Some r \<Rightarrow> urlAllowed r url)
              in if \<not> allowed then ((DISALLOWED, 0), cache) else reserve origin crawlDelay now cache)"

text \<open>An origin is a prefix of the URL that ends before the path.\<close>

lemma extractOrigin_prefix:
  assumes "extractOrigin url \<noteq> []"
  shows "\<exists>rest. url = extractOrigin url @ rest \<and> (rest = [] \<or> hd rest = CHR ''/'')"
proof -
  obtain s where s: "find_sub ''://'' url = Some s" using assms by (auto simp: extractOrigin_def split: option.splits)
  let ?rest = "dropWhile (\<lambda>c. c \<noteq> CHR ''/'') (drop (s + 3) url)"
  have "url = extractOrigin url @ ?rest" using s by (simp add: extractOrigin_def Let_def)
  moreover have "?rest = [] \<or> hd ?rest = CHR ''/''" using hd_dropWhile [of "\<lambda>c. c \<noteq> CHR ''/''"] by blast
  ultimately show ?thesis by blast
qed

subsection \<open>Any sequence of steps\<close>

datatype 'r robots_step = Inserted string "'r option" | Reserved string int int

fun robots_run :: "'r robots_step list \<Rightarrow> 'r robots_cache \<Rightarrow> (string \<times> int \<times> RobotCheckStatus \<times> int) list \<times> 'r robots_cache" where
  "robots_run [] cache = ([], cache)"
| "robots_run (Inserted origin r # es) cache = robots_run es (insert_robots origin r cache)"
| "robots_run (Reserved origin crawlDelay now # es) cache =
     (let ((status, readyAt), cache') = reserve origin crawlDelay now cache;
          (out, final) = robots_run es cache'
      in ((origin, now, status, readyAt) # out, final))"

text \<open>The times at which an origin was opened.\<close>

definition visits :: "string \<Rightarrow> (string \<times> int \<times> RobotCheckStatus \<times> int) list \<Rightarrow> int list" where
  "visits origin out = map (fst \<circ> snd) (filter (\<lambda>(origin', now, status, readyAt). origin' = origin \<and> status = ALLOWED) out)"

definition last_access :: "string \<Rightarrow> 'r robots_cache \<Rightarrow> int option" where
  "last_access origin cache = map_option lastAccessedMs (map_of cache origin)"

lemma last_access_insert:
  "last_access origin (insert_robots origin' r cache) =
     (if origin' = origin \<and> last_access origin cache = None then Some 0 else last_access origin cache)"
  by (auto simp: last_access_def insert_robots_def update_conv' split: option.splits)

text \<open>The delay that is kept.\<close>

definition kept_delay :: "int \<Rightarrow> int" where
  "kept_delay crawlDelay = (if crawlDelay * 1000 < DEFAULT_CRAWL_DELAY_MS then DEFAULT_CRAWL_DELAY_MS else crawlDelay * 1000)"

lemma kept_delay_bound: "500 \<le> kept_delay d"
  by (simp add: kept_delay_def DEFAULT_CRAWL_DELAY_MS_def)

lemma reserve_cases:
  assumes "last_access origin cache = Some t"
  shows "t \<noteq> 0 \<and> now < t + kept_delay d \<Longrightarrow> reserve origin d now cache = ((DELAYED, t + kept_delay d), cache)"
    and "\<not> (t \<noteq> 0 \<and> now < t + kept_delay d) \<Longrightarrow> \<exists>c. reserve origin d now cache = ((ALLOWED, 0), c)
           \<and> last_access origin c = Some now"
  using assms unfolding reserve_def last_access_def kept_delay_def [symmetric] Let_def
  by (auto simp: update_conv')

lemma reserve_other:
  "reserve origin' crawlDelay now cache = (r, c) \<Longrightarrow> origin' \<noteq> origin \<Longrightarrow> last_access origin c = last_access origin cache"
  by (auto simp: reserve_def last_access_def update_conv' Let_def split: option.splits if_splits)

lemma visits_Cons:
  "visits origin ((o', now, status, readyAt) # out) = (if o' = origin \<and> status = ALLOWED then [now] else []) @ visits origin out"
  by (simp add: visits_def)

lemma visits_spaced:
  fixes origin
  assumes "robots_run es cache = (out, final)" and "last_access origin cache = Some t" and "0 \<le> t"
    and "\<forall>o' d now. Reserved o' d now \<in> set es \<longrightarrow> 0 < now"
  shows "sorted_wrt (\<lambda>s t. s + 500 \<le> t) (visits origin out) \<and> (t \<noteq> 0 \<longrightarrow> (\<forall>v \<in> set (visits origin out). t + 500 \<le> v))"
  using assms
proof (induction es cache arbitrary: out t rule: robots_run.induct)
  case (1 cache)
  then show ?case by (simp add: visits_def)
next
  case (2 o' r es cache)
  have "last_access origin (insert_robots o' r cache) = Some t" using 2(3) by (simp add: last_access_insert)
  then show ?case using 2 by simp
next
  case (3 o' crawlDelay now es cache)
  obtain status readyAt c where r: "reserve o' crawlDelay now cache = ((status, readyAt), c)"
    by (metis surj_pair)
  obtain out' where out: "robots_run es c = (out', final)" "out = (o', now, status, readyAt) # out'"
    using 3(2) r by (auto split: prod.splits)
  have pos: "0 < now" "\<forall>o' d now. Reserved o' d now \<in> set es \<longrightarrow> 0 < now" using 3(5) by auto
  note IH = 3(1) [OF r [symmetric] refl refl out(1) _ _ pos(2)]
  let ?d = "kept_delay crawlDelay"
  show ?case
  proof (cases "o' = origin \<and> \<not> (t \<noteq> 0 \<and> now < t + ?d)")
    case True
    then have s: "status = ALLOWED" "last_access origin c = Some now"
      using reserve_cases(2) [OF 3(3), of now crawlDelay] r by auto
    have "visits origin out = now # visits origin out'" using True s(1) out(2) by (simp add: visits_Cons)
    moreover have "t \<noteq> 0 \<Longrightarrow> t + 500 \<le> now" using True kept_delay_bound [of crawlDelay] by linarith
    ultimately show ?thesis using IH [OF s(2)] pos(1) by fastforce
  next
    case False
    have "visits origin out = visits origin out'" "last_access origin c = Some t"
    proof (atomize (full), cases "o' = origin")
      case True
      then have "status = DELAYED" "c = cache" using False reserve_cases(1) [OF 3(3), of now crawlDelay] r by auto
      then show "visits origin out = visits origin out' \<and> last_access origin c = Some t" using out(2) 3(3) by (simp add: visits_Cons)
    next
      case False
      then show "visits origin out = visits origin out' \<and> last_access origin c = Some t"
        using out(2) reserve_other [OF r False] 3(3) by (simp add: visits_Cons)
    qed
    then show ?thesis using IH 3(4) by simp
  qed
qed



end
