(* ===== verification/CrawlWorker.thy ===== *)
theory CrawlWorker
  imports Crawl BloomFilter RobotsCache UrlFeatures
begin

text \<open>
  One turn of \<open>WorkerThread\<close> of \<open>src/crawler/Crawler.cpp\<close>: what a worker does with the item that \<open>pop\<close> gave it. The
  answer of the robots cache, the page, the parser and the language test are arguments, and so are the two reads
  of \<open>shouldStop\<close>. The guard of the source calls \<open>taskDone\<close> at the end of the turn, unless the item was snoozed.
\<close>

text \<open>The links of a page that are new, as items below the item of the page.\<close>

fun discover_links ::
  "key_hash \<Rightarrow> FrontierItem \<Rightarrow> string \<Rightarrow> Link list \<Rightarrow> UrlBloomFilter \<Rightarrow> (FrontierItem list \<times> UrlBloomFilter) option" where
  "discover_links hash item pageBase [] bloom = Some ([], bloom)"
| "discover_links hash item pageBase (l # ls) bloom =
     (let resolved = absolutizeUrl (link_url l) (link item) pageBase
      in case shouldEnqueueUrl hash resolved bloom of
           None \<Rightarrow> None
         | Some (fresh, bloom', canonicalOut) \<Rightarrow>
             map_option (\<lambda>(found, final). ((if fresh then [child_item (the canonicalOut) item] else []) @ found, final))
               (discover_links hash item pageBase ls bloom'))"

definition worker_task ::
  "key_hash \<Rightarrow> (string \<Rightarrow> HtmlDoc) \<Rightarrow> (HtmlDoc \<Rightarrow> bool) \<Rightarrow> bool \<Rightarrow> RobotCheckStatus \<times> int \<Rightarrow> bool \<Rightarrow> string
     \<Rightarrow> FrontierItem \<Rightarrow> string \<Rightarrow> Frontier \<times> UrlBloomFilter \<times> nat \<Rightarrow> (bool \<times> Frontier \<times> UrlBloomFilter \<times> nat) option" where
  "worker_task hash parse isEnglish stopBefore check stopAfter page item hostKey = (\<lambda>(f, bloom, urlsCrawled).
     if stopBefore then Some (False, f, bloom, urlsCrawled)
     else let done_with = (\<lambda>go f bloom n. Some (go, snd (taskDone hostKey f), bloom, n))
          in case check of
               (DISALLOWED, _) \<Rightarrow> done_with True f bloom urlsCrawled
             | (DELAYED, readyAt) \<Rightarrow> Some (True, snd (snoozeCurrent item readyAt hostKey f), bloom, urlsCrawled)
             | (ALLOWED, _) \<Rightarrow>
                 if stopAfter then done_with False f bloom urlsCrawled
                 else if page = [] then done_with True f bloom urlsCrawled
                 else let parsed = parse page
                      in if isBroken parsed \<or> \<not> isEnglish parsed then done_with True f bloom urlsCrawled
                         else (case discover_links hash item (base parsed) (links parsed) bloom of
                                 None \<Rightarrow> None
                               | Some (discoveredLinks, bloom') \<Rightarrow>
                                   done_with True (pushMany discoveredLinks f) bloom' (urlsCrawled + 1)))"

text \<open>\<open>discover_links\<close> is \<open>enqueue_all\<close> on the resolved links.\<close>

lemma discover_links_eq:
  "discover_links hash item b ls bloom =
     map_option (\<lambda>(out, final). (map (\<lambda>c. child_item c item) out, final))
       (enqueue_all hash (map (\<lambda>l. absolutizeUrl (link_url l) (link item) b) ls) bloom)"
  by (induction ls arbitrary: bloom)
    (auto simp: Let_def option.map_comp comp_def split: option.splits prod.splits intro!: option.map_cong0)

lemma crawl_run_trans: "crawl_run c0 c1 \<Longrightarrow> crawl_run c1 c2 \<Longrightarrow> crawl_run c0 c2"
  by (rotate_tac, induction rule: crawl_run.induct) (auto intro: run_step)

text \<open>The items that a page may give to the frontier.\<close>

definition page_children :: "FrontierItem \<Rightarrow> HtmlDoc \<Rightarrow> FrontierItem set" where
  "page_children item parsed =
     {child_item canonicalOut item | canonicalOut l. l \<in> set (links parsed)
        \<and> passesUrlQualityChecks (absolutizeUrl (link_url l) (link item) (base parsed)) = Some canonicalOut}"

lemma done_run:
  assumes "(item, key) \<in> set (busy c)"
  shows "\<exists>c'. crawl_run c c' \<and> frontier c' = snd (taskDone key (frontier c)) \<and> busy c' = remove1 (item, key) (busy c)
     \<and> finished c' = add_mset item (finished c) \<and> taken_in c' = taken_in c"
proof -
  obtain k g where g: "taskDone key (frontier c) = (k, g)" by fastforce
  let ?c = "c\<lparr>frontier := g, busy := remove1 (item, key) (busy c), finished := add_mset item (finished c)\<rparr>"
  have "crawl_run c ?c" by (rule run_step [OF run_start step_done [OF assms g]])
  then show ?thesis using g by (intro exI [of _ ?c]) simp
qed


definition linked_page :: HtmlDoc where
  "linked_page = \<lparr>words = replicate 20 ''a'', titleWords = [], links = [\<lparr>link_url = ''/c'', anchorText = []\<rparr>], base = [],
     sourceUrl = [], seedDistance = 0, openSections = [], sawBodyTag = True, sawCloseHtml = True, truncated = False\<rparr>"


end
