(* ===== verification/Checkpoint.thy ===== *)
theory Checkpoint
  imports Crawl BloomFilter
begin

text \<open>
  Checkpoints: \<open>src/crawler/checkpoint.cpp\<close>. A snapshot has the items of the frontier, the bits of the Bloom filter
  and the number of pages; it is a file of lines with the bytes of the filter behind them. A byte of a file is a
  character. The calls of the file system do not fail here, and a file that ends too soon for the filter is \<open>None\<close>.
\<close>

record CheckpointSnapshot =
  frontierItems :: "FrontierItem list"
  bloomSnapshot :: BloomSnapshot
  snapUrlsCrawled :: nat

definition createSnapshot :: "Frontier \<Rightarrow> UrlBloomFilter \<Rightarrow> nat \<Rightarrow> CheckpointSnapshot option" where
  "createSnapshot f bloom urlsCrawled =
     (let its = frontier_snapshot f
      in if its = [] \<and> hasInFlightWork f then None
         else Some \<lparr>frontierItems = its, bloomSnapshot = bloom_snapshot bloom, snapUrlsCrawled = urlsCrawled\<rparr>)"

definition chars_of :: "u8 list \<Rightarrow> string" where
  "chars_of bs = map (\<lambda>b. char_of (unat b)) bs"

definition bytes_of :: "string \<Rightarrow> u8 list" where
  "bytes_of s = map (\<lambda>c. of_nat (of_char c)) s"

text \<open>The pieces that \<open>writeSnapshot\<close> writes, in their order.\<close>

definition snapshot_pieces :: "CheckpointSnapshot \<Rightarrow> string list" where
  "snapshot_pieces s =
     [''[HEADER]'' @ [newline], ''version=1'' @ [newline],
      ''urls_crawled='' @ show_nat (snapUrlsCrawled s) @ [newline],
      ''frontier_count='' @ show_nat (length (frontierItems s)) @ [newline],
      ''[FRONTIER]'' @ [newline]]
     @ map (\<lambda>item. write_line (serializeToLine item)) (frontierItems s)
     @ [''[BLOOM]'' @ [newline], chars_of (bloom_bytes (bloomSnapshot s))]"

text \<open>The file system as far as the checkpoint uses it: the temporary file and the checkpoint.\<close>

record CheckpointDir =
  tmp_file :: "string option"
  dat_file :: "string option"

datatype fs_call = OpenTmp | WriteTmp string | RenameTmp

fun fs_do :: "fs_call \<Rightarrow> CheckpointDir \<Rightarrow> CheckpointDir" where
  "fs_do OpenTmp d = d\<lparr>tmp_file := Some []\<rparr>"
| "fs_do (WriteTmp bytes) d = d\<lparr>tmp_file := map_option (\<lambda>t. t @ bytes) (tmp_file d)\<rparr>"
| "fs_do RenameTmp d = (case tmp_file d of None \<Rightarrow> d | Some t \<Rightarrow> d\<lparr>tmp_file := None, dat_file := Some t\<rparr>)"

definition writeSnapshot :: "CheckpointSnapshot \<Rightarrow> fs_call list" where
  "writeSnapshot s = OpenTmp # map WriteTmp (snapshot_pieces s) @ [RenameTmp]"

definition fs_run :: "fs_call list \<Rightarrow> CheckpointDir \<Rightarrow> CheckpointDir" where
  "fs_run cs d = fold fs_do cs d"

text \<open>\<open>load\<close>: the lines of the header, then as many items as it says, then the filter.\<close>

function read_saved_header :: "string \<Rightarrow> nat \<times> nat \<Rightarrow> (nat \<times> nat) \<times> string" where
  "read_saved_header f uc =
     (case fgets f of
        None \<Rightarrow> (uc, f)
      | Some (lineBuf, f') \<Rightarrow>
          let line = strip_newline lineBuf; (urlsCrawled, frontierCount) = uc
          in if line = ''[FRONTIER]'' then (uc, f')
             else if startsWith line ''urls_crawled='' then read_saved_header f' (atol_size (drop 13 line), frontierCount)
             else if startsWith line ''frontier_count='' then read_saved_header f' (urlsCrawled, atol_size (drop 15 line))
             else read_saved_header f' uc)"
  by pat_completeness auto
termination
  by (relation "measure (\<lambda>(f, uc). length f)") (auto dest: fgets_shorter)

declare read_saved_header.simps [simp del]

fun read_items :: "nat \<Rightarrow> string \<Rightarrow> FrontierItem list \<times> string" where
  "read_items 0 f = ([], f)"
| "read_items (Suc n) f =
     (case fgets f of
        None \<Rightarrow> ([], f)
      | Some (lineBuf, f') \<Rightarrow>
          let (its, rest) = read_items n f' in (deserializeFromLine (strip_newline lineBuf) # its, rest))"

definition skip_line :: "string \<Rightarrow> string" where
  "skip_line f = (case fgets f of None \<Rightarrow> f | Some (_, f') \<Rightarrow> f')"

definition load_checkpoint :: "string option \<Rightarrow> (FrontierItem list \<times> UrlBloomFilter \<times> nat) option" where
  "load_checkpoint dat =
     (case dat of
        None \<Rightarrow> None
      | Some f \<Rightarrow>
          let ((urlsCrawled, frontierCount), f) = read_saved_header (skip_line f) (0, 0);
              (its, f) = read_items frontierCount f
          in map_option (\<lambda>bloom. (its, bloom, urlsCrawled)) (deserializeFromStream (bytes_of (skip_line f))))"

subsection \<open>What is written is read back\<close>

lemma bytes_chars [simp]: "bytes_of (chars_of bs) = bs"
proof -
  have "of_nat (of_char (char_of (unat b) :: char)) = b" for b :: u8
  proof -
    have "unat b < 2 ^ LENGTH(8)" by (rule unsigned_less)
    then have "of_char (char_of (unat b) :: char) = unat b" by simp
    then show ?thesis by simp
  qed
  then show ?thesis by (simp add: bytes_of_def chars_of_def comp_def)
qed

lemma short_digits: "n < 10 ^ k \<Longrightarrow> 0 < k \<Longrightarrow> length (show_nat n) \<le> k"
proof (induction k arbitrary: n)
  case (Suc k)
  show ?case
  proof (cases "n < 10")
    case True
    then show ?thesis by (subst show_nat.simps) simp
  next
    case False
    then have "k \<noteq> 0" using Suc.prems(1) by (cases k) auto
    moreover have "n div 10 < 10 ^ k" using Suc.prems(1) by (simp add: less_mult_imp_div_less mult.commute)
    ultimately have "length (show_nat (n div 10)) \<le> k" using Suc.IH by simp
    then show ?thesis using False by (subst show_nat.simps) simp
  qed
qed simp

lemma header_line:
  assumes "n < 2 ^ 63" and "length key \<le> 100" and "nul \<notin> set key" and "newline \<notin> set key"
  shows "fgets (key @ show_nat n @ newline # f) = Some ((key @ show_nat n) @ [newline], f)"
proof -
  have "c \<noteq> nul \<and> c \<noteq> newline" if "c \<in> set (show_nat n)" for c
    using show_chars [of c n 0] that by (simp add: nul_code)
  moreover have "length (show_nat n) \<le> 19" using assms(1) by (intro short_digits) simp_all
  ultimately have "short_line (key @ show_nat n)" using assms(2-4) by (auto simp: short_line_def buffer_size_def)
  then show ?thesis using fgets_line [of "key @ show_nat n" f] by simp
qed

lemma fixed_line: "short_line l \<Longrightarrow> fgets (l @ newline # f) = Some (l @ [newline], f)"
  by (rule fgets_line)

lemma read_written_items:
  "\<forall>item \<in> set its. storable item \<Longrightarrow>
     read_items (length its) (concat (map (\<lambda>item. write_line (serializeToLine item)) its) @ rest) = (its, rest)"
proof (induction its)
  case (Cons item its)
  have item: "storable item" using Cons.prems by simp
  then have "write_line (serializeToLine item) = serializeToLine item @ [newline]"
    using short_line_item [OF item] by (simp add: write_line_def c_str_id short_line_def)
  moreover have "deserializeFromLine (serializeToLine item) = item"
    using item item_restored [of item] by (simp add: storable_def)
  ultimately show ?case using Cons fgets_line [OF short_line_item [OF item]] by simp
qed simp

lemma saved_header_line:
  assumes "fgets f = Some (l @ [newline], f')"
  shows "read_saved_header f uc =
     (if l = ''[FRONTIER]'' then (uc, f')
      else if startsWith l ''urls_crawled='' then read_saved_header f' (atol_size (drop 13 l), snd uc)
      else if startsWith l ''frontier_count='' then read_saved_header f' (fst uc, atol_size (drop 15 l))
      else read_saved_header f' uc)"
  using assms by (cases uc) (simp add: read_saved_header.simps [of f])

lemma saved_header_written:
  assumes "n < 2 ^ 63" and "k < 2 ^ 63"
  shows "read_saved_header (''version=1'' @ newline # ''urls_crawled='' @ show_nat n @ newline # ''frontier_count='' @ show_nat k
       @ newline # ''[FRONTIER]'' @ newline # rest) (0, 0) = ((n, k), rest)"
proof -
  have lines: "short_line ''version=1''" "short_line ''[FRONTIER]''"
    by (simp_all add: short_line_def buffer_size_def nul_code code_def)
  have keys: "length ''urls_crawled='' \<le> 100 \<and> nul \<notin> set ''urls_crawled='' \<and> newline \<notin> set ''urls_crawled=''"
    "length ''frontier_count='' \<le> 100 \<and> nul \<notin> set ''frontier_count='' \<and> newline \<notin> set ''frontier_count=''"
    by (simp_all add: nul_code code_def)
  have 1: "read_saved_header (''version=1'' @ newline # r) uc = read_saved_header r uc" for r uc
    using saved_header_line [OF fgets_line [OF lines(1)], of r uc] by (simp add: startsWith_def)
  have 2: "read_saved_header (''urls_crawled='' @ show_nat n @ newline # r) uc = read_saved_header r (n, snd uc)" for r uc
    using saved_header_line [OF header_line [OF assms(1)], of "''urls_crawled=''" r uc] keys assms(1) by (simp add: startsWith_def)
  have 3: "read_saved_header (''frontier_count='' @ show_nat k @ newline # r) uc = read_saved_header r (fst uc, k)" for r uc
    using saved_header_line [OF header_line [OF assms(2)], of "''frontier_count=''" r uc] keys assms(2) by (simp add: startsWith_def)
  have 4: "read_saved_header (''[FRONTIER]'' @ newline # r) uc = (uc, r)" for r uc
    using saved_header_line [OF fgets_line [OF lines(2)], of r uc] by simp
  show ?thesis by (simp only: 1 2 3 4 fst_conv snd_conv)
qed

text \<open>A snapshot that can be written: its numbers fit into their fields and its items into lines.\<close>

definition writable :: "FrontierItem list \<Rightarrow> UrlBloomFilter \<Rightarrow> nat \<Rightarrow> bool" where
  "writable its bloom n \<longleftrightarrow> (\<forall>item \<in> set its. storable item) \<and> length its < 2 ^ 63 \<and> n < 2 ^ 63
     \<and> bloom_ok bloom \<and> bitCount bloom < 2 ^ 64 \<and> hashCount bloom < 2 ^ 32"

lemma loaded_snapshot:
  assumes "writable its bloom n"
  shows "load_checkpoint (Some (concat (snapshot_pieces
       \<lparr>frontierItems = its, bloomSnapshot = bloom_snapshot bloom, snapUrlsCrawled = n\<rparr>))) = Some (its, bloom, n)"
proof -
  let ?bytes = "bloom_bytes (bloom_snapshot bloom)"
  let ?lines = "concat (map (\<lambda>item. write_line (serializeToLine item)) its)"
  have ok: "\<forall>item \<in> set its. storable item" "length its < 2 ^ 63" "n < 2 ^ 63"
    "bloom_ok bloom" "bitCount bloom < 2 ^ 64" "hashCount bloom < 2 ^ 32" using assms by (simp_all add: writable_def)
  have head: "skip_line (''[HEADER]'' @ newline # r) = r" "skip_line (''[BLOOM]'' @ newline # r) = r" for r
  proof -
    have "short_line ''[HEADER]''" "short_line ''[BLOOM]''" by (simp_all add: short_line_def buffer_size_def nul_code code_def)
    from this [THEN fgets_line, of r] show "skip_line (''[HEADER]'' @ newline # r) = r" "skip_line (''[BLOOM]'' @ newline # r) = r"
      by (simp_all add: skip_line_def)
  qed
  have bytes: "concat (snapshot_pieces \<lparr>frontierItems = its, bloomSnapshot = bloom_snapshot bloom, snapUrlsCrawled = n\<rparr>)
     = ''[HEADER]'' @ newline # (''version=1'' @ newline # ''urls_crawled='' @ show_nat n @ newline
         # ''frontier_count='' @ show_nat (length its) @ newline # ''[FRONTIER]'' @ newline
         # ?lines @ ''[BLOOM]'' @ newline # chars_of ?bytes)"
    by (simp add: snapshot_pieces_def)
  have "bytes_of (skip_line (''[BLOOM]'' @ newline # chars_of ?bytes)) = ?bytes" unfolding head by simp
  moreover have "deserializeFromStream ?bytes = Some bloom" by (rule restored_bloom [OF ok(4-6)])
  ultimately show ?thesis
    unfolding load_checkpoint_def bytes option.case Let_def head saved_header_written [OF ok(3,2)] prod.case
      read_written_items [OF ok(1)] by simp
qed

lemma fs_run_writes:
  "fs_run (map WriteTmp ps) (d\<lparr>tmp_file := Some t\<rparr>) = d\<lparr>tmp_file := Some (t @ concat ps)\<rparr>"
  by (induction ps arbitrary: t) (simp_all add: fs_run_def)

lemma written_snapshot: "dat_file (fs_run (writeSnapshot s) d) = Some (concat (snapshot_pieces s))"
  using fs_run_writes [of "snapshot_pieces s" "[]" d] by (simp add: writeSnapshot_def fs_run_def)



subsection \<open>A restart\<close>

lemma frontier_snapshot_mset: "mset (frontier_snapshot f) + disk_items (disk f) = waiting_items f"
proof -
  have hosts: "fold (\<lambda>(k, h) result. bq_forEach (\<lambda>item r. r @ [item]) (items h) result) hs acc
      = acc @ concat (map (\<lambda>e. bq_list (items (snd e))) hs)" for hs acc
  proof (induction hs arbitrary: acc)
    case (Cons e hs)
    have "fold (\<lambda>item r. r @ [item]) xs acc = acc @ xs" for xs acc by (induction xs arbitrary: acc) simp_all
    then show ?case using Cons by (cases e) (simp add: forEach_eq)
  qed simp
  have "mset (concat (map (\<lambda>e. bq_list (items (snd e))) hs)) = host_items hs" for hs
    by (induction hs) (simp_all add: host_items_def)
  then show ?thesis by (simp add: frontier_snapshot_def hosts waiting_items_def)
qed



end
