(* ===== verification/RobotsWildcard.thy ===== *)
theory RobotsWildcard
  imports LineFile "HOL-Library.Sublist"
begin

text \<open>
  The paths of a \<open>robots.txt\<close>: \<open>UrlDecode\<close> and the class \<open>Wildcard\<close> of \<open>src/crawler/RobotsTxt.cpp\<close>. A C string is the
  list of its characters, a pointer into it the rest of the string from there on. \<open>Match\<close> runs over pattern and path
  with one pair of positions to come back to; whether it ends is part of its theorem.
\<close>

subsection \<open>Percent encoding\<close>

definition HexLiteralCharacter :: "char \<Rightarrow> int" where
  "HexLiteralCharacter c =
     (let n = int (code c)
      in if 48 \<le> n \<and> n \<le> 57 then n - 48 else if 97 \<le> n \<and> n \<le> 102 then n - 97 + 10
         else if 65 \<le> n \<and> n \<le> 70 then n - 65 + 10 else - 1)"

text \<open>\<open>i << 4 | j\<close>; with \<open>-1\<close> on either side the result is negative.\<close>

definition hex_value :: "char \<Rightarrow> char \<Rightarrow> int" where
  "hex_value c d = (let i = HexLiteralCharacter c; j = HexLiteralCharacter d in if i < 0 \<or> j < 0 then - 1 else i * 16 + j)"

fun unescape_loop :: "string \<Rightarrow> string" where
  "unescape_loop [] = []"
| "unescape_loop (x # path) =
     (if x = CHR ''%''
      then (case path of
              [] \<Rightarrow> []
            | [c] \<Rightarrow> []
            | c # d # rest \<Rightarrow>
                if hex_value c d \<ge> 0 \<and> hex_value c d \<noteq> 47 then char_of (nat (hex_value c d)) # unescape_loop rest
                else CHR ''%'' # unescape_loop (c # d # rest))
      else x # unescape_loop path)"

text \<open>A byte 0 that was decoded ends the string for its readers.\<close>

definition UrlDecode :: "string \<Rightarrow> string" where
  "UrlDecode path = c_str (unescape_loop path)"

subsection \<open>Wildcards\<close>

record Wildcard =
  wildcard :: string
  literalBytes :: nat
  endsInDollarSign :: bool

definition Wildcard_of :: "string \<Rightarrow> Wildcard" where
  "Wildcard_of arg =
     (let parg = (if arg \<noteq> [] \<and> hd arg = CHR ''/'' then tl arg else arg);
          needsDecoding = CHR ''%'' \<in> set parg;
          w = (if needsDecoding then UrlDecode parg else parg);
          dollar = (w \<noteq> [] \<and> last w = CHR ''$'');
          w = (if dollar then butlast w else w)
      in \<lparr>wildcard = w, literalBytes = length (filter (\<lambda>c. c \<noteq> CHR ''*'') w), endsInDollarSign = dollar\<rparr>)"

definition skip_stars :: "string \<Rightarrow> string" where
  "skip_stars w = dropWhile (\<lambda>c. c = CHR ''*'') w"

text \<open>The loop of \<open>Match\<close>. \<open>track\<close> is \<open>wBack\<close> with \<open>pBack\<close>.\<close>

partial_function (option) match_loop :: "bool \<Rightarrow> string \<Rightarrow> string \<Rightarrow> (string \<times> string) option \<Rightarrow> bool option" where
  "match_loop dollar w path track =
     (if path = [] then Some (skip_stars w = [])
      else if w \<noteq> [] \<and> hd w = CHR ''*'' then match_loop dollar (skip_stars w) path (Some (skip_stars w, path))
      else if w \<noteq> [] \<and> hd w = hd path
      then (if tl w = [] \<and> \<not> dollar then Some True else match_loop dollar (tl w) (tl path) track)
      else (case track of
              Some (wBack, pBack) \<Rightarrow>
                if pBack \<noteq> [] then match_loop dollar wBack (tl pBack) (Some (wBack, tl pBack)) else Some False
            | None \<Rightarrow> Some False))"

definition Wildcard_Match :: "Wildcard \<Rightarrow> string \<Rightarrow> bool option" where
  "Wildcard_Match wc path =
     (if wildcard wc = [] then Some False else match_loop (endsInDollarSign wc) (wildcard wc) path None)"

subsection \<open>What matches\<close>

text \<open>The reference: a pattern matches a prefix of the path, or with a dollar sign all of it; a star stands for any
  number of characters.\<close>

fun glob :: "bool \<Rightarrow> string \<Rightarrow> string \<Rightarrow> bool" where
  "glob dollar [] path \<longleftrightarrow> dollar \<longrightarrow> path = []"
| "glob dollar (c # w) path \<longleftrightarrow>
     (if c = CHR ''*'' then \<exists>k \<le> length path. glob dollar w (drop k path)
      else path \<noteq> [] \<and> hd path = c \<and> glob dollar w (tl path))"

lemma glob_skip:
  assumes "w \<noteq> []" and "hd w = CHR ''*''"
  shows "glob d w p \<longleftrightarrow> (\<exists>k \<le> length p. glob d (skip_stars w) (drop k p))"
  using assms
proof (induction w arbitrary: p)
  case (Cons c w)
  show ?case
  proof (cases "w \<noteq> [] \<and> hd w = CHR ''*''")
    case True
    have s: "skip_stars (c # w) = skip_stars w" using Cons.prems by (simp add: skip_stars_def)
    have "(\<exists>k \<le> length p. \<exists>j \<le> length (drop k p). glob d (skip_stars w) (drop j (drop k p)))
        \<longleftrightarrow> (\<exists>k \<le> length p. glob d (skip_stars w) (drop k p))" (is "?l = ?r")
    proof
      assume ?l
      then obtain k j where "k \<le> length p" "j \<le> length p - k" "glob d (skip_stars w) (drop (j + k) p)" by auto
      then show ?r by (intro exI [of _ "j + k"]) simp
    next
      assume ?r
      then obtain k where "k \<le> length p" "glob d (skip_stars w) (drop k p)" by blast
      then show ?l by (intro exI [of _ k] conjI exI [of _ 0]) simp_all
    qed
    then show ?thesis using Cons True s by simp
  next
    case False
    then have "skip_stars w = w" by (cases w) (simp_all add: skip_stars_def)
    then show ?thesis using Cons.prems by (simp add: skip_stars_def)
  qed
qed simp

lemma skip_stars_shorter: "w \<noteq> [] \<Longrightarrow> hd w = CHR ''*'' \<Longrightarrow> length (skip_stars w) < length w"
  by (cases w) (simp_all add: skip_stars_def length_dropWhile_le le_imp_less_Suc)

lemma glob_prefix:
  "CHR ''*'' \<notin> set m \<Longrightarrow> glob d (m @ w) p \<longleftrightarrow> (\<exists>q. p = m @ q \<and> glob d w q)"
  by (induction m arbitrary: p) (auto simp: neq_Nil_conv)

lemma glob_nil: "glob d w [] \<longleftrightarrow> skip_stars w = []"
  by (induction w) (simp_all add: skip_stars_def)

text \<open>What the loop is to answer: with a pair to come back to, whether the pattern from the last star on matches
  from any later position.\<close>

definition match_goal :: "bool \<Rightarrow> string \<Rightarrow> string \<Rightarrow> (string \<times> string) option \<Rightarrow> bool" where
  "match_goal d w path track =
     (case track of None \<Rightarrow> glob d w path | Some (wBack, pBack) \<Rightarrow> \<exists>k \<le> length pBack. glob d wBack (drop k pBack))"

text \<open>The characters since the last star were equal; the pattern is used up only when it ends in a dollar sign or a star.\<close>

definition track_ok :: "bool \<Rightarrow> string \<Rightarrow> string \<Rightarrow> (string \<times> string) option \<Rightarrow> bool" where
  "track_ok d w path track =
     (case track of
        None \<Rightarrow> w = [] \<longrightarrow> d
      | Some (wBack, pBack) \<Rightarrow>
          (\<exists>m. CHR ''*'' \<notin> set m \<and> wBack = m @ w \<and> pBack = m @ path) \<and> (w = [] \<longrightarrow> d \<or> wBack = []))"

lemma goal_at_end:
  assumes "track_ok d w [] track"
  shows "match_goal d w [] track \<longleftrightarrow> skip_stars w = []"
proof (cases track)
  case (Some t)
  obtain m where t: "t = (m @ w, m)" and m: "CHR ''*'' \<notin> set m" using assms Some by (auto simp: track_ok_def split: prod.splits)
  have "(\<exists>k \<le> length m. glob d (m @ w) (drop k m)) \<longleftrightarrow> glob d w []"
  proof
    assume "\<exists>k \<le> length m. glob d (m @ w) (drop k m)"
    then obtain k q where k: "k \<le> length m" "drop k m = m @ q" "glob d w q" using glob_prefix [OF m] by blast
    have "length (drop k m) = length m + length q" unfolding k(2) by simp
    then have "length q = 0" using k(1) by (simp only: length_drop)
    then show "glob d w []" using k(3) by simp
  next
    assume "glob d w []"
    then show "\<exists>k \<le> length m. glob d (m @ w) (drop k m)" using glob_prefix [OF m, of d w m] by (intro exI [of _ 0]) simp
  qed
  then show ?thesis using Some t glob_nil by (simp add: match_goal_def)
qed (simp add: match_goal_def glob_nil)

lemma goal_at_star:
  assumes "track_ok d w path track" and "w \<noteq> []" and "hd w = CHR ''*''"
  shows "match_goal d w path track \<longleftrightarrow> match_goal d (skip_stars w) path (Some (skip_stars w, path))"
proof -
  note skip = glob_skip [OF assms(2,3), of d]
  show ?thesis
  proof (cases track)
    case None
    then show ?thesis using skip by (simp add: match_goal_def)
  next
    case (Some t)
    obtain m where t: "t = (m @ w, m @ path)" and m: "CHR ''*'' \<notin> set m" using assms(1) Some by (auto simp: track_ok_def split: prod.splits)
    have "(\<exists>k \<le> length (m @ path). glob d (m @ w) (drop k (m @ path))) \<longleftrightarrow> glob d w path" (is "?l \<longleftrightarrow> _")
    proof
      assume ?l
      then obtain k q where k: "k \<le> length (m @ path)" "drop k (m @ path) = m @ q" "glob d w q" using glob_prefix [OF m] by blast
      have "length (drop k (m @ path)) = length m + length q" unfolding k(2) by simp
      then have le: "k \<le> length path" using k(1) by simp
      have "drop (length m) (drop k (m @ path)) = q" unfolding k(2) by simp
      moreover have "drop (length m) (drop k (m @ path)) = drop k (drop (length m) (m @ path))" by (simp only: drop_drop add.commute)
      ultimately have "q = drop k path" by simp
      then obtain j where j: "j \<le> length (drop k path)" "glob d (skip_stars w) (drop j (drop k path))" using skip k(3) by blast
      then show "glob d w path" using skip le by (intro iffD2 [OF skip] exI [of _ "j + k"]) simp
    next
      assume "glob d w path"
      then show ?l using glob_prefix [OF m, of d w "m @ path"] by (intro exI [of _ 0]) simp
    qed
    then show ?thesis using Some t skip by (simp add: match_goal_def)
  qed
qed

lemma goal_at_mismatch:
  assumes "track_ok d w path (Some (wBack, pBack))" and "path \<noteq> []" and "\<not> (w \<noteq> [] \<and> hd w = CHR ''*'')"
    and "\<not> (w \<noteq> [] \<and> hd w = hd path)"
  shows "pBack \<noteq> []" and "match_goal d w path (Some (wBack, pBack)) \<longleftrightarrow> match_goal d wBack (tl pBack) (Some (wBack, tl pBack))"
    and "track_ok d wBack (tl pBack) (Some (wBack, tl pBack))"
proof -
  obtain m where m: "CHR ''*'' \<notin> set m" "wBack = m @ w" "pBack = m @ path" "w = [] \<longrightarrow> d \<or> wBack = []"
    using assms(1) by (auto simp: track_ok_def)
  show ne: "pBack \<noteq> []" using m(3) assms(2) by simp
  have zero: "glob d wBack pBack \<Longrightarrow> w = [] \<and> \<not> d" 
  proof -
    assume "glob d wBack pBack"
    then have "glob d w path" using m(2,3) glob_prefix [OF m(1), of d w] by auto
    then show "w = [] \<and> \<not> d" using assms(2-4) by (cases w) auto
  qed
  obtain x xs where p: "pBack = x # xs" using ne by (cases pBack) auto
  have "(\<exists>k \<le> length pBack. glob d wBack (drop k pBack)) \<longleftrightarrow> (\<exists>k \<le> length xs. glob d wBack (drop k xs))" (is "?l \<longleftrightarrow> ?r")
  proof
    assume ?l
    then obtain k where k: "k \<le> length pBack" "glob d wBack (drop k pBack)" by blast
    show ?r
    proof (cases k)
      case 0
      then have "wBack = [] \<and> \<not> d" using k(2) zero m(4) by auto
      then show ?thesis by auto
    next
      case (Suc j)
      then show ?thesis using k p by auto
    qed
  next
    assume ?r
    then obtain k where "k \<le> length xs" "glob d wBack (drop k xs)" by blast
    then show ?l using p by (intro exI [of _ "Suc k"]) simp
  qed
  then show "match_goal d w path (Some (wBack, pBack)) \<longleftrightarrow> match_goal d wBack (tl pBack) (Some (wBack, tl pBack))"
    by (simp add: match_goal_def p)
  show "track_ok d wBack (tl pBack) (Some (wBack, tl pBack))" by (auto simp: track_ok_def)
qed

lemma goal_at_match:
  assumes "track_ok d w path track" and "path \<noteq> []" and "w \<noteq> []" and "hd w \<noteq> CHR ''*''" and "hd w = hd path"
  shows "tl w = [] \<and> \<not> d \<Longrightarrow> match_goal d w path track"
    and "\<not> (tl w = [] \<and> \<not> d) \<Longrightarrow> match_goal d w path track \<longleftrightarrow> match_goal d (tl w) (tl path) track"
    and "\<not> (tl w = [] \<and> \<not> d) \<Longrightarrow> track_ok d (tl w) (tl path) track"
proof -
  obtain c v q where w: "w = c # v" "path = c # q" "c \<noteq> CHR ''*''" using assms(2-5) by (cases w; cases path) auto
  show "match_goal d w path track" if fin: "tl w = [] \<and> \<not> d"
  proof (cases track)
    case (Some t)
    obtain m where m: "t = (m @ w, m @ path)" "CHR ''*'' \<notin> set m" using assms(1) Some by (auto simp: track_ok_def split: prod.splits)
    have "glob d (m @ w) (m @ path)" using glob_prefix [OF m(2), of d w "m @ path"] fin w by simp
    then show ?thesis using Some m(1) by (auto simp: match_goal_def intro: exI [of _ 0])
  qed (use fin w in \<open>simp add: match_goal_def\<close>)
  show "match_goal d w path track \<longleftrightarrow> match_goal d (tl w) (tl path) track"
    using w by (cases track) (auto simp: match_goal_def)
  show "track_ok d (tl w) (tl path) track" if "\<not> (tl w = [] \<and> \<not> d)"
  proof (cases track)
    case (Some t)
    obtain m where m: "t = (m @ w, m @ path)" "CHR ''*'' \<notin> set m" using assms(1) Some by (auto simp: track_ok_def split: prod.splits)
    then show ?thesis using Some w that by (auto simp: track_ok_def intro!: exI [of _ "m @ [c]"])
  qed (use that in \<open>simp add: track_ok_def\<close>)
qed

lemma match_loop_spec: "track_ok d w path track \<Longrightarrow> match_loop d w path track = Some (match_goal d w path track)"
proof (induction "(w, path, track)" arbitrary: w path track rule: wf_induct_rule [OF wf_measures, of
    "[\<lambda>(w, path, track). case track of None \<Rightarrow> length w + 1 | Some (wBack, pBack) \<Rightarrow> length wBack,
     \<lambda>(w, path, track). case track of None \<Rightarrow> 0 | Some (wBack, pBack) \<Rightarrow> length pBack, \<lambda>(w, path, track). length path]"])
  case (1 w path track)
  note IH = 1(1) and ok = 1(2)
  consider "path = []" | (star) "path \<noteq> []" "w \<noteq> []" "hd w = CHR ''*''"
    | (same) "path \<noteq> []" "w \<noteq> []" "hd w \<noteq> CHR ''*''" "hd w = hd path"
    | (differ) "path \<noteq> []" "\<not> (w \<noteq> [] \<and> hd w = CHR ''*'')" "\<not> (w \<noteq> [] \<and> hd w = hd path)" by blast
  then show ?case
  proof cases
    case 1
    then show ?thesis using goal_at_end ok by (simp add: match_loop.simps [of d w])
  next
    case star
    let ?s = "skip_stars w"
    have less: "length ?s < length w" by (rule skip_stars_shorter [OF star(2,3)])
    have "case track of None \<Rightarrow> True | Some (wBack, pBack) \<Rightarrow> length w \<le> length wBack"
      using ok by (auto simp: track_ok_def split: option.splits)
    then have "match_loop d ?s path (Some (?s, path)) = Some (match_goal d ?s path (Some (?s, path)))"
      using less by (intro IH) (auto simp: track_ok_def split: option.splits)
    then show ?thesis using star goal_at_star [OF ok star(2,3)] by (simp add: match_loop.simps [of d w])
  next
    case same
    note m = goal_at_match [OF ok same]
    show ?thesis
    proof (cases "tl w = [] \<and> \<not> d")
      case True
      then show ?thesis using same m(1) by (subst match_loop.simps) simp
    next
      case False
      have "match_loop d (tl w) (tl path) track = Some (match_goal d (tl w) (tl path) track)"
        using m(3) [OF False] same(1,2) by (intro IH) (auto split: option.splits)
      then show ?thesis using same m(2) [OF False] False by (subst match_loop.simps) auto
    qed
  next
    case differ
    show ?thesis
    proof (cases track)
      case None
      then have "w \<noteq> [] \<or> d" using ok by (auto simp: track_ok_def)
      then have "\<not> glob d w path" using differ by (cases w) auto
      then show ?thesis using None differ by (subst match_loop.simps) (auto simp: match_goal_def)
    next
      case (Some t)
      obtain wBack pBack where t: "t = (wBack, pBack)" by fastforce
      note m = goal_at_mismatch [OF ok [unfolded Some t] differ]
      have "match_loop d wBack (tl pBack) (Some (wBack, tl pBack)) = Some (match_goal d wBack (tl pBack) (Some (wBack, tl pBack)))"
        using m(1,3) by (intro IH) (auto simp: Some t)
      then show ?thesis using Some t differ m(1,2) by (subst match_loop.simps) auto
    qed
  qed
qed

text \<open>C35. The matcher with one place to come back to always answers, and answers as the reference does: a pattern that
  is not empty matches a prefix of the path, or all of it with a dollar sign, its stars standing for anything.\<close>

theorem Wildcard_Match_iff:
  "Wildcard_Match wc path = Some (wildcard wc \<noteq> [] \<and> glob (endsInDollarSign wc) (wildcard wc) path)"
  using match_loop_spec [of "endsInDollarSign wc" "wildcard wc" path None]
  by (simp add: Wildcard_Match_def track_ok_def match_goal_def)

subsection \<open>Encodings of a path\<close>

text \<open>\<open>e\<close> is \<open>s\<close> with some of its characters, but no slash, written as a percent sign and two hexadecimal digits.\<close>

inductive encodes :: "string \<Rightarrow> string \<Rightarrow> bool" where
  encodes_nil: "encodes [] []"
| encodes_plain: "encodes s e \<Longrightarrow> c \<noteq> CHR ''%'' \<Longrightarrow> encodes (c # s) (c # e)"
| encodes_hex: "encodes s e \<Longrightarrow> hex_value h l = int (code c) \<Longrightarrow> c \<noteq> CHR ''/'' \<Longrightarrow> encodes (c # s) (CHR ''%'' # h # l # e)"

lemma decode_encoded: "encodes s e \<Longrightarrow> unescape_loop e = s"
proof (induction rule: encodes.induct)
  case (encodes_hex s e h l c)
  have "code c \<noteq> 47" using encodes_hex.hyps(3) code_inject [of c "CHR ''/''"] by (simp add: code_def)
  then show ?case using encodes_hex by (simp add: code_def)
qed simp_all

text \<open>Every encoding of a path decodes to it, so a pattern and a path match no matter how they are encoded. A
  percent sign with nothing or one character behind it is lost with that character, where it should stand for itself.\<close>

theorem UrlDecode_encoded:
  assumes "encodes s e" and "nul \<notin> set s"
  shows "UrlDecode e = s \<and> UrlDecode (e @ ''%'') = s \<and> UrlDecode (e @ [CHR ''%'', x]) = s"
proof -
  have "unescape_loop (e @ ''%'') = s \<and> unescape_loop (e @ [CHR ''%'', x]) = s" using assms(1)
  proof (induction rule: encodes.induct)
    case (encodes_hex s e h l c)
    have "code c \<noteq> 47" using encodes_hex.hyps(3) code_inject [of c "CHR ''/''"] by (simp add: code_def)
    then show ?case using encodes_hex by (simp add: code_def)
  qed simp_all
  then show ?thesis using decode_encoded [OF assms(1)] assms(2) by (simp add: UrlDecode_def c_str_id)
qed

theorem UrlDecode_encoded_witness:
  "UrlDecode ''%7ejoe'' = ''~joe'' \<and> UrlDecode ''~joe'' = ''~joe'' \<and> UrlDecode ''~joe%'' = ''~joe''"
proof -
  have "encodes ''~joe'' ''%7ejoe''"
    by (rule encodes_hex) (intro encodes_plain encodes_nil, simp_all add: hex_value_def HexLiteralCharacter_def code_def)
  moreover have "encodes ''~joe'' ''~joe''" by (intro encodes_plain encodes_nil) simp_all
  moreover have "nul \<notin> set ''~joe''" by (simp add: nul_code code_def)
  ultimately show ?thesis
    using UrlDecode_encoded [of "''~joe''" "''%7ejoe''"] UrlDecode_encoded [of "''~joe''" "''~joe''"] by simp
qed

end
