(* ===== verification/RobotsTxt.thy ===== *)
theory RobotsTxt
  imports RobotsWildcard RobotsCache "HOL-Library.Multiset"
begin

text \<open>
  The rules of a \<open>robots.txt\<close>: \<open>src/crawler/RobotsTxt.cpp\<close>, with the patterns of \<open>RobotsWildcard\<close>. A pointer into
  the file is the rest of the file, so \<open>[]\<close> is a pointer at the bound or behind it; an argument is read as a C
  string. A function that moves its \<open>start\<close> returns it. The constructor reads an uninitialised variable
  when there is nothing behind the byte order mark, which is \<open>None\<close>.
\<close>

subsection \<open>The parts of a URL\<close>

definition url_path :: "string \<Rightarrow> string" where
  "url_path url =
     (let after_service = dropWhile (\<lambda>c. c \<noteq> CHR '':'') (c_str url)
      in if after_service = [] then []
         else let p = tl after_service;
                  p = (if p \<noteq> [] \<and> hd p = CHR ''/'' then tl p else p);
                  p = (if p \<noteq> [] \<and> hd p = CHR ''/'' then tl p else p);
                  p = dropWhile (\<lambda>c. c \<noteq> CHR ''/'' \<and> c \<noteq> CHR '':'') p;
                  p = (if p \<noteq> [] \<and> hd p = CHR '':'' then dropWhile (\<lambda>c. c \<noteq> CHR ''/'') (tl p) else p)
              in tl p)"

subsection \<open>Tokens\<close>

datatype StatementType =
  InvalidStatement | UserAgentStatement | AllowStatement | DisallowStatement | CrawlDelayStatement | SitemapStatement

definition ascii_lower :: "char \<Rightarrow> char" where
  "ascii_lower c = (if 65 \<le> code c \<and> code c \<le> 90 then char_of (code c + 32) else c)"

definition carriage_return :: char where
  "carriage_return = char_of (13 :: nat)"

definition blank :: "char \<Rightarrow> bool" where
  "blank c \<longleftrightarrow> c = CHR '' '' \<or> c = char_of (9 :: nat)"

definition line_end :: "char \<Rightarrow> bool" where
  "line_end c \<longleftrightarrow> c = carriage_return \<or> c = newline"

fun MatchKeyword :: "string \<Rightarrow> string \<Rightarrow> string option" where
  "MatchKeyword [] p = Some p"
| "MatchKeyword (k # keyword) [] = None"
| "MatchKeyword (k # keyword) (c # p) = (if ascii_lower c = k then MatchKeyword keyword p else None)"

definition Identify :: "string \<Rightarrow> StatementType \<times> string" where
  "Identify start =
     (if start = [] then (InvalidStatement, start)
      else let beginC = ascii_lower (hd start);
               try = (\<lambda>keyword type. case MatchKeyword keyword start of None \<Rightarrow> (InvalidStatement, start) | Some p \<Rightarrow> (type, p))
           in if beginC = CHR ''u'' then try ''user-agent:'' UserAgentStatement
              else if beginC = CHR ''a'' then try ''allow:'' AllowStatement
              else if beginC = CHR ''d'' then try ''disallow:'' DisallowStatement
              else if beginC = CHR ''s'' then try ''sitemap:'' SitemapStatement
              else if beginC = CHR ''c'' then try ''crawl-delay:'' CrawlDelayStatement
              else (InvalidStatement, start))"

definition GetArgument :: "string \<Rightarrow> string \<times> string" where
  "GetArgument start =
     (let p = dropWhile blank start; in_argument = (\<lambda>c. \<not> blank c \<and> \<not> line_end c)
      in (c_str (takeWhile in_argument p), dropWhile in_argument p))"

definition NextLine :: "string \<Rightarrow> string" where
  "NextLine start =
     (let p = tl (dropWhile (\<lambda>c. \<not> line_end c) start)
      in if p \<noteq> [] \<and> hd p = newline then tl p else p)"

lemma length_NextLine: "length (NextLine p) \<le> length p - 1"
proof -
  have "length (dropWhile (\<lambda>c. \<not> line_end c) p) \<le> length p" by (rule length_dropWhile_le)
  then show ?thesis by (auto simp: NextLine_def Let_def)
qed

lemma length_GetArgument: "GetArgument p = (arg, r) \<Longrightarrow> length r \<le> length p"
  by (auto simp: GetArgument_def Let_def) (meson length_dropWhile_le le_trans)

lemma length_MatchKeyword: "MatchKeyword k p = Some r \<Longrightarrow> length p = length k + length r"
  by (induction k p rule: MatchKeyword.induct) (auto split: if_splits)

lemma length_Identify: "Identify p = (type, r) \<Longrightarrow> (if type = InvalidStatement then r = p else length r < length p)"
  by (auto simp: Identify_def Let_def dest: length_MatchKeyword split: if_splits option.splits)

function GetStatement :: "string \<Rightarrow> string list \<Rightarrow> StatementType \<times> string \<times> string list" where
  "GetStatement start sitemap =
     (if start = [] then (InvalidStatement, [], sitemap)
      else let p = dropWhile blank start
           in if p = [] \<or> line_end (hd p) \<or> hd p = CHR ''#'' then GetStatement (NextLine p) sitemap
              else let (type, q) = Identify p
                   in if type = SitemapStatement
                      then (let (arg, q') = GetArgument q in GetStatement (NextLine q') (sitemap @ [arg]))
                      else if type \<noteq> InvalidStatement then (type, q, sitemap)
                      else GetStatement (NextLine q) sitemap)"
  by pat_completeness auto
termination
proof (relation "measure (\<lambda>(start, sitemap). length start)", goal_cases)
  case 1
  then show ?case by simp
next
  case (2 start sitemap p)
  have "length p \<le> length start" using 2(2) length_dropWhile_le by metis
  moreover have "length (NextLine p) \<le> length p - 1" by (rule length_NextLine)
  ultimately show ?case using 2(1) by (cases start) auto
next
  case (3 start sitemap p pair type q pair' arg q')
  have "length p \<le> length start" using 3(2) length_dropWhile_le by metis
  moreover have "length q < length p" using length_Identify [of p type q] 3 by auto
  moreover have "length (NextLine q') \<le> length q" using length_NextLine [of q'] length_GetArgument [of q arg q'] 3 by simp
  ultimately show ?case by simp
next
  case (4 start sitemap p pair type q)
  have "length p \<le> length start" using 4(2) length_dropWhile_le by metis
  moreover have "q = p" using length_Identify [of p type q] 4 by auto
  moreover have "length (NextLine p) \<le> length p - 1" by (rule length_NextLine)
  ultimately show ?case using 4(1) by (cases start) auto
qed

declare GetStatement.simps [simp del]

text \<open>The four ways in which a line is treated.\<close>

lemma GetStatement_nil [simp]: "GetStatement [] sitemap = (InvalidStatement, [], sitemap)"
  by (simp add: GetStatement.simps)

lemma GetStatement_skip:
  assumes "start \<noteq> []" and "p = dropWhile blank start" and "p = [] \<or> line_end (hd p) \<or> hd p = CHR ''#''"
  shows "GetStatement start sitemap = GetStatement (NextLine p) sitemap"
  using assms by (subst GetStatement.simps) (simp add: Let_def)

lemma GetStatement_line:
  assumes "start \<noteq> []" and "p = dropWhile blank start" and "\<not> (p = [] \<or> line_end (hd p) \<or> hd p = CHR ''#'')"
    and "Identify p = (type, q)"
  shows "GetStatement start sitemap =
     (if type = SitemapStatement then GetStatement (NextLine (snd (GetArgument q))) (sitemap @ [fst (GetArgument q)])
      else if type = InvalidStatement then GetStatement (NextLine q) sitemap else (type, q, sitemap))"
  using assms by (subst GetStatement.simps) (auto simp: Let_def case_prod_beta)

lemma length_GetStatement:
  "GetStatement start sitemap = (type, r, sitemap') \<Longrightarrow>
     length r \<le> length start \<and> (type \<noteq> InvalidStatement \<longrightarrow> length r < length start) \<and> type \<noteq> SitemapStatement"
proof (induction start sitemap rule: GetStatement.induct)
  case (1 start sitemap)
  let ?p = "dropWhile blank start"
  have p: "length ?p \<le> length start" by (rule length_dropWhile_le)
  obtain t q where t: "Identify ?p = (t, q)" by fastforce
  obtain arg q' where q': "GetArgument q = (arg, q')" by fastforce
  note len = length_NextLine [of ?p] length_NextLine [of q] length_NextLine [of q'] length_GetArgument [OF q']
  have q: "length q \<le> length ?p" "t \<noteq> InvalidStatement \<Longrightarrow> length q < length ?p"
    using length_Identify [OF t] by (auto split: if_splits)
  consider (nil) "start = []" | (skip) "start \<noteq> []" "?p = [] \<or> line_end (hd ?p) \<or> hd ?p = CHR ''#''"
    | (line) "start \<noteq> []" "\<not> (?p = [] \<or> line_end (hd ?p) \<or> hd ?p = CHR ''#'')" by blast
  then show ?case
  proof cases
    case nil
    then show ?thesis using 1(4) by simp
  next
    case skip
    then show ?thesis using 1(1) [OF skip(1) refl skip(2)] GetStatement_skip [OF skip(1) refl skip(2)] 1(4) p len by fastforce
  next
    case line
    note eq = GetStatement_line [OF line(1) refl line(2) t, of sitemap]
    show ?thesis
    proof (cases "t = SitemapStatement")
      case True
      then show ?thesis
        using 1(2) [OF line(1) refl line(2) t [symmetric] refl True q' [symmetric] refl] eq 1(4) p len q q' by fastforce
    next
      case n: False
      show ?thesis
      proof (cases "t = InvalidStatement")
        case True
        have "GetStatement start sitemap = GetStatement (NextLine q) sitemap" using eq True by simp
        then show ?thesis using 1(3) [OF line(1) refl line(2) t [symmetric] refl n] True 1(4) p len q by fastforce
      qed (use eq 1(4) n p q in auto)
    qed
  qed
qed

subsection \<open>Rules\<close>

fun ci_prefix :: "string \<Rightarrow> string \<Rightarrow> bool" where
  "ci_prefix [] s \<longleftrightarrow> True"
| "ci_prefix (a # as) [] \<longleftrightarrow> False"
| "ci_prefix (a # as) (b # bs) \<longleftrightarrow> ascii_lower a = ascii_lower b \<and> ci_prefix as bs"

fun find_ci :: "string \<Rightarrow> string \<Rightarrow> string option" where
  "find_ci a [] = None"
| "find_ci a (b # bs) = (if ci_prefix a (b # bs) then Some (b # bs) else find_ci a bs)"

definition FindSubstring :: "string \<Rightarrow> string \<Rightarrow> string option" where
  "FindSubstring a b = (if a = [] then Some b else find_ci a b)"

record UserAgent =
  agent_name :: string
  matchAny :: bool

definition UserAgent_of :: "string \<Rightarrow> UserAgent" where
  "UserAgent_of arg = \<lparr>agent_name = arg, matchAny = (arg = ''*'')\<rparr>"

definition UserAgent_Match :: "UserAgent \<Rightarrow> string \<Rightarrow> bool" where
  "UserAgent_Match u user \<longleftrightarrow> matchAny u \<or> FindSubstring (agent_name u) user \<noteq> None"

definition MoreSpecific :: "Wildcard \<Rightarrow> Wildcard \<Rightarrow> bool" where
  "MoreSpecific a b \<longleftrightarrow>
     literalBytes a > literalBytes b \<or> literalBytes a = literalBytes b \<and> endsInDollarSign a \<and> \<not> endsInDollarSign b"

record Directive =
  d_type :: StatementType
  d_wildcard :: Wildcard

definition Directive_Match :: "Directive \<Rightarrow> string \<Rightarrow> bool option" where
  "Directive_Match d path = Wildcard_Match (d_wildcard d) path"

definition TakesPriority :: "Directive \<Rightarrow> Directive \<Rightarrow> bool" where
  "TakesPriority a b \<longleftrightarrow>
     MoreSpecific (d_wildcard a) (d_wildcard b) \<or> d_type a = AllowStatement \<and> d_type b = DisallowStatement"

record Rule =
  UserAgents :: "UserAgent list"
  Directives :: "Directive list"
  crawlDelay :: int

definition AddUserAgent :: "string \<Rightarrow> Rule \<Rightarrow> Rule" where
  "AddUserAgent arg rule = rule\<lparr>UserAgents := UserAgents rule @ [UserAgent_of arg]\<rparr>"

definition AddDirective :: "StatementType \<Rightarrow> string \<Rightarrow> Rule \<Rightarrow> Rule" where
  "AddDirective type arg rule =
     rule\<lparr>Directives := Directives rule @ [\<lparr>d_type = type, d_wildcard = Wildcard_of arg\<rparr>]\<rparr>"

text \<open>\<open>atoi\<close> is \<open>strtol\<close>, which stops at the bounds of \<open>long\<close>, cut to an \<open>int\<close>.\<close>

definition atoi_digits :: "string \<Rightarrow> int" where
  "atoi_digits s = foldl (\<lambda>n c. 10 * n + (int (code c) - 48)) 0 (takeWhile (\<lambda>c. 48 \<le> code c \<and> code c \<le> 57) s)"

definition atoi :: "string \<Rightarrow> int" where
  "atoi s =
     (let s = dropWhile (\<lambda>c. c = CHR '' '' \<or> 9 \<le> code c \<and> code c \<le> 13) s;
          n = (if s \<noteq> [] \<and> hd s = CHR ''-'' then - atoi_digits (tl s)
               else if s \<noteq> [] \<and> hd s = CHR ''+'' then atoi_digits (tl s) else atoi_digits s)
      in signed_take_bit 31 (max (- (2 ^ 63)) (min (2 ^ 63 - 1) n)))"

definition AddCrawlDelay :: "string \<Rightarrow> Rule \<Rightarrow> Rule" where
  "AddCrawlDelay arg rule = (let delay = atoi arg in if delay > crawlDelay rule then rule\<lparr>crawlDelay := delay\<rparr> else rule)"

text \<open>The insertion sort: the inner loop moves the directive at \<open>j\<close> to the front.\<close>

fun sink :: "Directive list \<Rightarrow> nat \<Rightarrow> Directive list" where
  "sink ds 0 = ds"
| "sink ds (Suc j) =
     (if TakesPriority (ds ! Suc j) (ds ! j) then sink (ds[Suc j := ds ! j, j := ds ! Suc j]) j else ds)"

definition sort_directives :: "Directive list \<Rightarrow> Directive list" where
  "sort_directives ds = foldl sink ds [1..<length ds]"

subsection \<open>The constructor\<close>

function collect_agents :: "string \<Rightarrow> string list \<Rightarrow> Rule \<Rightarrow> StatementType \<times> string \<times> string list \<times> Rule" where
  "collect_agents p sitemap rule =
     (let (arg, q) = GetArgument p; rule' = AddUserAgent arg rule; r = NextLine q
      in if r = [] then (InvalidStatement, [], sitemap, rule')
         else let (type, r', sitemap') = GetStatement r sitemap
              in if type = UserAgentStatement then collect_agents r' sitemap' rule' else (type, r', sitemap', rule'))"
  by pat_completeness auto
termination
proof (relation "measure (\<lambda>(p, sitemap, rule). length p)", goal_cases)
  case 1
  then show ?case by simp
next
  case (2 p sitemap rule pair arg q rule' r pair' type rest r' sitemap')
  have "length q \<le> length p" using length_GetArgument 2 by metis
  moreover have "length r \<le> length q - 1" using length_NextLine 2 by metis
  moreover have "length r' < length r" using length_GetStatement [of r sitemap type r' sitemap'] 2 by simp
  ultimately show ?case by simp
qed

function collect_directives ::
  "StatementType \<Rightarrow> string \<Rightarrow> string list \<Rightarrow> Rule \<Rightarrow> StatementType \<times> string \<times> string list \<times> Rule" where
  "collect_directives type p sitemap rule =
     (if type = AllowStatement \<or> type = DisallowStatement \<or> type = CrawlDelayStatement
      then let (arg, q) = GetArgument p;
               rule' = (if type = CrawlDelayStatement then AddCrawlDelay arg rule else AddDirective type arg rule);
               r = NextLine q
           in if r = [] then (InvalidStatement, [], sitemap, rule')
              else let (type', r', sitemap') = GetStatement r sitemap in collect_directives type' r' sitemap' rule'
      else (type, p, sitemap, rule))"
  by pat_completeness auto
termination
proof (relation "measure (\<lambda>(type, p, sitemap, rule). length p)", goal_cases)
  case 1
  then show ?case by simp
next
  case (2 type p sitemap rule pair arg q rule' r pair' type' rest r' sitemap')
  have "length q \<le> length p" using length_GetArgument 2 by metis
  moreover have "length r \<le> length q - 1" using length_NextLine 2 by metis
  moreover have "length r' \<le> length r" using length_GetStatement [of r sitemap type' r' sitemap'] 2 by simp
  moreover have "0 < length r" using 2 by simp
  ultimately have "length r' < length p" by arith
  then show ?case by simp
qed

declare collect_agents.simps [simp del] collect_directives.simps [simp del]

lemma length_collect_agents:
  "collect_agents p sitemap rule = (type, r, sitemap', rule') \<Longrightarrow> length r \<le> length p \<and> type \<noteq> UserAgentStatement"
proof (induction p sitemap rule rule: collect_agents.induct)
  case (1 p sitemap rule)
  obtain arg q where a: "GetArgument p = (arg, q)" by fastforce
  obtain t r' s' where g: "GetStatement (NextLine q) sitemap = (t, r', s')" by (metis surj_pair)
  have le: "length (NextLine q) \<le> length p" using length_GetArgument [OF a] length_NextLine [of q] by simp
  show ?case
  proof (cases "NextLine q = []")
    case True
    then show ?thesis using 1(2) a by (subst (asm) collect_agents.simps) auto
  next
    case ne: False
    note IH = 1(1) [OF a [symmetric] refl refl refl ne g [symmetric] refl refl]
    have r': "length r' \<le> length p" using length_GetStatement [OF g] le by simp
    show ?thesis
    proof (cases "t = UserAgentStatement")
      case True
      have "collect_agents p sitemap rule = collect_agents r' s' (AddUserAgent arg rule)"
        using a g ne True by (subst collect_agents.simps) (simp add: Let_def)
      then show ?thesis using IH [OF True] 1(2) r' by fastforce
    next
      case False
      have "collect_agents p sitemap rule = (t, r', s', AddUserAgent arg rule)"
        using a g ne False by (subst collect_agents.simps) (simp add: Let_def)
      then show ?thesis using 1(2) r' False by auto
    qed
  qed
qed

text \<open>What holds of a rule after its statements have been read.\<close>

definition argument :: "string \<Rightarrow> bool" where
  "argument arg \<longleftrightarrow> nul \<notin> set arg \<and> (\<forall>c \<in> set arg. \<not> blank c \<and> \<not> line_end c)"

lemma argument_GetArgument: "GetArgument p = (arg, q) \<Longrightarrow> argument arg"
  by (auto simp: GetArgument_def argument_def c_str_def Let_def dest!: set_takeWhileD)

lemma collect_agents_keep:
  assumes "collect_agents p sitemap rule = (type, r, sitemap', rule')"
    and "\<And>arg rule. argument arg \<Longrightarrow> P rule \<or> Q rule \<Longrightarrow> Q (AddUserAgent arg rule)" and "P rule \<or> Q rule"
  shows "Q rule'"
  using assms(1,3)
proof (induction p sitemap rule rule: collect_agents.induct)
  case (1 p sitemap rule)
  obtain arg q where a: "GetArgument p = (arg, q)" by fastforce
  obtain t r' s' where g: "GetStatement (NextLine q) sitemap = (t, r', s')" by (metis surj_pair)
  have Q: "Q (AddUserAgent arg rule)" by (rule assms(2)) (use argument_GetArgument [OF a] 1(3) in auto)
  show ?case
  proof (cases "NextLine q \<noteq> [] \<and> t = UserAgentStatement")
    case True
    then have "collect_agents p sitemap rule = collect_agents r' s' (AddUserAgent arg rule)"
      using a g by (subst collect_agents.simps) (simp add: Let_def)
    moreover note IH = 1(1) [OF a [symmetric] refl refl refl conjunct1 [OF True] g [symmetric] refl refl conjunct2 [OF True]]
    ultimately show ?thesis using 1(2) Q by simp
  next
    case False
    then have "\<exists>t r s. collect_agents p sitemap rule = (t, r, s, AddUserAgent arg rule)"
      using a g by (subst collect_agents.simps) (auto simp: Let_def)
    then show ?thesis using 1(2) Q by auto
  qed
qed

lemma collect_directives_keep:
  assumes "collect_directives type p sitemap rule = (type', r, sitemap', rule')"
    and "\<And>arg rule. argument arg \<Longrightarrow> P rule \<Longrightarrow> P (AddCrawlDelay arg rule)"
    and "\<And>arg type rule. argument arg \<Longrightarrow> type = AllowStatement \<or> type = DisallowStatement \<Longrightarrow> P rule
           \<Longrightarrow> P (AddDirective type arg rule)"
    and "P rule"
  shows "P rule' \<and> type' \<notin> {AllowStatement, DisallowStatement, CrawlDelayStatement}
     \<and> length r \<le> length p \<and> (type' = UserAgentStatement \<longrightarrow> type = UserAgentStatement \<or> length r < length p)"
  using assms(1,4)
proof (induction type p sitemap rule rule: collect_directives.induct)
  case (1 type p sitemap rule)
  obtain arg q where a: "GetArgument p = (arg, q)" by fastforce
  obtain t r' s' where g: "GetStatement (NextLine q) sitemap = (t, r', s')" by (metis surj_pair)
  have le: "length r' \<le> length (NextLine q)" "length (NextLine q) \<le> length q - 1" "length q \<le> length p"
    using length_GetArgument [OF a] length_NextLine [of q] length_GetStatement [OF g] by auto
  define rule1 where "rule1 = (if type = CrawlDelayStatement then AddCrawlDelay arg rule else AddDirective type arg rule)"
  show ?case
  proof (cases "type = AllowStatement \<or> type = DisallowStatement \<or> type = CrawlDelayStatement")
    case False
    then have "collect_directives type p sitemap rule = (type, p, sitemap, rule)"
      by (subst collect_directives.simps) simp
    then show ?thesis using 1(2,3) False by auto
  next
    case True
    then have P: "P rule1" using assms(2,3) argument_GetArgument [OF a] 1(3) by (auto simp: rule1_def)
    show ?thesis
    proof (cases "NextLine q = []")
      case nil: True
      have "collect_directives type p sitemap rule = (InvalidStatement, [], sitemap, rule1)"
        using a g True nil by (subst collect_directives.simps) (simp add: Let_def rule1_def)
      then show ?thesis using 1(2) P by auto
    next
      case ne: False
      have eq: "collect_directives type p sitemap rule = collect_directives t r' s' rule1"
        using a g True ne by (subst collect_directives.simps) (simp add: Let_def rule1_def)
      note IH = 1(1) [OF True a [symmetric] refl rule1_def refl ne g [symmetric] refl refl]
      have "0 < length (NextLine q)" using ne by simp
      then have "length r' < length p" using le by arith
      moreover have "P rule' \<and> type' \<notin> {AllowStatement, DisallowStatement, CrawlDelayStatement} \<and> length r \<le> length r'"
        using IH eq 1(2) P by auto
      ultimately show ?thesis by auto
    qed
  qed
qed

lemma length_collect_directives:
  assumes "collect_directives type p sitemap rule = (type', r, sitemap', rule')"
  shows "length r \<le> length p \<and> (type' = UserAgentStatement \<longrightarrow> type = UserAgentStatement \<or> length r < length p)"
  using collect_directives_keep [OF assms, of "\<lambda>_. True"] by simp

function first_agent :: "StatementType option \<Rightarrow> string \<Rightarrow> string list \<Rightarrow> StatementType option \<times> string \<times> string list" where
  "first_agent type p sitemap =
     (if p = [] then (type, [], sitemap)
      else let (type', q, sitemap') = GetStatement p sitemap
           in if type' = UserAgentStatement then (Some type', q, sitemap') else first_agent (Some type') (NextLine q) sitemap')"
  by pat_completeness auto
termination
proof (relation "measure (\<lambda>(type, p, sitemap). length p)", goal_cases)
  case 1
  then show ?case by simp
next
  case (2 type p sitemap pair type' rest q sitemap')
  have "length q \<le> length p" using length_GetStatement [of p sitemap type' q sitemap'] 2 by simp
  moreover have "length (NextLine q) \<le> length q - 1" by (rule length_NextLine)
  moreover have "0 < length p" using 2 by simp
  ultimately have "length (NextLine q) < length p" by arith
  then show ?case by simp
qed

declare first_agent.simps [simp del]

definition empty_rule :: Rule where
  "empty_rule = \<lparr>UserAgents = [], Directives = [], crawlDelay = 0\<rparr>"

function rules_loop :: "StatementType \<Rightarrow> string \<Rightarrow> string list \<Rightarrow> Rule list \<Rightarrow> Rule list \<times> string list" where
  "rules_loop type p sitemap rules =
     (if type = UserAgentStatement
      then let (type1, p1, sitemap1, rule1) = collect_agents p sitemap empty_rule;
               (type2, p2, sitemap2, rule2) = collect_directives type1 p1 sitemap1 rule1
           in rules_loop type2 p2 sitemap2 (rules @ [rule2\<lparr>Directives := sort_directives (Directives rule2)\<rparr>])
      else (rules, sitemap))"
  by pat_completeness auto
termination
proof (relation "measure (\<lambda>(type, p, sitemap, rules). if type = UserAgentStatement then Suc (length p) else 0)", goal_cases)
  case 1
  then show ?case by simp
next
  case (2 type p sitemap rules x1 type1 y1 p1 z1 sitemap1 rule1 x2 type2 y2 p2 z2 sitemap2 rule2)
  have "length p1 \<le> length p \<and> type1 \<noteq> UserAgentStatement" using length_collect_agents 2 by metis
  moreover have "type2 = UserAgentStatement \<longrightarrow> type1 = UserAgentStatement \<or> length p2 < length p1"
    using length_collect_directives 2 by metis
  ultimately show ?case using 2(1) by auto
qed

declare rules_loop.simps [simp del]

definition Utf8BOMString :: string where
  "Utf8BOMString = map char_of [239 :: nat, 187, 191]"

definition RobotsTxt_of :: "string \<Rightarrow> (Rule list \<times> string list) option" where
  "RobotsTxt_of text =
     (let p = (if take 3 text = Utf8BOMString then drop 3 text else text);
          (type, p, sitemap) = first_agent None p []
      in map_option (\<lambda>type. rules_loop type p sitemap []) type)"

subsection \<open>The verdict\<close>

fun first_directive :: "string \<Rightarrow> Directive list \<Rightarrow> Directive option option" where
  "first_directive path [] = Some None"
| "first_directive path (dir # ds) =
     (case Directive_Match dir path of
        None \<Rightarrow> None
      | Some True \<Rightarrow> Some (Some dir)
      | Some False \<Rightarrow> first_directive path ds)"

definition Rule_Match :: "string \<Rightarrow> string \<Rightarrow> Rule \<Rightarrow> (Directive option \<times> UserAgent option) option" where
  "Rule_Match user path rule =
     (case List.find (\<lambda>u. UserAgent_Match u user) (UserAgents rule) of
        None \<Rightarrow> Some (None, None)
      | Some u \<Rightarrow> map_option (\<lambda>dir. (dir, Some u)) (first_directive path (Directives rule)))"

definition better :: "(Directive \<times> UserAgent \<times> Rule) option \<Rightarrow> Directive \<times> UserAgent \<times> Rule \<Rightarrow> (Directive \<times> UserAgent \<times> Rule) option" where
  "better best hit =
     (case best of
        None \<Rightarrow> Some hit
      | Some (d, bestAgent, r) \<Rightarrow>
          (let newLit = (\<not> matchAny (fst (snd hit))); oldLit = (\<not> matchAny bestAgent)
           in if newLit \<and> \<not> oldLit then Some hit
              else if newLit = oldLit \<and> TakesPriority (fst hit) d then Some hit else best))"

fun find_loop :: "string \<Rightarrow> string \<Rightarrow> Rule list \<Rightarrow> (Directive \<times> UserAgent \<times> Rule) option \<Rightarrow> int
    \<Rightarrow> ((Directive \<times> UserAgent \<times> Rule) option \<times> int) option" where
  "find_loop user decoded [] best delay = Some (best, delay)"
| "find_loop user decoded (r # rules) best delay =
     (case Rule_Match user decoded r of
        None \<Rightarrow> None
      | Some (Some dir, Some agent) \<Rightarrow>
          find_loop user decoded rules (better best (dir, agent, r)) (if crawlDelay r > delay then crawlDelay r else delay)
      | Some _ \<Rightarrow> find_loop user decoded rules best delay)"

definition FindDirective :: "string \<Rightarrow> string \<Rightarrow> Rule list \<Rightarrow> ((Directive \<times> UserAgent \<times> Rule) option \<times> int) option" where
  "FindDirective user path rules = find_loop (c_str user) (UrlDecode path) rules None 0"

definition PathAllowed :: "string \<Rightarrow> string \<Rightarrow> Rule list \<Rightarrow> (bool \<times> int) option" where
  "PathAllowed user path rules =
     (case FindDirective user (if path \<noteq> [] \<and> hd path = CHR ''/'' then tl path else path) rules of
        None \<Rightarrow> None
      | Some (best, delay) \<Rightarrow>
          Some (case best of None \<Rightarrow> True | Some (d, agent, r) \<Rightarrow> d_type d = AllowStatement, delay))"

definition UrlAllowed :: "string \<Rightarrow> string \<Rightarrow> Rule list \<Rightarrow> (bool \<times> int) option" where
  "UrlAllowed user url rules = PathAllowed user (url_path url) rules"

subsection \<open>The order of the directives\<close>

text \<open>How specific a directive is, as one number.\<close>

definition rank :: "Directive \<Rightarrow> nat" where
  "rank d = 2 * literalBytes (d_wildcard d) + (if endsInDollarSign (d_wildcard d) then 1 else 0)"

lemma TakesPriority_rank:
  "TakesPriority a b \<longleftrightarrow> rank a > rank b \<or> d_type a = AllowStatement \<and> d_type b = DisallowStatement"
  by (auto simp: TakesPriority_def MoreSpecific_def rank_def)

text \<open>What the insertion sort establishes between a directive and any one behind it: \<open>TakesPriority\<close> is not an
  order, but among equal types the more specific comes first, and a Disallow stands before an Allow only
  when it is more specific.\<close>

definition before :: "Directive \<Rightarrow> Directive \<Rightarrow> bool" where
  "before a b \<longleftrightarrow>
     (d_type a = d_type b \<longrightarrow> rank b \<le> rank a) \<and> (d_type a \<noteq> AllowStatement \<and> d_type b = AllowStatement \<longrightarrow> rank b < rank a)"

abbreviation directive :: "Directive \<Rightarrow> bool" where
  "directive d \<equiv> d_type d = AllowStatement \<or> d_type d = DisallowStatement"

fun insert_back :: "Directive \<Rightarrow> Directive list \<Rightarrow> Directive list" where
  "insert_back x [] = [x]"
| "insert_back x (y # ys) = (if TakesPriority x y then y # insert_back x ys else x # y # ys)"

lemma sink_insert_back: "sink (xs @ x # ys) (length xs) = rev (insert_back x (rev xs)) @ ys"
proof (induction xs arbitrary: ys rule: rev_induct)
  case (snoc z zs)
  have s: "((zs @ [z]) @ x # ys)[Suc (length zs) := z, length zs := x] = zs @ x # (z # ys)"
    by (simp add: list_update_append)
  show ?case
  proof (cases "TakesPriority x z")
    case True
    have "sink ((zs @ [z]) @ x # ys) (length (zs @ [z])) = sink (zs @ x # (z # ys)) (length zs)"
      using True s by (simp add: nth_append)
    then show ?thesis using snoc.IH True by simp
  qed (simp add: nth_append)
qed simp

lemma mset_insert_back: "mset (insert_back x ys) = add_mset x (mset ys)"
  by (induction ys) auto

lemma insert_back_sorted:
  assumes "sorted_wrt (\<lambda>b a. before a b) ys" and "directive x" and "\<forall>y \<in> set ys. directive y"
  shows "sorted_wrt (\<lambda>b a. before a b) (insert_back x ys)"
  using assms
proof (induction ys)
  case (Cons y ys)
  have set: "set (insert_back x ys) = insert x (set ys)"
    using mset_insert_back [of x ys] by (metis set_mset_add_mset_insert set_mset_mset)
  have IH: "sorted_wrt (\<lambda>b a. before a b) (insert_back x ys)" using Cons by simp
  show ?case
  proof (cases "TakesPriority x y")
    case True
    then have "before x y" using Cons.prems(2,3) by (auto simp: TakesPriority_rank before_def)
    then show ?thesis using True IH set Cons.prems(1) by simp
  next
    case False
    have "before z x" if "z = y \<or> z \<in> set ys" for z
    proof -
      have "z = y \<or> before z y" "directive z" "directive y" using that Cons.prems by auto
      then show ?thesis using False Cons.prems(2) by (auto simp: TakesPriority_rank before_def)
    qed
    then show ?thesis using False Cons.prems(1) by auto
  qed
qed simp

lemma sort_directives_steps:
  assumes "k \<le> length ds" and "\<forall>d \<in> set ds. directive d"
  shows "\<exists>xs. foldl sink ds [1..<k] = xs @ drop k ds \<and> mset xs = mset (take k ds) \<and> sorted_wrt before xs"
  using assms(1)
proof (induction k)
  case 0
  then show ?case by simp
next
  case (Suc k)
  show ?case
  proof (cases "k = 0")
    case True
    then show ?thesis using Suc.prems by (intro exI [of _ "take 1 ds"]) (cases ds; simp)
  next
    case False
    obtain xs where xs: "foldl sink ds [1..<k] = xs @ drop k ds" "mset xs = mset (take k ds)" "sorted_wrt before xs"
      using Suc by auto
    have len: "length xs = k" using arg_cong [OF xs(2), of size] Suc.prems by simp
    have d: "drop k ds = ds ! k # drop (Suc k) ds" using Suc.prems by (simp add: Cons_nth_drop_Suc)
    let ?ys = "insert_back (ds ! k) (rev xs)"
    have "foldl sink ds [1..<Suc k] = sink (xs @ ds ! k # drop (Suc k) ds) (length xs)"
      using False xs(1) d len by simp
    then have "foldl sink ds [1..<Suc k] = rev ?ys @ drop (Suc k) ds" by (simp only: sink_insert_back)
    moreover have "mset (rev ?ys) = mset (take (Suc k) ds)"
      using Suc.prems xs(2) by (simp add: mset_insert_back take_Suc_conv_app_nth)
    moreover have "set xs \<subseteq> set ds" using xs(2) set_take_subset [of k ds] by (metis set_mset_mset)
    then have "sorted_wrt (\<lambda>b a. before a b) ?ys"
      using xs(3) assms(2) Suc.prems by (intro insert_back_sorted) (auto simp: sorted_wrt_rev)
    then have "sorted_wrt before (rev ?ys)" by (simp add: sorted_wrt_rev)
    ultimately show ?thesis by blast
  qed
qed

text \<open>The insertion sort keeps the directives, and orders them although its comparison is no order (an Allow beats every
  Disallow, which may be more specific than it): among equal types the more specific is first, and a Disallow stands
  before an Allow only when it is more specific.\<close>

theorem sort_directives_spec:
  assumes "\<forall>d \<in> set ds. d_type d \<in> {AllowStatement, DisallowStatement}"
  shows "mset (sort_directives ds) = mset ds \<and> sorted_wrt before (sort_directives ds)"
  using sort_directives_steps [of "length ds" ds] assms by (auto simp: sort_directives_def)

lemma sort_directives_sorted:
  assumes "\<forall>d \<in> set ds. directive d"
  shows "set (sort_directives ds) = set ds" and "sorted_wrt before (sort_directives ds)"
proof -
  obtain xs where "sort_directives ds = xs" "mset xs = mset ds" "sorted_wrt before xs"
    using sort_directives_steps [of "length ds" ds] assms by (auto simp: sort_directives_def)
  then show "set (sort_directives ds) = set ds" "sorted_wrt before (sort_directives ds)" by (auto dest: mset_eq_setD)
qed

subsection \<open>What the constructor makes\<close>

definition parsed_agent :: "UserAgent \<Rightarrow> bool" where
  "parsed_agent u \<longleftrightarrow> argument (agent_name u) \<and> (matchAny u \<longleftrightarrow> agent_name u = ''*'')"

definition parsed_directive :: "Directive \<Rightarrow> bool" where
  "parsed_directive d \<longleftrightarrow> directive d \<and> (\<exists>arg. argument arg \<and> d_wildcard d = Wildcard_of arg)"

definition parsed_rule :: "Rule \<Rightarrow> bool" where
  "parsed_rule r \<longleftrightarrow> (\<forall>u \<in> set (UserAgents r). parsed_agent u) \<and> (\<forall>d \<in> set (Directives r). parsed_directive d)
     \<and> 0 \<le> crawlDelay r \<and> crawlDelay r < 2 ^ 31"

lemma parsed_steps:
  "argument arg \<Longrightarrow> parsed_rule r \<Longrightarrow> parsed_rule (AddUserAgent arg r) \<and> UserAgents (AddUserAgent arg r) \<noteq> []"
  "parsed_rule r \<Longrightarrow> parsed_rule (AddCrawlDelay arg r) \<and> UserAgents (AddCrawlDelay arg r) = UserAgents r"
  "argument arg \<Longrightarrow> type = AllowStatement \<or> type = DisallowStatement \<Longrightarrow> parsed_rule r
     \<Longrightarrow> parsed_rule (AddDirective type arg r) \<and> UserAgents (AddDirective type arg r) = UserAgents r"
proof -
  have "atoi arg < 2 ^ 31" for arg by (simp only: atoi_def Let_def signed_take_bit_int_less_exp)
  then show "parsed_rule r \<Longrightarrow> parsed_rule (AddCrawlDelay arg r) \<and> UserAgents (AddCrawlDelay arg r) = UserAgents r"
    by (simp add: AddCrawlDelay_def parsed_rule_def Let_def)
qed (auto simp: AddUserAgent_def AddDirective_def parsed_rule_def parsed_agent_def parsed_directive_def UserAgent_of_def)

definition finished_rule :: "Rule \<Rightarrow> bool" where
  "finished_rule r \<longleftrightarrow> parsed_rule r \<and> UserAgents r \<noteq> [] \<and> sorted_wrt before (Directives r)"

lemma rules_loop_finished:
  "rules_loop type p sitemap rules = (rules', sitemap') \<Longrightarrow> \<forall>r \<in> set rules. finished_rule r \<Longrightarrow> \<forall>r \<in> set rules'. finished_rule r"
proof (induction type p sitemap rules rule: rules_loop.induct)
  case (1 type p sitemap rules)
  obtain type1 p1 sitemap1 rule1 where a: "collect_agents p sitemap empty_rule = (type1, p1, sitemap1, rule1)" by (metis surj_pair)
  obtain type2 p2 sitemap2 rule2 where d: "collect_directives type1 p1 sitemap1 rule1 = (type2, p2, sitemap2, rule2)" by (metis surj_pair)
  show ?case
  proof (cases "type = UserAgentStatement")
    case True
    have "parsed_rule empty_rule" by (simp add: parsed_rule_def empty_rule_def)
    then have r1: "parsed_rule rule1 \<and> UserAgents rule1 \<noteq> []"
      by (intro collect_agents_keep [OF a, of parsed_rule "\<lambda>r. parsed_rule r \<and> UserAgents r \<noteq> []"]) (use parsed_steps(1) in blast)+
    then have r2: "parsed_rule rule2 \<and> UserAgents rule2 \<noteq> []"
      using collect_directives_keep [OF d, of "\<lambda>r. parsed_rule r \<and> UserAgents r \<noteq> []"] by (auto simp: parsed_steps)
    then have "\<forall>d \<in> set (Directives rule2). directive d" by (auto simp: parsed_rule_def parsed_directive_def)
    then have "finished_rule (rule2\<lparr>Directives := sort_directives (Directives rule2)\<rparr>)"
      using r2 by (simp add: finished_rule_def parsed_rule_def sort_directives_sorted)
    then show ?thesis
      using 1(1) [OF True a [symmetric] refl refl refl d [symmetric] refl refl refl] 1(2,3) True a d
      by (subst (asm) (2) rules_loop.simps) auto
  qed (use 1(2,3) in \<open>simp add: rules_loop.simps\<close>)
qed

lemma RobotsTxt_finished: "RobotsTxt_of text = Some (rules, sitemap) \<Longrightarrow> \<forall>r \<in> set rules. finished_rule r"
  by (auto simp: RobotsTxt_of_def Let_def split: prod.splits dest: rules_loop_finished)

subsection \<open>Which rule decides\<close>

definition directive_matches :: "string \<Rightarrow> Directive \<Rightarrow> bool" where
  "directive_matches path d \<longleftrightarrow>
     wildcard (d_wildcard d) \<noteq> [] \<and> glob (endsInDollarSign (d_wildcard d)) (wildcard (d_wildcard d)) path"

lemma Directive_Match_eq: "Directive_Match d path = Some (directive_matches path d)"
  using match_loop_spec [of "endsInDollarSign (d_wildcard d)" "wildcard (d_wildcard d)" path None]
  by (simp add: Directive_Match_def Wildcard_Match_def track_ok_def match_goal_def directive_matches_def)

lemma first_directive_eq: "first_directive path ds = Some (List.find (directive_matches path) ds)"
  by (induction ds) (simp_all add: Directive_Match_eq)

definition rule_agent :: "string \<Rightarrow> Rule \<Rightarrow> UserAgent option" where
  "rule_agent user r = List.find (\<lambda>u. UserAgent_Match u user) (UserAgents r)"

text \<open>The directive of a rule that counts, when one of its agents is meant and one of its directives matches.\<close>

definition rule_hit :: "string \<Rightarrow> string \<Rightarrow> Rule \<Rightarrow> (Directive \<times> UserAgent \<times> Rule) option" where
  "rule_hit user path r =
     (case rule_agent user r of
        None \<Rightarrow> None
      | Some u \<Rightarrow> map_option (\<lambda>d. (d, u, r)) (List.find (directive_matches path) (Directives r)))"

definition hits :: "string \<Rightarrow> string \<Rightarrow> Rule list \<Rightarrow> (Directive \<times> UserAgent \<times> Rule) list" where
  "hits user path rules = List.map_filter (rule_hit user path) rules"

lemma find_loop_eq:
  "find_loop user path rules best delay =
     Some (foldl better best (hits user path rules), foldl max delay (map (\<lambda>(d, u, r). crawlDelay r) (hits user path rules)))"
proof (induction rules arbitrary: best delay)
  case (Cons r rules)
  have "(if crawlDelay r > delay then crawlDelay r else delay) = max delay (crawlDelay r)" by (simp add: max_def)
  then show ?case
    using Cons.IH by (auto simp: hits_def map_filter_simps Rule_Match_def first_directive_eq rule_hit_def rule_agent_def
        split: option.splits)
qed (simp add: hits_def map_filter_simps)

definition literal_hit :: "Directive \<times> UserAgent \<times> Rule \<Rightarrow> bool" where
  "literal_hit h \<longleftrightarrow> \<not> matchAny (fst (snd h))"

text \<open>The hits with a literal name when there is one, otherwise all.\<close>

definition in_class :: "(Directive \<times> UserAgent \<times> Rule) set \<Rightarrow> (Directive \<times> UserAgent \<times> Rule) set" where
  "in_class H = {h \<in> H. (\<exists>h' \<in> H. literal_hit h') \<longrightarrow> literal_hit h}"

abbreviation allows :: "Directive \<times> UserAgent \<times> Rule \<Rightarrow> bool" where
  "allows h \<equiv> d_type (fst h) = AllowStatement"

text \<open>A Disallow that is more specific than each Allow of the class.\<close>

definition forbidden :: "(Directive \<times> UserAgent \<times> Rule) set \<Rightarrow> bool" where
  "forbidden C \<longleftrightarrow> (\<exists>h \<in> C. \<not> allows h \<and> (\<forall>a \<in> C. allows a \<longrightarrow> rank (fst a) < rank (fst h)))"

definition best_ok :: "(Directive \<times> UserAgent \<times> Rule) set \<Rightarrow> (Directive \<times> UserAgent \<times> Rule) option \<Rightarrow> bool" where
  "best_ok H best \<longleftrightarrow>
     (case best of
        None \<Rightarrow> H = {}
      | Some b \<Rightarrow> b \<in> in_class H
          \<and> (forbidden (in_class H) \<or> allows b \<and> (\<forall>a \<in> in_class H. allows a \<longrightarrow> rank (fst a) \<le> rank (fst b))))"

lemma in_class_insert:
  "b \<in> in_class H \<Longrightarrow> in_class (insert h H) =
     (if literal_hit h \<and> \<not> literal_hit b then {h} else if literal_hit h = literal_hit b then insert h (in_class H) else in_class H)"
  unfolding in_class_def by auto

lemma better_unfold:
  "better (Some b) h =
     (if literal_hit h \<and> \<not> literal_hit b then Some h
      else if literal_hit h = literal_hit b \<and> TakesPriority (fst h) (fst b) then Some h else Some b)"
  by (cases b) (simp add: better_def literal_hit_def Let_def)

lemma forbidden_insert:
  assumes "forbidden C \<or> allows b \<and> (\<forall>a \<in> C. allows a \<longrightarrow> rank (fst a) \<le> rank (fst b))" (is "_ \<or> ?max C b")
    and "b \<in> C" and "directive (fst b)" and "directive (fst h)" and "b' = (if TakesPriority (fst h) (fst b) then h else b)"
  shows "forbidden (insert h C) \<or> ?max (insert h C) b'"
proof (cases "forbidden C")
  case True
  then obtain w where w: "w \<in> C" "\<not> allows w" "\<forall>a \<in> C. allows a \<longrightarrow> rank (fst a) < rank (fst w)"
    by (auto simp: forbidden_def)
  show ?thesis
  proof (cases "allows h \<and> rank (fst w) \<le> rank (fst h)")
    case h: True
    have "TakesPriority (fst h) (fst b)"
    proof (cases "allows b")
      case True
      then have "rank (fst b) < rank (fst w)" using w(3) assms(2) by blast
      then show ?thesis using h by (simp add: TakesPriority_rank)
    qed (use assms(3) h in \<open>simp add: TakesPriority_rank\<close>)
    then have "b' = h" using assms(5) by simp
    moreover have "rank (fst a) \<le> rank (fst h)" if "a \<in> C" "allows a" for a using w(3) that h by fastforce
    ultimately show ?thesis using h by auto
  next
    case False
    then have "forbidden (insert h C)" using w unfolding forbidden_def by (intro bexI [of _ w]) auto
    then show ?thesis ..
  qed
next
  case False
  then have b: "?max C b" using assms(1) by blast
  then have tp: "TakesPriority (fst h) (fst b) \<longleftrightarrow> rank (fst h) > rank (fst b)" by (simp add: TakesPriority_rank)
  consider (more) "allows h" "rank (fst h) > rank (fst b)" | (forbid) "\<not> allows h" "rank (fst h) > rank (fst b)"
    | (keep) "rank (fst h) \<le> rank (fst b)" by fastforce
  then show ?thesis
  proof cases
    case more
    have "rank (fst a) \<le> rank (fst h)" if "a \<in> C" "allows a" for a using b that more(2) by fastforce
    then show ?thesis using more tp assms(5) by auto
  next
    case forbid
    have "rank (fst a) < rank (fst h)" if "a \<in> C" "allows a" for a using b that forbid(2) by fastforce
    then have "forbidden (insert h C)" using forbid(1) unfolding forbidden_def by blast
    then show ?thesis ..
  next
    case keep
    then show ?thesis using b tp assms(5) by auto
  qed
qed

lemma best_ok_better:
  assumes "best_ok H best" and "directive (fst h)" and "\<forall>h \<in> H. directive (fst h)"
  shows "best_ok (insert h H) (better best h)"
proof (cases best)
  case None
  then have "in_class (insert h H) = {h}" using assms(1) by (auto simp: best_ok_def in_class_def)
  then show ?thesis using None assms(2) by (auto simp: better_def best_ok_def forbidden_def)
next
  case (Some b)
  let ?C = "in_class H"
  have b: "b \<in> ?C" "directive (fst b)" using assms(1,3) Some by (auto simp: best_ok_def in_class_def)
  have old: "forbidden ?C \<or> allows b \<and> (\<forall>a \<in> ?C. allows a \<longrightarrow> rank (fst a) \<le> rank (fst b))"
    using assms(1) Some by (simp add: best_ok_def)
  note C = in_class_insert [OF b(1), of h]
  consider (new) "literal_hit h \<and> \<not> literal_hit b" | (skip) "\<not> literal_hit h \<and> literal_hit b"
    | (same) "literal_hit h = literal_hit b" by blast
  then show ?thesis
  proof cases
    case new
    then show ?thesis using C assms(2) by (auto simp: Some better_unfold best_ok_def forbidden_def)
  next
    case skip
    then show ?thesis using C b(1) old by (simp add: Some better_unfold best_ok_def)
  next
    case same
    let ?b = "if TakesPriority (fst h) (fst b) then h else b"
    have "better best h = Some ?b" using same by (auto simp: Some better_unfold)
    moreover have "in_class (insert h H) = insert h ?C" using C same by auto
    ultimately show ?thesis using forbidden_insert [OF old b assms(2) refl] b(1) by (simp add: best_ok_def)
  qed
qed

lemma best_ok_foldl: "\<forall>h \<in> set hs. directive (fst h) \<Longrightarrow> best_ok (set hs) (foldl better None hs)"
  by (induction hs rule: rev_induct) (simp_all add: best_ok_better, simp add: best_ok_def)

text \<open>A directive of a rule that is meant for the agent and matches the path, and the ones that count.\<close>

definition meant :: "string \<Rightarrow> string \<Rightarrow> Rule list \<Rightarrow> Rule \<Rightarrow> Directive \<Rightarrow> bool" where
  "meant user path rules r d \<longleftrightarrow>
     r \<in> set rules \<and> rule_agent user r \<noteq> None \<and> d \<in> set (Directives r) \<and> directive_matches path d"

definition named :: "string \<Rightarrow> Rule \<Rightarrow> bool" where
  "named user r \<longleftrightarrow> (case rule_agent user r of None \<Rightarrow> False | Some u \<Rightarrow> \<not> matchAny u)"

definition counts :: "string \<Rightarrow> string \<Rightarrow> Rule list \<Rightarrow> Rule \<Rightarrow> Directive \<Rightarrow> bool" where
  "counts user path rules r d \<longleftrightarrow>
     meant user path rules r d \<and> ((\<exists>r' d'. meant user path rules r' d' \<and> named user r') \<longrightarrow> named user r)"

lemma find_NoneD: "List.find P xs = None \<Longrightarrow> x \<in> set xs \<Longrightarrow> \<not> P x"
  by (simp add: find_None_iff)

lemma find_SomeD: "List.find P xs = Some x \<Longrightarrow> x \<in> set xs \<and> P x"
  by (auto simp: find_Some_iff)

lemma hits_iff:
  "(d, u, r) \<in> set (hits user path rules) \<longleftrightarrow>
     r \<in> set rules \<and> rule_agent user r = Some u \<and> List.find (directive_matches path) (Directives r) = Some d"
  by (auto simp: hits_def map_filter_def rule_hit_def image_iff split: option.splits intro!: bexI [of _ r])

lemma meant_hit: "(d, u, r) \<in> set (hits user path rules) \<Longrightarrow> meant user path rules r d \<and> (named user r \<longleftrightarrow> literal_hit (d, u, r))"
  unfolding hits_iff using find_SomeD [of "directive_matches path" "Directives r" d]
  by (auto simp: meant_def named_def literal_hit_def)

lemma hit_meant: "meant user path rules r d \<Longrightarrow> \<exists>d' u. (d', u, r) \<in> set (hits user path rules)"
  unfolding hits_iff meant_def by (cases "List.find (directive_matches path) (Directives r)") (auto dest: find_NoneD)

lemma named_hits:
  "(\<exists>h \<in> set (hits user path rules). literal_hit h) \<longleftrightarrow> (\<exists>r d. meant user path rules r d \<and> named user r)"
proof
  assume "\<exists>h \<in> set (hits user path rules). literal_hit h"
  then obtain d u r where "(d, u, r) \<in> set (hits user path rules)" "literal_hit (d, u, r)" by (metis prod_cases3)
  then show "\<exists>r d. meant user path rules r d \<and> named user r" using meant_hit by blast
next
  assume "\<exists>r d. meant user path rules r d \<and> named user r"
  then obtain r d where r: "meant user path rules r d" "named user r" by blast
  then obtain d' u where h: "(d', u, r) \<in> set (hits user path rules)" using hit_meant by blast
  show "\<exists>h \<in> set (hits user path rules). literal_hit h" using meant_hit [OF h] r(2) by (intro bexI [OF _ h]) simp
qed

lemma counts_hit: "(d, u, r) \<in> in_class (set (hits user path rules)) \<Longrightarrow> counts user path rules r d"
  using meant_hit [of d u r user path rules] unfolding in_class_def named_hits counts_def by auto

lemma hit_counts: "counts user path rules r d \<Longrightarrow> \<exists>d' u. (d', u, r) \<in> in_class (set (hits user path rules))"
proof -
  assume c: "counts user path rules r d"
  then obtain d' u where h: "(d', u, r) \<in> set (hits user path rules)" using hit_meant unfolding counts_def by blast
  then have "(d', u, r) \<in> in_class (set (hits user path rules))"
    using meant_hit [OF h] c unfolding in_class_def named_hits counts_def by auto
  then show ?thesis by blast
qed

lemma first_before:
  assumes "sorted_wrt before ds" and "List.find P ds = Some d" and "a \<in> set ds" and "P a"
  shows "a = d \<or> before d a"
  using assms by (induction ds) (auto split: if_splits)

lemma hit_allow:
  assumes "(d, u, r) \<in> set (hits user path rules)" and "finished_rule r" and "meant user path rules r a"
    and "d_type a = AllowStatement"
  shows "if d_type d = AllowStatement then rank a \<le> rank d else rank a < rank d"
proof -
  have "a = d \<or> before d a"
    using assms(1-3) first_before [of "Directives r" "directive_matches path" d a] unfolding hits_iff finished_rule_def meant_def by blast
  then show ?thesis using assms(4) by (auto simp: before_def)
qed

lemma foldl_max: "foldl max (x :: int) xs = Max (insert x (set xs))"
proof -
  have "foldl max x xs = fold max xs x" by (induction xs arbitrary: x) (simp_all add: max.commute)
  then show ?thesis using Max.set_eq_fold [of x xs] by simp
qed

definition robots_path :: "string \<Rightarrow> string" where
  "robots_path url = (let path = url_path url in UrlDecode (if path \<noteq> [] \<and> hd path = CHR ''/'' then tl path else path))"

lemma UrlAllowed_eq:
  "UrlAllowed user url rules =
     (let hs = hits (c_str user) (robots_path url) rules
      in Some (case foldl better None hs of None \<Rightarrow> True | Some h \<Rightarrow> allows h, Max (insert 0 ((\<lambda>(d, u, r). crawlDelay r) ` set hs))))"
  by (simp add: UrlAllowed_def PathAllowed_def FindDirective_def find_loop_eq robots_path_def Let_def foldl_max
      split: option.splits)

lemma forbidden_counts:
  assumes "forbidden (in_class (set (hits user path rules)))" and "\<forall>r \<in> set rules. finished_rule r"
  shows "\<exists>r d. counts user path rules r d \<and> d_type d = DisallowStatement
     \<and> (\<forall>r' a. counts user path rules r' a \<and> d_type a = AllowStatement \<longrightarrow> rank a < rank d)"
proof -
  let ?H = "set (hits user path rules)"
  let ?D = "{h \<in> in_class ?H. \<not> allows h}"
  obtain w where w: "w \<in> ?D" "\<forall>a \<in> in_class ?H. allows a \<longrightarrow> rank (fst a) < rank (fst w)"
    using assms(1) by (auto simp: forbidden_def)
  have fin: "finite ?D" by (simp add: in_class_def)
  have "Max ((\<lambda>h. rank (fst h)) ` ?D) \<in> (\<lambda>h. rank (fst h)) ` ?D" using fin w(1) by (intro Max_in finite_imageI) blast+
  then obtain d u r where m: "(d, u, r) \<in> ?D" "rank d = Max ((\<lambda>h. rank (fst h)) ` ?D)" by auto
  have max: "rank (fst h) \<le> rank d" if "h \<in> ?D" for h using that fin unfolding m(2) by (intro Max_ge) auto
  have c: "counts user path rules r d" using m(1) counts_hit by blast
  then have "finished_rule r" "d \<in> set (Directives r)" using assms(2) unfolding counts_def meant_def by auto
  then have "directive d" unfolding finished_rule_def parsed_rule_def parsed_directive_def by blast
  then have D: "d_type d = DisallowStatement" using m(1) by simp
  have "rank a < rank d" if a: "counts user path rules r' a" "d_type a = AllowStatement" for r' a
  proof -
    obtain d' u' where h: "(d', u', r') \<in> in_class ?H" using hit_counts [OF a(1)] by blast
    have "meant user path rules r' a" "finished_rule r'" using a(1) assms(2) unfolding counts_def meant_def by auto
    then have le: "if d_type d' = AllowStatement then rank a \<le> rank d' else rank a < rank d'"
      using hit_allow [of d' u' r' user path rules a] h a(2) by (simp add: in_class_def)
    show ?thesis
    proof (cases "d_type d' = AllowStatement")
      case True
      then have "rank d' < rank (fst w)" using w(2) h by fastforce
      then show ?thesis using le True max [OF w(1)] by simp
    next
      case False
      then show ?thesis using le max [of "(d', u', r')"] h by simp
    qed
  qed
  then show ?thesis using c D by blast
qed

text \<open>C10. Every URL gets a verdict from the rules of a file. It is refused only when some Disallow counts that is more
  specific than every Allow that counts, and let through only when some Allow counts or nothing does; rules that name
  the agent make those for everybody not count. The delay is the longest of the rules with a match, 0 without one.\<close>

theorem url_verdict:
  fixes user url
  assumes "RobotsTxt_of text = Some (rules, sitemap)"
  shows "\<exists>allowed delay. UrlAllowed user url rules = Some (allowed, delay)
     \<and> (\<not> allowed \<longrightarrow>
          (\<exists>r d. counts (c_str user) (robots_path url) rules r d \<and> d_type d = DisallowStatement
             \<and> (\<forall>r' a. counts (c_str user) (robots_path url) rules r' a \<and> d_type a = AllowStatement \<longrightarrow> rank a < rank d)))
     \<and> (allowed \<longrightarrow>
          (\<forall>r d. \<not> counts (c_str user) (robots_path url) rules r d)
          \<or> (\<exists>r a. counts (c_str user) (robots_path url) rules r a \<and> d_type a = AllowStatement))
     \<and> delay = Max (insert 0 {crawlDelay r | r. \<exists>d. meant (c_str user) (robots_path url) rules r d})"
proof -
  let ?hs = "hits (c_str user) (robots_path url) rules"
  let ?counts = "counts (c_str user) (robots_path url) rules"
  have fin: "\<forall>r \<in> set rules. finished_rule r" by (rule RobotsTxt_finished [OF assms])
  have "directive d" if "(d, u, r) \<in> set ?hs" for d u r
  proof -
    have "finished_rule r" "d \<in> set (Directives r)" using meant_hit [OF that] fin by (auto simp: meant_def)
    then show ?thesis unfolding finished_rule_def parsed_rule_def parsed_directive_def by blast
  qed
  then have "\<forall>h \<in> set ?hs. directive (fst h)" by (metis prod_cases3 fst_conv)
  then have ok: "best_ok (set ?hs) (foldl better None ?hs)" by (rule best_ok_foldl)
  let ?allowed = "case foldl better None ?hs of None \<Rightarrow> True | Some h \<Rightarrow> allows h"
  have "(\<lambda>(d, u, r). crawlDelay r) ` set ?hs = {crawlDelay r | r. \<exists>d. meant (c_str user) (robots_path url) rules r d}"
    (is "_ = ?D")
  proof -
    have "\<exists>d. meant (c_str user) (robots_path url) rules r d" if "(d', u, r) \<in> set ?hs" for d' u r
      using meant_hit [OF that] by blast
    moreover have "crawlDelay r \<in> (\<lambda>(d, u, r). crawlDelay r) ` set ?hs" if m: "meant (c_str user) (robots_path url) rules r d" for r d
      using hit_meant [OF m] by force
    ultimately show ?thesis by auto
  qed
  then have "UrlAllowed user url rules = Some (?allowed, Max (insert 0 ?D))" by (simp add: UrlAllowed_eq Let_def)
  moreover have "\<exists>r d. ?counts r d \<and> d_type d = DisallowStatement
      \<and> (\<forall>r' a. ?counts r' a \<and> d_type a = AllowStatement \<longrightarrow> rank a < rank d)" if "\<not> ?allowed"
    using that ok forbidden_counts [OF _ fin, of "c_str user" "robots_path url"] by (auto simp: best_ok_def split: option.splits)
  moreover have "(\<forall>r d. \<not> ?counts r d) \<or> (\<exists>r a. ?counts r a \<and> d_type a = AllowStatement)" if a: "?allowed"
  proof (cases "foldl better None ?hs")
    case None
    then have "set ?hs = {}" using ok by (simp add: best_ok_def)
    then show ?thesis using hit_counts by (fastforce simp: in_class_def)
  next
    case (Some h)
    obtain d u r where h: "h = (d, u, r)" by (cases h)
    have "(d, u, r) \<in> in_class (set ?hs)" using ok Some h by (simp add: best_ok_def)
    then have "?counts r d" by (rule counts_hit)
    moreover have "d_type d = AllowStatement" using a Some h by simp
    ultimately show ?thesis by blast
  qed
  ultimately show ?thesis by blast
qed

subsection \<open>Printing and reading\<close>

text \<open>A file of statements, their keywords in any case, and comments; what it means is read off line by line.\<close>

datatype Line = Statement StatementType string string | Comment string

definition keyword :: "StatementType \<Rightarrow> string" where
  "keyword type =
     (case type of
        UserAgentStatement \<Rightarrow> ''user-agent:'' | AllowStatement \<Rightarrow> ''allow:'' | DisallowStatement \<Rightarrow> ''disallow:''
      | CrawlDelayStatement \<Rightarrow> ''crawl-delay:'' | SitemapStatement \<Rightarrow> ''sitemap:'' | InvalidStatement \<Rightarrow> [])"

fun good_line :: "Line \<Rightarrow> bool" where
  "good_line (Statement type kw arg) \<longleftrightarrow> type \<noteq> InvalidStatement \<and> map ascii_lower kw = keyword type \<and> argument arg"
| "good_line (Comment t) \<longleftrightarrow> (\<forall>c \<in> set t. \<not> line_end c)"

fun print_line :: "Line \<Rightarrow> string" where
  "print_line (Statement type kw arg) = kw @ CHR '' '' # arg @ [newline]"
| "print_line (Comment t) = CHR ''#'' # t @ [newline]"

definition print_lines :: "Line list \<Rightarrow> string" where
  "print_lines ls = concat (map print_line ls)"

definition finish_rule :: "Rule \<Rightarrow> Rule" where
  "finish_rule r = r\<lparr>Directives := sort_directives (Directives r)\<rparr>"

fun interpret_lines :: "Line list \<Rightarrow> bool \<Rightarrow> Rule option \<Rightarrow> string list \<Rightarrow> Rule list \<Rightarrow> Rule list \<times> string list" where
  "interpret_lines [] in_agents rule sitemap rules = (rules @ (case rule of None \<Rightarrow> [] | Some r \<Rightarrow> [finish_rule r]), sitemap)"
| "interpret_lines (Comment t # ls) in_agents rule sitemap rules = interpret_lines ls in_agents rule sitemap rules"
| "interpret_lines (Statement type kw arg # ls) in_agents rule sitemap rules =
     (if type = SitemapStatement then interpret_lines ls in_agents rule (sitemap @ [arg]) rules
      else if type = UserAgentStatement
      then (case rule of
              None \<Rightarrow> interpret_lines ls True (Some (AddUserAgent arg empty_rule)) sitemap rules
            | Some r \<Rightarrow>
                if in_agents then interpret_lines ls True (Some (AddUserAgent arg r)) sitemap rules
                else interpret_lines ls True (Some (AddUserAgent arg empty_rule)) sitemap (rules @ [finish_rule r]))
      else if type = CrawlDelayStatement then interpret_lines ls False (map_option (AddCrawlDelay arg) rule) sitemap rules
      else interpret_lines ls False (map_option (AddDirective type arg) rule) sitemap rules)"

text \<open>A line that is printed is recognised.\<close>

lemma MatchKeyword_spelled: "map ascii_lower kw = k \<Longrightarrow> MatchKeyword k (kw @ r) = Some r"
  by (induction kw arbitrary: k) auto

lemma ascii_lower_others: "blank c \<or> line_end c \<or> c = CHR ''#'' \<Longrightarrow> ascii_lower c = c"
  by (auto simp: blank_def line_end_def ascii_lower_def carriage_return_def newline_def code_def)

lemma keyword_head:
  assumes "type \<noteq> InvalidStatement" and "map ascii_lower kw = keyword type"
  shows "kw \<noteq> []" and "ascii_lower (hd kw) = hd (keyword type)" and "\<not> blank (hd kw)" and "\<not> line_end (hd kw)"
    and "hd kw \<noteq> CHR ''#''"
proof -
  show ne: "kw \<noteq> []" using assms by (cases type) (auto simp: keyword_def)
  show h: "ascii_lower (hd kw) = hd (keyword type)" using ne assms(2) by (metis list.map_sel(1))
  have "hd (keyword type) \<in> {CHR ''u'', CHR ''a'', CHR ''d'', CHR ''c'', CHR ''s''}"
    using assms(1) by (cases type) (simp_all add: keyword_def)
  then have no: "\<not> (blank c \<or> line_end c \<or> c = CHR ''#'')" if "c = hd (keyword type)" for c
    using that by (auto simp: blank_def line_end_def carriage_return_def newline_def char_of_eq_iff)
  then show "\<not> blank (hd kw)" "\<not> line_end (hd kw)" "hd kw \<noteq> CHR ''#''" using ascii_lower_others [of "hd kw"] h by metis+
qed

lemma Identify_spelled:
  assumes "type \<noteq> InvalidStatement" and "map ascii_lower kw = keyword type"
  shows "Identify (kw @ r) = (type, r)"
  using assms keyword_head(1,2) [OF assms] MatchKeyword_spelled [OF assms(2), of r]
  by (cases type) (simp_all add: Identify_def keyword_def)

lemma not_blank_ends: "\<not> blank newline" "\<not> blank carriage_return" "line_end newline"
  by (simp_all add: blank_def line_end_def newline_def carriage_return_def char_of_eq_iff)

lemma plain_chars: "\<not> blank (CHR ''#'')" "\<not> line_end (CHR '' '')" "\<not> line_end (CHR ''#'')" "CHR ''#'' \<noteq> newline"
  by code_simp+

abbreviation arg_text :: "string \<Rightarrow> Line list \<Rightarrow> string" where
  "arg_text arg ls \<equiv> CHR '' '' # arg @ newline # print_lines ls"

lemma print_lines_simps [simp]:
  "print_lines [] = []"
  "print_lines (Statement type kw arg # ls) = kw @ arg_text arg ls"
  "print_lines (Comment t # ls) = CHR ''#'' # t @ newline # print_lines ls"
  by (simp_all add: print_lines_def)

lemma print_lines_head:
  assumes "\<forall>l \<in> set ls. good_line l"
  shows "print_lines ls = [] \<longleftrightarrow> ls = []" and "print_lines ls \<noteq> [] \<Longrightarrow> hd (print_lines ls) \<noteq> newline"
proof -
  have "print_lines ls \<noteq> [] \<and> hd (print_lines ls) \<noteq> newline" if "ls = l # ls'" for l ls'
  proof (cases l)
    case (Statement type kw arg)
    then show ?thesis using assms that keyword_head [of type kw] not_blank_ends(3) by auto
  qed (use that plain_chars(4) in simp)
  then show "print_lines ls = [] \<longleftrightarrow> ls = []" "print_lines ls \<noteq> [] \<Longrightarrow> hd (print_lines ls) \<noteq> newline"
    by (cases ls; auto)+
qed

lemma NextLine_at_end:
  assumes "\<forall>l \<in> set ls. good_line l" and "\<forall>c \<in> set t. \<not> line_end c"
  shows "NextLine (t @ newline # print_lines ls) = print_lines ls"
  using print_lines_head [OF assms(1)] assms(2) not_blank_ends(3) by (auto simp: NextLine_def Let_def)

lemma GetArgument_text:
  assumes "argument arg"
  shows "GetArgument (arg_text arg ls) = (arg, newline # print_lines ls)"
proof -
  have b: "blank (CHR '' '')" by (simp add: blank_def)
  have arg: "\<forall>c \<in> set arg. \<not> blank c \<and> \<not> line_end c" "nul \<notin> set arg" using assms by (auto simp: argument_def)
  have "dropWhile blank (arg_text arg ls) = arg @ newline # print_lines ls"
    using arg(1) not_blank_ends(1) b by (cases arg) auto
  then show ?thesis using arg not_blank_ends(3) by (simp add: GetArgument_def Let_def c_str_id)
qed

lemma NextLine_arg_text:
  "argument arg \<Longrightarrow> \<forall>l \<in> set ls. good_line l \<Longrightarrow> NextLine (arg_text arg ls) = print_lines ls"
  using NextLine_at_end [of ls "CHR '' '' # arg"] plain_chars(2) by (simp add: argument_def)

lemma GetStatement_lines:
  assumes "\<forall>l \<in> set (l # ls). good_line l"
  shows "GetStatement (print_lines (l # ls)) sitemap =
     (case l of
        Comment t \<Rightarrow> GetStatement (print_lines ls) sitemap
      | Statement type kw arg \<Rightarrow>
          if type = SitemapStatement then GetStatement (print_lines ls) (sitemap @ [arg]) else (type, arg_text arg ls, sitemap))"
proof (cases l)
  case (Comment t)
  have "NextLine (print_lines (l # ls)) = print_lines ls"
    using NextLine_at_end [of ls "CHR ''#'' # t"] assms Comment plain_chars(3) by simp
  moreover have "dropWhile blank (print_lines (l # ls)) = print_lines (l # ls)" using plain_chars(1) Comment by simp
  ultimately show ?thesis
    using GetStatement_skip [of "print_lines (l # ls)" "print_lines (l # ls)" sitemap] Comment plain_chars(3) by simp
next
  case (Statement type kw arg)
  have kw: "type \<noteq> InvalidStatement" "map ascii_lower kw = keyword type" and arg: "argument arg"
    and ls: "\<forall>l \<in> set ls. good_line l" using assms Statement by auto
  note h = keyword_head [OF kw]
  let ?p = "kw @ arg_text arg ls"
  have ne: "?p \<noteq> []" "hd ?p = hd kw" using h(1) by auto
  have d: "?p = dropWhile blank ?p" using h(1,3) by (cases kw) auto
  have no: "\<not> (?p = [] \<or> line_end (hd ?p) \<or> hd ?p = CHR ''#'')" using h ne by simp
  note eq = GetStatement_line [OF ne(1) d no Identify_spelled [OF kw], of sitemap]
  moreover have "NextLine (newline # print_lines ls) = print_lines ls" using NextLine_at_end [OF ls, of "[]"] by simp
  ultimately show ?thesis using kw(1) arg Statement by (simp add: GetArgument_text)
qed

text \<open>What is left to do while the directives of a rule are read, and while its agents are.\<close>

definition directives_cont :: "StatementType \<Rightarrow> string \<Rightarrow> string list \<Rightarrow> Rule \<Rightarrow> Rule list \<Rightarrow> Rule list \<times> string list" where
  "directives_cont type p sitemap rule rules =
     (let (type, p, sitemap, rule) = collect_directives type p sitemap rule
      in rules_loop type p sitemap (rules @ [finish_rule rule]))"

definition agents_cont :: "StatementType \<Rightarrow> string \<Rightarrow> string list \<Rightarrow> Rule \<Rightarrow> Rule list \<Rightarrow> Rule list \<times> string list" where
  "agents_cont type p sitemap rule rules =
     (if type = UserAgentStatement
      then let (type, p, sitemap, rule) = collect_agents p sitemap rule in directives_cont type p sitemap rule rules
      else directives_cont type p sitemap rule rules)"

lemma rules_loop_cont: "rules_loop UserAgentStatement p sitemap rules = agents_cont UserAgentStatement p sitemap empty_rule rules"
  by (subst rules_loop.simps) (simp add: agents_cont_def directives_cont_def finish_rule_def case_prod_beta Let_def)

lemma directives_cont_stop:
  "type \<notin> {AllowStatement, DisallowStatement, CrawlDelayStatement} \<Longrightarrow>
     directives_cont type p sitemap rule rules = rules_loop type p sitemap (rules @ [finish_rule rule])"
  by (simp add: directives_cont_def collect_directives.simps [of type])

lemma rules_loop_stop: "type \<noteq> UserAgentStatement \<Longrightarrow> rules_loop type p sitemap rules = (rules, sitemap)"
  by (simp add: rules_loop.simps)

lemma directives_cont_step:
  assumes "type = AllowStatement \<or> type = DisallowStatement \<or> type = CrawlDelayStatement"
    and "argument arg" and "\<forall>l \<in> set ls. good_line l"
  shows "directives_cont type (arg_text arg ls) sitemap rule rules =
     (let (type', p, sitemap') = GetStatement (print_lines ls) sitemap
      in directives_cont type' p sitemap' (if type = CrawlDelayStatement then AddCrawlDelay arg rule else AddDirective type arg rule) rules)"
proof -
  have n: "NextLine (newline # print_lines ls) = print_lines ls" using NextLine_at_end [OF assms(3), of "[]"] by simp
  show ?thesis
  proof (cases "ls = []")
    case True
    then have "directives_cont type (arg_text arg ls) sitemap rule rules =
      rules_loop InvalidStatement [] sitemap (rules @ [finish_rule (if type = CrawlDelayStatement then AddCrawlDelay arg rule else AddDirective type arg rule)])"
      using assms(1) GetArgument_text [OF assms(2), of ls] n by (simp add: directives_cont_def collect_directives.simps [of type])
    then show ?thesis using True by (simp add: directives_cont_stop)
  next
    case False
    then have "print_lines ls \<noteq> []" using print_lines_head(1) [OF assms(3)] by simp
    then show ?thesis using assms(1) GetArgument_text [OF assms(2), of ls] n
      by (simp add: directives_cont_def collect_directives.simps [of type] Let_def case_prod_beta)
  qed
qed

lemma agents_cont_step:
  assumes "argument arg" and "\<forall>l \<in> set ls. good_line l"
  shows "agents_cont UserAgentStatement (arg_text arg ls) sitemap rule rules =
     (let (type, p, sitemap') = GetStatement (print_lines ls) sitemap in agents_cont type p sitemap' (AddUserAgent arg rule) rules)"
proof -
  have n: "NextLine (newline # print_lines ls) = print_lines ls" using NextLine_at_end [OF assms(2), of "[]"] by simp
  show ?thesis
  proof (cases "ls = []")
    case True
    then show ?thesis using GetArgument_text [OF assms(1), of ls] n
      by (subst agents_cont_def, subst collect_agents.simps) (simp add: agents_cont_def [of InvalidStatement])
  next
    case False
    then have "print_lines ls \<noteq> []" using print_lines_head(1) [OF assms(2)] by simp
    then show ?thesis using GetArgument_text [OF assms(1), of ls] n
      by (simp add: agents_cont_def collect_agents.simps [of "arg_text arg ls"] Let_def case_prod_beta)
  qed
qed

lemma cont_interpret:
  assumes "\<forall>l \<in> set ls. good_line l"
  shows "(let (type, p, sitemap') = GetStatement (print_lines ls) sitemap in directives_cont type p sitemap' rule rules)
       = interpret_lines ls False (Some rule) sitemap rules"
    and "(let (type, p, sitemap') = GetStatement (print_lines ls) sitemap in agents_cont type p sitemap' rule rules)
       = interpret_lines ls True (Some rule) sitemap rules"
  using assms
proof (induction ls arbitrary: sitemap rule rules)
  case Nil
  {
    case 1
    then show ?case by (simp add: directives_cont_stop rules_loop_stop)
  next
    case 2
    then show ?case by (simp add: agents_cont_def directives_cont_stop rules_loop_stop)
  }
next
  case (Cons l ls)
  {
    case 1
    note get = GetStatement_lines [OF 1, of sitemap]
    have ls: "\<forall>l \<in> set ls. good_line l" using 1 by simp
    show ?case
    proof (cases l)
      case (Comment t)
      then show ?thesis using get Cons.IH(1) [OF ls] by simp
    next
      case (Statement type kw arg)
      then have "type \<noteq> InvalidStatement" "argument arg" using 1 by auto
      then show ?thesis using get Statement Cons.IH [OF ls]
          directives_cont_step [OF _ _ ls, of type arg sitemap rule rules] agents_cont_step [OF _ ls, of arg sitemap empty_rule]
        by (cases type) (simp_all add: directives_cont_stop rules_loop_cont)
    qed
  next
    case 2
    note get = GetStatement_lines [OF 2, of sitemap]
    have ls: "\<forall>l \<in> set ls. good_line l" using 2 by simp
    show ?case
    proof (cases l)
      case (Comment t)
      then show ?thesis using get Cons.IH(2) [OF ls] by simp
    next
      case (Statement type kw arg)
      then have "type \<noteq> InvalidStatement" "argument arg" using 2 by auto
      then show ?thesis using get Statement Cons.IH [OF ls]
          directives_cont_step [OF _ _ ls, of type arg sitemap rule rules] agents_cont_step [OF _ ls, of arg sitemap rule rules]
        by (cases type) (simp_all add: agents_cont_def [of AllowStatement] agents_cont_def [of DisallowStatement]
            agents_cont_def [of CrawlDelayStatement])
    qed
  }
qed

definition first_cont :: "StatementType \<times> string \<times> string list \<Rightarrow> StatementType option \<times> string \<times> string list" where
  "first_cont x = (let (type, q, sitemap) = x
     in if type = UserAgentStatement then (Some type, q, sitemap) else first_agent (Some type) (NextLine q) sitemap)"

lemma first_agent_cont: "p \<noteq> [] \<Longrightarrow> first_agent type p sitemap = first_cont (GetStatement p sitemap)"
  by (subst first_agent.simps) (simp add: first_cont_def case_prod_beta Let_def)

lemma first_interpret:
  assumes "\<forall>l \<in> set ls. good_line l"
  shows "(let (type, p, sitemap') = first_cont (GetStatement (print_lines ls) sitemap)
          in map_option (\<lambda>type. rules_loop type p sitemap' []) type) = Some (interpret_lines ls in_agents None sitemap [])"
  using assms
proof (induction ls arbitrary: sitemap in_agents)
  case Nil
  have "NextLine [] = []" by (simp add: NextLine_def Let_def)
  then show ?case by (simp add: first_cont_def first_agent.simps rules_loop_stop)
next
  case (Cons l ls)
  note get = GetStatement_lines [OF Cons.prems, of sitemap]
  have ls: "\<forall>l \<in> set ls. good_line l" using Cons.prems by simp
  show ?case
  proof (cases l)
    case (Comment t)
    then show ?thesis using get Cons.IH [OF ls] by simp
  next
    case (Statement type kw arg)
    then have st: "type \<noteq> InvalidStatement" "argument arg" using Cons.prems by auto
    consider "type = SitemapStatement" | (agent) "type = UserAgentStatement"
      | (other) "type \<noteq> SitemapStatement" "type \<noteq> UserAgentStatement" by blast
    then show ?thesis
    proof cases
      case agent
      then show ?thesis using get Statement st cont_interpret(2) [OF ls] agents_cont_step [OF st(2) ls, of sitemap empty_rule]
        by (simp add: first_cont_def rules_loop_cont)
    next
      case other
      have "first_cont (GetStatement (print_lines (l # ls)) sitemap) = first_agent (Some type) (print_lines ls) sitemap"
        using get Statement other by (simp add: first_cont_def NextLine_arg_text [OF st(2) ls])
      moreover have "(let (type, p, sitemap') = first_agent (Some type) (print_lines ls) sitemap
          in map_option (\<lambda>type. rules_loop type p sitemap' []) type) = Some (interpret_lines ls False None sitemap [])"
      proof (cases "ls = []")
        case True
        then show ?thesis using other by (simp add: first_agent.simps rules_loop_stop)
      next
        case False
        then have "print_lines ls \<noteq> []" using print_lines_head(1) [OF ls] by simp
        then show ?thesis using Cons.IH [OF ls] by (simp add: first_agent_cont)
      qed
      ultimately show ?thesis using Statement other by simp
    qed (use get Statement Cons.IH [OF ls] in simp)
  qed
qed

lemma read_printed:
  assumes "\<forall>l \<in> set ls. good_line l" and "ls \<noteq> []" and "bom = [] \<or> bom = Utf8BOMString"
  shows "RobotsTxt_of (bom @ print_lines ls) = Some (interpret_lines ls False None [] [])"
proof -
  have b: "length Utf8BOMString = 3" "hd Utf8BOMString = char_of (239 :: nat)" "Utf8BOMString \<noteq> []"
    by (simp_all add: Utf8BOMString_def)
  have ne: "print_lines ls \<noteq> []" using print_lines_head(1) [OF assms(1)] assms(2) by simp
  have "hd (print_lines ls) \<noteq> char_of (239 :: nat)"
  proof (cases ls)
    case (Cons l ls')
    show ?thesis
    proof (cases l)
      case (Statement type kw arg)
      then have kw: "type \<noteq> InvalidStatement" "map ascii_lower kw = keyword type" using assms(1) Cons by auto
      have "ascii_lower (hd kw) \<noteq> ascii_lower (char_of (239 :: nat))"
        using keyword_head(2) [OF kw] kw(1) by (cases type; simp add: keyword_def; code_simp)
      then show ?thesis using Statement Cons keyword_head(1) [OF kw] by auto
    next
      case (Comment t)
      have "CHR ''#'' \<noteq> char_of (239 :: nat)" by code_simp
      then show ?thesis using Comment Cons by simp
    qed
  qed (use assms(2) in simp)
  then have "take 3 (print_lines ls) \<noteq> Utf8BOMString" using b(2) ne by (metis hd_take zero_less_numeral)
  then have "(if take 3 (bom @ print_lines ls) = Utf8BOMString then drop 3 (bom @ print_lines ls) else bom @ print_lines ls)
      = print_lines ls" using assms(3) b(1) by auto
  then show ?thesis using first_interpret [OF assms(1), of "[]" False] ne by (simp add: RobotsTxt_of_def first_agent_cont)
qed

text \<open>C11. Reading a printed file gives what its lines say, with or without a byte order mark: the agents up to the first
  directive form a group, the next agent opens another, what stands before the first agent is ignored, sitemaps are
  collected anywhere, comments are skipped, keywords are read in any case.\<close>

theorem RobotsTxt_of_printed:
  assumes "\<forall>l \<in> set ls. good_line l" and "ls \<noteq> []"
  shows "RobotsTxt_of (print_lines ls) = Some (interpret_lines ls False None [] [])
     \<and> RobotsTxt_of (Utf8BOMString @ print_lines ls) = Some (interpret_lines ls False None [] [])"
  using read_printed [OF assms, of "[]"] read_printed [OF assms, of Utf8BOMString] by simp

definition example_lines :: "Line list" where
  "example_lines =
     [Statement DisallowStatement ''Disallow:'' ''/x'', Statement UserAgentStatement ''User-agent:'' ''*'',
      Statement DisallowStatement ''Disallow:'' ''/a'', Statement CrawlDelayStatement ''Crawl-delay:'' ''7'', Comment '' note'',
      Statement UserAgentStatement ''user-AGENT:'' ''getssl'', Statement AllowStatement ''Allow:'' ''/a'',
      Statement DisallowStatement ''Disallow:'' ''/a/b'', Statement SitemapStatement ''Sitemap:'' ''http://x/s'']"

lemma example_good: "\<forall>l \<in> set example_lines. good_line l"
  by code_simp

definition example_rules :: "Rule list" where
  "example_rules =
     [\<lparr>UserAgents = [\<lparr>agent_name = ''*'', matchAny = True\<rparr>],
       Directives = [\<lparr>d_type = DisallowStatement, d_wildcard = \<lparr>wildcard = ''a'', literalBytes = 1, endsInDollarSign = False\<rparr>\<rparr>],
       crawlDelay = 7\<rparr>,
      \<lparr>UserAgents = [\<lparr>agent_name = ''getssl'', matchAny = False\<rparr>],
       Directives = [\<lparr>d_type = DisallowStatement, d_wildcard = \<lparr>wildcard = ''a/b'', literalBytes = 3, endsInDollarSign = False\<rparr>\<rparr>,
         \<lparr>d_type = AllowStatement, d_wildcard = \<lparr>wildcard = ''a'', literalBytes = 1, endsInDollarSign = False\<rparr>\<rparr>],
       crawlDelay = 0\<rparr>]"

lemma example_interpreted: "interpret_lines example_lines False None [] [] = (example_rules, [''http://x/s''])"
  by code_simp

theorem RobotsTxt_of_printed_witness:
  "RobotsTxt_of (print_lines example_lines) = Some (example_rules, [''http://x/s''])"
  using RobotsTxt_of_printed [OF example_good] example_interpreted by (simp add: example_lines_def)

lemma example_verdicts:
  "UrlAllowed ''LinuxGetSsl'' ''http://x/a/c'' example_rules = Some (True, 7)"
  "UrlAllowed ''LinuxGetSsl'' ''http://x/a/b'' example_rules = Some (False, 7)"
  unfolding UrlAllowed_eq by code_simp+

lemma example_read: "RobotsTxt_of (print_lines example_lines) = Some (example_rules, [''http://x/s''])"
  using read_printed [OF example_good, of "[]"] example_interpreted by (simp add: example_lines_def)

theorem url_verdict_witness:
  "UrlAllowed ''LinuxGetSsl'' ''http://x/a/b'' example_rules = Some (False, 7)
     \<and> (\<exists>r d. counts (c_str ''LinuxGetSsl'') (robots_path ''http://x/a/b'') example_rules r d \<and> d_type d = DisallowStatement)
     \<and> (\<exists>r a. counts (c_str ''LinuxGetSsl'') (robots_path ''http://x/a/c'') example_rules r a \<and> d_type a = AllowStatement)"
proof -
  have "\<exists>r d. counts (c_str ''LinuxGetSsl'') (robots_path ''http://x/a/b'') example_rules r d \<and> d_type d = DisallowStatement"
    using url_verdict [OF example_read, of "''LinuxGetSsl''" "''http://x/a/b''"] example_verdicts(2) by auto
  moreover have "\<exists>r d. meant (c_str ''LinuxGetSsl'') (robots_path ''http://x/a/c'') example_rules r d"
  proof (rule ccontr)
    assume "\<not> ?thesis"
    then show False using url_verdict [OF example_read, of "''LinuxGetSsl''" "''http://x/a/c''"] example_verdicts(1) by simp
  qed
  then have "\<exists>r d. counts (c_str ''LinuxGetSsl'') (robots_path ''http://x/a/c'') example_rules r d" unfolding counts_def by blast
  then have "\<exists>r a. counts (c_str ''LinuxGetSsl'') (robots_path ''http://x/a/c'') example_rules r a \<and> d_type a = AllowStatement"
    using url_verdict [OF example_read, of "''LinuxGetSsl''" "''http://x/a/c''"] example_verdicts(1) by auto
  ultimately show ?thesis using example_verdicts(2) by blast
qed

theorem sort_directives_spec_witness:
  "\<exists>a b. sorted_wrt before (sort_directives [a, b]) \<and> mset (sort_directives [a, b]) = mset [a, b] \<and> sort_directives [a, b] = [b, a]"
proof -
  let ?a = "\<lparr>d_type = DisallowStatement, d_wildcard = Wildcard_of ''/a/b''\<rparr>"
  let ?b = "\<lparr>d_type = AllowStatement, d_wildcard = Wildcard_of ''/a''\<rparr>"
  have "sort_directives [?a, ?b] = [?b, ?a]" by code_simp
  moreover have "sorted_wrt before (sort_directives [?a, ?b]) \<and> mset (sort_directives [?a, ?b]) = mset [?a, ?b]"
    using sort_directives_spec [of "[?a, ?b]"] by simp
  ultimately show ?thesis by blast
qed

lemma Wildcard_of_ok:
  assumes "argument arg"
  shows "nul \<notin> set (wildcard (Wildcard_of arg))"
    and "literalBytes (Wildcard_of arg) = length (filter (\<lambda>c. c \<noteq> CHR ''*'') (wildcard (Wildcard_of arg)))"
proof -
  let ?p = "if arg \<noteq> [] \<and> hd arg = CHR ''/'' then tl arg else arg"
  let ?w = "if CHR ''%'' \<in> set ?p then UrlDecode ?p else ?p"
  have "nul \<notin> set ?p" using assms by (auto simp: argument_def dest: list.set_sel(2))
  moreover have "nul \<notin> set (UrlDecode s)" for s by (auto simp: UrlDecode_def c_str_def dest: set_takeWhileD)
  ultimately have "nul \<notin> set ?w" by auto
  then show "nul \<notin> set (wildcard (Wildcard_of arg))"
    by (auto simp: Wildcard_of_def Let_def dest: in_set_butlastD)
qed (simp add: Wildcard_of_def Let_def)

text \<open>C36. The shape of what is read, whatever the file holds: every group has an agent, names are single words and match anybody
  exactly when they are a star, directives are Allow or Disallow with a C string that has as many literal bytes as noted,
  the delay is an \<open>int\<close> that is not negative, and the directives stand in their order.\<close>

theorem parsed_rules_typed:
  assumes "RobotsTxt_of text = Some (rules, sitemap)" and "r \<in> set rules"
  shows "UserAgents r \<noteq> [] \<and> (\<forall>u \<in> set (UserAgents r). argument (agent_name u) \<and> (matchAny u \<longleftrightarrow> agent_name u = ''*''))
     \<and> (\<forall>d \<in> set (Directives r). d_type d \<in> {AllowStatement, DisallowStatement} \<and> nul \<notin> set (wildcard (d_wildcard d))
          \<and> literalBytes (d_wildcard d) = length (filter (\<lambda>c. c \<noteq> CHR ''*'') (wildcard (d_wildcard d))))
     \<and> 0 \<le> crawlDelay r \<and> crawlDelay r < 2 ^ 31 \<and> sorted_wrt before (Directives r)"
proof -
  have r: "parsed_rule r" "UserAgents r \<noteq> []" "sorted_wrt before (Directives r)"
    using RobotsTxt_finished [OF assms(1)] assms(2) by (auto simp: finished_rule_def)
  have "d_type d \<in> {AllowStatement, DisallowStatement} \<and> nul \<notin> set (wildcard (d_wildcard d))
      \<and> literalBytes (d_wildcard d) = length (filter (\<lambda>c. c \<noteq> CHR ''*'') (wildcard (d_wildcard d)))"
    if "d \<in> set (Directives r)" for d
  proof -
    have "parsed_directive d" using r(1) that by (simp add: parsed_rule_def)
    then obtain arg where "directive d" "argument arg" "d_wildcard d = Wildcard_of arg" by (auto simp: parsed_directive_def)
    then show ?thesis using Wildcard_of_ok [of arg] by simp
  qed
  then show ?thesis using r by (simp add: parsed_rule_def parsed_agent_def)
qed

theorem parsed_rules_typed_witness:
  "list_all (\<lambda>r. UserAgents r \<noteq> [] \<and> 0 \<le> crawlDelay r \<and> sorted_wrt before (Directives r)) example_rules"
  unfolding list_all_iff using parsed_rules_typed [OF example_read] by blast

text \<open>C37. A file that closes the whole site closes nothing: the initial slash is cut off, which leaves an
  empty pattern, and an empty pattern matches no path.\<close>

theorem block_everything_ignored:
  "\<exists>rules. RobotsTxt_of (print_lines [Statement UserAgentStatement ''User-agent:'' ''*'', Statement DisallowStatement ''Disallow:'' ''/'']) = Some (rules, [])
     \<and> UrlAllowed user url rules = Some (True, 0)"
proof -
  let ?ls = "[Statement UserAgentStatement ''User-agent:'' ''*'', Statement DisallowStatement ''Disallow:'' ''/'']"
  let ?d = "\<lparr>d_type = DisallowStatement, d_wildcard = \<lparr>wildcard = [], literalBytes = 0, endsInDollarSign = False\<rparr>\<rparr>"
  let ?r = "\<lparr>UserAgents = [\<lparr>agent_name = ''*'', matchAny = True\<rparr>], Directives = [?d], crawlDelay = 0\<rparr>"
  have "interpret_lines ?ls False None [] [] = ([?r], [])" "\<forall>l \<in> set ?ls. good_line l" by code_simp+
  then have "RobotsTxt_of (print_lines ?ls) = Some ([?r], [])" using read_printed [of ?ls "[]"] by simp
  moreover have "hits (c_str user) (robots_path url) [?r] = []"
    by (simp add: hits_def map_filter_simps rule_hit_def directive_matches_def split: option.splits)
  then have "UrlAllowed user url [?r] = Some (True, 0)" by (simp add: UrlAllowed_eq)
  ultimately show ?thesis by blast
qed

text \<open>The order of two lines decides, as an Allow goes before a Disallow that is more specific when it comes later in
  the file.\<close>

theorem line_order_decides:
  "\<exists>r1 r2. RobotsTxt_of (print_lines [Statement UserAgentStatement ''User-agent:'' ''*'', Statement AllowStatement ''Allow:'' ''/a'',
         Statement DisallowStatement ''Disallow:'' ''/a/b'']) = Some (r1, [])
     \<and> RobotsTxt_of (print_lines [Statement UserAgentStatement ''User-agent:'' ''*'', Statement DisallowStatement ''Disallow:'' ''/a/b'',
         Statement AllowStatement ''Allow:'' ''/a'']) = Some (r2, [])
     \<and> UrlAllowed ''LinuxGetSsl'' ''http://x/a/b/c'' r1 = Some (False, 0)
     \<and> UrlAllowed ''LinuxGetSsl'' ''http://x/a/b/c'' r2 = Some (True, 0)"
proof -
  let ?agent = "Statement UserAgentStatement ''User-agent:'' ''*''"
  let ?a = "Statement AllowStatement ''Allow:'' ''/a''" let ?b = "Statement DisallowStatement ''Disallow:'' ''/a/b''"
  let ?allow = "\<lparr>d_type = AllowStatement, d_wildcard = \<lparr>wildcard = ''a'', literalBytes = 1, endsInDollarSign = False\<rparr>\<rparr>"
  let ?forbid = "\<lparr>d_type = DisallowStatement, d_wildcard = \<lparr>wildcard = ''a/b'', literalBytes = 3, endsInDollarSign = False\<rparr>\<rparr>"
  let ?r = "\<lambda>ds. \<lparr>UserAgents = [\<lparr>agent_name = ''*'', matchAny = True\<rparr>], Directives = ds, crawlDelay = 0\<rparr>"
  have "\<forall>l \<in> {?agent, ?a, ?b}. good_line l"
    "interpret_lines [?agent, ?a, ?b] False None [] [] = ([?r [?forbid, ?allow]], [])"
    "interpret_lines [?agent, ?b, ?a] False None [] [] = ([?r [?allow, ?forbid]], [])" by code_simp+
  then have "RobotsTxt_of (print_lines [?agent, ?a, ?b]) = Some ([?r [?forbid, ?allow]], [])"
    "RobotsTxt_of (print_lines [?agent, ?b, ?a]) = Some ([?r [?allow, ?forbid]], [])"
    using read_printed [of "[?agent, ?a, ?b]" "[]"] read_printed [of "[?agent, ?b, ?a]" "[]"] by simp_all
  moreover have "UrlAllowed ''LinuxGetSsl'' ''http://x/a/b/c'' [?r [?forbid, ?allow]] = Some (False, 0)"
    "UrlAllowed ''LinuxGetSsl'' ''http://x/a/b/c'' [?r [?allow, ?forbid]] = Some (True, 0)"
    unfolding UrlAllowed_eq by code_simp+
  ultimately show ?thesis by blast
qed

end
