(* ===== verification/HtmlTags.thy ===== *)
theory HtmlTags
  imports Strings
begin

text \<open>
  The names of the HTML tags that the parser knows, \<open>src/parser/HtmlTags.h\<close>, and the binary search for one,
  \<open>HtmlTags.cpp\<close>. A name is the rest of the text from its first character on, with its length; the comparison may look
  at the characters behind the name, and finds a zero byte behind the text.
\<close>

datatype DesiredAction = OrdinaryText | Title | Comment | Discard | DiscardSection | Anchor | Base | Embed

definition TagsRecognized :: "(string \<times> DesiredAction) list" where
  "TagsRecognized =
     [(''!--'', Comment), (''!doctype'', Discard), (''a'', Anchor), (''abbr'', Discard), (''acronym'', Discard),
      (''address'', Discard), (''applet'', Discard), (''area'', Discard), (''article'', Discard),
      (''aside'', Discard), (''audio'', Discard), (''b'', Discard), (''base'', Base), (''basefont'', Discard),
      (''bdi'', Discard), (''bdo'', Discard), (''bgsound'', Discard), (''big'', Discard), (''blink'', Discard),
      (''blockquote'', Discard), (''body'', Discard), (''br'', Discard), (''button'', Discard), (''canvas'', Discard),
      (''caption'', Discard), (''center'', Discard), (''cite'', Discard), (''code'', Discard), (''col'', Discard),
      (''colgroup'', Discard), (''content'', Discard), (''data'', Discard), (''datalist'', Discard),
      (''dd'', Discard), (''del'', Discard), (''details'', Discard), (''dfn'', Discard), (''dialog'', Discard),
      (''dir'', Discard), (''div'', Discard), (''dl'', Discard), (''dt'', Discard), (''em'', Discard),
      (''embed'', Embed), (''fieldset'', Discard), (''figcaption'', Discard), (''figure'', Discard),
      (''font'', Discard), (''footer'', Discard), (''form'', Discard), (''frame'', Discard), (''frameset'', Discard),
      (''h1'', Discard), (''h2'', Discard), (''h3'', Discard), (''h4'', Discard), (''h5'', Discard),
      (''h6'', Discard), (''head'', Discard), (''header'', Discard), (''hgroup'', Discard), (''hr'', Discard),
      (''html'', Discard), (''i'', Discard), (''iframe'', Discard), (''img'', Discard), (''input'', Discard),
      (''ins'', Discard), (''isindex'', Discard), (''kbd'', Discard), (''keygen'', Discard), (''label'', Discard),
      (''legend'', Discard), (''li'', Discard), (''link'', Discard), (''listing'', Discard), (''main'', Discard),
      (''map'', Discard), (''mark'', Discard), (''marquee'', Discard), (''menu'', Discard), (''menuitem'', Discard),
      (''meta'', Discard), (''meter'', Discard), (''nav'', Discard), (''nobr'', Discard), (''noframes'', Discard),
      (''noscript'', Discard), (''object'', Discard), (''ol'', Discard), (''optgroup'', Discard),
      (''option'', Discard), (''output'', Discard), (''p'', Discard), (''param'', Discard), (''picture'', Discard),
      (''plaintext'', Discard), (''pre'', Discard), (''progress'', Discard), (''q'', Discard), (''rp'', Discard),
      (''rt'', Discard), (''rtc'', Discard), (''ruby'', Discard), (''s'', Discard), (''samp'', Discard),
      (''script'', DiscardSection), (''section'', Discard), (''select'', Discard), (''shadow'', Discard),
      (''slot'', Discard), (''small'', Discard), (''source'', Discard), (''spacer'', Discard), (''span'', Discard),
      (''strike'', Discard), (''strong'', Discard), (''style'', DiscardSection), (''sub'', Discard),
      (''summary'', Discard), (''sup'', Discard), (''svg'', DiscardSection), (''table'', Discard),
      (''tbody'', Discard), (''td'', Discard), (''template'', Discard), (''textarea'', Discard), (''tfoot'', Discard),
      (''th'', Discard), (''thead'', Discard), (''time'', Discard), (''title'', Title), (''tr'', Discard),
      (''track'', Discard), (''tt'', Discard), (''u'', Discard), (''ul'', Discard), (''var'', Discard),
      (''video'', Discard), (''wbr'', Discard), (''xmp'', Discard)]"

definition NumberOfTags :: int where
  "NumberOfTags = int (length TagsRecognized)"

text \<open>The character a pointer points at, and the comparison of the C library with the case folded.\<close>

definition at_ptr :: "string \<Rightarrow> nat" where
  "at_ptr s = (case s of [] \<Rightarrow> 0 | c # s' \<Rightarrow> code (toLowerAscii c))"

fun strncasecmp :: "nat \<Rightarrow> string \<Rightarrow> string \<Rightarrow> int" where
  "strncasecmp 0 s t = 0"
| "strncasecmp (Suc n) s t =
     (if at_ptr s \<noteq> at_ptr t then int (at_ptr s) - int (at_ptr t)
      else if at_ptr s = 0 then 0 else strncasecmp n (tl s) (tl t))"

function lookup_loop :: "string \<Rightarrow> nat \<Rightarrow> int \<Rightarrow> int \<Rightarrow> DesiredAction" where
  "lookup_loop name len left right =
     (if left \<le> right
      then let mid = (right + left) div 2;
               (tag, action) = TagsRecognized ! nat mid;
               compare = strncasecmp (max len (length tag)) name tag
           in if compare = 0 then action
              else if compare < 0 then lookup_loop name len left (mid - 1) else lookup_loop name len (mid + 1) right
      else OrdinaryText)"
  by pat_completeness auto
termination
  by (relation "measure (\<lambda>(name, len, left, right). nat (right - left + 1))") auto

declare lookup_loop.simps [simp del]

definition LookupPossibleTag :: "string \<Rightarrow> nat \<Rightarrow> DesiredAction" where
  "LookupPossibleTag name len = (if len > 10 then OrdinaryText else lookup_loop name len 0 (NumberOfTags - 1))"

subsection \<open>The search finds exactly the names of the table\<close>

text \<open>What ends a name: white space, \<open>>\<close> or \<open>/\<close>, or the end of the text.\<close>

definition name_end :: "char \<Rightarrow> bool" where
  "name_end c \<longleftrightarrow> isSpace c \<or> c = CHR ''>'' \<or> c = CHR ''/''"

definition tag_char :: "char \<Rightarrow> bool" where
  "tag_char c \<longleftrightarrow> \<not> name_end c \<and> toLowerAscii c = c \<and> code c \<noteq> 0"

text \<open>The table: its order, its characters, and that no name goes on with a character below \<open>>\<close> where another ends.\<close>

fun lex_less :: "string \<Rightarrow> string \<Rightarrow> bool" where
  "lex_less s [] \<longleftrightarrow> False"
| "lex_less [] (b # t) \<longleftrightarrow> True"
| "lex_less (a # s) (b # t) \<longleftrightarrow> (if code a = code b then lex_less s t else code a < code b)"

lemma lex_less_trans: "lex_less r s \<Longrightarrow> lex_less s t \<Longrightarrow> lex_less r t"
proof (induction s t arbitrary: r rule: lex_less.induct)
  case (3 a s b t)
  then show ?case by (cases r) (auto split: if_splits)
qed auto

fun adjacent :: "('a \<Rightarrow> 'a \<Rightarrow> bool) \<Rightarrow> 'a list \<Rightarrow> bool" where
  "adjacent P (x # y # xs) \<longleftrightarrow> P x y \<and> adjacent P (y # xs)"
| "adjacent P xs \<longleftrightarrow> True"

lemma table_order: "adjacent lex_less (map fst TagsRecognized)"
  unfolding TagsRecognized_def by (simp add: code_def)

lemma table_chars: "\<forall>tag \<in> set (map fst TagsRecognized). tag \<noteq> [] \<and> length tag \<le> 10 \<and> (\<forall>c \<in> set tag. tag_char c)"
  unfolding TagsRecognized_def by (simp add: tag_char_def name_end_def isSpace_def toLowerAscii_def isUpperAscii_def code_def)

text \<open>A name that ends where a character below \<open>>\<close> goes on is not in the table.\<close>

definition no_gap :: "string \<Rightarrow> bool" where
  "no_gap tag \<longleftrightarrow> list_all (\<lambda>i. 62 \<le> code (tag ! i) \<or> take i tag \<notin> set (map fst TagsRecognized)) [0..<length tag]"

lemma table_gaps: "list_all no_gap (map fst TagsRecognized)"
  by code_simp

lemma adjacent_sorted: "adjacent lex_less xs \<Longrightarrow> sorted_wrt lex_less xs"
proof (induction xs rule: induct_list012)
  case (3 x y zs)
  then show ?case using lex_less_trans by fastforce
qed auto

lemma table_sorted: "sorted_wrt lex_less (map fst TagsRecognized)"
  by (rule adjacent_sorted) (rule table_order)

lemma lex_less_irrefl: "\<not> lex_less s s"
  by (induction s) auto

definition name_text :: "string \<Rightarrow> string \<Rightarrow> bool" where
  "name_text name rest \<longleftrightarrow> (\<forall>c \<in> set name. \<not> name_end c \<and> code c \<noteq> 0) \<and> (rest = [] \<or> name_end (hd rest))"

lemma lower_code: "code (toLowerAscii c) = 0 \<longleftrightarrow> code c = 0"
  using code_less [of c] by (auto simp: toLowerAscii_def isUpperAscii_def)

lemma name_end_code: "name_end c \<longleftrightarrow> code c \<in> {32, 62, 47} \<or> 9 \<le> code c \<and> code c \<le> 13"
proof -
  have "c = CHR ''>'' \<longleftrightarrow> code c = 62" "c = CHR ''/'' \<longleftrightarrow> code c = 47"
    using code_inject [of c "CHR ''>''"] code_inject [of c "CHR ''/''"] by (auto simp: code_def)
  then show ?thesis by (auto simp: name_end_def isSpace_def)
qed

lemma at_ptr_end:
  assumes "rest = [] \<or> name_end (hd rest)"
  shows "at_ptr rest \<le> 62 \<and> (tag_char b \<longrightarrow> at_ptr rest \<noteq> code b)"
proof (cases rest)
  case (Cons a r)
  then have a: "name_end a" using assms by simp
  then have "toLowerAscii a = a" by (auto simp: toLowerAscii_def isUpperAscii_def name_end_code)
  then show ?thesis using a Cons by (auto simp: at_ptr_def tag_char_def name_end_code)
qed (simp add: at_ptr_def tag_char_def)

lemma sorted_distinct: "sorted_wrt lex_less xs \<Longrightarrow> distinct xs"
  by (induction xs) (auto simp: lex_less_irrefl)

lemma compare_name:
  assumes "name_text name rest" and "\<forall>c \<in> set tag. tag_char c"
  shows "(strncasecmp (max (length name) (length tag)) (name @ rest) tag = 0 \<longleftrightarrow> lowerAscii name = tag)
     \<and> ((\<forall>i < length tag. code (tag ! i) < 62 \<longrightarrow> take i tag \<noteq> lowerAscii name) \<longrightarrow> lowerAscii name \<noteq> tag \<longrightarrow>
          (strncasecmp (max (length name) (length tag)) (name @ rest) tag < 0 \<longleftrightarrow> lex_less (lowerAscii name) tag))"
  using assms
proof (induction name arbitrary: tag)
  case Nil
  show ?case
  proof (cases tag)
    case (Cons b t)
    then have e: "at_ptr rest \<le> 62" "at_ptr rest \<noteq> code b" "toLowerAscii b = b"
      using at_ptr_end [of rest b] Nil by (auto simp: name_text_def tag_char_def)
    have "62 \<le> code b" if "\<forall>i < length tag. code (tag ! i) < 62 \<longrightarrow> take i tag \<noteq> []" using that Cons by force
    then show ?thesis using Cons e by (auto simp: lowerAscii_def at_ptr_def [of tag] at_ptr_def [of "b # t"])
  qed (simp add: lowerAscii_def)
next
  case (Cons a name)
  have a: "code (toLowerAscii a) \<noteq> 0" and n: "name_text name rest" using Cons.prems(1) by (auto simp: name_text_def lower_code)
  show ?case
  proof (cases tag)
    case Nil
    then show ?thesis using a by (simp add: at_ptr_def lowerAscii_def)
  next
    case t: (Cons b t)
    have b: "toLowerAscii b = b" "\<forall>c \<in> set t. tag_char c" using Cons.prems(2) t by (auto simp: tag_char_def)
    show ?thesis
    proof (cases "toLowerAscii a = b")
      case False
      then have "code (toLowerAscii a) \<noteq> code b" by (simp add: code_inject)
      then show ?thesis using t b(1) False by (simp add: at_ptr_def lowerAscii_def)
    next
      case True
      have "(\<forall>i < length tag. code (tag ! i) < 62 \<longrightarrow> take i tag \<noteq> lowerAscii (a # name)) \<Longrightarrow>
          \<forall>i < length t. code (t ! i) < 62 \<longrightarrow> take i t \<noteq> lowerAscii name"
        using t True by (fastforce simp: lowerAscii_def)
      then show ?thesis using Cons.IH [OF n b(2)] t b(1) a True by (auto simp: at_ptr_def lowerAscii_def)
    qed
  qed
qed

abbreviation tag_at :: "nat \<Rightarrow> string" where
  "tag_at k \<equiv> fst (TagsRecognized ! k)"

lemma tag_at_table: "k < length TagsRecognized \<Longrightarrow> tag_at k \<in> set (map fst TagsRecognized)"
  by simp

lemma compare_tag:
  assumes "name_text name rest" and "k < length TagsRecognized"
  shows "strncasecmp (max (length name) (length (tag_at k))) (name @ rest) (tag_at k) = 0 \<longleftrightarrow> lowerAscii name = tag_at k"
    and "lowerAscii name \<in> set (map fst TagsRecognized) \<Longrightarrow> lowerAscii name \<noteq> tag_at k \<Longrightarrow>
           strncasecmp (max (length name) (length (tag_at k))) (name @ rest) (tag_at k) < 0 \<longleftrightarrow> lex_less (lowerAscii name) (tag_at k)"
proof -
  have t: "tag_at k \<in> set (map fst TagsRecognized)" by (rule tag_at_table [OF assms(2)])
  have chars: "\<forall>c \<in> set (tag_at k). tag_char c" using t table_chars by blast
  note c = compare_name [OF assms(1) chars]
  show "strncasecmp (max (length name) (length (tag_at k))) (name @ rest) (tag_at k) = 0 \<longleftrightarrow> lowerAscii name = tag_at k"
    using c by blast
  have gap: "no_gap (tag_at k)" using t table_gaps by (auto simp: list_all_iff)
  have "take i (tag_at k) \<noteq> lowerAscii name"
    if "lowerAscii name \<in> set (map fst TagsRecognized)" "i < length (tag_at k)" "code (tag_at k ! i) < 62" for i
  proof -
    have "i \<in> set [0..<length (tag_at k)]" using that(2) by simp
    then have "62 \<le> code (tag_at k ! i) \<or> take i (tag_at k) \<notin> set (map fst TagsRecognized)"
      using gap unfolding no_gap_def list_all_iff by blast
    then show ?thesis using that(1,3) by (metis not_le)
  qed
  then show "lowerAscii name \<in> set (map fst TagsRecognized) \<Longrightarrow> lowerAscii name \<noteq> tag_at k \<Longrightarrow>
      strncasecmp (max (length name) (length (tag_at k))) (name @ rest) (tag_at k) < 0 \<longleftrightarrow> lex_less (lowerAscii name) (tag_at k)"
    using c by blast
qed

lemma tags_less: "i < j \<Longrightarrow> j < length TagsRecognized \<Longrightarrow> lex_less (tag_at i) (tag_at j)"
  using table_sorted by (simp add: sorted_wrt_iff_nth_less)

lemma lookup_found:
  assumes "name_text name rest" and "tag_at k = lowerAscii name" and "k < length TagsRecognized"
    and "left \<le> int k" and "int k \<le> right" and "0 \<le> left" and "right < int (length TagsRecognized)"
  shows "lookup_loop (name @ rest) (length name) left right = snd (TagsRecognized ! k)"
  using assms(4-7)
proof (induction "name @ rest" "length name" left right rule: lookup_loop.induct)
  case (1 left right)
  let ?mid = "(right + left) div 2"
  let ?cmp = "strncasecmp (max (length name) (length (tag_at (nat ?mid)))) (name @ rest) (tag_at (nat ?mid))"
  have mid: "left \<le> ?mid" "?mid \<le> right" "nat ?mid < length TagsRecognized" using 1(3-6) by auto
  have le: "left \<le> right" using mid by simp
  obtain tag action where ta: "TagsRecognized ! nat ?mid = (tag, action)" by fastforce
  note eq = lookup_loop.simps [of "name @ rest" "length name" left right]
  note cmp = compare_tag [OF assms(1) mid(3)]
  have table: "lowerAscii name \<in> set (map fst TagsRecognized)" using tag_at_table [OF assms(3)] assms(2) by simp
  note IH = 1(1,2) [OF le refl ta [symmetric] refl refl]
  consider (here) "nat ?mid = k" | (low) "nat ?mid < k" | (high) "k < nat ?mid" by linarith
  then show ?case
  proof cases
    case here
    then have "?cmp = 0" using cmp(1) assms(2) by simp
    then show ?thesis using eq le ta here by (simp add: Let_def)
  next
    case low
    have l: "lex_less (tag_at (nat ?mid)) (lowerAscii name)" using tags_less [OF low assms(3)] assms(2) by simp
    then have "lowerAscii name \<noteq> tag_at (nat ?mid)" "\<not> lex_less (lowerAscii name) (tag_at (nat ?mid))"
      using lex_less_irrefl lex_less_trans by metis+
    then have c: "?cmp \<noteq> 0" "\<not> ?cmp < 0" using cmp table by auto
    have "lookup_loop (name @ rest) (length name) (?mid + 1) right = snd (TagsRecognized ! k)"
      using IH(2) c low ta mid(1) 1(3-6) by simp
    then show ?thesis using eq le ta c by (simp add: Let_def)
  next
    case high
    have l: "lex_less (lowerAscii name) (tag_at (nat ?mid))" using tags_less [OF high mid(3)] assms(2) by simp
    then have "lowerAscii name \<noteq> tag_at (nat ?mid)" using lex_less_irrefl by metis
    then have c: "?cmp \<noteq> 0" "?cmp < 0" using cmp table l by auto
    have "lookup_loop (name @ rest) (length name) left (?mid - 1) = snd (TagsRecognized ! k)"
      using IH(1) c high ta mid(2) 1(3-6) by simp
    then show ?thesis using eq le ta c by (simp add: Let_def)
  qed
qed

lemma lookup_missing:
  assumes "name_text name rest" and "lowerAscii name \<notin> set (map fst TagsRecognized)"
    and "0 \<le> left" and "right < int (length TagsRecognized)"
  shows "lookup_loop (name @ rest) (length name) left right = OrdinaryText"
  using assms(3,4)
proof (induction "name @ rest" "length name" left right rule: lookup_loop.induct)
  case (1 left right)
  let ?mid = "(right + left) div 2"
  let ?cmp = "strncasecmp (max (length name) (length (tag_at (nat ?mid)))) (name @ rest) (tag_at (nat ?mid))"
  note eq = lookup_loop.simps [of "name @ rest" "length name" left right]
  show ?case
  proof (cases "left \<le> right")
    case True
    have mid: "left \<le> ?mid" "?mid \<le> right" "nat ?mid < length TagsRecognized" using 1(3,4) True by auto
    obtain tag action where ta: "TagsRecognized ! nat ?mid = (tag, action)" by fastforce
    have "lowerAscii name \<noteq> tag_at (nat ?mid)" using assms(2) tag_at_table [OF mid(3)] by metis
    then have c: "?cmp \<noteq> 0" using compare_tag(1) [OF assms(1) mid(3)] by simp
    note IH = 1(1,2) [OF True refl ta [symmetric] refl refl]
    have "lookup_loop (name @ rest) (length name) left (?mid - 1) = OrdinaryText" if "?cmp < 0"
      using IH(1) that c ta mid 1(3,4) by simp
    moreover have "lookup_loop (name @ rest) (length name) (?mid + 1) right = OrdinaryText" if "\<not> ?cmp < 0"
      using IH(2) that c ta mid 1(3,4) by simp
    ultimately show ?thesis using eq True ta c by (simp add: Let_def)
  qed (use eq in simp)
qed

lemma LookupPossibleTag_eq:
  assumes "name_text name rest"
  shows "LookupPossibleTag (name @ rest) (length name) =
     (case map_of TagsRecognized (lowerAscii name) of None \<Rightarrow> OrdinaryText | Some action \<Rightarrow> action)"
proof (cases "lowerAscii name \<in> set (map fst TagsRecognized)")
  case True
  then obtain k where k: "k < length TagsRecognized" "tag_at k = lowerAscii name"
    by (metis in_set_conv_nth length_map nth_map)
  have "length (lowerAscii name) \<le> 10" using True table_chars by blast
  then have len: "length name \<le> 10" by (simp add: lowerAscii_def)
  have "distinct (map fst TagsRecognized)"
    by (rule sorted_distinct [OF table_sorted])
  then have "map_of TagsRecognized (lowerAscii name) = Some (snd (TagsRecognized ! k))"
    using k by (metis map_of_is_SomeI nth_mem prod.collapse)
  moreover have "lookup_loop (name @ rest) (length name) 0 (int (length TagsRecognized) - 1) = snd (TagsRecognized ! k)"
    by (rule lookup_found [OF assms k(2,1)]) (use k(1) in auto)
  ultimately show ?thesis using len by (simp add: LookupPossibleTag_def NumberOfTags_def)
next
  case False
  then have "map_of TagsRecognized (lowerAscii name) = None" by (simp add: map_of_eq_None_iff)
  then show ?thesis using lookup_missing [OF assms False] by (simp add: LookupPossibleTag_def NumberOfTags_def)
qed

text \<open>The binary search, whose comparison runs on into what follows the name, finds exactly the names of the table, in any
  case, and gives their action; the table is in order, and no name in it stops where another one goes on with a
  character that is smaller than what may end a name.\<close>

theorem LookupPossibleTag_table:
  assumes "name_text name rest"
  shows "LookupPossibleTag (name @ rest) (length name) =
     (case map_of TagsRecognized (lowerAscii name) of None \<Rightarrow> OrdinaryText | Some action \<Rightarrow> action)"
  by (rule LookupPossibleTag_eq [OF assms])

lemma script_name: "name_text ''ScRipt'' ''>x'' \<and> name_text ''bo'' ''''"
  by (simp add: name_text_def name_end_code code_def)

theorem LookupPossibleTag_table_witness:
  "LookupPossibleTag ''ScRipt>x'' 6 = DiscardSection \<and> LookupPossibleTag ''bo'' 2 = OrdinaryText"
proof -
  have "map_of TagsRecognized (lowerAscii ''ScRipt'') = Some DiscardSection" "map_of TagsRecognized (lowerAscii ''bo'') = None"
    by code_simp+
  then show ?thesis
    using LookupPossibleTag_table [OF conjunct1 [OF script_name]] LookupPossibleTag_table [OF conjunct2 [OF script_name]] by (simp add: eval_nat_numeral)
qed

end
