(* ===== verification/HtmlParser.thy ===== *)
theory HtmlParser
  imports HtmlTags UrlFeatures "HOL-Library.Sublist"
begin

text \<open>
  The parser of a page, \<open>src/parser/HtmlParser.h\<close>: one run over the text that collects words, title words
  and links. A pointer into the text is the rest of the text from there on. The link whose anchor text is being read is
  a pointer into the vector of the links: it is the memory block of that time with an index, and the block changes
  when the vector grows. A word added through a pointer to an old block is a use after free: \<open>None\<close>.
\<close>

subsection \<open>The state\<close>

record Parser = HtmlDoc +
  inTitle :: bool
  inAnchor :: bool
  currentLink :: "(nat \<times> nat) option"
  links_block :: nat
  links_capacity :: nat
  htmlLang :: string

definition new_parser :: Parser where
  "new_parser = \<lparr>words = [], titleWords = [], links = [], base = [], sourceUrl = [], seedDistance = 0, openSections = [],
     sawBodyTag = False, sawCloseHtml = False, truncated = False, inTitle = False, inAnchor = False, currentLink = None,
     links_block = 0, links_capacity = 0, htmlLang = []\<rparr>"

definition inDiscardSection :: "Parser \<Rightarrow> bool" where
  "inDiscardSection h \<longleftrightarrow> openSections h \<noteq> []"

text \<open>\<open>links.push_back\<close>, which moves the links to a new block when the old one is full.\<close>

definition push_link :: "string \<Rightarrow> Parser \<Rightarrow> Parser" where
  "push_link url h =
     (let h = (if length (links h) = links_capacity h
               then h\<lparr>links_block := links_block h + 1,
                      links_capacity := (if links_capacity h = 0 then 8 else links_capacity h * 3)\<rparr>
               else h)
      in h\<lparr>links := links h @ [\<lparr>link_url = url, anchorText = []\<rparr>]\<rparr>)"

definition addWord :: "string \<Rightarrow> Parser \<Rightarrow> Parser option" where
  "addWord word h =
     (if word = [] then Some h
      else let h = (if inTitle h then h\<lparr>titleWords := titleWords h @ [word]\<rparr> else h\<lparr>words := words h @ [word]\<rparr>)
           in if inAnchor h
              then (case currentLink h of
                      None \<Rightarrow> Some h
                    | Some (block, i) \<Rightarrow>
                        if block = links_block h \<and> i < length (links h)
                        then Some (h\<lparr>links := (links h)[i := (links h ! i)\<lparr>anchorText := anchorText (links h ! i) @ [word]\<rparr>]\<rparr>)
                        else None)
              else Some h)"

subsection \<open>Pieces of a tag\<close>

definition matchClosingTag :: "string \<Rightarrow> string \<Rightarrow> string option" where
  "matchClosingTag p tagName =
     (if length p \<le> 2 + length tagName then None
      else if p ! 0 \<noteq> CHR ''<'' \<or> p ! 1 \<noteq> CHR ''/'' then None
      else if strncasecmp (length tagName) (drop 2 p) tagName \<noteq> 0 then None
      else let after = dropWhile isSpace (drop (2 + length tagName) p)
           in if after \<noteq> [] \<and> hd after = CHR ''>'' then Some (tl after) else None)"

fun close_loop :: "string \<Rightarrow> char option \<Rightarrow> bool \<Rightarrow> string option" where
  "close_loop [] quoteChar justExitedQuote = None"
| "close_loop (c # p) (Some quoteChar) justExitedQuote =
     (if c = quoteChar then close_loop p None True else close_loop p (Some quoteChar) justExitedQuote)"
| "close_loop (c # p) None justExitedQuote =
     (if c = CHR ''>'' then Some (c # p)
      else let quoteChar = (if (c = CHR 0x22 \<or> c = CHR 0x27) \<and> \<not> justExitedQuote then Some c else None)
           in close_loop p quoteChar (justExitedQuote \<and> \<not> (isSpace c \<or> c = CHR ''='')))"

definition findClose :: "string \<Rightarrow> string option" where
  "findClose p = close_loop p None False"

fun comment_loop :: "string \<Rightarrow> string" where
  "comment_loop (a # b # c # p) =
     (if a = CHR ''-'' \<and> b = CHR ''-'' \<and> c = CHR ''>'' then p else comment_loop (b # c # p))"
| "comment_loop p = []"

definition handleComment :: "string \<Rightarrow> string" where
  "handleComment p = comment_loop (drop 4 p)"

text \<open>The value of an attribute in the text between the name of a tag and its end.\<close>

fun extractAttribute :: "string \<Rightarrow> string \<Rightarrow> string" where
  "extractAttribute attrName [] = []"
| "extractAttribute attrName (c # s) =
     (let p = c # s; nameLen = length attrName
      in if length p \<le> nameLen then []
         else if strncasecmp nameLen p attrName \<noteq> 0 then extractAttribute attrName s
         else let afterName = dropWhile isSpace (drop nameLen p)
              in if afterName = [] \<or> hd afterName \<noteq> CHR ''='' then extractAttribute attrName s
                 else let v = dropWhile isSpace (tl afterName)
                      in if v = [] then []
                         else if hd v \<noteq> CHR 0x22 \<and> hd v \<noteq> CHR 0x27
                         then (if hd v = CHR ''<'' then []
                               else takeWhile (\<lambda>c. \<not> isSpace c \<and> c \<noteq> CHR ''>'' \<and> c \<noteq> CHR ''<'') v)
                         else if hd v \<in> set (tl v) then takeWhile (\<lambda>c. c \<noteq> hd v) (tl v)
                         else extractAttribute attrName s)"

definition handleDiscardSection :: "string \<Rightarrow> bool \<Rightarrow> bool \<Rightarrow> Parser \<Rightarrow> Parser" where
  "handleDiscardSection name isClosing isSelfClosing h =
     (if isSelfClosing then h
      else if isClosing then h\<lparr>openSections := tl (openSections h)\<rparr>
      else h\<lparr>openSections := lowerAscii name # openSections h\<rparr>)"

definition handleAnchor :: "string \<Rightarrow> bool \<Rightarrow> bool \<Rightarrow> Parser \<Rightarrow> Parser" where
  "handleAnchor attrs isClosing isSelfClosing h =
     (if isClosing then h\<lparr>inAnchor := False, currentLink := None\<rparr>
      else let href = extractAttribute ''href'' attrs
           in if href = [] then h
              else let h = (if inAnchor h then h\<lparr>inAnchor := False, currentLink := None\<rparr> else h);
                       h = push_link href h
                   in if isSelfClosing then h
                      else h\<lparr>inAnchor := True, currentLink := Some (links_block h, length (links h) - 1)\<rparr>)"

definition handleBase :: "string \<Rightarrow> Parser \<Rightarrow> Parser" where
  "handleBase attrs h =
     (if base h \<noteq> [] then h
      else let href = extractAttribute ''href'' attrs in if href \<noteq> [] then h\<lparr>base := href\<rparr> else h)"

definition handleEmbed :: "string \<Rightarrow> Parser \<Rightarrow> Parser" where
  "handleEmbed attrs h = (let src = extractAttribute ''src'' attrs in if src \<noteq> [] then push_link src h else h)"

definition handleDiscard :: "string \<Rightarrow> string \<Rightarrow> bool \<Rightarrow> Parser \<Rightarrow> Parser" where
  "handleDiscard name attrs isClosing h =
     (let h = (if lowerAscii name = ''body'' \<and> \<not> isClosing then h\<lparr>sawBodyTag := True\<rparr> else h)
      in if lowerAscii name = ''html''
         then (if isClosing then h\<lparr>sawCloseHtml := True\<rparr>
               else if htmlLang h = [] then h\<lparr>htmlLang := extractAttribute ''lang'' attrs\<rparr> else h)
         else h)"

definition handleTag :: "DesiredAction \<Rightarrow> string \<Rightarrow> string \<Rightarrow> bool \<Rightarrow> bool \<Rightarrow> Parser \<Rightarrow> Parser" where
  "handleTag action name attrs isClosing isSelfClosing h =
     (case action of
        DiscardSection \<Rightarrow> handleDiscardSection name isClosing isSelfClosing h
      | Title \<Rightarrow> if isClosing then h\<lparr>inTitle := False\<rparr> else if \<not> isSelfClosing then h\<lparr>inTitle := True\<rparr> else h
      | Anchor \<Rightarrow> handleAnchor attrs isClosing isSelfClosing h
      | Base \<Rightarrow> handleBase attrs h
      | Embed \<Rightarrow> handleEmbed attrs h
      | Discard \<Rightarrow> handleDiscard name attrs isClosing h
      | _ \<Rightarrow> h)"

text \<open>The pointer behind the tag, or \<open>None\<close> when the text at \<open>p\<close> is no tag.\<close>

definition processTag :: "string \<Rightarrow> Parser \<Rightarrow> Parser \<times> string option" where
  "processTag p h =
     (if inDiscardSection h
      then (case matchClosingTag p (hd (openSections h)) of
              Some closePos \<Rightarrow> (h\<lparr>openSections := tl (openSections h)\<rparr>, Some closePos)
            | None \<Rightarrow> (h, None))
      else let isClosing = (tl p \<noteq> [] \<and> hd (tl p) = CHR ''/'');
               tagStart = (if isClosing then tl (tl p) else tl p);
               name = takeWhile (\<lambda>c. \<not> name_end c) tagStart;
               tagEnd = dropWhile (\<lambda>c. \<not> name_end c) tagStart
           in if name = [] then (h, None)
              else if take 3 name = ''!--'' then (h, Some (handleComment p))
              else let action = LookupPossibleTag tagStart (length name)
                   in if action = OrdinaryText then (h, None)
                      else if action = Comment then (h, Some (handleComment p))
                      else case findClose tagEnd of
                             None \<Rightarrow> (h, None)
                           | Some close \<Rightarrow>
                               let attrs = take (length tagEnd - length close) tagEnd;
                                   isSelfClosing = (last (take (length p - length close) p) = CHR ''/'')
                               in (handleTag action name attrs isClosing isSelfClosing h, Some (tl close)))"

subsection \<open>The run over the text\<close>

text \<open>A tag takes up at least its first character.\<close>

lemma length_matchClosingTag: "matchClosingTag p t = Some r \<Longrightarrow> length r < length p"
proof -
  assume "matchClosingTag p t = Some r"
  then have r: "r = tl (dropWhile isSpace (drop (2 + length t) p))" "dropWhile isSpace (drop (2 + length t) p) \<noteq> []"
    by (auto simp: matchClosingTag_def Let_def split: if_splits)
  have "length (dropWhile isSpace (drop (2 + length t) p)) \<le> length (drop (2 + length t) p)" by (rule length_dropWhile_le)
  then show ?thesis using r by (cases "dropWhile isSpace (drop (2 + length t) p)") auto
qed

lemma close_loop_suffix: "close_loop p q j = Some r \<Longrightarrow> \<exists>pre. p = pre @ r \<and> r \<noteq> [] \<and> hd r = CHR ''>''"
proof (induction p q j rule: close_loop.induct)
  case (2 c p quoteChar j)
  then show ?case by (auto split: if_splits)
next
  case (3 c p j)
  then show ?case by (auto simp: Let_def split: if_splits)
qed simp

lemma length_comment_loop: "length (comment_loop p) \<le> length p"
  by (induction p rule: comment_loop.induct) auto

lemma length_findClose: "findClose p = Some r \<Longrightarrow> length r \<le> length p \<and> r \<noteq> []"
  using close_loop_suffix [of p None False r] by (auto simp: findClose_def)

lemma length_processTag: "processTag p h = (h', Some r) \<Longrightarrow> p \<noteq> [] \<Longrightarrow> length r < length p"
proof -
  assume r: "processTag p h = (h', Some r)" and ne: "p \<noteq> []"
  define tagStart where "tagStart = (if tl p \<noteq> [] \<and> hd (tl p) = CHR ''/'' then tl (tl p) else tl p)"
  define tagEnd where "tagEnd = dropWhile (\<lambda>c. \<not> name_end c) tagStart"
  have s: "length tagStart < length p" using ne by (cases p; cases "tl p") (auto simp: tagStart_def)
  have e: "length tagEnd \<le> length tagStart" unfolding tagEnd_def by (rule length_dropWhile_le)
  have "length (handleComment p) \<le> length p - 4" using length_comment_loop [of "drop 4 p"] by (simp add: handleComment_def)
  then have c: "length (handleComment p) < length p" using ne by (cases p) auto
  have f: "length (tl close) < length p" if "findClose tagEnd = Some close" for close
    using length_findClose [OF that] s e by (cases close) auto
  show ?thesis
    using r c f unfolding processTag_def Let_def tagStart_def [symmetric] tagEnd_def [symmetric]
    by (auto dest: length_matchClosingTag split: if_splits option.splits)
qed

text \<open>The text from \<open>start\<close> up to \<open>p\<close>.\<close>

definition text_between :: "string \<Rightarrow> string \<Rightarrow> string" where
  "text_between start p = take (length start - length p) start"

text \<open>The word in front of a tag goes where it belonged before the tag.\<close>

definition add_pending :: "string option \<Rightarrow> string \<Rightarrow> Parser \<Rightarrow> Parser \<Rightarrow> Parser option" where
  "add_pending wordStart p old h =
     (case wordStart of
        None \<Rightarrow> Some h
      | Some start \<Rightarrow>
          if inDiscardSection old then Some h
          else map_option (\<lambda>h'. h'\<lparr>inTitle := inTitle h, inAnchor := inAnchor h, currentLink := currentLink h\<rparr>)
                 (addWord (text_between start p)
                    (h\<lparr>inTitle := inTitle old, inAnchor := inAnchor old, currentLink := currentLink old\<rparr>)))"

definition add_if_open :: "string option \<Rightarrow> string \<Rightarrow> Parser \<Rightarrow> Parser option" where
  "add_if_open wordStart p h =
     (case wordStart of
        None \<Rightarrow> Some h
      | Some start \<Rightarrow> if inDiscardSection h then Some h else addWord (text_between start p) h)"

function parse_loop :: "string \<Rightarrow> string option \<Rightarrow> Parser \<Rightarrow> Parser option" where
  "parse_loop p wordStart h =
     (if p = [] then add_if_open wordStart p h
      else if hd p = CHR ''<''
      then (case processTag p h of
              (h', Some newP) \<Rightarrow>
                (case add_pending wordStart p h h' of None \<Rightarrow> None | Some h'' \<Rightarrow> parse_loop newP None h'')
            | (h', None) \<Rightarrow>
                parse_loop (tl p) (if wordStart = None \<and> \<not> inDiscardSection h then Some p else wordStart) h')
      else if isSpace (hd p)
      then (case add_if_open wordStart p h of None \<Rightarrow> None | Some h' \<Rightarrow> parse_loop (tl p) None h')
      else parse_loop (tl p) (if wordStart = None \<and> \<not> inDiscardSection h then Some p else wordStart) h)"
  by pat_completeness auto
termination
  by (relation "measure (\<lambda>(p, wordStart, h). length p)") (auto dest: length_processTag [OF sym])

declare parse_loop.simps [simp del]

definition wasTruncated :: "string \<Rightarrow> bool" where
  "wasTruncated buffer =
     (let scan = dropWhile (\<lambda>c. c \<noteq> CHR ''>'' \<and> c \<noteq> CHR ''<'') (rev buffer) in scan \<noteq> [] \<and> hd scan = CHR ''<'')"

definition parse_page :: "string \<Rightarrow> Parser option" where
  "parse_page buffer =
     map_option (\<lambda>h. h\<lparr>truncated := wasTruncated buffer, currentLink := None\<rparr>) (parse_loop buffer None new_parser)"

definition page_doc :: "Parser \<Rightarrow> HtmlDoc" where
  "page_doc h = HtmlDoc.truncate h"

subsection \<open>What is collected comes from the text\<close>

lemmas sublist_trans = sublist_order.order.trans

lemma sublist_pieces:
  "sublist (takeWhile P s) s" "sublist (dropWhile P s) s" "sublist (drop n s) s" "sublist (tl s) s" "sublist (take n s) s"
proof -
  show "sublist (takeWhile P s) s" by (rule prefix_imp_sublist) (rule takeWhile_is_prefix)
  show "sublist (dropWhile P s) s" by (rule suffix_imp_sublist) (rule suffix_dropWhile)
  show "sublist (drop n s) s" by (rule suffix_imp_sublist) (rule suffix_drop)
  show "sublist (tl s) s" by (rule suffix_imp_sublist) (rule suffix_tl)
  show "sublist (take n s) s" by (rule prefix_imp_sublist) (rule take_is_prefix)
qed

lemma extractAttribute_sublist: "sublist (extractAttribute n s) s"
proof (induction n s rule: extractAttribute.induct)
  case (2 n c s)
  let ?after = "dropWhile isSpace (drop (length n) (c # s))"
  let ?v = "dropWhile isSpace (tl ?after)"
  have v: "sublist ?v (c # s)" by (meson sublist_pieces sublist_trans)
  have w: "sublist (takeWhile P ?v) (c # s)" "sublist (takeWhile P (tl ?v)) (c # s)" for P
    using v by (meson sublist_pieces sublist_trans)+
  have "sublist s (c # s)" using sublist_pieces(4) [of "c # s"] by simp
  then have IH: "length (c # s) > length n \<Longrightarrow> strncasecmp (length n) (c # s) n \<noteq> 0 \<Longrightarrow> sublist (extractAttribute n s) (c # s)"
    "length (c # s) > length n \<Longrightarrow> strncasecmp (length n) (c # s) n = 0 \<Longrightarrow> ?after = [] \<or> hd ?after \<noteq> CHR ''='' \<Longrightarrow>
      sublist (extractAttribute n s) (c # s)"
    "length (c # s) > length n \<Longrightarrow> strncasecmp (length n) (c # s) n = 0 \<Longrightarrow> \<not> (?after = [] \<or> hd ?after \<noteq> CHR ''='') \<Longrightarrow>
      ?v \<noteq> [] \<Longrightarrow> \<not> (hd ?v \<noteq> CHR 0x22 \<and> hd ?v \<noteq> CHR 0x27) \<Longrightarrow> hd ?v \<notin> set (tl ?v) \<Longrightarrow>
      sublist (extractAttribute n s) (c # s)"
    using 2 by (meson not_le sublist_trans)+
  then show ?case using w by (simp only: extractAttribute.simps Let_def not_le split: if_split) blast
qed simp

definition word_of :: "string \<Rightarrow> string \<Rightarrow> bool" where
  "word_of text w \<longleftrightarrow> w \<noteq> [] \<and> (\<forall>c \<in> set w. \<not> isSpace c) \<and> sublist w text"

definition link_of :: "string \<Rightarrow> Link \<Rightarrow> bool" where
  "link_of text l \<longleftrightarrow> link_url l \<noteq> [] \<and> sublist (link_url l) text \<and> (\<forall>w \<in> set (anchorText l). word_of text w)"

definition sections_of :: "string \<Rightarrow> string list \<Rightarrow> bool" where
  "sections_of text ts \<longleftrightarrow> length ts \<le> 1 \<and> ((\<forall>c \<in> set text. code c \<noteq> 0) \<longrightarrow> set ts \<subseteq> {''script'', ''style'', ''svg''})"

definition collected :: "string \<Rightarrow> 'a HtmlDoc_scheme \<Rightarrow> bool" where
  "collected text h \<longleftrightarrow> (\<forall>w \<in> set (words h) \<union> set (titleWords h). word_of text w) \<and> (\<forall>l \<in> set (links h). link_of text l)
     \<and> sections_of text (openSections h)"

lemma collected_addWord: "addWord w h = Some h' \<Longrightarrow> word_of text w \<Longrightarrow> collected text h \<Longrightarrow> collected text h'"
  by (auto simp: addWord_def collected_def link_of_def Let_def dest!: set_update_subset_insert [THEN subsetD]
      split: if_splits option.splits prod.splits) (meson nth_mem)+

lemma collected_push: "url \<noteq> [] \<Longrightarrow> sublist url text \<Longrightarrow> collected text h \<Longrightarrow> collected text (push_link url h)"
  by (auto simp: push_link_def collected_def link_of_def Let_def)

lemma attribute_of: "sublist attrs text \<Longrightarrow> sublist (extractAttribute n attrs) text"
  using extractAttribute_sublist sublist_trans by blast

lemma table_sections: "\<forall>(t, a) \<in> set TagsRecognized. a = DiscardSection \<longrightarrow> t \<in> {''script'', ''style'', ''svg''}"
  unfolding TagsRecognized_def by simp

lemma lookup_section:
  assumes "LookupPossibleTag (name @ rest) (length name) = DiscardSection" and "name_text name rest"
  shows "lowerAscii name \<in> {''script'', ''style'', ''svg''}"
proof -
  have "map_of TagsRecognized (lowerAscii name) = Some DiscardSection"
    using assms(1) LookupPossibleTag_eq [OF assms(2)] by (auto split: option.splits)
  then show ?thesis using table_sections by (auto dest!: map_of_SomeD)
qed

lemma collected_handleTag:
  assumes "collected text h" and "sublist attrs text" and "openSections h = []"
    and "action = DiscardSection \<Longrightarrow> \<forall>c \<in> set text. code c \<noteq> 0 \<Longrightarrow> lowerAscii name \<in> {''script'', ''style'', ''svg''}"
  shows "collected text (handleTag action name attrs isClosing isSelfClosing h)"
proof -
  note attr = attribute_of [OF assms(2)]
  have up: "collected text (h\<lparr>inTitle := t\<rparr>)" "collected text (h\<lparr>inAnchor := t, currentLink := k\<rparr>)"
    "collected text (h\<lparr>base := u\<rparr>)" "collected text (h\<lparr>sawBodyTag := t\<rparr>)" "collected text (h\<lparr>sawCloseHtml := t\<rparr>)"
    "collected text (h\<lparr>htmlLang := u\<rparr>)" "collected text (h\<lparr>openSections := []\<rparr>)" for t k u
    using assms(1) by (simp_all add: collected_def sections_of_def)
  show ?thesis
  proof (cases action)
    case DiscardSection
    then show ?thesis using assms up(7) by (auto simp: handleTag_def handleDiscardSection_def collected_def sections_of_def)
  next
    case Anchor
    have opened: "collected text (h'\<lparr>inAnchor := True, currentLink := k\<rparr>)" if "collected text h'" for h' :: Parser and k
      using that by (simp add: collected_def)
    show ?thesis using Anchor up(2) attr assms(1)
      by (auto simp: handleTag_def handleAnchor_def Let_def intro!: opened collected_push)
  next
    case Discard
    have "collected text (h\<lparr>sawBodyTag := True, sawCloseHtml := True\<rparr>)" "collected text (h\<lparr>sawBodyTag := True, htmlLang := u\<rparr>)" for u
      using assms(1) by (simp_all add: collected_def)
    then show ?thesis using Discard up assms(1) by (auto simp: handleTag_def handleDiscard_def Let_def)
  qed (use up assms(1) attr in \<open>auto simp: handleTag_def handleBase_def handleEmbed_def Let_def intro!: collected_push\<close>)
qed

lemma suffix_processTag:
  assumes "processTag p h = (h', Some q)"
  shows "suffix q p"
proof -
  define isClosing where "isClosing = (tl p \<noteq> [] \<and> hd (tl p) = CHR ''/'')"
  define tagStart where "tagStart = (if isClosing then tl (tl p) else tl p)"
  define tagEnd where "tagEnd = dropWhile (\<lambda>c. \<not> name_end c) tagStart"
  note eq = processTag_def [of p h, unfolded Let_def isClosing_def [symmetric], folded tagStart_def, folded tagEnd_def]
  have suf: "suffix tagStart p" using suffix_order.trans [OF suffix_tl suffix_tl, of p] by (simp add: tagStart_def suffix_tl)
  then have suf2: "suffix tagEnd p" unfolding tagEnd_def by (meson suffix_dropWhile suffix_order.trans)
  have comment: "suffix (handleComment p) p"
  proof -
    have "suffix (comment_loop s) s" for s by (induction s rule: comment_loop.induct) (auto simp: suffix_Cons)
    then show ?thesis unfolding handleComment_def by (meson suffix_drop suffix_order.trans)
  qed
  have close: "suffix (tl c) p" if c: "findClose tagEnd = Some c" for c
  proof -
    have "suffix c tagEnd" using close_loop_suffix [of tagEnd None False c] c by (auto simp: findClose_def suffix_def)
    then show ?thesis using suf2 by (meson suffix_tl suffix_order.trans)
  qed
  have match: "suffix c p" if "matchClosingTag p t = Some c" for c t
    using that unfolding matchClosingTag_def Let_def
    by (auto split: if_splits intro: suffix_order.trans [OF suffix_tl] suffix_order.trans [OF suffix_dropWhile] suffix_drop)
  show "suffix q p" using assms comment close match unfolding eq by (auto split: if_splits option.splits)
qed

lemma collected_processTag:
  assumes "processTag p h = (h', r)" and "collected text h" and "suffix p text" and "p \<noteq> []"
  shows "collected text h'" and "r = None \<Longrightarrow> h' = h"
proof -
  define isClosing where "isClosing = (tl p \<noteq> [] \<and> hd (tl p) = CHR ''/'')"
  define tagStart where "tagStart = (if isClosing then tl (tl p) else tl p)"
  define name where "name = takeWhile (\<lambda>c. \<not> name_end c) tagStart"
  define tagEnd where "tagEnd = dropWhile (\<lambda>c. \<not> name_end c) tagStart"
  note eq = processTag_def [of p h, unfolded Let_def isClosing_def [symmetric], folded tagStart_def, folded name_def tagEnd_def]
  have start: "tagStart = name @ tagEnd" by (simp add: name_def tagEnd_def)
  have suf: "suffix tagStart p" using suffix_order.trans [OF suffix_tl suffix_tl, of p] by (simp add: tagStart_def suffix_tl)
  then have suf2: "suffix tagEnd p" unfolding tagEnd_def by (meson suffix_dropWhile suffix_order.trans)
  have act: "lowerAscii name \<in> {''script'', ''style'', ''svg''}"
    if a: "LookupPossibleTag tagStart (length name) = DiscardSection" and nul: "\<forall>c \<in> set text. code c \<noteq> 0"
  proof (rule lookup_section [of name tagEnd])
    have "set tagStart \<subseteq> set text" using suf assms(3) set_mono_suffix by blast
    then have "code c \<noteq> 0" if "c \<in> set name" for c using that nul start by auto
    moreover have "\<not> name_end c" if "c \<in> set name" for c using that unfolding name_def by (auto dest: set_takeWhileD)
    moreover have "tagEnd = [] \<or> name_end (hd tagEnd)" unfolding tagEnd_def using hd_dropWhile by metis
    ultimately show "name_text name tagEnd" by (auto simp: name_text_def)
  qed (use a start in simp)
  have attrs: "sublist (take n tagEnd) text" for n
    using suf2 assms(3) by (meson sublist_pieces(5) sublist_trans suffix_imp_sublist)
  have open_closed: "collected text (h\<lparr>openSections := tl (openSections h)\<rparr>)"
    using assms(2) by (cases "openSections h") (auto simp: collected_def sections_of_def)
  have tag: "collected text (handleTag (LookupPossibleTag tagStart (length name)) name (take n tagEnd) b1 b2 h)"
    if "\<not> inDiscardSection h" for n b1 b2
    by (rule collected_handleTag [OF assms(2) attrs]) (use that act in \<open>auto simp: inDiscardSection_def\<close>)
  show "collected text h'" using assms(1,2) open_closed tag unfolding eq by (auto split: if_splits option.splits)
  show "r = None \<Longrightarrow> h' = h" using assms(1) unfolding eq by (auto split: if_splits option.splits)
qed

text \<open>The start of a word: what lies between it and the current place is a piece without white space.\<close>

definition started :: "string \<Rightarrow> string option \<Rightarrow> string \<Rightarrow> bool" where
  "started text wordStart p \<longleftrightarrow>
     (case wordStart of
        None \<Rightarrow> True
      | Some start \<Rightarrow> suffix start text \<and> (\<exists>w. start = w @ p \<and> w \<noteq> [] \<and> (\<forall>c \<in> set w. \<not> isSpace c)))"

lemma started_word: "started text (Some start) p \<Longrightarrow> word_of text (text_between start p)"
  by (auto simp: started_def text_between_def word_of_def suffix_def sublist_def) (metis append.assoc)

lemma started_step:
  assumes "started text wordStart (c # p)" and "\<not> isSpace c" and "suffix (c # p) text"
  shows "started text (if wordStart = None \<and> b then Some (c # p) else wordStart) p"
proof (cases wordStart)
  case None
  then show ?thesis using assms by (auto simp: started_def)
next
  case (Some start)
  then obtain w where "start = w @ c # p" "\<forall>c \<in> set w. \<not> isSpace c" "suffix start text" using assms(1) by (auto simp: started_def)
  then show ?thesis using assms(2) Some by (auto simp: started_def intro!: exI [of _ "w @ [c]"])
qed

lemma collected_pending:
  assumes "add_pending wordStart p old h = Some h'" and "collected text h" and "started text wordStart p"
  shows "collected text h'"
proof (cases wordStart)
  case (Some start)
  let ?h = "h\<lparr>inTitle := inTitle old, inAnchor := inAnchor old, currentLink := currentLink old\<rparr>"
  have "collected text ?h" using assms(2) by (simp add: collected_def)
  moreover have "word_of text (text_between start p)" using started_word assms(3) Some by blast
  ultimately have "collected text h1" if "addWord (text_between start p) ?h = Some h1" for h1
    using collected_addWord that by blast
  then show ?thesis using assms(1,2) Some by (auto simp: add_pending_def collected_def split: if_splits)
qed (use assms in \<open>simp add: add_pending_def\<close>)

lemma collected_if_open:
  "add_if_open wordStart p h = Some h' \<Longrightarrow> collected text h \<Longrightarrow> started text wordStart p \<Longrightarrow> collected text h'"
  using collected_addWord started_word by (auto simp: add_if_open_def split: option.splits if_splits)

lemma space_less: "\<not> isSpace (CHR ''<'')"
  by (simp add: isSpace_def code_def)

lemma parse_loop_collected:
  "parse_loop p wordStart h = Some h' \<Longrightarrow> suffix p text \<Longrightarrow> collected text h \<Longrightarrow> started text wordStart p \<Longrightarrow> collected text h'"
proof (induction p wordStart h rule: parse_loop.induct)
  case (1 p wordStart h)
  note eq = parse_loop.simps [of p wordStart h]
  show ?case
  proof (cases p)
    case Nil
    then show ?thesis using 1 eq collected_if_open by simp
  next
    case (Cons c p')
    have suf: "suffix p' text" using 1(6) Cons by (meson suffix_ConsD)
    consider (tag) "c = CHR ''<''" | (space) "c \<noteq> CHR ''<''" "isSpace c" | (other) "c \<noteq> CHR ''<''" "\<not> isSpace c" by blast
    then show ?thesis
    proof cases
      case tag
      obtain h1 r where r: "processTag p h = (h1, r)" by fastforce
      note t = collected_processTag [OF r 1(7,6)]
      show ?thesis
      proof (cases r)
        case None
        then have "parse_loop p' (if wordStart = None \<and> \<not> inDiscardSection h then Some p else wordStart) h1 = Some h'"
          using 1(5) eq r tag Cons by simp
        moreover have "started text (if wordStart = None \<and> \<not> inDiscardSection h then Some p else wordStart) p'"
          unfolding Cons by (rule started_step) (use 1(6,8) Cons tag space_less in auto)
        ultimately show ?thesis using 1(1) r None t(1) tag Cons suf by simp
      next
        case (Some newP)
        obtain h2 where h2: "add_pending wordStart p h h1 = Some h2" "parse_loop newP None h2 = Some h'"
          using 1(5) eq r tag Cons Some by (auto split: option.splits)
        have "collected text h2" using collected_pending [OF h2(1)] t(1) 1(8) Cons by simp
        moreover have "suffix newP text" using suffix_order.trans [OF suffix_processTag 1(6)] r Some by simp
        ultimately show ?thesis using 1(2) h2 r tag Cons Some by (simp add: started_def)
      qed
    next
      case space
      then obtain h1 where h1: "add_if_open wordStart p h = Some h1" "parse_loop p' None h1 = Some h'"
        using 1(5) eq Cons by (auto split: option.splits)
      have "collected text h1" by (rule collected_if_open [OF h1(1) 1(7,8)])
      then show ?thesis using 1(3) h1 space Cons suf by (simp add: started_def)
    next
      case other
      then have "parse_loop p' (if wordStart = None \<and> \<not> inDiscardSection h then Some p else wordStart) h = Some h'"
        using 1(5) eq Cons by simp
      moreover have "started text (if wordStart = None \<and> \<not> inDiscardSection h then Some p else wordStart) p'"
        unfolding Cons by (rule started_step) (use 1(6,8) Cons other in auto)
      ultimately show ?thesis using 1(4) 1(7) other Cons suf by simp
    qed
  qed
qed

lemma parse_page_collected:
  assumes "parse_page text = Some h"
  shows "collected text h"
proof -
  obtain h' where h': "parse_loop text None new_parser = Some h'" "h = h'\<lparr>truncated := wasTruncated text, currentLink := None\<rparr>"
    using assms by (auto simp: parse_page_def)
  have "collected text new_parser" by (simp add: collected_def new_parser_def sections_of_def)
  then have "collected text h'" using parse_loop_collected [OF h'(1)] by (simp add: started_def)
  then show ?thesis using h'(2) by (simp add: collected_def)
qed

subsection \<open>The pointer to the open link\<close>

text \<open>With at most eight links the vector is in its first block, to which every pointer leads.\<close>

definition one_block :: "nat \<Rightarrow> Parser \<Rightarrow> bool" where
  "one_block n h \<longleftrightarrow> length (links h) + n \<le> 8
     \<and> (links h = [] \<longrightarrow> links_block h = 0 \<and> links_capacity h = 0) \<and> (links h \<noteq> [] \<longrightarrow> links_block h = 1 \<and> links_capacity h = 8)
     \<and> (\<forall>block i. currentLink h = Some (block, i) \<longrightarrow> block = 1 \<and> i < length (links h))"

abbreviation angles :: "string \<Rightarrow> nat" where
  "angles p \<equiv> count_list p (CHR ''<'')"

lemma one_block_push: "one_block (Suc n) h \<Longrightarrow> one_block n (push_link url h)"
  by (cases "links h = []") (auto simp: one_block_def push_link_def Let_def split: option.splits)

lemma push_link_same: "currentLink (push_link url h) = currentLink h" "inAnchor (push_link url h) = inAnchor h"
  "links (push_link url h) = links h @ [\<lparr>link_url = url, anchorText = []\<rparr>]"
  by (simp_all add: push_link_def Let_def)

lemma one_block_mono: "one_block n h \<Longrightarrow> m \<le> n \<Longrightarrow> one_block m h"
  by (auto simp: one_block_def)

lemma one_block_addWord:
  assumes "one_block n h"
  shows "\<exists>h'. addWord w h = Some h' \<and> one_block n h'"
proof (cases "currentLink h")
  case None
  then show ?thesis using assms by (simp add: addWord_def one_block_def Let_def)
next
  case (Some k)
  obtain i where k: "k = (1, i)" "i < length (links h)" using assms Some by (cases k) (auto simp: one_block_def)
  then have "links h \<noteq> []" by auto
  then have "links_block h = 1" using assms by (simp add: one_block_def)
  then show ?thesis using assms Some k by (simp add: addWord_def one_block_def Let_def)
qed

lemma one_block_anchor: "one_block n h \<Longrightarrow> currentLink h = None \<Longrightarrow> links h \<noteq> [] \<Longrightarrow>
    one_block n (h\<lparr>inAnchor := True, currentLink := Some (links_block h, length (links h) - 1)\<rparr>)"
  by (simp add: one_block_def)

lemma one_block_handleTag:
  assumes "one_block (Suc n) h"
  shows "one_block n (handleTag action name attrs isClosing isSelfClosing h)"
proof -
  have same: "one_block n h'" if "links h' = links h" "links_block h' = links_block h" "links_capacity h' = links_capacity h"
    "currentLink h' = currentLink h \<or> currentLink h' = None" for h' :: Parser
    using assms that by (auto simp: one_block_def)
  show ?thesis
  proof (cases "action = Anchor \<and> \<not> isClosing \<and> extractAttribute ''href'' attrs \<noteq> []")
    case True
    let ?url = "extractAttribute ''href'' attrs"
    let ?h = "h\<lparr>inAnchor := False, currentLink := None\<rparr>"
    have closed: "one_block (Suc n) ?h" using assms by (simp add: one_block_def)
    have "one_block n (push_link ?url ?h\<lparr>inAnchor := True,
        currentLink := Some (links_block (push_link ?url ?h), length (links (push_link ?url ?h)) - 1)\<rparr>)"
      using one_block_push [OF closed, of ?url] by (rule one_block_anchor) (simp_all add: push_link_same)
    moreover have "one_block n (push_link ?url h\<lparr>inAnchor := True,
        currentLink := Some (links_block (push_link ?url h), length (links (push_link ?url h)) - 1)\<rparr>)"
      using one_block_push [OF assms, of ?url] by (auto simp: one_block_def push_link_same)
    ultimately show ?thesis
      using True one_block_push [OF assms, of ?url] one_block_push [OF closed, of ?url]
      by (simp add: handleTag_def handleAnchor_def Let_def)
  next
    case False
    then show ?thesis using one_block_push [OF assms]
      by (cases action) (auto simp: handleTag_def handleDiscardSection_def handleAnchor_def handleBase_def handleEmbed_def
          handleDiscard_def Let_def intro!: same)
  qed
qed

lemma one_block_processTag:
  assumes "one_block (Suc n) h"
  shows "one_block n (fst (processTag p h))"
proof -
  have "one_block n h" using assms by (simp add: one_block_def)
  moreover have "one_block n (h\<lparr>openSections := ts\<rparr>)" for ts using assms by (simp add: one_block_def)
  ultimately show ?thesis using one_block_handleTag [OF assms]
    by (auto simp: processTag_def Let_def split: option.splits)
qed

text \<open>The pointer that was saved before a tag still leads to its link.\<close>

lemma one_block_pending:
  assumes "one_block n h" and "one_block m old" and "length (links old) \<le> length (links h)"
  shows "\<exists>h'. add_pending wordStart p old h = Some h' \<and> one_block n h'"
proof (cases wordStart)
  case (Some start)
  let ?h = "h\<lparr>inTitle := inTitle old, inAnchor := inAnchor old, currentLink := currentLink old\<rparr>"
  have "one_block n ?h" using assms by (auto simp: one_block_def split: option.splits)
  then obtain h1 where h1: "addWord (text_between start p) ?h = Some h1" "one_block n h1" using one_block_addWord by blast
  have "length (links h1) = length (links h) \<and> links_block h1 = links_block h \<and> links_capacity h1 = links_capacity h"
    using h1(1) by (auto simp: addWord_def Let_def split: if_splits option.splits prod.splits)
  then have "one_block n (h1\<lparr>inTitle := inTitle h, inAnchor := inAnchor h, currentLink := currentLink h\<rparr>)"
    using h1(2) assms(1) by (auto simp: one_block_def split: option.splits)
  then show ?thesis using h1(1) Some assms(1) by (simp add: add_pending_def)
qed (use assms in \<open>simp add: add_pending_def\<close>)

lemma links_processTag: "length (links h) \<le> length (links (fst (processTag p h)))"
proof -
  have "length (links h) \<le> length (links (handleTag action name attrs b1 b2 h))" for action name attrs b1 b2
    by (cases action) (auto simp: handleTag_def handleDiscardSection_def handleAnchor_def handleBase_def handleEmbed_def
        handleDiscard_def Let_def push_link_same)
  then show ?thesis by (auto simp: processTag_def Let_def split: option.splits)
qed

lemma count_suffix: "suffix q p \<Longrightarrow> count_list q c \<le> count_list p c"
  by (auto simp: suffix_def)

lemma parse_loop_returns:
  "one_block (angles p) h \<Longrightarrow> \<exists>h'. parse_loop p wordStart h = Some h'"
proof (induction p wordStart h rule: parse_loop.induct)
  case (1 p wordStart h)
  note eq = parse_loop.simps [of p wordStart h]
  have if_open: "\<exists>h'. add_if_open wordStart p h = Some h' \<and> one_block n h'" if "one_block n h" for n
    using one_block_addWord [OF that] that by (auto simp: add_if_open_def split: option.splits)
  show ?case
  proof (cases p)
    case Nil
    then show ?thesis using eq if_open [OF 1(5)] by auto
  next
    case (Cons c p')
    consider (tag) "c = CHR ''<''" | (space) "c \<noteq> CHR ''<''" "isSpace c" | (other) "c \<noteq> CHR ''<''" "\<not> isSpace c" by blast
    then show ?thesis
    proof cases
      case tag
      obtain h1 r where r: "processTag p h = (h1, r)" by fastforce
      have ok: "one_block (Suc (angles p')) h" using 1(5) Cons tag by simp
      have h1: "one_block (angles p') h1" using one_block_processTag [OF ok, of p] r by simp
      show ?thesis
      proof (cases r)
        case None
        then show ?thesis using 1(1) r tag Cons eq h1 by simp
      next
        case (Some newP)
        obtain h2 where h2: "add_pending wordStart p h h1 = Some h2" "one_block (angles p') h2"
          using one_block_pending [OF h1 ok] links_processTag [of h p] r by auto
        have "suffix newP p" "length newP < length p" using suffix_processTag [of p h h1 newP] length_processTag [of p h h1 newP] r Some Cons by blast+
        then have "suffix newP p'" using Cons by (metis suffix_Cons less_irrefl)
        then have "one_block (angles newP) h2" by (intro one_block_mono [OF h2(2)] count_suffix)
        then show ?thesis using 1(2) r tag Cons eq h2(1) Some by simp
      qed
    next
      case space
      then have "one_block (angles p') h" using 1(5) Cons by simp
      then obtain h1 where h1: "add_if_open wordStart p h = Some h1" "one_block (angles p') h1" using if_open by blast
      then show ?thesis using 1(3) space Cons eq by simp
    next
      case other
      then show ?thesis using 1(4,5) Cons eq by simp
    qed
  qed
qed

subsection \<open>Printing and parsing a page\<close>

text \<open>Pages made of words, tags without meaning, links and titles with words in them, sections to be discarded and comments.\<close>

datatype Node =
  Word string | Tag string string | EndTag string | LinkTo string "string list" | TitleText "string list"
| Section string string | Remark string

definition open_tag :: "string \<Rightarrow> string \<Rightarrow> string" where
  "open_tag name attrs = CHR ''<'' # name @ attrs @ ''>''"

definition close_tag :: "string \<Rightarrow> string" where
  "close_tag name = ''</'' @ name @ ''>''"

definition print_words :: "string list \<Rightarrow> string" where
  "print_words ws = concat (map (\<lambda>w. w @ '' '') ws)"

definition href_attr :: "string \<Rightarrow> string" where
  "href_attr url = '' href='' @ CHR 0x22 # url @ [CHR 0x22]"

fun print_node :: "Node \<Rightarrow> string" where
  "print_node (Word w) = w @ '' ''"
| "print_node (Tag name attrs) = open_tag name attrs"
| "print_node (EndTag name) = close_tag name"
| "print_node (LinkTo url ws) = open_tag ''a'' (href_attr url) @ print_words ws @ close_tag ''a''"
| "print_node (TitleText ws) = open_tag ''title'' [] @ print_words ws @ close_tag ''title''"
| "print_node (Section name raw) = open_tag name [] @ raw @ close_tag name"
| "print_node (Remark raw) = ''<!--'' @ raw @ ''-->''"

definition good_word :: "string \<Rightarrow> bool" where
  "good_word w \<longleftrightarrow> w \<noteq> [] \<and> (\<forall>c \<in> set w. \<not> isSpace c \<and> c \<noteq> CHR ''<'')"

definition plain_char :: "char \<Rightarrow> bool" where
  "plain_char c \<longleftrightarrow> c \<noteq> CHR 0x22 \<and> c \<noteq> CHR 0x27 \<and> c \<noteq> CHR ''>''"

definition tag_name :: "DesiredAction \<Rightarrow> string \<Rightarrow> bool" where
  "tag_name action name \<longleftrightarrow> (\<forall>c \<in> set name. \<not> name_end c \<and> code c \<noteq> 0)
     \<and> map_of TagsRecognized (lowerAscii name) = Some action"

fun good_node :: "Node \<Rightarrow> bool" where
  "good_node (Word w) \<longleftrightarrow> good_word w"
| "good_node (Tag name attrs) \<longleftrightarrow> tag_name Discard name \<and> (\<forall>c \<in> set attrs. plain_char c) \<and> (attrs = [] \<or> isSpace (hd attrs))"
| "good_node (EndTag name) \<longleftrightarrow> tag_name Discard name"
| "good_node (LinkTo url ws) \<longleftrightarrow> url \<noteq> [] \<and> CHR 0x22 \<notin> set url \<and> (\<forall>w \<in> set ws. good_word w)"
| "good_node (TitleText ws) \<longleftrightarrow> (\<forall>w \<in> set ws. good_word w)"
| "good_node (Section name raw) \<longleftrightarrow> tag_name DiscardSection name \<and> \<not> sublist ''</'' raw"
| "good_node (Remark raw) \<longleftrightarrow> \<not> sublist ''-->'' (raw @ ''--'')"

text \<open>What the parser makes of them.\<close>

fun node_words :: "Node \<Rightarrow> string list" where
  "node_words (Word w) = [w]" | "node_words (LinkTo url ws) = ws" | "node_words _ = []"

fun node_titles :: "Node \<Rightarrow> string list" where
  "node_titles (TitleText ws) = ws" | "node_titles _ = []"

fun node_links :: "Node \<Rightarrow> Link list" where
  "node_links (LinkTo url ws) = [\<lparr>link_url = url, anchorText = ws\<rparr>]" | "node_links _ = []"

fun eval_node :: "Node \<Rightarrow> Parser \<Rightarrow> Parser" where
  "eval_node (Word w) h = h\<lparr>words := words h @ [w]\<rparr>"
| "eval_node (Tag name attrs) h = handleDiscard name attrs False h"
| "eval_node (EndTag name) h = handleDiscard name [] True h"
| "eval_node (LinkTo url ws) h = (push_link url h)\<lparr>words := words h @ ws, links := links h @ [\<lparr>link_url = url, anchorText = ws\<rparr>]\<rparr>"
| "eval_node (TitleText ws) h = h\<lparr>titleWords := titleWords h @ ws\<rparr>"
| "eval_node n h = h"

definition calm :: "Parser \<Rightarrow> bool" where
  "calm h \<longleftrightarrow> openSections h = [] \<and> \<not> inTitle h \<and> \<not> inAnchor h \<and> currentLink h = None"

lemma char_facts: "\<not> isSpace (CHR ''<'')" "isSpace (CHR '' '')" "\<not> isSpace (CHR ''>'')" "name_end (CHR ''>'')" "CHR ''<'' \<noteq> CHR '' ''"
  "\<not> name_end (CHR ''!'')" "\<not> name_end (CHR ''-'')"
  by (simp_all add: isSpace_def name_end_code code_def)

subsubsection \<open>Words\<close>

lemma parse_word_rest:
  assumes "openSections h = []" and "\<forall>c \<in> set v. \<not> isSpace c \<and> c \<noteq> CHR ''<''"
  shows "parse_loop (v @ CHR '' '' # rest) (Some (u @ v @ CHR '' '' # rest)) h =
     (case addWord (u @ v) h of None \<Rightarrow> None | Some h' \<Rightarrow> parse_loop rest None h')"
  using assms(2)
proof (induction v arbitrary: u)
  case Nil
  then show ?case using assms(1) char_facts
    by (subst parse_loop.simps) (simp add: add_if_open_def inDiscardSection_def text_between_def split: option.split)
next
  case (Cons c v)
  have "parse_loop ((c # v) @ CHR '' '' # rest) (Some (u @ (c # v) @ CHR '' '' # rest)) h
      = parse_loop (v @ CHR '' '' # rest) (Some ((u @ [c]) @ v @ CHR '' '' # rest)) h"
    using Cons.prems assms(1) by (subst parse_loop.simps) simp
  then show ?case using Cons.IH [of "u @ [c]"] Cons.prems by simp
qed

lemma parse_word:
  assumes "openSections h = []" and "good_word w"
  shows "parse_loop (w @ CHR '' '' # rest) None h = (case addWord w h of None \<Rightarrow> None | Some h' \<Rightarrow> parse_loop rest None h')"
proof -
  obtain c v where w: "w = c # v" using assms(2) by (cases w) (auto simp: good_word_def)
  have "parse_loop (w @ CHR '' '' # rest) None h = parse_loop (v @ CHR '' '' # rest) (Some ([c] @ v @ CHR '' '' # rest)) h"
    using assms w by (subst parse_loop.simps) (simp add: good_word_def inDiscardSection_def)
  then show ?thesis using parse_word_rest [OF assms(1), of v rest "[c]"] assms(2) w by (simp add: good_word_def)
qed

lemma parse_words:
  assumes "\<forall>w \<in> set ws. good_word w" and "openSections h = []" and "P [] h"
    and "\<And>vs w h. P vs h \<Longrightarrow> openSections h = [] \<Longrightarrow> w \<noteq> [] \<Longrightarrow> \<exists>h'. addWord w h = Some h' \<and> P (vs @ [w]) h' \<and> openSections h' = []"
  shows "\<exists>h'. parse_loop (print_words ws @ rest) None h = parse_loop rest None h' \<and> P ws h' \<and> openSections h' = []"
proof -
  have "\<exists>h'. parse_loop (print_words us @ rest) None h = parse_loop rest None h' \<and> P (vs @ us) h' \<and> openSections h' = []"
    if "\<forall>w \<in> set us. good_word w" "openSections h = []" "P vs h" for us vs h
    using that
  proof (induction us arbitrary: vs h)
    case Nil
    then show ?case by (auto simp: print_words_def)
  next
    case (Cons w us)
    have w: "good_word w" "w \<noteq> []" using Cons.prems(1) by (auto simp: good_word_def)
    obtain h1 where h1: "addWord w h = Some h1" "P (vs @ [w]) h1" "openSections h1 = []"
      using assms(4) [OF Cons.prems(3,2) w(2)] by blast
    have "print_words (w # us) @ rest = w @ CHR '' '' # (print_words us @ rest)" by (simp add: print_words_def)
    then have "parse_loop (print_words (w # us) @ rest) None h = parse_loop (print_words us @ rest) None h1"
      using parse_word [OF Cons.prems(2) w(1)] h1(1) by simp
    then show ?case using Cons.IH [OF _ h1(3,2)] Cons.prems(1) by simp
  qed
  from this [of ws h "[]"] show ?thesis using assms(1-3) by simp
qed

subsubsection \<open>Tags\<close>

lemma close_loop_plain:
  "\<forall>c \<in> set s. plain_char c \<Longrightarrow> close_loop (s @ CHR ''>'' # rest) None False = Some (CHR ''>'' # rest)"
  by (induction s) (auto simp: plain_char_def)

lemma close_loop_quoted: "q \<notin> set s \<Longrightarrow> close_loop (s @ q # r) (Some q) j = close_loop r None True"
  by (induction s) auto

lemma close_href: "CHR 0x22 \<notin> set url \<Longrightarrow> findClose (href_attr url @ CHR ''>'' # rest) = Some (CHR ''>'' # rest)"
  by (simp add: findClose_def href_attr_def close_loop_quoted)

lemma extract_href:
  assumes "url \<noteq> []" and "CHR 0x22 \<notin> set url"
  shows "extractAttribute ''href'' (href_attr url) = url"
proof -
  let ?v = "CHR 0x22 # url @ [CHR 0x22]"
  let ?p = "''href='' @ ?v"
  have cmp: "strncasecmp (length ''href'') ?p ''href'' = 0" by (simp add: at_ptr_def)
  have first: "strncasecmp (length ''href'') (CHR '' '' # ?p) ''href'' \<noteq> 0"
    by (simp add: at_ptr_def toLowerAscii_def isUpperAscii_def code_def)
  have "extractAttribute ''href'' (href_attr url) = extractAttribute ''href'' ?p"
    using first by (simp add: href_attr_def)
  also have "\<dots> = takeWhile (\<lambda>c. c \<noteq> CHR 0x22) (url @ [CHR 0x22])"
  proof -
    have sp: "\<not> isSpace (CHR ''='')" "\<not> isSpace (CHR 0x22)" by (simp_all add: isSpace_def code_def)
    have "extractAttribute ''href'' (CHR ''h'' # ''ref='' @ ?v) = takeWhile (\<lambda>c. c \<noteq> CHR 0x22) (url @ [CHR 0x22])"
      using cmp sp by (subst extractAttribute.simps) (simp add: Let_def)
    then show ?thesis by simp
  qed
  also have "\<dots> = url" using assms(2) by (induction url) auto
  finally show ?thesis .
qed

lemma name_takeWhile:
  assumes "\<forall>c \<in> set name. \<not> name_end c" and "rest = [] \<or> name_end (hd rest)"
  shows "takeWhile (\<lambda>c. \<not> name_end c) (name @ rest) = name" and "dropWhile (\<lambda>c. \<not> name_end c) (name @ rest) = rest"
proof -
  show "takeWhile (\<lambda>c. \<not> name_end c) (name @ rest) = name" using assms
    by (cases rest) (auto simp: takeWhile_append2 takeWhile_eq_all_conv)
  show "dropWhile (\<lambda>c. \<not> name_end c) (name @ rest) = rest" using assms by (cases rest) auto
qed

lemma tag_action:
  assumes "tag_name action name" and "rest = [] \<or> name_end (hd rest)"
  shows "LookupPossibleTag (name @ rest) (length name) = action"
proof -
  have "name_text name rest" using assms by (simp add: tag_name_def name_text_def)
  then show ?thesis using LookupPossibleTag_eq assms(1) by (simp add: tag_name_def)
qed

lemma table_no_comment: "\<forall>(t, a) \<in> set TagsRecognized. t \<noteq> [] \<and> hd t \<noteq> CHR ''/'' \<and> a \<noteq> OrdinaryText \<and> (a = Comment \<longleftrightarrow> take 3 t = ''!--'')"
  unfolding TagsRecognized_def by simp

lemma tag_name_facts:
  assumes "tag_name action name" and "action \<noteq> Comment"
  shows "name \<noteq> []" and "hd name \<noteq> CHR ''/''" and "take 3 name \<noteq> ''!--''" and "action \<noteq> OrdinaryText"
proof -
  have t: "lowerAscii name \<noteq> []" "hd (lowerAscii name) \<noteq> CHR ''/''" "action \<noteq> OrdinaryText" "take 3 (lowerAscii name) \<noteq> ''!--''"
    using assms table_no_comment by (auto simp: tag_name_def dest!: map_of_SomeD)
  show "name \<noteq> []" "action \<noteq> OrdinaryText" using t by (auto simp: lowerAscii_def)
  have "\<forall>c \<in> set name. \<not> name_end c" using assms(1) by (simp add: tag_name_def)
  then show "hd name \<noteq> CHR ''/''" using \<open>name \<noteq> []\<close> by (auto simp: name_end_def neq_Nil_conv)
  have "lowerAscii ''!--'' = ''!--''" by code_simp
  then show "take 3 name \<noteq> ''!--''" using t(4) by (metis lowerAscii_def take_map)
qed

text \<open>An opening or closing tag is handled and left behind.\<close>

lemma process_open:
  assumes "openSections h = []" and "tag_name action name" and "action \<noteq> Comment"
    and "attrs = [] \<or> name_end (hd attrs)" and "findClose (attrs @ CHR ''>'' # rest) = Some (CHR ''>'' # rest)"
  shows "processTag (open_tag name attrs @ rest) h =
     (handleTag action name attrs False (last (CHR ''<'' # name @ attrs) = CHR ''/'') h, Some rest)"
proof -
  let ?tail = "attrs @ CHR ''>'' # rest"
  have e: "?tail = [] \<or> name_end (hd ?tail)" using assms(4) char_facts(4) by (cases attrs) auto
  have n: "\<forall>c \<in> set name. \<not> name_end c" using assms(2) by (simp add: tag_name_def)
  note f = tag_name_facts [OF assms(2,3)]
  have p: "open_tag name attrs @ rest = CHR ''<'' # name @ ?tail" by (simp add: open_tag_def)
  have closing: "\<not> (name @ ?tail \<noteq> [] \<and> hd (name @ ?tail) = CHR ''/'')" using f by simp
  have take: "take (length (CHR ''<'' # name @ ?tail) - length (CHR ''>'' # rest)) (CHR ''<'' # name @ ?tail) = CHR ''<'' # name @ attrs"
    by simp
  show ?thesis
    unfolding p processTag_def Let_def list.sel
    using assms(1,3,5) closing f name_takeWhile [OF n e] tag_action [OF assms(2) e] take
    by (simp add: inDiscardSection_def)
qed

lemma process_close:
  assumes "openSections h = []" and "tag_name action name" and "action \<noteq> Comment"
  shows "processTag (close_tag name @ rest) h = (handleTag action name [] True (last (''</'' @ name) = CHR ''/'') h, Some rest)"
proof -
  let ?tail = "CHR ''>'' # rest"
  have e: "?tail = [] \<or> name_end (hd ?tail)" using char_facts(4) by simp
  have n: "\<forall>c \<in> set name. \<not> name_end c" using assms(2) by (simp add: tag_name_def)
  note f = tag_name_facts [OF assms(2,3)]
  have p: "close_tag name @ rest = CHR ''<'' # CHR ''/'' # name @ ?tail" by (simp add: close_tag_def)
  have c: "findClose ?tail = Some ?tail" by (simp add: findClose_def)
  have take: "take (length (CHR ''<'' # CHR ''/'' # name @ ?tail) - length ?tail) (CHR ''<'' # CHR ''/'' # name @ ?tail)
      = CHR ''<'' # CHR ''/'' # name" by simp
  show ?thesis
    unfolding p processTag_def Let_def list.sel
    using assms(1,3) f c name_takeWhile [OF n e] tag_action [OF assms(2) e] take
    by (simp add: inDiscardSection_def)
qed

lemma parse_tag:
  assumes "processTag (t @ rest) h = (h', Some rest)" and "t \<noteq> []" and "hd t = CHR ''<''"
  shows "parse_loop (t @ rest) None h = parse_loop rest None h'"
  using assms by (subst parse_loop.simps) (simp add: add_pending_def)

lemma parse_open:
  assumes "openSections h = []" and "tag_name action name" and "action \<noteq> Comment"
    and "attrs = [] \<or> name_end (hd attrs)" and "findClose (attrs @ CHR ''>'' # rest) = Some (CHR ''>'' # rest)"
  shows "parse_loop (open_tag name attrs @ rest) None h =
     parse_loop rest None (handleTag action name attrs False (last (CHR ''<'' # name @ attrs) = CHR ''/'') h)"
  by (rule parse_tag [OF process_open [OF assms]]) (simp_all add: open_tag_def)

lemma parse_close:
  assumes "openSections h = []" and "tag_name action name" and "action \<noteq> Comment"
  shows "parse_loop (close_tag name @ rest) None h =
     parse_loop rest None (handleTag action name [] True (last (''</'' @ name) = CHR ''/'') h)"
  by (rule parse_tag [OF process_close [OF assms]]) (simp_all add: close_tag_def)

subsubsection \<open>Sections and comments\<close>

lemma strncasecmp_lower: "\<forall>c \<in> set n. code c \<noteq> 0 \<Longrightarrow> strncasecmp (length n) (n @ r) (lowerAscii n) = 0"
  by (induction n) (simp_all add: at_ptr_def lowerAscii_def)

lemma no_close_inside:
  assumes "\<not> sublist ''</'' (c # raw)"
  shows "matchClosingTag (c # raw @ close_tag name @ rest) t = None"
proof -
  have "\<not> (c = CHR ''<'' \<and> (raw @ close_tag name @ rest) ! 0 = CHR ''/'')"
  proof (cases raw)
    case (Cons d r)
    have "prefix ''</'' (c # raw)" if "c = CHR ''<''" "d = CHR ''/''" using that Cons by simp
    then show ?thesis using assms Cons prefix_imp_sublist by auto
  qed (simp add: close_tag_def)
  then show ?thesis by (auto simp: matchClosingTag_def)
qed

lemma skip_raw:
  assumes "tag_name action name" and "openSections h = [lowerAscii name]" and "\<not> sublist ''</'' raw"
  shows "parse_loop (raw @ close_tag name @ rest) None h = parse_loop rest None (h\<lparr>openSections := []\<rparr>)"
  using assms(3)
proof (induction raw)
  case Nil
  have n: "\<forall>c \<in> set name. code c \<noteq> 0" using assms(1) by (simp add: tag_name_def)
  have "matchClosingTag (close_tag name @ rest) (lowerAscii name) = Some rest"
    using strncasecmp_lower [OF n, of "CHR ''>'' # rest"] char_facts(3)
    by (simp add: matchClosingTag_def close_tag_def Let_def lowerAscii_def)
  then have "processTag (close_tag name @ rest) h = (h\<lparr>openSections := []\<rparr>, Some rest)"
    using assms(2) by (simp add: processTag_def inDiscardSection_def)
  then show ?case using parse_tag [of "close_tag name"] by (simp add: close_tag_def)
next
  case (Cons c raw)
  let ?p = "c # raw @ close_tag name @ rest"
  have "\<not> sublist ''</'' raw" using Cons.prems by (meson sublist_Cons_right)
  note IH = Cons.IH [OF this]
  have "processTag ?p h = (h, None)" using assms(2) no_close_inside [OF Cons.prems]
    by (simp add: processTag_def inDiscardSection_def)
  then have "parse_loop ?p None h = parse_loop (raw @ close_tag name @ rest) None h"
    using assms(2) by (cases "c = CHR ''<''"; subst parse_loop.simps; simp add: inDiscardSection_def add_if_open_def)
  then show ?case using IH by simp
qed

lemma skip_comment: "\<not> sublist ''-->'' (raw @ ''--'') \<Longrightarrow> comment_loop (raw @ ''-->'' @ rest) = rest"
proof (induction raw)
  case (Cons c raw)
  have no: "\<not> sublist ''-->'' (raw @ ''--'')" using Cons.prems by (metis append_Cons sublist_Cons_right)
  obtain a b r where r: "raw @ ''-->'' @ rest = a # b # r" by (cases raw; cases "tl raw") auto
  have "\<not> (c = CHR ''-'' \<and> a = CHR ''-'' \<and> b = CHR ''>'')"
  proof
    assume e: "c = CHR ''-'' \<and> a = CHR ''-'' \<and> b = CHR ''>''"
    then have "prefix ''-->'' ((c # raw) @ ''--'')" using r by (cases raw; cases "tl raw") auto
    then show False using Cons.prems prefix_imp_sublist by blast
  qed
  then have "comment_loop (c # a # b # r) = comment_loop (a # b # r)" by auto
  then show ?case using Cons.IH [OF no] unfolding append_Cons [of c raw] r by (simp del: comment_loop.simps)
qed simp

lemma parse_comment:
  assumes "openSections h = []" and "\<not> sublist ''-->'' (raw @ ''--'')"
  shows "parse_loop (''<!--'' @ raw @ ''-->'' @ rest) None h = parse_loop rest None h"
proof -
  let ?p = "''<!--'' @ raw @ ''-->'' @ rest"
  have name: "takeWhile (\<lambda>c. \<not> name_end c) (tl ?p) = ''!--'' @ takeWhile (\<lambda>c. \<not> name_end c) (raw @ ''-->'' @ rest)"
    using char_facts(6,7) by simp
  have "handleComment ?p = rest" using skip_comment [OF assms(2), of rest] by (simp add: handleComment_def)
  then have "processTag ?p h = (h, Some rest)"
    unfolding processTag_def Let_def using assms(1) name by (simp add: inDiscardSection_def)
  then show ?thesis using parse_tag [of "''<!--'' @ raw @ ''-->''"] by simp
qed

subsubsection \<open>Nodes\<close>

lemma known_tags: "tag_name Anchor ''a''" "tag_name Title ''title''"
  by code_simp+

lemma parse_link:
  assumes "calm h" and "url \<noteq> []" and "CHR 0x22 \<notin> set url" and "\<forall>w \<in> set ws. good_word w"
  shows "parse_loop (print_node (LinkTo url ws) @ rest) None h = parse_loop rest None (eval_node (LinkTo url ws) h)"
proof -
  have c: "openSections h = []" "\<not> inTitle h" "\<not> inAnchor h" "currentLink h = None" using assms(1) by (auto simp: calm_def)
  let ?k = "push_link url h"
  let ?h = "\<lambda>us. ?k\<lparr>words := words h @ us, links := links h @ [\<lparr>link_url = url, anchorText = us\<rparr>], inAnchor := True,
    currentLink := Some (links_block ?k, length (links h))\<rparr>"
  let ?inner = "print_words ws @ close_tag ''a'' @ rest"
  have push: "links ?k = links h @ [\<lparr>link_url = url, anchorText = []\<rparr>]" "words ?k = words h" "openSections ?k = []" "\<not> inTitle ?k"
    "inAnchor ?k = False" "currentLink ?k = None"
    using c by (simp_all add: push_link_def Let_def)
  have "last (CHR ''<'' # ''a'' @ href_attr url) \<noteq> CHR ''/''" by (simp add: href_attr_def)
  moreover have "href_attr url = [] \<or> name_end (hd (href_attr url))" by (simp add: href_attr_def name_end_code code_def)
  ultimately have "parse_loop (open_tag ''a'' (href_attr url) @ ?inner) None h
      = parse_loop ?inner None (handleTag Anchor ''a'' (href_attr url) False False h)"
    using parse_open [OF c(1) known_tags(1) _ _ close_href [OF assms(3)]] by simp
  moreover have "handleTag Anchor ''a'' (href_attr url) False False h = ?h []"
    using c push assms(2) extract_href [OF assms(2,3)] by (simp add: handleTag_def handleAnchor_def Let_def)
  ultimately have 1: "parse_loop (open_tag ''a'' (href_attr url) @ ?inner) None h = parse_loop ?inner None (?h [])" by simp
  have add: "\<exists>h'. addWord w h1 = Some h' \<and> h' = ?h (us @ [w]) \<and> openSections h' = []"
    if "h1 = ?h us" "w \<noteq> []" for us w h1
    using that push by (simp add: addWord_def Let_def)
  have 2: "parse_loop ?inner None (?h []) = parse_loop (close_tag ''a'' @ rest) None (?h ws)"
    using parse_words [of ws "?h []" "\<lambda>us h1. h1 = ?h us" "close_tag ''a'' @ rest"] assms(4) push(3) add by simp
  have "parse_loop (close_tag ''a'' @ rest) None (?h ws) = parse_loop rest None (handleTag Anchor ''a'' [] True False (?h ws))"
    using parse_close [OF _ known_tags(1), of "?h ws" rest] push(3) by simp
  moreover have "handleTag Anchor ''a'' [] True False (?h ws) = eval_node (LinkTo url ws) h"
    using c push by (cases h) (simp add: handleTag_def handleAnchor_def push_link_def Let_def)
  ultimately have 3: "parse_loop (close_tag ''a'' @ rest) None (?h ws) = parse_loop rest None (eval_node (LinkTo url ws) h)" by simp
  show ?thesis using 1 2 3 by simp
qed

lemma parse_title:
  assumes "calm h" and "\<forall>w \<in> set ws. good_word w"
  shows "parse_loop (print_node (TitleText ws) @ rest) None h = parse_loop rest None (eval_node (TitleText ws) h)"
proof -
  have c: "openSections h = []" "\<not> inTitle h" "\<not> inAnchor h" "currentLink h = None" using assms(1) by (auto simp: calm_def)
  let ?h = "\<lambda>us. h\<lparr>titleWords := titleWords h @ us, inTitle := True\<rparr>"
  let ?inner = "print_words ws @ close_tag ''title'' @ rest"
  have "parse_loop (open_tag ''title'' [] @ ?inner) None h = parse_loop ?inner None (handleTag Title ''title'' [] False False h)"
    using parse_open [OF c(1) known_tags(2), of "[]" ?inner] by (simp add: findClose_def)
  moreover have "handleTag Title ''title'' [] False False h = ?h []" by (simp add: handleTag_def)
  ultimately have 1: "parse_loop (open_tag ''title'' [] @ ?inner) None h = parse_loop ?inner None (?h [])" by simp
  have 2: "parse_loop ?inner None (?h []) = parse_loop (close_tag ''title'' @ rest) None (?h ws)"
    using parse_words [of ws "?h []" "\<lambda>us h1. h1 = ?h us" "close_tag ''title'' @ rest"] assms(2) c by (simp add: addWord_def Let_def)
  have "parse_loop (close_tag ''title'' @ rest) None (?h ws) = parse_loop rest None (handleTag Title ''title'' [] True False (?h ws))"
    using parse_close [OF _ known_tags(2), of "?h ws" rest] c by simp
  moreover have "handleTag Title ''title'' [] True False (?h ws) = eval_node (TitleText ws) h"
    using c by (cases h) (simp add: handleTag_def)
  ultimately have 3: "parse_loop (close_tag ''title'' @ rest) None (?h ws) = parse_loop rest None (eval_node (TitleText ws) h)" by simp
  show ?thesis using 1 2 3 by simp
qed

lemma calm_handleDiscard: "calm h \<Longrightarrow> calm (handleDiscard name attrs b h)"
  by (simp add: calm_def handleDiscard_def Let_def)

lemma calm_eval: "calm h \<Longrightarrow> calm (eval_node n h)"
  by (cases n) (auto simp: calm_handleDiscard, simp_all add: calm_def push_link_def Let_def)

lemma parse_node:
  assumes "calm h" and "good_node n"
  shows "parse_loop (print_node n @ rest) None h = parse_loop rest None (eval_node n h)"
proof -
  have c: "openSections h = []" "\<not> inTitle h" "\<not> inAnchor h" using assms(1) by (auto simp: calm_def)
  show ?thesis
  proof (cases n)
    case (Word w)
    then have "w \<noteq> []" "good_word w" using assms(2) by (auto simp: good_word_def)
    then show ?thesis using parse_word [OF c(1), of w rest] c Word by (simp add: addWord_def Let_def)
  next
    case (Tag name attrs)
    then have t: "tag_name Discard name" "\<forall>c \<in> set attrs. plain_char c" "attrs = [] \<or> name_end (hd attrs)"
      using assms(2) by (auto simp: name_end_def)
    have "findClose (attrs @ CHR ''>'' # rest) = Some (CHR ''>'' # rest)" using close_loop_plain [OF t(2)] by (simp add: findClose_def)
    then show ?thesis using parse_open [OF c(1) t(1) _ t(3)] Tag by (simp add: handleTag_def)
  next
    case (EndTag name)
    then show ?thesis using parse_close [OF c(1), of Discard name rest] assms(2) by (simp add: handleTag_def)
  next
    case (LinkTo url ws)
    then show ?thesis using parse_link [OF assms(1)] assms(2) by simp
  next
    case (TitleText ws)
    then show ?thesis using parse_title [OF assms(1)] assms(2) by simp
  next
    case (Section name raw)
    then have t: "tag_name DiscardSection name" "\<not> sublist ''</'' raw" using assms(2) by auto
    let ?inner = "raw @ close_tag name @ rest"
    note f = tag_name_facts [OF t(1)]
    have "last (CHR ''<'' # name) \<noteq> CHR ''/''"
      using f(1) t(1) last_in_set [of name] by (auto simp: tag_name_def name_end_def)
    then have "parse_loop (open_tag name [] @ ?inner) None h = parse_loop ?inner None (h\<lparr>openSections := [lowerAscii name]\<rparr>)"
      using parse_open [OF c(1) t(1), of "[]" ?inner] c(1) by (simp add: findClose_def handleTag_def handleDiscardSection_def)
    also have "\<dots> = parse_loop rest None (h\<lparr>openSections := []\<rparr>)" using skip_raw [OF t(1) _ t(2)] by simp
    also have "h\<lparr>openSections := []\<rparr> = h" using c(1) by (cases h) simp
    finally show ?thesis using Section by simp
  next
    case (Remark raw)
    then show ?thesis using parse_comment [OF c(1), of raw rest] assms(2) by simp
  qed
qed

definition print_page :: "Node list \<Rightarrow> string" where
  "print_page ns = concat (map print_node ns)"

lemma parse_nodes:
  "calm h \<Longrightarrow> \<forall>n \<in> set ns. good_node n \<Longrightarrow> parse_loop (print_page ns) None h = Some (fold eval_node ns h)"
proof (induction ns arbitrary: h)
  case Nil
  then show ?case by (simp add: print_page_def parse_loop.simps add_if_open_def)
next
  case (Cons n ns)
  have "parse_loop (print_page (n # ns)) None h = parse_loop (print_page ns) None (eval_node n h)"
    using parse_node [OF Cons.prems(1), of n] Cons.prems(2) by (simp add: print_page_def)
  then show ?case using Cons.IH [OF calm_eval] Cons.prems by simp
qed

lemma handleDiscard_lists: "words (handleDiscard n a b h) = words h" "titleWords (handleDiscard n a b h) = titleWords h"
  "links (handleDiscard n a b h) = links h" "openSections (handleDiscard n a b h) = openSections h"
  by (simp_all add: handleDiscard_def Let_def)

lemma push_link_lists: "titleWords (push_link u h) = titleWords h" "openSections (push_link u h) = openSections h"
  by (simp_all add: push_link_def Let_def)

lemma eval_nodes:
  "words (fold eval_node ns h) = words h @ concat (map node_words ns)
     \<and> titleWords (fold eval_node ns h) = titleWords h @ concat (map node_titles ns)
     \<and> links (fold eval_node ns h) = links h @ concat (map node_links ns)
     \<and> openSections (fold eval_node ns h) = openSections h"
proof (induction ns arbitrary: h)
  case (Cons n ns)
  show ?case using Cons [of "eval_node n h"]
    by (cases n) (simp_all add: handleDiscard_lists push_link_lists)
qed simp

text \<open>C12. A printed page is read back: the words in their order, those of the titles apart, every link with its anchor text, whose
  words count as words of the page as well; scripts, styles and comments leave nothing behind, whatever is in them.\<close>

theorem parse_printed_page:
  assumes "\<forall>n \<in> set ns. good_node n"
  shows "\<exists>h. parse_page (print_page ns) = Some h \<and> words h = concat (map node_words ns)
     \<and> titleWords h = concat (map node_titles ns) \<and> links h = concat (map node_links ns) \<and> openSections h = []"
proof -
  have "calm new_parser" by (simp add: calm_def new_parser_def)
  then have "parse_loop (print_page ns) None new_parser = Some (fold eval_node ns new_parser)" by (rule parse_nodes [OF _ assms])
  then show ?thesis using eval_nodes [of ns new_parser] by (simp add: parse_page_def new_parser_def)
qed

definition example_page :: "Node list" where
  "example_page =
     [Tag ''HTML'' '' lang=en'', Remark '' <a> '', TitleText [''My'', ''page''], Section ''script'' ''if (a<b) x=<p>;'',
      Tag ''body'' [], Word ''see'', LinkTo ''/x?a>b'' [''this'', ''one''], EndTag ''body'', EndTag ''html'']"

lemma example_page_good: "\<forall>n \<in> set example_page. good_node n"
proof -
  have "\<forall>n \<in> set example_page. case n of Section a raw \<Rightarrow> True | Remark raw \<Rightarrow> True | n \<Rightarrow> good_node n" by code_simp
  moreover have "tag_name DiscardSection ''script''" by code_simp
  moreover have "\<not> sublist ''</'' ''if (a<b) x=<p>;''" "\<not> sublist ''-->'' ('' <a> '' @ ''--'')" by code_simp+
  ultimately show ?thesis by (simp add: example_page_def)
qed

theorem parse_printed_page_witness:
  "\<exists>h. parse_page (print_page example_page) = Some h \<and> words h = [''see'', ''this'', ''one''] \<and> titleWords h = [''My'', ''page'']
     \<and> links h = [\<lparr>link_url = ''/x?a>b'', anchorText = [''this'', ''one'']\<rparr>]"
  using parse_printed_page [OF example_page_good] by (auto simp: example_page_def)

subsection \<open>What every page guarantees\<close>

text \<open>Whatever the text, what the parser collects are pieces of it: words, title words and anchor words are not empty and hold
  no white space, links have an address, and at most one section is open in the end, a script, a style or a drawing.\<close>

theorem parsed_pieces:
  assumes "parse_page text = Some h"
  shows "(\<forall>w \<in> set (words h) \<union> set (titleWords h) \<union> (\<Union>l \<in> set (links h). set (anchorText l)).
            w \<noteq> [] \<and> (\<forall>c \<in> set w. \<not> isSpace c) \<and> sublist w text)
     \<and> (\<forall>l \<in> set (links h). link_url l \<noteq> [] \<and> sublist (link_url l) text)
     \<and> length (openSections h) \<le> 1
     \<and> ((\<forall>c \<in> set text. code c \<noteq> 0) \<longrightarrow> set (openSections h) \<subseteq> {''script'', ''style'', ''svg''})"
  using parse_page_collected [OF assms] by (auto simp: collected_def word_of_def link_of_def sections_of_def)

theorem parsed_pieces_witness:
  "\<exists>h. parse_page (print_page example_page) = Some h \<and> list_all (\<lambda>w. w \<noteq> [] \<and> sublist w (print_page example_page)) (words h)
     \<and> length (openSections h) \<le> 1"
proof -
  have "calm new_parser" by (simp add: calm_def new_parser_def)
  then obtain h where h: "parse_page (print_page example_page) = Some h"
    using parse_nodes [OF _ example_page_good] by (auto simp: parse_page_def)
  then show ?thesis unfolding list_all_iff using parsed_pieces [OF h] by blast
qed

text \<open>The text of a ninth link that is opened while the eighth is still open, with a word right before it.\<close>

definition link_text :: string where
  "link_text = ''<a href=u>''"

definition opened :: "nat \<Rightarrow> Parser" where
  "opened k = new_parser\<lparr>links := replicate k \<lparr>link_url = ''u'', anchorText = []\<rparr>, links_block := 1, links_capacity := 8,
     inAnchor := True, currentLink := Some (1, k - 1)\<rparr>"

lemma process_link:
  assumes "openSections h = []"
  shows "processTag (link_text @ rest) h = (handleAnchor '' href=u'' False False h, Some rest)"
proof -
  have "\<forall>c \<in> set '' href=u''. plain_char c" by code_simp
  then have "findClose ('' href=u'' @ CHR ''>'' # rest) = Some (CHR ''>'' # rest)"
    unfolding findClose_def by (rule close_loop_plain)
  moreover have "name_end (CHR '' '')" by (simp add: name_end_code code_def)
  ultimately show ?thesis
    using process_open [OF assms known_tags(1), of "'' href=u''" rest] by (simp add: open_tag_def link_text_def handleTag_def)
qed

lemma parse_link_text:
  "openSections h = [] \<Longrightarrow> parse_loop (link_text @ rest) None h = parse_loop rest None (handleAnchor '' href=u'' False False h)"
  by (rule parse_tag [OF process_link]) (simp_all add: link_text_def)

lemma href_u: "extractAttribute ''href'' '' href=u'' = ''u''"
  by code_simp

lemma open_first: "handleAnchor '' href=u'' False False new_parser = opened 1"
  by (simp add: handleAnchor_def href_u push_link_def opened_def new_parser_def Let_def del: extractAttribute.simps)

lemma open_next: "0 < k \<Longrightarrow> k < 8 \<Longrightarrow> handleAnchor '' href=u'' False False (opened k) = opened (Suc k)"
  by (simp add: handleAnchor_def href_u push_link_def opened_def new_parser_def Let_def replicate_append_same
      del: extractAttribute.simps)

lemma parse_opened:
  "0 < k \<Longrightarrow> k + n \<le> 8 \<Longrightarrow> parse_loop (concat (replicate n link_text) @ rest) None (opened k) = parse_loop rest None (opened (k + n))"
proof (induction n arbitrary: k)
  case (Suc n)
  have "openSections (opened k) = []" by (simp add: opened_def new_parser_def)
  then have "parse_loop (link_text @ concat (replicate n link_text) @ rest) None (opened k)
      = parse_loop (concat (replicate n link_text) @ rest) None (opened (Suc k))"
    using parse_link_text open_next Suc.prems by simp
  then show ?case using Suc.IH [of "Suc k"] Suc.prems by simp
qed simp

text \<open>C38. The pointer to the open link does not survive the growth of the vector of the links. A page with at most eight angle
  brackets is always parsed; eight links left open, a word and a ninth link write through a pointer to freed memory.\<close>

theorem ninth_link_dangles:
  assumes "angles text \<le> 8"
  shows "(\<exists>h. parse_page text = Some h)
     \<and> parse_page (concat (replicate 8 link_text) @ CHR ''x'' # link_text) = None"
proof
  have "one_block (angles text) new_parser" using assms by (simp add: one_block_def new_parser_def)
  then show "\<exists>h. parse_page text = Some h" using parse_loop_returns by (fastforce simp: parse_page_def)
  let ?tail = "CHR ''x'' # link_text"
  let ?h = "handleAnchor '' href=u'' False False (opened 8)"
  have eight: "replicate 8 link_text = link_text # replicate 7 link_text"
    using replicate_Suc [of 7 link_text] by simp
  have o: "openSections (opened 8) = []" "openSections new_parser = []" by (simp_all add: opened_def new_parser_def)
  have "parse_loop (concat (replicate 8 link_text) @ ?tail) None new_parser
      = parse_loop (link_text @ concat (replicate 7 link_text) @ ?tail) None new_parser" unfolding eight by simp
  also have "\<dots> = parse_loop (concat (replicate 7 link_text) @ ?tail) None (opened 1)"
    by (simp only: parse_link_text [OF o(2)] open_first)
  also have "\<dots> = parse_loop ?tail None (opened 8)" using parse_opened [of 1 7 ?tail] by simp
  also have "\<dots> = parse_loop link_text (Some ?tail) (opened 8)"
    using o(1) by (subst parse_loop.simps) (simp add: isSpace_def code_def inDiscardSection_def)
  also have "\<dots> = None"
  proof -
    have p: "processTag link_text (opened 8) = (?h, Some [])" using process_link [OF o(1), of "[]"] by simp
    have "text_between ?tail link_text = ''x''" by (simp add: text_between_def)
    moreover have "links_block ?h = 2" "currentLink (opened 8) = Some (1, 7)" "inAnchor (opened 8)" "\<not> inTitle (opened 8)"
      by (simp_all add: handleAnchor_def href_u push_link_def opened_def new_parser_def Let_def del: extractAttribute.simps)
    ultimately have "add_pending (Some ?tail) link_text (opened 8) ?h = None"
      using o(1) by (simp add: add_pending_def inDiscardSection_def addWord_def Let_def)
    then show ?thesis using p by (subst parse_loop.simps) (simp add: link_text_def)
  qed
  finally show "parse_page (concat (replicate 8 link_text) @ ?tail) = None" by (simp add: parse_page_def)
qed

theorem ninth_link_dangles_witness:
  "(\<exists>h. parse_page (print_page [LinkTo ''u'' [''x'']]) = Some h)
     \<and> parse_page (concat (replicate 8 link_text) @ CHR ''x'' # link_text) = None"
proof -
  have "angles (print_page [LinkTo ''u'' [''x'']]) \<le> 8"
    by (simp add: print_page_def open_tag_def close_tag_def href_attr_def print_words_def)
  then show ?thesis by (rule ninth_link_dangles)
qed

end
