(* ===== verification/Utf8.thy ===== *)
theory Utf8
  imports Prelude
begin

text \<open>
  Reading and writing UTF-8 and UTF-16, \<open>src/utils/Utf8.cpp\<close>. A pointer with its bound is the list of the bytes from
  the one up to the other; a writer is given the room there is and yields what it writes. The cases of the
  source for two to six bytes are the same but for their constants, which are arguments here.
\<close>

definition ReplacementCharacter :: u32 where
  "ReplacementCharacter = 0xFFFD"

definition IsForbiddenCharacter :: "u32 \<Rightarrow> bool" where
  "IsForbiddenCharacter c \<longleftrightarrow> 0xD800 \<le> c \<and> c \<le> 0xDFFF \<or> 0xFDD0 \<le> c \<and> c \<le> 0xFDEF \<or> c = 0xFFFE \<or> c = 0xFFFF"

definition SizeOfUtf8 :: "u32 \<Rightarrow> nat" where
  "SizeOfUtf8 c =
     (if c \<le> 0x7F then 1 else if c \<le> 0x7FF then 2 else if c \<le> 0xFFFF then 3 else if c \<le> 0x1FFFFF then 4
      else if c \<le> 0x3FFFFFF then 5 else if c \<le> 0x7FFFFFFF then 6 else 3)"

definition SizeOfUtf16 :: "u32 \<Rightarrow> nat" where
  "SizeOfUtf16 c = (if c \<le> 0xFFFF then 2 else if c \<le> 0x10FFFF then 4 else 2)"

definition IndicatedLength :: "u8 \<Rightarrow> nat" where
  "IndicatedLength b =
     (if and b 0x80 = 0 then 1 else if and b 0xE0 = 0xC0 then 2 else if and b 0xF0 = 0xE0 then 3
      else if and b 0xF8 = 0xF0 then 4 else if and b 0xFC = 0xF8 then 5 else if and b 0xFE = 0xFC then 6 else 1)"

subsection \<open>Reading UTF-8\<close>

definition continuation :: "u8 \<Rightarrow> bool" where
  "continuation b \<longleftrightarrow> and b 0xC0 = 0x80"

text \<open>The lower six bits of each byte, shifted together.\<close>

definition shift_in :: "u32 \<Rightarrow> u8 list \<Rightarrow> u32" where
  "shift_in c bs = foldl (\<lambda>c b. or (push_bit 6 c) (ucast (and b 0x3F))) c bs"

text \<open>\<open>k\<close> bytes follow the first one, of which the bits of \<open>m\<close> count; \<open>lo\<close> is the least value of this length.\<close>

definition read_long :: "nat \<Rightarrow> u8 \<Rightarrow> u32 \<Rightarrow> u8 \<Rightarrow> u8 list \<Rightarrow> u32 \<times> u8 list" where
  "read_long k m lo b0 p =
     (if length p < k then (ReplacementCharacter, [])
      else let n = length (takeWhile continuation (take k p))
           in if n < k then (ReplacementCharacter, drop n p)
              else let c = shift_in (ucast (and b0 m)) (take k p)
                   in (if c < lo then ReplacementCharacter else c, drop k p))"

definition ReadUtf8 :: "u8 list \<Rightarrow> u32 \<times> u8 list" where
  "ReadUtf8 p =
     (case p of
        [] \<Rightarrow> (0, [])
      | b0 # p' \<Rightarrow>
          if b0 < 0x80 then (ucast b0, p')
          else if b0 < 0xC0 then (ReplacementCharacter, p')
          else if b0 < 0xE0 then read_long 1 0x1F 0x80 b0 p'
          else if b0 < 0xF0
          then (let (c, r) = read_long 2 0x0F 0x800 b0 p' in (if IsForbiddenCharacter c then ReplacementCharacter else c, r))
          else if b0 < 0xF8 then read_long 3 0x07 0x10000 b0 p'
          else if b0 < 0xFC then read_long 4 0x03 0x200000 b0 p'
          else if b0 < 0xFE then read_long 5 0x01 0x4000000 b0 p'
          else (ReplacementCharacter, p'))"

definition GetUtf8 :: "u8 list \<Rightarrow> u32" where
  "GetUtf8 p = fst (ReadUtf8 p)"

definition NextUtf8 :: "u8 list \<Rightarrow> u8 list" where
  "NextUtf8 p = snd (ReadUtf8 p)"

text \<open>Positions from the bound on.\<close>

fun previous_loop :: "u8 list \<Rightarrow> nat \<Rightarrow> nat" where
  "previous_loop bs 0 = 0"
| "previous_loop bs (Suc i) = (if \<not> continuation (bs ! i) then i else previous_loop bs i)"

definition PreviousUtf8 :: "u8 list \<Rightarrow> nat \<Rightarrow> nat" where
  "PreviousUtf8 bs p = previous_loop bs p"

subsection \<open>Writing UTF-8\<close>

definition tail_bytes :: "nat \<Rightarrow> u32 \<Rightarrow> u8 list" where
  "tail_bytes k c = map (\<lambda>i. or 0x80 (ucast (and (drop_bit (6 * i) c) 0x3F))) (rev [0..<k])"

definition write_long :: "nat \<Rightarrow> u8 \<Rightarrow> u32 \<Rightarrow> nat \<Rightarrow> u8 list" where
  "write_long k marker c room = (if room < Suc k then [] else or marker (ucast (drop_bit (6 * k) c)) # tail_bytes k c)"

definition WriteUtf8 :: "u32 \<Rightarrow> nat \<Rightarrow> u8 list" where
  "WriteUtf8 c room =
     (if room = 0 then []
      else if c \<le> 0x7F then [ucast c]
      else if c \<le> 0x7FF then write_long 1 0xC0 c room
      else if c \<le> 0xFFFF then write_long 2 0xE0 c room
      else if c \<le> 0x1FFFFF then write_long 3 0xF0 c room
      else if c \<le> 0x3FFFFFF then write_long 4 0xF8 c room
      else if c \<le> 0x7FFFFFFF then write_long 5 0xFC c room
      else if room < 3 then [] else [0xEF, 0xBF, 0xBD])"

subsection \<open>What is written is read\<close>

lemma shift_in_simps [simp]: "shift_in c [] = c" "shift_in c (b # bs) = shift_in (or (push_bit 6 c) (ucast (and b 0x3F))) bs"
  by (simp_all add: shift_in_def)

lemma tail_bytes_simps [simp]:
  "tail_bytes 0 c = []" "tail_bytes (Suc k) c = or 0x80 (ucast (and (drop_bit (6 * k) c) 0x3F)) # tail_bytes k c"
  by (simp_all add: tail_bytes_def)

lemma mask6: "(0x3F :: 'a::len word) = mask 6"
  by (simp add: mask_eq_exp_minus_1)

lemma bit_x80: "bit (128 :: int) n \<longleftrightarrow> n = 7"
  using bit_exp_iff [where 'a = int, of 7 n] by auto

lemma bit_xC0: "bit (192 :: int) n \<longleftrightarrow> n = 6 \<or> n = 7"
proof -
  have "(192 :: int) = or (2 ^ 6) (2 ^ 7)" by simp
  moreover have "bit (or (2 ^ 6) (2 ^ 7) :: int) n \<longleftrightarrow> n = 6 \<or> n = 7"
    by (auto simp only: bit_or_iff bit_exp_iff possible_bit_int)
  ultimately show ?thesis by simp
qed

lemma tail_payload: "ucast (and (or 0x80 (ucast (and (x :: u32) 0x3F)) :: u8) 0x3F) = and x 0x3F"
  unfolding mask6 by (rule bit_word_eqI) (auto simp: bit_simps bit_x80)

lemma shift_back: "or (push_bit 6 (drop_bit 6 x)) (and x 0x3F) = (x :: u32)"
  unfolding mask6 by (rule bit_word_eqI) (auto simp: bit_simps)

lemma shift_in_tail: "shift_in (drop_bit (6 * k) c) (tail_bytes k c) = c"
proof (induction k)
  case (Suc k)
  have "drop_bit (6 * Suc k) c = drop_bit 6 (drop_bit (6 * k) c)" by (simp add: drop_bit_drop_bit)
  then have "shift_in (drop_bit (6 * Suc k) c) (tail_bytes (Suc k) c) = shift_in (drop_bit (6 * k) c) (tail_bytes k c)"
    by (simp only: shift_in_simps tail_bytes_simps tail_payload shift_back)
  then show ?case using Suc by (simp only:)
qed simp

lemma length_tail [simp]: "length (tail_bytes k c) = k"
  by (simp add: tail_bytes_def)

lemma tail_continuation: "b \<in> set (tail_bytes k c) \<Longrightarrow> continuation b"
proof -
  have "and (or 0x80 (ucast (and (x :: u32) (mask 6))) :: u8) 0xC0 = 0x80" for x
    by (rule bit_word_eqI) (auto simp: bit_simps bit_x80 bit_xC0)
  then show "b \<in> set (tail_bytes k c) \<Longrightarrow> continuation b" by (auto simp: tail_bytes_def continuation_def mask6)
qed

lemma read_long_tail:
  assumes "lo \<le> c" and "ucast (and b0 m) = drop_bit (6 * k) c"
  shows "read_long k m lo b0 (tail_bytes k c @ rest) = (c, rest)"
proof -
  have "takeWhile continuation (tail_bytes k c) = tail_bytes k c"
    using tail_continuation takeWhile_eq_all_conv by blast
  then have "length (takeWhile continuation (tail_bytes k c)) = k" by (simp only: length_tail)
  then show ?thesis using assms leD [OF assms(1)] shift_in_tail [of k c] by (simp add: read_long_def Let_def)
qed

text \<open>The first bytes, of which there are few enough to check each.\<close>

definition lead_ok :: "nat \<Rightarrow> u8 \<Rightarrow> u8 \<Rightarrow> u8 \<Rightarrow> bool" where
  "lead_ok n marker next_marker m \<longleftrightarrow>
     list_all (\<lambda>i. marker \<le> or marker (of_nat i) \<and> or marker (of_nat i) < next_marker
       \<and> and (or marker (of_nat i)) m = of_nat i) [0..<n]"

lemma leads: "lead_ok 32 0xC0 0xE0 0x1F" "lead_ok 16 0xE0 0xF0 0x0F" "lead_ok 8 0xF0 0xF8 0x07" "lead_ok 4 0xF8 0xFC 0x03"
  "lead_ok 2 0xFC 0xFE 0x01"
  by (simp_all add: lead_ok_def upt_rec)

lemma ucast_small: "unat (x :: u32) < 256 \<Longrightarrow> ucast (ucast x :: u8) = x"
  unfolding word_unat_eq_iff by (simp add: unsigned_ucast_eq take_bit_eq_mod unat_mod_distrib)

lemma lead_byte:
  assumes "lead_ok n marker next_marker m" and "unat (x :: u32) < n" and "n \<le> 256"
  shows "marker \<le> or marker (ucast x)" and "or marker (ucast x) < next_marker" and "ucast (and (or marker (ucast x)) m) = x"
proof -
  have i: "unat x \<in> set [0..<n]" using assms(2) by simp
  have u: "ucast x = (of_nat (unat x) :: u8)" by (simp add: unsigned_of_nat)
  have "and (or marker (ucast x)) m = (ucast x :: u8)" and *: "marker \<le> or marker (ucast x)" "or marker (ucast x) < next_marker"
    using assms(1) i unfolding u lead_ok_def list_all_iff by blast+
  moreover have "ucast (ucast x :: u8) = x"
    using assms(2,3) by (intro ucast_small) simp
  ultimately show "marker \<le> or marker (ucast x)" "or marker (ucast x) < next_marker" "ucast (and (or marker (ucast x)) m) = x"
    by simp_all
qed

lemma drop_small: "c \<le> b \<Longrightarrow> unat b div 2 ^ k < n \<Longrightarrow> unat (drop_bit k (c :: u32)) < n"
  by (metis div_le_mono le_less_trans unat_drop_bit_div word_le_nat_alt)

lemma write_long_room: "k < room \<Longrightarrow> write_long k marker c room = or marker (ucast (drop_bit (6 * k) c)) # tail_bytes k c"
  by (simp add: write_long_def)

lemma ReadUtf8_first:
  "b < 0x80 \<Longrightarrow> ReadUtf8 (b # p) = (ucast b, p)"
  "0x80 \<le> b \<Longrightarrow> b < 0xC0 \<Longrightarrow> ReadUtf8 (b # p) = (ReplacementCharacter, p)"
  "0xC0 \<le> b \<Longrightarrow> b < 0xE0 \<Longrightarrow> ReadUtf8 (b # p) = read_long 1 0x1F 0x80 b p"
  "0xE0 \<le> b \<Longrightarrow> b < 0xF0 \<Longrightarrow> ReadUtf8 (b # p) =
     (let (c, r) = read_long 2 0x0F 0x800 b p in (if IsForbiddenCharacter c then ReplacementCharacter else c, r))"
  "0xF0 \<le> b \<Longrightarrow> b < 0xF8 \<Longrightarrow> ReadUtf8 (b # p) = read_long 3 0x07 0x10000 b p"
  "0xF8 \<le> b \<Longrightarrow> b < 0xFC \<Longrightarrow> ReadUtf8 (b # p) = read_long 4 0x03 0x200000 b p"
  "0xFC \<le> b \<Longrightarrow> b < 0xFE \<Longrightarrow> ReadUtf8 (b # p) = read_long 5 0x01 0x4000000 b p"
  "0xFE \<le> b \<Longrightarrow> ReadUtf8 (b # p) = (ReplacementCharacter, p)"
  by (simp_all add: ReadUtf8_def word_le_nat_alt word_less_nat_alt)

text \<open>A value in the range of a length is written with that length and read back.\<close>

lemma written_long:
  assumes "lead_ok n marker next_marker m" and "\<not> c < lo" and "c \<le> hi" and "unat hi div 2 ^ (6 * k) < n" and "n \<le> 256"
    and "Suc k \<le> room"
  shows "\<exists>b t. write_long k marker c room = b # t \<and> length t = k \<and> marker \<le> b \<and> b < next_marker \<and> read_long k m lo b (t @ rest) = (c, rest)"
proof -
  note l = lead_byte [OF assms(1) drop_small [OF assms(3,4)] assms(5)]
  have "read_long k m lo (or marker (ucast (drop_bit (6 * k) c))) (tail_bytes k c @ rest) = (c, rest)"
    by (rule read_long_tail) (use l(3) assms(2) in auto)
  then show ?thesis using l(1,2) assms(6) by (simp add: write_long_def)
qed

lemma ReadUtf8_written:
  assumes "c \<le> 0x7FFFFFFF" and "\<not> IsForbiddenCharacter c" and "SizeOfUtf8 c \<le> room"
  shows "length (WriteUtf8 c room) = SizeOfUtf8 c \<and> ReadUtf8 (WriteUtf8 c room @ rest) = (c, rest)"
proof -
  have room: "room \<noteq> 0" using assms(3) by (auto simp: SizeOfUtf8_def split: if_splits)
  have up: "c \<le> 0x7F \<Longrightarrow> c \<le> 0x7FF" "c \<le> 0x7FF \<Longrightarrow> c \<le> 0xFFFF" "c \<le> 0xFFFF \<Longrightarrow> c \<le> 0x1FFFFF" "c \<le> 0x1FFFFF \<Longrightarrow> c \<le> 0x3FFFFFF"
    by (simp_all add: word_le_nat_alt)
  have lo: "\<not> c \<le> 0x7F \<Longrightarrow> \<not> c < 0x80" "\<not> c \<le> 0x7FF \<Longrightarrow> \<not> c < 0x800" "\<not> c \<le> 0xFFFF \<Longrightarrow> \<not> c < 0x10000"
    "\<not> c \<le> 0x1FFFFF \<Longrightarrow> \<not> c < 0x200000" "\<not> c \<le> 0x3FFFFFF \<Longrightarrow> \<not> c < 0x4000000"
    by (simp_all add: word_le_nat_alt word_less_nat_alt)
  consider (1) "c \<le> 0x7F" | (2) "\<not> c \<le> 0x7F" "c \<le> 0x7FF" | (3) "\<not> c \<le> 0x7F" "\<not> c \<le> 0x7FF" "c \<le> 0xFFFF"
    | (4) "\<not> c \<le> 0x7F" "\<not> c \<le> 0x7FF" "\<not> c \<le> 0xFFFF" "c \<le> 0x1FFFFF"
    | (5) "\<not> c \<le> 0x7F" "\<not> c \<le> 0x7FF" "\<not> c \<le> 0xFFFF" "\<not> c \<le> 0x1FFFFF" "c \<le> 0x3FFFFFF"
    | (6) "\<not> c \<le> 0x7F" "\<not> c \<le> 0x7FF" "\<not> c \<le> 0xFFFF" "\<not> c \<le> 0x1FFFFF" "\<not> c \<le> 0x3FFFFFF"
    using up by blast
  then show ?thesis
  proof cases
    case 1
    have "unat c \<le> 127" using 1 by (simp add: word_le_nat_alt)
    then have "ucast (ucast c :: u8) = c" "(ucast c :: u8) < 0x80"
      using ucast_small [of c] by (simp_all add: word_less_nat_alt unsigned_ucast_eq take_bit_eq_mod unat_mod_distrib)
    then show ?thesis using 1 room by (simp add: WriteUtf8_def ReadUtf8_first SizeOfUtf8_def)
  next
    case 2
    then have "Suc 1 \<le> room" using assms(3) by (simp add: SizeOfUtf8_def)
    then obtain b t where "write_long 1 0xC0 c room = b # t" "length t = 1" "0xC0 \<le> b" "b < 0xE0"
      "read_long 1 0x1F 0x80 b (t @ rest) = (c, rest)"
      using written_long [OF leads(1) lo(1) 2(2), of 1 room rest] 2(1) by auto
    then show ?thesis using 2 room ReadUtf8_first(3) [of b "t @ rest"] by (simp add: WriteUtf8_def SizeOfUtf8_def)
  next
    case 3
    then have "Suc 2 \<le> room" using assms(3) by (simp add: SizeOfUtf8_def)
    then obtain b t where "write_long 2 0xE0 c room = b # t" "length t = 2" "0xE0 \<le> b" "b < 0xF0"
      "read_long 2 0x0F 0x800 b (t @ rest) = (c, rest)"
      using written_long [OF leads(2) lo(2) 3(3), of 2 room rest] 3(2) by auto
    then show ?thesis using 3 room assms(2) ReadUtf8_first(4) [of b "t @ rest"] by (simp add: WriteUtf8_def SizeOfUtf8_def)
  next
    case 4
    then have "Suc 3 \<le> room" using assms(3) by (simp add: SizeOfUtf8_def)
    then obtain b t where "write_long 3 0xF0 c room = b # t" "length t = 3" "0xF0 \<le> b" "b < 0xF8"
      "read_long 3 0x07 0x10000 b (t @ rest) = (c, rest)"
      using written_long [OF leads(3) lo(3) 4(4), of 3 room rest] 4(3) by auto
    then show ?thesis using 4 room ReadUtf8_first(5) [of b "t @ rest"] by (simp add: WriteUtf8_def SizeOfUtf8_def)
  next
    case 5
    then have "Suc 4 \<le> room" using assms(3) by (simp add: SizeOfUtf8_def)
    then obtain b t where "write_long 4 0xF8 c room = b # t" "length t = 4" "0xF8 \<le> b" "b < 0xFC"
      "read_long 4 0x03 0x200000 b (t @ rest) = (c, rest)"
      using written_long [OF leads(4) lo(4) 5(5), of 4 room rest] 5(4) by auto
    then show ?thesis using 5 room ReadUtf8_first(6) [of b "t @ rest"] by (simp add: WriteUtf8_def SizeOfUtf8_def)
  next
    case 6
    then have "Suc 5 \<le> room" using assms(1,3) by (simp add: SizeOfUtf8_def)
    then obtain b t where "write_long 5 0xFC c room = b # t" "length t = 5" "0xFC \<le> b" "b < 0xFE"
      "read_long 5 0x01 0x4000000 b (t @ rest) = (c, rest)"
      using written_long [OF leads(5) lo(5) assms(1), of 5 room rest] 6(5) by auto
    then show ?thesis using 6 room assms(1) ReadUtf8_first(7) [of b "t @ rest"] by (simp add: WriteUtf8_def SizeOfUtf8_def)
  qed
qed

subsection \<open>Only what is written is read\<close>

text \<open>The value has no bits from \<open>j\<close> on.\<close>

definition fits :: "nat \<Rightarrow> u32 \<Rightarrow> bool" where
  "fits j x \<longleftrightarrow> (\<forall>n. bit x n \<longrightarrow> n < j)"

lemma fits_shift: "fits j y \<Longrightarrow> fits (j + 6) (or (push_bit 6 y) (ucast (and b 0x3F)))"
  unfolding mask6 fits_def by (auto simp: bit_simps)

lemma shift_parts:
  assumes "fits 26 y"
  shows "drop_bit 6 (or (push_bit 6 y) (ucast (and (b :: u8) 0x3F))) = y"
    and "and (or (push_bit 6 y) (ucast (and b 0x3F))) 0x3F = ucast (and b 0x3F)"
proof -
  have "n < 26" if "bit y n" for n using assms that by (simp add: fits_def)
  then show "drop_bit 6 (or (push_bit 6 y) (ucast (and b 0x3F))) = y"
    unfolding mask6 by (intro bit_word_eqI) (fastforce simp: bit_simps)
  show "and (or (push_bit 6 y) (ucast (and b 0x3F))) 0x3F = ucast (and b 0x3F)"
    unfolding mask6 by (rule bit_word_eqI) (auto simp: bit_simps)
qed

lemma tail_bytes_snoc: "tail_bytes (Suc k) c = tail_bytes k (drop_bit 6 c) @ [or 0x80 (ucast (and c 0x3F))]"
  by (induction k) (simp_all add: drop_bit_drop_bit add.commute)

lemma continuation_back:
  assumes "continuation b"
  shows "or 0x80 (ucast (ucast (and b 0x3F) :: u32)) = b"
proof -
  have a: "and b 0xC0 = 0x80" using assms by (simp add: continuation_def)
  have top: "bit b 7" "\<not> bit b 6"
  proof -
    have "bit (and b 0xC0) n \<longleftrightarrow> bit (0x80 :: u8) n" for n using a by simp
    from this [of 7] this [of 6] show "bit b 7" "\<not> bit b 6" by (simp_all add: bit_simps bit_x80 bit_xC0)
  qed
  have "bit b n \<longleftrightarrow> n = 7 \<or> bit b n \<and> n < 6" if "n < 8" for n
  proof -
    have "n < 6 \<or> n = 6 \<or> n = 7" using that by arith
    then show ?thesis using top by auto
  qed
  then show ?thesis unfolding mask6 by (intro bit_word_eqI) (auto simp: bit_simps bit_x80)
qed

lemma shift_in_snoc: "shift_in x (t @ [b]) = or (push_bit 6 (shift_in x t)) (ucast (and b 0x3F))"
  by (simp add: shift_in_def)

lemma fits_shift_in: "fits j x \<Longrightarrow> fits (j + 6 * length t) (shift_in x t)"
proof (induction t rule: rev_induct)
  case (snoc b t)
  then show ?case using fits_shift [of "j + 6 * length t" "shift_in x t" b] by (simp add: shift_in_snoc ac_simps)
qed simp

lemma shift_in_back:
  assumes "fits j x" and "j + 6 * length t \<le> 32" and "\<forall>b \<in> set t. continuation b"
  shows "drop_bit (6 * length t) (shift_in x t) = x \<and> tail_bytes (length t) (shift_in x t) = t"
  using assms(2,3)
proof (induction t rule: rev_induct)
  case (snoc b t)
  let ?y = "shift_in x t"
  have "fits (j + 6 * length t) ?y" by (rule fits_shift_in [OF assms(1)])
  then have "fits 26 ?y" using snoc.prems(1) by (auto simp: fits_def)
  note p = shift_parts [OF this, of b]
  have IH: "drop_bit (6 * length t) ?y = x" "tail_bytes (length t) ?y = t" using snoc by simp_all
  have "drop_bit (6 * length (t @ [b])) (shift_in x (t @ [b])) = drop_bit (6 * length t) (drop_bit 6 (shift_in x (t @ [b])))"
    by (simp add: drop_bit_drop_bit ac_simps)
  then have 1: "drop_bit (6 * length (t @ [b])) (shift_in x (t @ [b])) = x" by (simp only: shift_in_snoc p(1) IH(1))
  have "tail_bytes (Suc (length t)) (shift_in x (t @ [b])) = t @ [b]"
    using continuation_back [of b] snoc.prems(2) by (simp only: tail_bytes_snoc shift_in_snoc p IH(2)) simp
  then show ?case using 1 by simp
qed simp


text \<open>The first bytes the other way round.\<close>

definition lead_back :: "nat \<Rightarrow> nat \<Rightarrow> u8 \<Rightarrow> u8 \<Rightarrow> nat \<Rightarrow> bool" where
  "lead_back from end_at marker m j \<longleftrightarrow>
     list_all (\<lambda>i. or marker (and (of_nat i) m) = of_nat i \<and> take_bit j (and (of_nat i) m) = and (of_nat i) m) [from..<end_at]"

lemma leads_back: "lead_back 192 224 0xC0 0x1F 5" "lead_back 224 240 0xE0 0x0F 4" "lead_back 240 248 0xF0 0x07 3"
  "lead_back 248 252 0xF8 0x03 2" "lead_back 252 254 0xFC 0x01 1"
  by (simp_all add: lead_back_def upt_rec)

lemma lead_byte_back:
  assumes "lead_back from end_at marker m j" and "from \<le> unat b" and "unat b < end_at" and "j < 8"
  shows "or marker (ucast (ucast (and b m) :: u32)) = (b :: u8)" and "fits j (ucast (and b m))"
proof -
  have "unat b \<in> set [from..<end_at]" using assms(2,3) by simp
  then have "or marker (and (of_nat (unat b)) m) = of_nat (unat b) \<and> take_bit j (and (of_nat (unat b)) m) = and (of_nat (unat b)) m"
    using assms(1) unfolding lead_back_def list_all_iff by blast
  then have b: "or marker (and b m) = b" "take_bit j (and b m) = and b m" by simp_all
  have "ucast (ucast (and b m) :: u32) = and b m" by (rule bit_word_eqI) (simp add: bit_simps)
  then show "or marker (ucast (ucast (and b m) :: u32)) = b" using b(1) by simp
  have "n < j" if "bit (and b m) n" for n using that b(2) by (metis bit_take_bit_iff)
  then show "fits j (ucast (and b m))" unfolding fits_def bit_ucast_iff by blast
qed

lemma fits_le: "fits j x \<Longrightarrow> j < 32 \<Longrightarrow> x \<le> mask j"
proof -
  assume "fits j x" "j < 32"
  then have "take_bit j x = x" by (intro bit_word_eqI) (auto simp: bit_take_bit_iff fits_def)
  then show "x \<le> mask j" by (metis take_bit_eq_mask word_and_le1)
qed

text \<open>What \<open>read_long\<close> accepts was written with this length.\<close>

lemma read_long_accepts:
  assumes "read_long k m lo b p = (c, r)" and "c \<noteq> ReplacementCharacter"
    and "lead_back from end_at marker m (6 - k)" and "from \<le> unat b" and "unat b < end_at" and "0 < k" and "k < 6"
  shows "\<not> c < lo \<and> c \<le> mask (5 * k + 6) \<and> b # p = write_long k marker c 6 @ r"
proof -
  let ?t = "take k p"
  have len: "k \<le> length p" "k \<le> length (takeWhile continuation ?t)" and c: "c = shift_in (ucast (and b m)) ?t" "\<not> c < lo" and r: "r = drop k p"
    using assms(1,2) by (auto simp: read_long_def Let_def not_less split: if_splits)
  have "length ?t = k" using len(1) by simp
  have "length (takeWhile continuation ?t) + length (dropWhile continuation ?t) = length ?t"
    by (metis length_append takeWhile_dropWhile_id)
  then have "length (dropWhile continuation ?t) = 0" using len(2) \<open>length ?t = k\<close> by linarith
  then have "dropWhile continuation ?t = []" by (simp only: length_0_conv)
  then have "takeWhile continuation ?t = ?t" by (metis append_Nil2 takeWhile_dropWhile_id)
  then have cont: "\<forall>x \<in> set ?t. continuation x" by (metis set_takeWhileD)
  note l = lead_byte_back [OF assms(3-5)]
  have j: "6 - k < 8" by simp
  have "fits (6 - k + 6 * length ?t) c" unfolding c(1) by (rule fits_shift_in [OF l(2) [OF j]])
  moreover have "6 - k + 6 * length ?t = 5 * k + 6" using \<open>length ?t = k\<close> assms(7) by simp
  ultimately have "c \<le> mask (5 * k + 6)" using fits_le assms(7) by simp
  moreover have "drop_bit (6 * k) c = ucast (and b m) \<and> tail_bytes k c = ?t"
    using shift_in_back [OF l(2) [OF j] _ cont] \<open>length ?t = k\<close> assms(7) unfolding c(1) by simp
  ultimately show ?thesis using c(2) l(1) [OF j] r assms(7) by (simp add: write_long_def)
qed

lemma masks: "(mask 11 :: u32) = 0x7FF" "(mask 16 :: u32) = 0xFFFF" "(mask 21 :: u32) = 0x1FFFFF" "(mask 26 :: u32) = 0x3FFFFFF"
  "(mask 31 :: u32) = 0x7FFFFFFF"
  by (simp_all add: mask_eq_exp_minus_1)

lemma not_forbidden: "c \<le> 0x7FF \<or> 0xFFFF < c \<Longrightarrow> \<not> IsForbiddenCharacter c"
  by (auto simp: IsForbiddenCharacter_def word_le_nat_alt word_less_nat_alt)

lemma read_accepts:
  assumes "ReadUtf8 p = (c, r)" and "c \<noteq> ReplacementCharacter" and "p \<noteq> []"
  shows "p = WriteUtf8 c 6 @ r \<and> c \<le> 0x7FFFFFFF \<and> \<not> IsForbiddenCharacter c"
proof -
  obtain b q where p: "p = b # q" using assms(3) by (cases p) auto
  consider (1) "b < 0x80" | "0x80 \<le> b" "b < 0xC0" | (2) "0xC0 \<le> b" "b < 0xE0" | (3) "0xE0 \<le> b" "b < 0xF0"
    | (4) "0xF0 \<le> b" "b < 0xF8" | (5) "0xF8 \<le> b" "b < 0xFC" | (6) "0xFC \<le> b" "b < 0xFE" | "0xFE \<le> b"
    by fastforce
  then show ?thesis
  proof cases
    case 1
    have "unat b < 128" using 1 by (simp add: word_less_nat_alt)
    then have "(ucast b :: u32) \<le> 0x7F" by (simp add: word_le_nat_alt unsigned_ucast_eq take_bit_nat_eq_self)
    then have "c \<le> 0x7F" "c = ucast b" "r = q" using assms(1) p ReadUtf8_first(1) [OF 1] by auto
    moreover have "ucast (ucast b :: u32) = b" by (rule bit_word_eqI) (simp add: bit_simps)
    ultimately show ?thesis using p not_forbidden [of c] by (auto simp: WriteUtf8_def word_le_nat_alt)
  next
    case 2
    have "192 \<le> unat b" "unat b < 224" using 2 by (simp_all add: word_le_nat_alt word_less_nat_alt)
    then have "\<not> c < 0x80" "c \<le> mask 11" "b # q = write_long 1 0xC0 c 6 @ r"
      using read_long_accepts [of 1 "0x1F" "0x80" b q c r 192 224 "0xC0"] leads_back(1) assms(1,2) p ReadUtf8_first(3) [OF 2] by auto
    then show ?thesis using p not_forbidden [of c] by (auto simp: WriteUtf8_def masks word_le_nat_alt word_less_nat_alt)
  next
    case 3
    obtain c' where c': "read_long 2 0x0F 0x800 b q = (c', r)" "\<not> IsForbiddenCharacter c'" "c' = c"
      using assms(1,2) p ReadUtf8_first(4) [OF 3, of q] by (auto simp: Let_def split: prod.splits if_splits)
    have "224 \<le> unat b" "unat b < 240" using 3 by (simp_all add: word_le_nat_alt word_less_nat_alt)
    then have "\<not> c < 0x800" "c \<le> mask 16" "b # q = write_long 2 0xE0 c 6 @ r"
      using read_long_accepts [of 2 "0x0F" "0x800" b q c r 224 240 "0xE0"] leads_back(2) assms(2) c' by auto
    then show ?thesis using p c'(2,3) by (auto simp: WriteUtf8_def masks word_le_nat_alt word_less_nat_alt)
  next
    case 4
    have "240 \<le> unat b" "unat b < 248" using 4 by (simp_all add: word_le_nat_alt word_less_nat_alt)
    then have "\<not> c < 0x10000" "c \<le> mask 21" "b # q = write_long 3 0xF0 c 6 @ r"
      using read_long_accepts [of 3 "0x07" "0x10000" b q c r 240 248 "0xF0"] leads_back(3) assms(1,2) p ReadUtf8_first(5) [OF 4] by auto
    then show ?thesis using p not_forbidden [of c] by (auto simp: WriteUtf8_def masks word_le_nat_alt word_less_nat_alt)
  next
    case 5
    have "248 \<le> unat b" "unat b < 252" using 5 by (simp_all add: word_le_nat_alt word_less_nat_alt)
    then have "\<not> c < 0x200000" "c \<le> mask 26" "b # q = write_long 4 0xF8 c 6 @ r"
      using read_long_accepts [of 4 "0x03" "0x200000" b q c r 248 252 "0xF8"] leads_back(4) assms(1,2) p ReadUtf8_first(6) [OF 5] by auto
    then show ?thesis using p not_forbidden [of c] by (auto simp: WriteUtf8_def masks word_le_nat_alt word_less_nat_alt)
  next
    case 6
    have "252 \<le> unat b" "unat b < 254" using 6 by (simp_all add: word_le_nat_alt word_less_nat_alt)
    then have "\<not> c < 0x4000000" "c \<le> mask 31" "b # q = write_long 5 0xFC c 6 @ r"
      using read_long_accepts [of 5 "0x01" "0x4000000" b q c r 252 254 "0xFC"] leads_back(5) assms(1,2) p ReadUtf8_first(7) [OF 6] by auto
    then show ?thesis using p not_forbidden [of c] by (auto simp: WriteUtf8_def masks word_le_nat_alt word_less_nat_alt)
  qed (use assms(1,2) p ReadUtf8_first(2,8) in auto)
qed

lemma SizeOfUtf8_bounds: "0 < SizeOfUtf8 c" "SizeOfUtf8 c \<le> 6"
  by (simp_all add: SizeOfUtf8_def)

text \<open>C39. The reader accepts exactly what the writer produces: apart from the replacement character, a value is read from some
  bytes if and only if these begin with its encoding, which is the shortest one, and it is allowed. Overlong and
  forbidden sequences never give their value.\<close>

theorem ReadUtf8_exact:
  assumes "c \<noteq> ReplacementCharacter" and "p \<noteq> []"
  shows "ReadUtf8 p = (c, r) \<longleftrightarrow> p = WriteUtf8 c 6 @ r \<and> c \<le> 0x7FFFFFFF \<and> \<not> IsForbiddenCharacter c"
proof
  assume "ReadUtf8 p = (c, r)"
  then show "p = WriteUtf8 c 6 @ r \<and> c \<le> 0x7FFFFFFF \<and> \<not> IsForbiddenCharacter c" using read_accepts assms by blast
next
  assume "p = WriteUtf8 c 6 @ r \<and> c \<le> 0x7FFFFFFF \<and> \<not> IsForbiddenCharacter c"
  then show "ReadUtf8 p = (c, r)" using ReadUtf8_written [of c 6 r] SizeOfUtf8_bounds(2) by simp
qed

theorem ReadUtf8_exact_witness:
  "ReadUtf8 [0xE2, 0x82, 0xAC, 0x21] = (0x20AC, [0x21]) \<and> ReadUtf8 [0xC0, 0x80] \<noteq> (0, [])"
proof -
  have "[0xE2, 0x82, 0xAC, 0x21] = WriteUtf8 0x20AC 6 @ [0x21]" "\<not> IsForbiddenCharacter 0x20AC"
    by (simp_all add: WriteUtf8_def write_long_def tail_bytes_def IsForbiddenCharacter_def upt_rec)
  moreover have "[0xC0, 0x80] \<noteq> WriteUtf8 0 6 @ []" by (simp add: WriteUtf8_def)
  ultimately show ?thesis
    using ReadUtf8_exact [of "0x20AC" "[0xE2, 0x82, 0xAC, 0x21]" "[0x21]"] ReadUtf8_exact [of 0 "[0xC0, 0x80]" "[]"]
    by (simp add: ReplacementCharacter_def)
qed

text \<open>Reading always moves on, unless it is at the end.\<close>

lemma read_long_shorter: "read_long k m lo b p = (c, r) \<Longrightarrow> length r \<le> length p"
  by (auto simp: read_long_def Let_def split: if_splits)

lemma ReadUtf8_shorter: "ReadUtf8 p = (c, r) \<Longrightarrow> p \<noteq> [] \<Longrightarrow> length r < length p"
  by (auto simp: ReadUtf8_def neq_Nil_conv Let_def split: if_splits prod.splits dest!: read_long_shorter)

text \<open>From the end of an encoding one comes back to its beginning, whatever is before and behind it.\<close>

lemma continuations: "list_all (\<lambda>i. continuation (of_nat i) \<longrightarrow> 128 \<le> i \<and> i < 192) [0..<256]"
  by (simp add: continuation_def upt_rec)

lemma continuation_range: "continuation b \<Longrightarrow> 128 \<le> unat b \<and> unat b < 192"
proof -
  assume b: "continuation b"
  have "unat b < 256" using unsigned_less [of b] by simp
  then have "unat b \<in> set [0..<256]" by simp
  then have "continuation (of_nat (unat b)) \<longrightarrow> 128 \<le> unat b \<and> unat b < 192"
    using continuations unfolding list_all_iff by blast
  then show ?thesis using b by simp
qed

lemma previous_tail: "\<forall>i < k. continuation (bs ! (n + i)) \<Longrightarrow> previous_loop bs (n + k) = previous_loop bs n"
  by (induction k) auto

lemma written_shape:
  assumes "c \<le> 0x7FFFFFFF"
  shows "\<exists>b t. WriteUtf8 c 6 = b # t \<and> \<not> continuation b \<and> (\<forall>x \<in> set t. continuation x)"
proof -
  have long: "\<exists>b t. write_long k marker c 6 = b # t \<and> \<not> continuation b \<and> (\<forall>x \<in> set t. continuation x)"
    if "lead_ok n marker next_marker m" "c \<le> hi" "unat hi div 2 ^ (6 * k) < n" "n \<le> 256" "k < 6" "192 \<le> unat marker"
    for k n marker next_marker m hi
  proof -
    let ?b = "or marker (ucast (drop_bit (6 * k) c)) :: u8"
    have "marker \<le> ?b" by (rule lead_byte(1) [OF that(1) drop_small [OF that(2,3)] that(4)])
    then have "192 \<le> unat ?b" using that(6) by (simp add: word_le_nat_alt)
    then have "\<not> continuation ?b" using continuation_range [of ?b] by linarith
    then show ?thesis using that(5) tail_continuation by (auto simp: write_long_def)
  qed
  have one: "\<not> continuation (ucast c)" if "c \<le> 0x7F"
  proof
    assume "continuation (ucast c)"
    then have "128 \<le> unat (ucast c :: u8)" using continuation_range by blast
    then show False using that by (simp add: word_le_nat_alt unsigned_ucast_eq take_bit_eq_mod unat_mod_distrib)
  qed
  show ?thesis
    using one long [OF leads(1), of "0x7FF" 1] long [OF leads(2), of "0xFFFF" 2] long [OF leads(3), of "0x1FFFFF" 3]
      long [OF leads(4), of "0x3FFFFFF" 4] long [OF leads(5), of "0x7FFFFFFF" 5] assms
    by (simp add: WriteUtf8_def)
qed

text \<open>Going back one character from the end of an encoding leads to its first byte.\<close>

theorem PreviousUtf8_written:
  assumes "c \<le> 0x7FFFFFFF"
  shows "PreviousUtf8 (pre @ WriteUtf8 c 6 @ post) (length (pre @ WriteUtf8 c 6)) = length pre"
proof -
  obtain b t where w: "WriteUtf8 c 6 = b # t" "\<not> continuation b" "\<forall>x \<in> set t. continuation x"
    using written_shape [OF assms] by blast
  let ?bs = "pre @ WriteUtf8 c 6 @ post"
  have "\<forall>i < length t. continuation (?bs ! (Suc (length pre) + i))" using w by (auto simp: nth_append)
  then have "previous_loop ?bs (Suc (length pre) + length t) = previous_loop ?bs (Suc (length pre))" by (rule previous_tail)
  moreover have "?bs ! length pre = b" using w(1) by simp
  ultimately show ?thesis using w(1,2) by (simp add: PreviousUtf8_def)
qed

theorem PreviousUtf8_written_witness: "PreviousUtf8 [0x41, 0xE2, 0x82, 0xAC, 0x21] 4 = 1"
proof -
  have "WriteUtf8 0x20AC 6 = [0xE2, 0x82, 0xAC]"
    by (simp add: WriteUtf8_def write_long_def tail_bytes_def upt_rec)
  then have "PreviousUtf8 [0x41, 0xE2, 0x82, 0xAC, 0x21] (Suc (Suc (Suc (Suc 0)))) = 1"
    using PreviousUtf8_written [of "0x20AC" "[0x41]" "[0x21]"] by simp
  moreover have "Suc (Suc (Suc (Suc 0))) = 4" by simp
  ultimately show ?thesis by metis
qed

subsection \<open>UTF-16\<close>

definition ReadUtf16 :: "u16 list \<Rightarrow> u32 \<times> u16 list" where
  "ReadUtf16 p =
     (case p of
        [] \<Rightarrow> (0, [])
      | first # p' \<Rightarrow>
          if first < 0xD800 \<or> first > 0xDFFF then (ucast first, p')
          else if first \<le> 0xDBFF
          then (case p' of
                  [] \<Rightarrow> (ucast first, [])
                | second # r \<Rightarrow>
                    if 0xDC00 \<le> second \<and> second \<le> 0xDFFF
                    then (0x10000 + or (push_bit 10 (ucast (first - 0xD800))) (ucast (second - 0xDC00)), r)
                    else (ucast first, p'))
          else (ucast first, p'))"

definition WriteUtf16 :: "u32 \<Rightarrow> nat \<Rightarrow> u16 list" where
  "WriteUtf16 c room =
     (if room = 0 then []
      else let c = (if c > 0x10FFFF then ReplacementCharacter else c)
           in if c \<le> 0xFFFF then [ucast c]
              else if room < 2 then []
              else let c = c - 0x10000 in [ucast (0xD800 + drop_bit 10 c), ucast (0xDC00 + and c 0x3FF)])"

definition GetUtf16 :: "u16 list \<Rightarrow> u32" where
  "GetUtf16 p = fst (ReadUtf16 p)"

definition NextUtf16 :: "u16 list \<Rightarrow> u16 list" where
  "NextUtf16 p = snd (ReadUtf16 p)"

lemma ucast_16: "unat (x :: u32) < 65536 \<Longrightarrow> unat (ucast x :: u16) = unat x"
  by (simp add: unsigned_ucast_eq take_bit_eq_mod unat_mod_distrib)

lemma unat_up: "unat (ucast (w :: u16) :: u32) = unat w"
  using unsigned_less [of w, where 'a = nat] by (simp add: unsigned_ucast_eq take_bit_nat_eq_self)

lemma mask10: "(0x3FF :: 'a::len word) = mask 10"
  by (simp add: mask_eq_exp_minus_1)

text \<open>A value up to \<open>0x10FFFF\<close> that is no surrogate is written in as many bytes as foreseen and read back; a larger one is
  replaced.\<close>

theorem utf16_round_trip:
  assumes "c \<le> 0x10FFFF" and "\<not> (0xD800 \<le> c \<and> c \<le> 0xDFFF)" and "SizeOfUtf16 c \<le> 2 * room"
  shows "2 * length (WriteUtf16 c room) = SizeOfUtf16 c \<and> ReadUtf16 (WriteUtf16 c room @ rest) = (c, rest)"
proof (cases "c \<le> 0xFFFF")
  case True
  then have n: "unat (ucast c :: u16) = unat c" by (intro ucast_16) (simp add: word_le_nat_alt)
  then have "ucast (ucast c :: u16) = c" by (simp add: word_unat_eq_iff unat_up)
  moreover have "(ucast c :: u16) < 0xD800 \<or> (ucast c :: u16) > 0xDFFF"
    using assms(2) n by (auto simp: word_le_nat_alt word_less_nat_alt)
  ultimately show ?thesis using True assms(1,3) by (auto simp: WriteUtf16_def ReadUtf16_def SizeOfUtf16_def Let_def word_le_nat_alt word_less_nat_alt)
next
  case False
  let ?d = "c - 0x10000"
  have d: "unat ?d = unat c - 65536" using False by (simp add: unat_sub word_le_nat_alt)
  then have hi: "unat (drop_bit 10 ?d) < 1024" using assms(1) by (simp add: unat_drop_bit_div word_le_nat_alt)
  have lo: "unat (and ?d 0x3FF) < 1024" unfolding mask10 by (simp add: take_bit_eq_mask [symmetric] take_bit_eq_mod unat_mod_distrib)
  have add: "unat (0xD800 + drop_bit 10 ?d) = 0xD800 + unat (drop_bit 10 ?d)" "unat (0xDC00 + and ?d 0x3FF) = 0xDC00 + unat (and ?d 0x3FF)"
    using hi lo by (simp_all add: unat_plus_if')
  let ?h = "ucast (0xD800 + drop_bit 10 ?d) :: u16" let ?l = "ucast (0xDC00 + and ?d 0x3FF) :: u16"
  have h: "unat ?h = 0xD800 + unat (drop_bit 10 ?d)" and l: "unat ?l = 0xDC00 + unat (and ?d 0x3FF)"
    using ucast_16 [of "0xD800 + drop_bit 10 ?d"] ucast_16 [of "0xDC00 + and ?d 0x3FF"] add hi lo by simp_all
  have "unat (?h - 0xD800) = unat (drop_bit 10 ?d)" "unat (?l - 0xDC00) = unat (and ?d 0x3FF)"
    using h l by (simp_all add: unat_sub word_le_nat_alt)
  then have "ucast (?h - 0xD800) = drop_bit 10 ?d" "ucast (?l - 0xDC00) = and ?d 0x3FF" by (simp_all add: word_unat_eq_iff unat_up)
  moreover have "or (push_bit 10 (drop_bit 10 ?d)) (and ?d 0x3FF) = ?d"
    unfolding mask10 by (rule bit_word_eqI) (auto simp: bit_simps)
  moreover have "\<not> ?h < 0xD800" "\<not> ?h > 0xDFFF" "?h \<le> 0xDBFF" "0xDC00 \<le> ?l" "?l \<le> 0xDFFF"
    using h l hi lo by (simp_all add: word_le_nat_alt word_less_nat_alt)
  ultimately show ?thesis using False assms(1,3) by (simp add: WriteUtf16_def ReadUtf16_def SizeOfUtf16_def Let_def leD)
qed

theorem utf16_round_trip_witness:
  "WriteUtf16 0x10000 2 = [0xD800, 0xDC00] \<and> ReadUtf16 (WriteUtf16 0x10000 2 @ [0x41]) = (0x10000, [0x41])"
  using utf16_round_trip [of "0x10000" 2 "[0x41]"] by (simp add: WriteUtf16_def SizeOfUtf16_def Let_def)

end
