(* ===== verification/Language.thy ===== *)
theory Language
  imports HtmlParser Utf8
begin

text \<open>
  Whether a page is in English, \<open>src/parser/HtmlParser.cpp\<close>: the \<open>lang\<close> attribute, else the share of common words,
  else the share of Latin letters. The two shares are compared as fractions; for fewer than \<open>2^32\<close> words or
  letters the rounded quotient of the source lies on the same side of the constant.
\<close>

definition isLatinAlpha :: "u32 \<Rightarrow> bool" where
  "isLatinAlpha cp \<longleftrightarrow> 0x41 \<le> cp \<and> cp \<le> 0x5A \<or> 0x61 \<le> cp \<and> cp \<le> 0x7A
     \<or> 0xC0 \<le> cp \<and> cp \<le> 0x024F \<and> cp \<noteq> 0xD7 \<and> cp \<noteq> 0xF7"

definition isNonLatinAlpha :: "u32 \<Rightarrow> bool" where
  "isNonLatinAlpha cp \<longleftrightarrow>
     0x0370 \<le> cp \<and> cp \<le> 0x03FF \<or> 0x0400 \<le> cp \<and> cp \<le> 0x04FF \<or> 0x0500 \<le> cp \<and> cp \<le> 0x052F
     \<or> 0x0590 \<le> cp \<and> cp \<le> 0x05FF \<or> 0x0600 \<le> cp \<and> cp \<le> 0x06FF \<or> 0x0900 \<le> cp \<and> cp \<le> 0x097F
     \<or> 0x0E00 \<le> cp \<and> cp \<le> 0x0E7F \<or> 0x1100 \<le> cp \<and> cp \<le> 0x11FF \<or> 0x3040 \<le> cp \<and> cp \<le> 0x30FF
     \<or> 0x4E00 \<le> cp \<and> cp \<le> 0x9FFF \<or> 0xAC00 \<le> cp \<and> cp \<le> 0xD7AF"

definition utf8_bytes :: "string \<Rightarrow> u8 list" where
  "utf8_bytes word = map (\<lambda>c. of_nat (code c)) word"

function alpha_loop :: "u8 list \<Rightarrow> nat \<times> nat \<Rightarrow> nat \<times> nat" where
  "alpha_loop p (latinCount, totalAlpha) =
     (if p = [] then (latinCount, totalAlpha)
      else let (cp, p') = ReadUtf8 p
           in if cp = ReplacementCharacter then alpha_loop p' (latinCount, totalAlpha)
              else if isLatinAlpha cp then alpha_loop p' (latinCount + 1, totalAlpha + 1)
              else if isNonLatinAlpha cp then alpha_loop p' (latinCount, totalAlpha + 1)
              else alpha_loop p' (latinCount, totalAlpha))"
  by pat_completeness auto
termination
  by (relation "measure (\<lambda>(p, counts). length p)") (auto dest: ReadUtf8_shorter [OF sym])

declare alpha_loop.simps [simp del]

definition countAlpha :: "string list \<Rightarrow> nat \<times> nat \<Rightarrow> nat \<times> nat" where
  "countAlpha wordList counts = fold (\<lambda>word counts. alpha_loop (utf8_bytes word) counts) wordList counts"

record AlphaStats =
  latin_alpha_count :: u32
  total_alpha_count :: u32

definition alphaStats :: "'a HtmlDoc_scheme \<Rightarrow> AlphaStats" where
  "alphaStats h =
     (let counts = countAlpha (titleWords h) (countAlpha (words h) (0, 0))
      in \<lparr>latin_alpha_count = of_nat (fst counts), total_alpha_count = of_nat (snd counts)\<rparr>)"

definition englishStopWords :: "string list" where
  "englishStopWords = [''the'', ''of'', ''and'', ''to'', ''in'', ''is'', ''for'', ''that'', ''it'', ''was'', ''on'', ''are'',
     ''as'', ''with'', ''be'', ''at'', ''this'', ''from'', ''or'', ''an'']"

definition stop_word :: "string \<Rightarrow> bool" where
  "stop_word word \<longleftrightarrow> lowerAscii (takeWhile (\<lambda>c. code c \<noteq> 0) word) \<in> set englishStopWords"

definition isEnglish :: "Parser \<Rightarrow> bool" where
  "isEnglish h =
     (if htmlLang h \<noteq> []
      then 2 \<le> length (htmlLang h) \<and> htmlLang h ! 0 \<in> {CHR ''e'', CHR ''E''} \<and> htmlLang h ! 1 \<in> {CHR ''n'', CHR ''N''}
        \<and> (length (htmlLang h) = 2 \<or> htmlLang h ! 2 = CHR ''-'')
      else if 50 \<le> length (words h) then 3 * length (words h) \<le> 100 * length (filter stop_word (words h))
      else let stats = alphaStats h
           in if total_alpha_count stats < 50 then True
              else 6 * unat (total_alpha_count stats) \<le> 10 * unat (latin_alpha_count stats))"

subsection \<open>What the counts are\<close>

text \<open>The characters of a text, read one after the other.\<close>

function characters :: "u8 list \<Rightarrow> u32 list" where
  "characters p = (if p = [] then [] else let (cp, p') = ReadUtf8 p in cp # characters p')"
  by pat_completeness auto
termination
  by (relation "measure length") (auto dest: ReadUtf8_shorter [OF sym])

declare characters.simps [simp del]

definition letters :: "string list \<Rightarrow> u32 list" where
  "letters ws = filter (\<lambda>c. isLatinAlpha c \<or> isNonLatinAlpha c) (concat (map (characters \<circ> utf8_bytes) ws))"

lemma alpha_classes: "\<not> isLatinAlpha ReplacementCharacter" "\<not> isNonLatinAlpha ReplacementCharacter"
  by (simp_all add: isLatinAlpha_def isNonLatinAlpha_def ReplacementCharacter_def)

lemma alpha_loop_eq:
  "alpha_loop p (l, t) = (l + length (filter isLatinAlpha (characters p)),
     t + length (filter (\<lambda>c. isLatinAlpha c \<or> isNonLatinAlpha c) (characters p)))"
proof (induction p "(l, t)" arbitrary: l t rule: alpha_loop.induct)
  case (1 p l t)
  show ?case
  proof (cases "p = []")
    case False
    obtain cp p' where r: "ReadUtf8 p = (cp, p')" by fastforce
    have c: "characters p = cp # characters p'" using False r by (simp add: characters.simps [of p])
    show ?thesis
      using 1 [OF False r [symmetric] refl] c r False alpha_classes
      by (subst alpha_loop.simps) (auto simp: Let_def)
  qed (simp add: alpha_loop.simps characters.simps)
qed

lemma countAlpha_eq:
  "countAlpha ws (l, t) = (l + length (filter isLatinAlpha (letters ws)), t + length (letters ws))"
proof (induction ws arbitrary: l t)
  case Nil
  then show ?case by (simp add: countAlpha_def letters_def)
next
  case (Cons w ws)
  have "filter isLatinAlpha (filter (\<lambda>c. isLatinAlpha c \<or> isNonLatinAlpha c) xs) = filter isLatinAlpha xs" for xs
    by (induction xs) auto
  then show ?case using Cons by (simp add: countAlpha_def letters_def alpha_loop_eq)
qed

text \<open>Without a \<open>lang\<close> attribute a page is judged by what its words hold: from 50 words on by whether three in a hundred are
  stop words, with fewer by whether three letters in five are Latin; a page with fewer than 50 letters passes.\<close>

theorem isEnglish_iff:
  assumes "htmlLang h = []" and "length (letters (words h @ titleWords h)) < 2 ^ 32"
  shows "isEnglish h \<longleftrightarrow>
     (if 50 \<le> length (words h) then 3 * length (words h) \<le> 100 * length (filter stop_word (words h))
      else length (letters (words h @ titleWords h)) < 50
        \<or> 3 * length (letters (words h @ titleWords h)) \<le> 5 * length (filter isLatinAlpha (letters (words h @ titleWords h))))"
proof -
  let ?l = "letters (words h @ titleWords h)"
  have "length (filter isLatinAlpha ?l) < 2 ^ 32" using assms(2) length_filter_le le_less_trans by blast
  moreover have "letters (words h @ titleWords h) = letters (words h) @ letters (titleWords h)" by (simp add: letters_def)
  ultimately have "unat (latin_alpha_count (alphaStats h)) = length (filter isLatinAlpha ?l)"
    "unat (total_alpha_count (alphaStats h)) = length ?l"
    using assms(2) by (simp_all add: alphaStats_def countAlpha_eq Let_def del: of_nat_add)
  then show ?thesis using assms(1) by (auto simp: isEnglish_def Let_def word_less_nat_alt)
qed

theorem isEnglish_iff_witness: "isEnglish new_parser"
  using isEnglish_iff [of new_parser] by (simp add: new_parser_def letters_def)

end
