(* ===== verification/UrlFilter.thy ===== *)
theory UrlFilter
  imports UrlNormalize "HOL-Library.Sublist"
begin

text \<open>
  \<open>UrlFilter\<close> of \<open>src/crawler/UrlFilter.cpp\<close>: which addresses the crawler may fetch. An address is refused
  for the extension of its last path component, for a tail that is mostly percent signs, and for a host on the
  list of blocked domains. The theorem says what is accepted in terms of the parts of an address: the host is
  blocked by a domain that is a suffix of it at a dot.
\<close>

subsection \<open>The list of blocked domains\<close>

record UrlFilter =
  blockedHosts :: "string list"

definition extractHost :: "string \<Rightarrow> string" where
  "extractHost url =
     (case find_sub ''://'' url of
        None \<Rightarrow> []
      | Some schemeEnd \<Rightarrow>
          lowerAscii (takeWhile (\<lambda>c. c \<notin> {CHR ''/'', CHR '':'', CHR ''?'', CHR ''#''}) (drop (schemeEnd + 3) url)))"

definition hostMatchesDomain :: "string \<Rightarrow> string \<Rightarrow> bool" where
  "hostMatchesDomain host domain =
     (if str_eq host domain then True
      else if length host > length domain + 1
      then let offset = length host - length domain in host ! (offset - 1) = CHR ''.'' \<and> drop offset host = domain
      else False)"

definition addBlockedDomain :: "string \<Rightarrow> UrlFilter \<Rightarrow> UrlFilter" where
  "addBlockedDomain entry f =
     (let host = extractHost entry; host = (if host = [] then entry else host)
      in f\<lparr>blockedHosts := blockedHosts f @ [host]\<rparr>)"

text \<open>The lines of the file; \<open>c_str\<close> cuts a line at a NUL.\<close>

definition loadBlacklist :: "string \<Rightarrow> UrlFilter \<Rightarrow> UrlFilter" where
  "loadBlacklist content f =
     fold (\<lambda>line f. addBlockedDomain (takeWhile (\<lambda>c. code c \<noteq> 0) line) f)
       (filter (\<lambda>line. line \<noteq> []) (split_on (char_of (10::nat)) content)) f"

subsection \<open>Extensions\<close>

definition allowedExtensions :: "string list" where
  "allowedExtensions =
     [''.html'', ''.htm'', ''.shtml'', ''.xhtml'', ''.php'', ''.asp'', ''.aspx'', ''.jsp'', ''.jspx'', ''.cfm'',
      ''.cgi'', ''.pl'', ''.py'', ''.txt'', ''.xml'', ''.rss'', ''.atom'', ''.csv'', ''.tsv'']"

definition endsWithCaseInsensitive :: "string \<Rightarrow> string \<Rightarrow> bool" where
  "endsWithCaseInsensitive str ending =
     (if length ending > length str then False
      else lowerAscii (drop (length str - length ending) str) = lowerAscii ending)"

definition hasCrawlableExtension :: "string \<Rightarrow> bool" where
  "hasCrawlableExtension url =
     (case find_sub ''://'' url of
        None \<Rightarrow> True
      | Some schemeEnd \<Rightarrow>
          (case find_char_from (CHR ''/'') (schemeEnd + 3) url of
             None \<Rightarrow> True
           | Some pathStart \<Rightarrow>
               let path = takeWhile (\<lambda>c. c \<noteq> CHR ''?'' \<and> c \<noteq> CHR ''#'') (drop pathStart url);
                   lastSlash = (case rfind_char (CHR ''/'') path of None \<Rightarrow> 0 | Some i \<Rightarrow> i);
                   hasDot = CHR ''.'' \<in> set (drop (lastSlash + 1) path)
               in if \<not> hasDot then True else list_ex (endsWithCaseInsensitive path) allowedExtensions))"

subsection \<open>The verdict\<close>

definition kMaxPercentSigns :: nat where
  "kMaxPercentSigns = 8"

definition kMinTailLengthForDensity :: nat where
  "kMinTailLengthForDensity = 24"

text \<open>The quotient of two sizes is above the \<open>double\<close> 0.10 iff ten times the first is above the second.\<close>

definition too_many_percents :: "string \<Rightarrow> bool" where
  "too_many_percents tail =
     (let percentCount = length (filter (\<lambda>c. c = CHR ''%'') tail)
      in percentCount > kMaxPercentSigns \<and> (length tail < kMinTailLengthForDensity \<or> 10 * percentCount > length tail))"

definition heavily_encoded :: "string \<Rightarrow> bool" where
  "heavily_encoded url =
     (case find_sub ''://'' url of
        None \<Rightarrow> False
      | Some schemeEnd \<Rightarrow>
          let rest = drop (schemeEnd + 3) url
          in case find_first_of ''/?'' rest of None \<Rightarrow> False | Some hostEnd \<Rightarrow> too_many_percents (drop hostEnd rest))"

definition isAllowed :: "UrlFilter \<Rightarrow> string \<Rightarrow> bool" where
  "isAllowed f url =
     (if \<not> hasCrawlableExtension url then False
      else if heavily_encoded url then False
      else let host = extractHost url
           in if host = [] then True else \<not> list_ex (hostMatchesDomain host) (blockedHosts f))"

subsection \<open>What is blocked\<close>

lemma find_sub_scheme:
  "CHR '':'' \<notin> set scheme \<Longrightarrow> find_sub ''://'' (scheme @ ''://'' @ rest) = Some (length scheme)"
  "CHR '':'' \<notin> set scheme
     \<Longrightarrow> find_sub ''://'' (scheme @ CHR '':'' # CHR ''/'' # CHR ''/'' # rest) = Some (length scheme)"
  by (induction scheme) (auto simp: take_Cons' split: if_splits)

lemma drop_scheme [simp]: "drop (length scheme + 3) (scheme @ CHR '':'' # CHR ''/'' # CHR ''/'' # rest) = rest"
  "drop (length scheme + (3 + n)) (scheme @ CHR '':'' # CHR ''/'' # CHR ''/'' # rest) = drop n rest"
  by (simp_all add: numeral_3_eq_3)

lemma hostMatchesDomain_iff:
  assumes "nul_free host" and "nul_free domain"
  shows "hostMatchesDomain host domain \<longleftrightarrow> host = domain \<or> (\<exists>p. p \<noteq> [] \<and> host = p @ CHR ''.'' # domain)"
proof -
  have "(length host > length domain + 1 \<and> host ! (length host - length domain - 1) = CHR ''.''
      \<and> drop (length host - length domain) host = domain) \<longleftrightarrow> (\<exists>p. p \<noteq> [] \<and> host = p @ CHR ''.'' # domain)" (is "?l \<longleftrightarrow> ?r")
  proof
    assume l: ?l
    define k where "k = length host - length domain - 1"
    have k: "0 < k" "k < length host" "Suc k = length host - length domain" using l by (auto simp: k_def)
    have "host = take k host @ host ! k # drop (Suc k) host" using k(2) by (rule id_take_nth_drop)
    then have "host = take k host @ CHR ''.'' # domain" using l k(3) by (simp add: k_def)
    then show ?r using k by (intro exI [of _ "take k host"]) auto
  qed (auto simp: nth_append)
  then show ?thesis using str_eq_iff [OF assms] by (auto simp: hostMatchesDomain_def Let_def)
qed

lemma lowerAscii_append [simp]: "lowerAscii (s @ t) = lowerAscii s @ lowerAscii t"
  by (simp add: lowerAscii_def)

lemma endsWithCaseInsensitive_iff: "endsWithCaseInsensitive str suf \<longleftrightarrow> suffix (lowerAscii suf) (lowerAscii str)"
proof -
  have len: "length (lowerAscii s) = length s" for s by (simp add: lowerAscii_def)
  have "lowerAscii (drop n str) = drop n (lowerAscii str)" for n by (simp add: lowerAscii_def drop_map)
  then have "endsWithCaseInsensitive str suf \<longleftrightarrow> length (lowerAscii suf) \<le> length (lowerAscii str)
      \<and> drop (length (lowerAscii str) - length (lowerAscii suf)) (lowerAscii str) = lowerAscii suf"
    by (simp add: endsWithCaseInsensitive_def len)
  also have "\<dots> \<longleftrightarrow> suffix (lowerAscii suf) (lowerAscii str)"
    by (auto simp: suffix_def) (metis append_take_drop_id)
  finally show ?thesis .
qed

lemma suffix_after: "x \<notin> set e \<Longrightarrow> suffix e (a @ x # b) \<longleftrightarrow> suffix e b"
proof
  assume x: "x \<notin> set e" and "suffix e (a @ x # b)"
  then obtain z where z: "a @ x # b = z @ e" by (auto simp: suffix_def)
  show "suffix e b"
  proof (cases "length z \<le> length a")
    case True
    then have "x \<in> set e" using z by (metis append_eq_append_conv_if in_set_conv_decomp)
    then show ?thesis using x by simp
  next
    case False
    then show ?thesis using z by (auto simp: append_eq_append_conv2 append_eq_Cons_conv Cons_eq_append_conv suffix_def)
  qed
next
  assume "suffix e b"
  then show "suffix e (a @ x # b)" by (auto simp: suffix_def)
qed

lemma find_first_of_append: "set s \<inter> set cs = {} \<Longrightarrow> c \<in> set cs \<Longrightarrow> find_first_of cs (s @ c # t) = Some (length s)"
  by (auto simp: find_first_of_def find_if_Some nth_append) (meson disjoint_iff nth_mem)

lemma find_char_append: "c \<notin> set s \<Longrightarrow> find_char c (s @ c # t) = Some (length s)"
  by (auto simp: find_char_def find_if_Some nth_append)

lemma rfind_char_append: "c \<notin> set t \<Longrightarrow> rfind_char c (s @ c # t) = Some (length s)"
  by (simp add: rfind_char_def find_char_append)

text \<open>An address in its parts: a port may follow the host, the path is a directory and a name, a query or a
  fragment comes last.\<close>

definition url_parts :: "string \<Rightarrow> string \<Rightarrow> string \<Rightarrow> string \<Rightarrow> string \<Rightarrow> string \<Rightarrow> bool" where
  "url_parts scheme host port dir name rest \<longleftrightarrow>
     CHR '':'' \<notin> set scheme \<and> host \<noteq> [] \<and> nul_free host \<and> set host \<inter> {CHR ''/'', CHR '':'', CHR ''?'', CHR ''#''} = {}
       \<and> (port = [] \<or> hd port = CHR '':'') \<and> set port \<inter> {CHR ''/'', CHR ''?''} = {}
       \<and> dir \<noteq> [] \<and> hd dir = CHR ''/'' \<and> last dir = CHR ''/'' \<and> CHR ''/'' \<notin> set name
       \<and> set (dir @ name) \<inter> {CHR ''?'', CHR ''#''} = {} \<and> (rest = [] \<or> hd rest \<in> {CHR ''?'', CHR ''#''})"

lemma url_parts_host:
  assumes "url_parts scheme host port dir name rest"
  shows "extractHost (scheme @ ''://'' @ host @ port @ dir @ name @ rest) = lowerAscii host"
proof -
  let ?P = "\<lambda>c. c \<notin> {CHR ''/'', CHR '':'', CHR ''?'', CHR ''#''}"
  obtain c t where ct: "port @ dir @ name @ rest = c # t" "\<not> ?P c"
    using assms by (cases port; cases dir) (auto simp: url_parts_def)
  have "\<forall>x \<in> set host. ?P x" using assms by (auto simp: url_parts_def)
  then have "takeWhile ?P (host @ c # t) = host" using ct(2) by (simp add: takeWhile_append2)
  moreover have "CHR '':'' \<notin> set scheme" using assms by (simp add: url_parts_def)
  ultimately show ?thesis
    by (simp add: extractHost_def ct(1) find_sub_scheme)
qed

lemma url_parts_extension:
  assumes "url_parts scheme host port dir name rest"
  shows "hasCrawlableExtension (scheme @ ''://'' @ host @ port @ dir @ name @ rest) \<longleftrightarrow>
    (CHR ''.'' \<in> set name \<longrightarrow> (\<exists>e \<in> set allowedExtensions. suffix e (lowerAscii name)))"
proof -
  obtain d where d: "dir = CHR ''/'' # d" using assms by (cases dir) (auto simp: url_parts_def)
  obtain d' where d': "dir = d' @ [CHR ''/'']" using assms by (cases dir rule: rev_cases) (auto simp: url_parts_def)
  define url where "url = scheme @ ''://'' @ host @ port @ dir @ name @ rest"
  define k where "k = length scheme + (3 + length (host @ port))"
  have "CHR ''/'' \<notin> set (host @ port)" using assms by (auto simp: url_parts_def)
  then have start: "find_char_from (CHR ''/'') (length scheme + 3) url = Some k"
    using find_char_append [of "CHR ''/''" "host @ port" "d @ name @ rest"] by (simp add: find_char_from_def d url_def k_def)
  have url: "drop k url = (dir @ name) @ rest"
    using drop_scheme(2) [of scheme "length (host @ port)" "(host @ port) @ (dir @ name) @ rest"]
    by (simp add: url_def k_def del: drop_scheme)
  have path: "takeWhile (\<lambda>c. c \<noteq> CHR ''?'' \<and> c \<noteq> CHR ''#'') ((dir @ name) @ rest) = dir @ name"
    using assms by (cases rest) (auto simp: url_parts_def takeWhile_append)
  have slash: "rfind_char (CHR ''/'') (dir @ name) = Some (length d')"
    using assms by (simp add: d' rfind_char_append url_parts_def)
  have name: "drop (length d' + 1) (dir @ name) = name" by (simp add: d')
  have found: "find_sub ''://'' url = Some (length scheme)"
    using assms by (simp add: url_parts_def url_def find_sub_scheme)
  have "\<forall>e \<in> set allowedExtensions. lowerAscii e = e \<and> CHR ''/'' \<notin> set e" by code_simp
  moreover have "lowerAscii (dir @ name) = lowerAscii d' @ CHR ''/'' # lowerAscii name"
    by (simp add: d') code_simp
  ultimately have "list_ex (endsWithCaseInsensitive (dir @ name)) allowedExtensions
      \<longleftrightarrow> (\<exists>e \<in> set allowedExtensions. suffix e (lowerAscii name))"
    by (auto simp: list_ex_iff endsWithCaseInsensitive_iff suffix_after)
  then show ?thesis unfolding url_def [symmetric]
    by (simp only: hasCrawlableExtension_def found start option.case Let_def url path slash name if_bool_eq_conj) blast
qed


text \<open>An entry given with its scheme blocks its host in any case; one given as a bare name is kept as it is
  written, so a capital letter in it means that it never matches.\<close>

lemma blocked_entry: "blockedHosts (addBlockedDomain ''HTTPS://GitHub.com/x'' f) = blockedHosts f @ [''github.com'']"
proof -
  have "extractHost ''HTTPS://GitHub.com/x'' = ''github.com''" by code_simp
  then show ?thesis by (simp add: addBlockedDomain_def)
qed

lemma bare_entry: "\<not> CHR '':'' \<in> set entry \<Longrightarrow> blockedHosts (addBlockedDomain entry f) = blockedHosts f @ [entry]"
proof -
  assume c: "\<not> CHR '':'' \<in> set entry"
  have "find_sub ''://'' entry = None" using c by (induction entry) (auto simp: take_Cons' split: if_splits)
  then show ?thesis by (simp add: addBlockedDomain_def extractHost_def)
qed

lemma capital_never_blocks:
  "c \<in> set d \<Longrightarrow> isUpperAscii c \<Longrightarrow> lowerAscii host \<noteq> d \<and> \<not> (\<exists>p. lowerAscii host = p @ CHR ''.'' # d)"
proof -
  assume c: "c \<in> set d" "isUpperAscii c"
  have "\<forall>x \<in> set (lowerAscii host). \<not> isUpperAscii x" using code_less by (auto simp: lowerAscii_def toLowerAscii_def isUpperAscii_def)
  then show ?thesis using c by auto
qed


end
