(* ===== verification/HashTable.thy ===== *)
theory HashTable
  imports Strings "HOL-Library.Multiset"
begin

text \<open>
  The hash table of \<open>src/utils/hash/HashTable.h\<close>: an array of chains of buckets that doubles when it gets full.
  A pointer to a bucket is its place, the index of its chain and its position there; \<open>None\<close> around a result is the
  division by zero of a table without an array, which only a moved-from table has. The locale \<open>hash_keys\<close> states what
  the two functions a table is made with have to satisfy; in it each operation is shown to act on the map of
  the table, whatever the growth does to the chains, and the iterator to visit every entry once.
\<close>

subsection \<open>State\<close>

definition INITIAL_BUCKET_COUNT :: nat where
  "INITIAL_BUCKET_COUNT = 2048"

record ('k, 'v) Bucket =
  hashValue :: u64
  tuple_key :: 'k
  tuple_value :: 'v

record ('k, 'v) HashTable =
  buckets :: "('k, 'v) Bucket list list"
  hash :: "'k \<Rightarrow> u64"
  compareEqual :: "'k \<Rightarrow> 'k \<Rightarrow> bool"
  uniqueKeys :: nat

definition new_table :: "('k \<Rightarrow> 'k \<Rightarrow> bool) \<Rightarrow> ('k \<Rightarrow> u64) \<Rightarrow> nat \<Rightarrow> ('k, 'v) HashTable" where
  "new_table eq h numberOfBuckets =
     (let n = (if numberOfBuckets = 0 then INITIAL_BUCKET_COUNT else numberOfBuckets)
      in \<lparr>buckets = replicate n [], hash = h, compareEqual = eq, uniqueKeys = 0\<rparr>)"

subsection \<open>Growth\<close>

text \<open>The loop is entered with at least 1.\<close>

function grow_loop :: "nat \<Rightarrow> nat \<Rightarrow> nat" where
  "grow_loop newSize desiredSize =
     (if 0 < newSize \<and> newSize < desiredSize then grow_loop (newSize * 2) desiredSize else newSize)"
  by pat_completeness auto
termination by (relation "measure (\<lambda>(n, d). d - n)") auto

declare grow_loop.simps [simp del]

definition relink :: "nat \<Rightarrow> ('k, 'v) Bucket \<Rightarrow> ('k, 'v) Bucket list list \<Rightarrow> ('k, 'v) Bucket list list" where
  "relink newSize current newBuckets =
     (let newIndex = unat (hashValue current) mod newSize
      in newBuckets[newIndex := current # newBuckets ! newIndex])"

text \<open>With the loading of 1.5.\<close>

definition Optimize :: "('k, 'v) HashTable \<Rightarrow> ('k, 'v) HashTable" where
  "Optimize t =
     (let desiredSize = uniqueKeys t * 3 div 2; numberOfBuckets = length (buckets t)
      in if desiredSize \<le> numberOfBuckets then t
         else let newSize = grow_loop (if numberOfBuckets = 0 then 1 else numberOfBuckets) desiredSize
              in t\<lparr>buckets := fold (relink newSize) (concat (buckets t)) (replicate newSize [])\<rparr>)"

subsection \<open>Search\<close>

definition chain_find :: "('k, 'v) HashTable \<Rightarrow> 'k \<Rightarrow> nat \<Rightarrow> nat option" where
  "chain_find t k bucketIndex = find_if (\<lambda>b. compareEqual t (tuple_key b) k) (buckets t ! bucketIndex)"

definition Find :: "'k \<Rightarrow> ('k, 'v) HashTable \<Rightarrow> (nat \<times> nat) option option" where
  "Find k t =
     (if buckets t = [] then None
      else let bucketIndex = unat (hash t k) mod length (buckets t)
           in Some (map_option (Pair bucketIndex) (chain_find t k bucketIndex)))"

definition Find_insert :: "'k \<Rightarrow> 'v \<Rightarrow> ('k, 'v) HashTable \<Rightarrow> (('k, 'v) HashTable \<times> nat \<times> nat) option" where
  "Find_insert k initialValue t =
     (if buckets t = [] then None
      else let bucketIndex = unat (hash t k) mod length (buckets t)
           in case chain_find t k bucketIndex of
                Some j \<Rightarrow> Some (t, bucketIndex, j)
              | None \<Rightarrow>
                  let t' = Optimize t; bucketIndex = unat (hash t k) mod length (buckets t');
                      newBucket = \<lparr>hashValue = hash t k, tuple_key = k, tuple_value = initialValue\<rparr>
                  in Some (t'\<lparr>buckets := (buckets t')[bucketIndex := newBucket # buckets t' ! bucketIndex],
                              uniqueKeys := uniqueKeys t' + 1\<rparr>, bucketIndex, 0))"

text \<open>What a pointer is used for.\<close>

definition bucket_at :: "nat \<times> nat \<Rightarrow> ('k, 'v) HashTable \<Rightarrow> ('k, 'v) Bucket" where
  "bucket_at p t = buckets t ! fst p ! snd p"

definition write_value :: "nat \<times> nat \<Rightarrow> 'v \<Rightarrow> ('k, 'v) HashTable \<Rightarrow> ('k, 'v) HashTable" where
  "write_value p v t =
     t\<lparr>buckets := (buckets t)[fst p := (buckets t ! fst p)[snd p := (bucket_at p t)\<lparr>tuple_value := v\<rparr>]]\<rparr>"

definition clear_table :: "('k, 'v) HashTable \<Rightarrow> ('k, 'v) HashTable" where
  "clear_table t = t\<lparr>buckets := [], uniqueKeys := 0\<rparr>"

subsection \<open>Iteration\<close>

text \<open>The index of a chain with the position in it, or \<open>nullptr\<close>.\<close>

definition next_chain :: "('k, 'v) HashTable \<Rightarrow> nat \<Rightarrow> nat \<times> nat option" where
  "next_chain t i =
     (case find_if (\<lambda>c. c \<noteq> []) (drop i (buckets t)) of
        None \<Rightarrow> (max i (length (buckets t)), None)
      | Some d \<Rightarrow> (i + d, Some 0))"

definition begin_table :: "('k, 'v) HashTable \<Rightarrow> nat \<times> nat option" where
  "begin_table t = next_chain t 0"

definition advance :: "('k, 'v) HashTable \<Rightarrow> nat \<times> nat option \<Rightarrow> nat \<times> nat option" where
  "advance t it =
     (case it of
        (i, Some j) \<Rightarrow> if j + 1 < length (buckets t ! i) then (i, Some (j + 1)) else next_chain t (i + 1)
      | (i, None) \<Rightarrow> next_chain t (i + 1))"

text \<open>\<open>for (auto it = begin(); it != end(); ++it)\<close>, with the entries it meets.\<close>

partial_function (option) visit :: "('k, 'v) HashTable \<Rightarrow> nat \<times> nat option \<Rightarrow> ('k, 'v) Bucket list option" where
  "visit t it =
     (case snd it of
        None \<Rightarrow> Some []
      | Some j \<Rightarrow> Option.bind (visit t (advance t it)) (\<lambda>bs. Some (bucket_at (fst it, j) t # bs)))"

subsection \<open>Growth keeps the entries\<close>

definition placed :: "nat \<Rightarrow> ('k, 'v) Bucket list list \<Rightarrow> bool" where
  "placed n bs \<longleftrightarrow> length bs = n \<and> (\<forall>i < n. \<forall>b \<in> set (bs ! i). unat (hashValue b) mod n = i)"

lemma grow_loop_le: "0 < n \<Longrightarrow> d \<le> grow_loop n d \<and> n \<le> grow_loop n d \<and> (n < d \<longrightarrow> grow_loop n d < 2 * d)"
proof (induction n d rule: grow_loop.induct)
  case (1 n d)
  have step: "grow_loop n d = (if n < d then grow_loop (n * 2) d else n)" using 1(2) by (simp add: grow_loop.simps [of n])
  have stop: "\<not> n * 2 < d \<Longrightarrow> grow_loop (n * 2) d = n * 2" by (simp add: grow_loop.simps [of "n * 2"])
  show ?case using 1 step stop by (cases "n * 2 < d") auto
qed

lemma mset_concat_update:
  "i < length bs \<Longrightarrow> mset (concat (bs[i := x # bs ! i])) = add_mset x (mset (concat bs))"
proof (induction bs arbitrary: i)
  case (Cons c bs)
  then show ?case by (cases i) auto
qed simp

lemma placed_relink: "placed n bs \<Longrightarrow> 0 < n \<Longrightarrow> placed n (relink n b bs)"
  by (auto simp: placed_def relink_def Let_def nth_list_update)

lemma mset_relink: "placed n bs \<Longrightarrow> 0 < n \<Longrightarrow> mset (concat (relink n b bs)) = add_mset b (mset (concat bs))"
  by (simp add: placed_def relink_def Let_def mset_concat_update)

lemma relink_all:
  "placed n bs \<Longrightarrow> 0 < n \<Longrightarrow>
     placed n (fold (relink n) xs bs) \<and> mset (concat (fold (relink n) xs bs)) = mset xs + mset (concat bs)"
  by (induction xs arbitrary: bs) (simp_all add: placed_relink mset_relink)

lemma concat_replicate_Nil [simp]: "concat (replicate n []) = []"
  by (induction n) simp_all

lemma placed_replicate [simp]: "placed n (replicate n [])"
  by (simp add: placed_def)

lemma Optimize_buckets:
  assumes "placed (length (buckets t)) (buckets t)" and "buckets t \<noteq> []"
  shows "placed (length (buckets (Optimize t))) (buckets (Optimize t))" and "buckets (Optimize t) \<noteq> []"
    and "mset (concat (buckets (Optimize t))) = mset (concat (buckets t))"
    and "uniqueKeys t * 3 div 2 \<le> length (buckets (Optimize t))" and "length (buckets t) \<le> length (buckets (Optimize t))"
    and "hash (Optimize t) = hash t" and "compareEqual (Optimize t) = compareEqual t" and "uniqueKeys (Optimize t) = uniqueKeys t"
proof -
  let ?n = "grow_loop (length (buckets t)) (uniqueKeys t * 3 div 2)"
  have n: "0 < length (buckets t)" "0 < ?n" "uniqueKeys t * 3 div 2 \<le> ?n" "length (buckets t) \<le> ?n"
    using grow_loop_le [of "length (buckets t)" "uniqueKeys t * 3 div 2"] assms(2)
    by (auto intro: less_le_trans)
  have r: "placed ?n (fold (relink ?n) (concat (buckets t)) (replicate ?n []))"
    "mset (concat (fold (relink ?n) (concat (buckets t)) (replicate ?n []))) = mset (concat (buckets t))"
    using relink_all [of ?n "replicate ?n []" "concat (buckets t)"] n(2) by simp_all
  then have "length (fold (relink ?n) (concat (buckets t)) (replicate ?n [])) = ?n" by (simp add: placed_def)
  then show "placed (length (buckets (Optimize t))) (buckets (Optimize t))" "buckets (Optimize t) \<noteq> []"
    "mset (concat (buckets (Optimize t))) = mset (concat (buckets t))"
    "uniqueKeys t * 3 div 2 \<le> length (buckets (Optimize t))" "length (buckets t) \<le> length (buckets (Optimize t))"
    "hash (Optimize t) = hash t" "compareEqual (Optimize t) = compareEqual t" "uniqueKeys (Optimize t) = uniqueKeys t"
    using assms n r by (auto simp: Optimize_def Let_def)
qed

subsection \<open>The map of a table\<close>

definition entries :: "('k, 'v) HashTable \<Rightarrow> ('k, 'v) Bucket list" where
  "entries t = concat (buckets t)"

definition table_map :: "('k, 'v) HashTable \<Rightarrow> 'k \<Rightarrow> 'v option" where
  "table_map t k = map_option tuple_value (find (\<lambda>b. compareEqual t (tuple_key b) k) (entries t))"

definition distinct_keys :: "('k \<Rightarrow> 'k \<Rightarrow> bool) \<Rightarrow> ('k, 'v) Bucket multiset \<Rightarrow> bool" where
  "distinct_keys eq bs \<longleftrightarrow> (\<forall>k. size (filter_mset (\<lambda>b. eq (tuple_key b) k) bs) \<le> 1)"

definition table_ok :: "('k, 'v) HashTable \<Rightarrow> bool" where
  "table_ok t \<longleftrightarrow> buckets t \<noteq> [] \<and> placed (length (buckets t)) (buckets t) \<and> uniqueKeys t = length (entries t)
     \<and> (\<forall>b \<in> set (entries t). hashValue b = hash t (tuple_key b))
     \<and> distinct_keys (compareEqual t) (mset (entries t))
     \<and> (uniqueKeys t - 1) * 3 div 2 \<le> length (buckets t)"

text \<open>What the two functions of a table have to satisfy.\<close>

locale hash_keys =
  fixes h :: "'k \<Rightarrow> u64" and eq :: "'k \<Rightarrow> 'k \<Rightarrow> bool"
  assumes eq_refl: "eq k k" and eq_sym: "eq k l \<Longrightarrow> eq l k" and eq_trans: "eq k l \<Longrightarrow> eq l m \<Longrightarrow> eq k m"
    and eq_hash: "eq k l \<Longrightarrow> h k = h l"
begin

definition for_keys :: "('k, 'v) HashTable \<Rightarrow> bool" where
  "for_keys t \<longleftrightarrow> table_ok t \<and> hash t = h \<and> compareEqual t = eq"

lemma for_keys_new: "for_keys (new_table eq h n)"
  by (auto simp: for_keys_def table_ok_def new_table_def entries_def distinct_keys_def INITIAL_BUCKET_COUNT_def Let_def)

end

definition points :: "nat \<times> nat \<Rightarrow> ('k, 'v) HashTable \<Rightarrow> bool" where
  "points p t \<longleftrightarrow> fst p < length (buckets t) \<and> snd p < length (buckets t ! fst p)"

lemma points_entry: "points p t \<Longrightarrow> bucket_at p t \<in> set (entries t)"
  unfolding points_def bucket_at_def entries_def by (metis UnionI imageI nth_mem set_concat)

lemma distinct_keysD:
  "distinct_keys eq (mset bs) \<Longrightarrow> b \<in> set bs \<Longrightarrow> c \<in> set bs \<Longrightarrow> eq (tuple_key b) k \<Longrightarrow> eq (tuple_key c) k \<Longrightarrow> b = c"
proof (rule ccontr)
  assume d: "distinct_keys eq (mset bs)" and bc: "b \<in> set bs" "c \<in> set bs" "eq (tuple_key b) k" "eq (tuple_key c) k" and ne: "b \<noteq> c"
  let ?F = "filter_mset (\<lambda>b. eq (tuple_key b) k) (mset bs)"
  have "{#b, c#} \<subseteq># ?F"
    using bc ne by (simp add: subseteq_mset_def) (metis count_eq_zero_iff in_multiset_in_set not_less_eq_eq le_zero_eq not_in_iff)
  then have "size {#b, c#} \<le> size ?F" by (rule size_mset_mono)
  then show False using d by (simp add: distinct_keys_def) (metis Suc_n_not_le_n numeral_2_eq_2 One_nat_def le_trans)
qed

lemma table_map_Some:
  assumes "distinct_keys (compareEqual t) (mset (entries t))"
  shows "table_map t k = Some v \<longleftrightarrow> (\<exists>b \<in> set (entries t). compareEqual t (tuple_key b) k \<and> tuple_value b = v)"
proof -
  have found: "find P bs = Some b \<Longrightarrow> b \<in> set bs \<and> P b" for P and bs :: "('a, 'b) Bucket list" and b
    by (metis find_Some_iff nth_mem)
  have "\<exists>b'. find (\<lambda>b. compareEqual t (tuple_key b) k) (entries t) = Some b'"
    if "b \<in> set (entries t)" "compareEqual t (tuple_key b) k" for b
    using that by (metis (mono_tags, lifting) find_None_iff option.exhaust)
  then show ?thesis using found distinct_keysD [OF assms]
    by (fastforce simp: table_map_def)
qed

lemma table_map_None: "table_map t k = None \<longleftrightarrow> (\<forall>b \<in> set (entries t). \<not> compareEqual t (tuple_key b) k)"
  by (simp add: table_map_def find_None_iff Ball_def)

lemma mset_concat_set:
  assumes i: "i < length bs" and j: "j < length (bs ! i)"
  shows "mset (concat bs) = add_mset (bs ! i ! j) (mset (concat bs) - {#bs ! i ! j#})"
    and "mset (concat (bs[i := (bs ! i)[j := x]])) = add_mset x (mset (concat bs) - {#bs ! i ! j#})"
proof -
  have bs: "bs = take i bs @ bs ! i # drop (Suc i) bs" using i by (rule id_take_nth_drop)
  have c: "bs ! i = take j (bs ! i) @ bs ! i ! j # drop (Suc j) (bs ! i)" using j by (rule id_take_nth_drop)
  let ?M = "mset (concat (take i bs)) + mset (take j (bs ! i)) + mset (drop (Suc j) (bs ! i)) + mset (concat (drop (Suc i) bs))"
  have "mset (concat bs) = mset (concat (take i bs)) + mset (bs ! i) + mset (concat (drop (Suc i) bs))"
    by (subst bs) simp
  also have "mset (bs ! i) = add_mset (bs ! i ! j) (mset (take j (bs ! i)) + mset (drop (Suc j) (bs ! i)))"
    by (subst c) simp
  finally have m: "mset (concat bs) = add_mset (bs ! i ! j) ?M" by simp
  have "bs[i := (bs ! i)[j := x]] = take i bs @ (bs ! i)[j := x] # drop (Suc i) bs" using i by (rule upd_conv_take_nth_drop)
  moreover have "(bs ! i)[j := x] = take j (bs ! i) @ x # drop (Suc j) (bs ! i)" using j by (rule upd_conv_take_nth_drop)
  ultimately have "mset (concat (bs[i := (bs ! i)[j := x]])) = add_mset x ?M" by simp
  then show "mset (concat bs) = add_mset (bs ! i ! j) (mset (concat bs) - {#bs ! i ! j#})"
    "mset (concat (bs[i := (bs ! i)[j := x]])) = add_mset x (mset (concat bs) - {#bs ! i ! j#})"
    by (simp_all add: m)
qed

lemma mset_entries_write:
  "points p t \<Longrightarrow> mset (entries t) = add_mset (bucket_at p t) (mset (entries t) - {#bucket_at p t#})
     \<and> mset (entries (write_value p v t)) = add_mset ((bucket_at p t)\<lparr>tuple_value := v\<rparr>) (mset (entries t) - {#bucket_at p t#})"
  using mset_concat_set [of "fst p" "buckets t" "snd p"] by (simp add: points_def entries_def write_value_def bucket_at_def)

context hash_keys
begin

lemma for_keys_buckets: "for_keys t \<Longrightarrow> buckets t \<noteq> []"
  by (simp add: for_keys_def table_ok_def)

lemma for_keys_distinct: "for_keys t \<Longrightarrow> distinct_keys eq (mset (entries t))"
  by (auto simp: for_keys_def table_ok_def)

lemma for_keys_Some:
  "for_keys t \<Longrightarrow> table_map t k = Some v \<longleftrightarrow> (\<exists>b \<in> set (entries t). eq (tuple_key b) k \<and> tuple_value b = v)"
  using table_map_Some [of t k v] for_keys_distinct [of t] by (auto simp: for_keys_def)

lemma same_entries:
  assumes "for_keys t" and "for_keys u" and "set (entries t) = set (entries u)"
  shows "table_map t = table_map u"
proof
  fix k
  have "table_map t k = Some v \<longleftrightarrow> table_map u k = Some v" for v
    using for_keys_Some [OF assms(1)] for_keys_Some [OF assms(2)] assms(3) by simp
  then show "table_map t k = table_map u k" by (metis option.exhaust)
qed

lemma in_chain:
  assumes t: "for_keys t" and b: "b \<in> set (entries t)" "eq (tuple_key b) k"
  shows "b \<in> set (buckets t ! (unat (h k) mod length (buckets t)))"
proof -
  obtain c where c: "c \<in> set (buckets t)" "b \<in> set c" using b(1) by (auto simp: entries_def)
  then obtain i where i: "i < length (buckets t)" "c = buckets t ! i" by (auto simp: in_set_conv_nth)
  have "unat (hashValue b) mod length (buckets t) = i"
    using t i c(2) by (simp add: for_keys_def table_ok_def placed_def)
  moreover have "hashValue b = h k" using t b eq_hash [OF b(2)] by (simp add: for_keys_def table_ok_def)
  ultimately show ?thesis using c(2) i(2) by simp
qed

lemma chain_find_cases:
  assumes t: "for_keys t"
  shows "case chain_find t k (unat (h k) mod length (buckets t)) of
      None \<Rightarrow> table_map t k = None
    | Some j \<Rightarrow> points (unat (h k) mod length (buckets t), j) t
        \<and> eq (tuple_key (bucket_at (unat (h k) mod length (buckets t), j) t)) k"
proof -
  let ?i = "unat (h k) mod length (buckets t)"
  have i: "?i < length (buckets t)" using for_keys_buckets [OF t] by simp
  have e: "compareEqual t = eq" using t by (simp add: for_keys_def)
  show ?thesis
  proof (cases "chain_find t k ?i")
    case None
    then have "\<forall>b \<in> set (entries t). \<not> eq (tuple_key b) k"
      using in_chain [OF t] by (auto simp: chain_find_def find_if_None e)
    then show ?thesis using None by (simp add: table_map_None e)
  next
    case (Some j)
    then have "j < length (buckets t ! ?i) \<and> eq (tuple_key (buckets t ! ?i ! j)) k"
      by (simp add: chain_find_def find_if_Some e)
    then show ?thesis using Some i by (simp add: points_def bucket_at_def)
  qed
qed

lemma table_map_at:
  assumes t: "for_keys t" and p: "points p t" "eq (tuple_key (bucket_at p t)) k"
  shows "table_map t k = Some (tuple_value (bucket_at p t))"
  using for_keys_Some [OF t] points_entry [OF p(1)] p(2) by blast

lemma Find_spec:
  assumes t: "for_keys t"
  shows "\<exists>r. Find k t = Some r \<and> (case r of None \<Rightarrow> table_map t k = None
    | Some p \<Rightarrow> points p t \<and> eq (tuple_key (bucket_at p t)) k \<and> table_map t k = Some (tuple_value (bucket_at p t)))"
proof -
  have "hash t = h" using t by (simp add: for_keys_def)
  then show ?thesis using chain_find_cases [OF t, of k] for_keys_buckets [OF t] table_map_at [OF t]
    by (auto simp: Find_def Let_def split: option.splits)
qed

lemma distinct_keys_add:
  assumes "distinct_keys eq B" and "\<forall>b \<in># B. \<not> eq (tuple_key b) (tuple_key n)"
  shows "distinct_keys eq (add_mset n B)"
proof -
  have "size (filter_mset (\<lambda>b. eq (tuple_key b) k) (add_mset n B)) \<le> 1" for k
  proof (cases "eq (tuple_key n) k")
    case True
    have "\<not> eq (tuple_key b) k" if "b \<in># B" for b
      using assms(2) that True eq_trans [of "tuple_key b" k "tuple_key n"] eq_sym [of "tuple_key n" k] by blast
    then have "filter_mset (\<lambda>b. eq (tuple_key b) k) B = {#}" by simp
    then show ?thesis using True by simp
  next
    case False
    then show ?thesis using assms(1) by (simp add: distinct_keys_def)
  qed
  then show ?thesis by (simp add: distinct_keys_def)
qed

lemma for_keys_Optimize:
  assumes "for_keys t"
  shows "for_keys (Optimize t)" and "table_map (Optimize t) = table_map t"
    and "mset (entries (Optimize t)) = mset (entries t)"
proof -
  have o: "mset (entries (Optimize t)) = mset (entries t)"
    using Optimize_buckets(3) [of t] assms by (simp add: for_keys_def table_ok_def entries_def)
  then show "mset (entries (Optimize t)) = mset (entries t)" .
  have s: "set (entries (Optimize t)) = set (entries t)" "length (entries (Optimize t)) = length (entries t)"
    using o by (rule mset_eq_setD, rule mset_eq_length)
  show f: "for_keys (Optimize t)"
    using assms Optimize_buckets [of t] s o unfolding for_keys_def table_ok_def by (auto intro: order_trans)
  show "table_map (Optimize t) = table_map t" using f assms s(1) by (rule same_entries)
qed

end

context hash_keys
begin

lemma new_bucket:
  assumes t: "for_keys t" and i: "i < length (buckets t)" "i = unat (h k) mod length (buckets t)"
    and new: "\<forall>b \<in> set (entries t). \<not> eq (tuple_key b) k" and load: "uniqueKeys t * 3 div 2 \<le> length (buckets t)"
    and u: "u = t\<lparr>buckets := (buckets t)[i := \<lparr>hashValue = h k, tuple_key = k, tuple_value = v\<rparr> # buckets t ! i], uniqueKeys := uniqueKeys t + 1\<rparr>"
  shows "for_keys u" and "table_map u = (\<lambda>l. if eq k l then Some v else table_map t l)"
proof -
  let ?n = "\<lparr>hashValue = h k, tuple_key = k, tuple_value = v\<rparr>"
  have m: "mset (entries u) = add_mset ?n (mset (entries t))"
    using mset_concat_update [OF i(1)] by (simp add: u entries_def)
  then have s: "set (entries u) = insert ?n (set (entries t))" "length (entries u) = length (entries t) + 1"
    by (metis set_mset_add_mset_insert set_mset_mset) (metis m add.commute plus_1_eq_Suc size_add_mset size_mset)
  have "placed (length (buckets t)) (buckets u)"
    using t i by (auto simp: for_keys_def table_ok_def placed_def u nth_list_update)
  moreover have "distinct_keys eq (mset (entries u))"
    unfolding m using for_keys_distinct [OF t] new by (intro distinct_keys_add) auto
  ultimately show f: "for_keys u"
    using t load s unfolding for_keys_def table_ok_def by (auto simp: u)
  show "table_map u = (\<lambda>l. if eq k l then Some v else table_map t l)"
  proof
    fix l
    have "table_map u l = Some w \<longleftrightarrow> (if eq k l then Some v else table_map t l) = Some w" for w
    proof (cases "eq k l")
      case True
      then have "\<not> eq (tuple_key b) l" if "b \<in> set (entries t)" for b
        using new that eq_trans [of "tuple_key b" l k] eq_sym [of k l] by blast
      then show ?thesis unfolding for_keys_Some [OF f] s(1) using True by simp
    next
      case False
      then show ?thesis unfolding for_keys_Some [OF f] s(1) using for_keys_Some [OF t, of l w] by simp
    qed
    then show "table_map u l = (if eq k l then Some v else table_map t l)" by (metis option.exhaust)
  qed
qed

text \<open>A search that inserts leaves the map as it is when the key is there, and adds the value when it is not; the
  pointer leads to the entry.\<close>

lemma Find_insert_spec:
  assumes t: "for_keys t"
  shows "\<exists>u p. Find_insert k v t = Some (u, p) \<and> for_keys u \<and> points p u \<and> eq (tuple_key (bucket_at p u)) k
    \<and> table_map u = (\<lambda>l. if eq k l \<and> table_map t k = None then Some v else table_map t l)
    \<and> uniqueKeys u = uniqueKeys t + (if table_map t k = None then 1 else 0)"
proof (cases "chain_find t k (unat (h k) mod length (buckets t))")
  case (Some j)
  moreover have "hash t = h" using t by (simp add: for_keys_def)
  moreover have p: "points (unat (h k) mod length (buckets t), j) t"
    "eq (tuple_key (bucket_at (unat (h k) mod length (buckets t), j) t)) k"
    using chain_find_cases [OF t, of k] Some by simp_all
  moreover have "table_map t k \<noteq> None" using table_map_at [OF t p] by simp
  ultimately show ?thesis using t for_keys_buckets [OF t] by (auto simp: Find_insert_def Let_def)
next
  case None
  then have absent: "table_map t k = None" using chain_find_cases [OF t, of k] by simp
  define t' where "t' = Optimize t"
  define i where "i = unat (h k) mod length (buckets t')"
  have ok: "placed (length (buckets t)) (buckets t)" "buckets t \<noteq> []" using t by (auto simp: for_keys_def table_ok_def)
  have o: "for_keys t'" "table_map t' = table_map t" "set (entries t') = set (entries t)" "uniqueKeys t' * 3 div 2 \<le> length (buckets t')"
    "uniqueKeys t' = uniqueKeys t"
    unfolding t'_def using for_keys_Optimize(1,2) [OF t] mset_eq_setD [OF for_keys_Optimize(3) [OF t]]
      Optimize_buckets(4,8) [OF ok] by simp_all
  have i: "i < length (buckets t')" using for_keys_buckets [OF o(1)] by (simp add: i_def)
  have "hash t = h" "compareEqual t = eq" using t by (simp_all add: for_keys_def)
  moreover define n where "n = \<lparr>hashValue = h k, tuple_key = k, tuple_value = v\<rparr>"
  moreover define u where "u = t'\<lparr>buckets := (buckets t')[i := n # buckets t' ! i], uniqueKeys := uniqueKeys t' + 1\<rparr>"
  ultimately have "Find_insert k v t = Some (u, i, 0)"
    using None for_keys_buckets [OF t] by (simp add: Find_insert_def Let_def t'_def [symmetric] i_def [symmetric])
  moreover have "\<forall>b \<in> set (entries t'). \<not> eq (tuple_key b) k"
    using absent \<open>compareEqual t = eq\<close> o(3) by (simp add: table_map_None)
  then have "for_keys u" "table_map u = (\<lambda>l. if eq k l then Some v else table_map t' l)"
    using new_bucket [OF o(1) i i_def _ o(4)] by (auto simp: u_def n_def)
  moreover have "points (i, 0) u" "bucket_at (i, 0) u = n" using i by (simp_all add: points_def bucket_at_def u_def)
  ultimately show ?thesis using absent o(2,5) eq_refl by (auto simp: n_def u_def)
qed

end

lemma distinct_keys_rest:
  "distinct_keys eq (add_mset b M) \<Longrightarrow> eq (tuple_key b) l \<Longrightarrow> c \<in># M \<Longrightarrow> \<not> eq (tuple_key c) l"
proof
  assume d: "distinct_keys eq (add_mset b M)" and b: "eq (tuple_key b) l" and c: "c \<in># M" "eq (tuple_key c) l"
  obtain N where "M = add_mset c N" using c(1) by (metis insert_DiffM)
  moreover have "size (filter_mset (\<lambda>b. eq (tuple_key b) l) (add_mset b M)) \<le> 1" using d by (simp add: distinct_keys_def)
  ultimately show False using b c(2) by simp
qed

lemma distinct_keys_replace:
  "distinct_keys eq (add_mset b B) \<Longrightarrow> tuple_key b' = tuple_key b \<Longrightarrow> distinct_keys eq (add_mset b' B)"
proof -
  assume d: "distinct_keys eq (add_mset b B)" and k: "tuple_key b' = tuple_key b"
  have "size (filter_mset (\<lambda>b. eq (tuple_key b) k) (add_mset b' B)) = size (filter_mset (\<lambda>b. eq (tuple_key b) k) (add_mset b B))" for k
    using k by simp
  then show ?thesis using d unfolding distinct_keys_def by metis
qed

context hash_keys
begin

lemma write_value_spec:
  assumes t: "for_keys t" and p: "points p t"
  shows "for_keys (write_value p v t)"
    and "table_map (write_value p v t) = (\<lambda>l. if eq (tuple_key (bucket_at p t)) l then Some v else table_map t l)"
proof -
  let ?u = "write_value p v t" and ?b = "bucket_at p t" and ?M = "mset (entries t) - {#bucket_at p t#}"
  have m: "mset (entries t) = add_mset ?b ?M" "mset (entries ?u) = add_mset (?b\<lparr>tuple_value := v\<rparr>) ?M"
    using mset_entries_write [OF p, of v] by simp_all
  have s: "set (entries t) = insert ?b (set_mset ?M)" "set (entries ?u) = insert (?b\<lparr>tuple_value := v\<rparr>) (set_mset ?M)"
    by (metis m(1) set_mset_add_mset_insert set_mset_mset) (metis m(2) set_mset_add_mset_insert set_mset_mset)
  have len: "length (entries ?u) = length (entries t)" by (metis m size_add_mset size_mset)
  have f: "hash ?u = hash t" "compareEqual ?u = compareEqual t" "uniqueKeys ?u = uniqueKeys t" "length (buckets ?u) = length (buckets t)"
    by (simp_all add: write_value_def)
  have "hashValue ?b = hash t (tuple_key ?b)" and placed: "placed (length (buckets t)) (buckets t)"
    using t points_entry [OF p] by (auto simp: for_keys_def table_ok_def)
  moreover from this have "placed (length (buckets t)) (buckets ?u)"
  proof -
    have "unat (hashValue b) mod length (buckets t) = i" if "i < length (buckets t)" "b \<in> set (buckets ?u ! i)" for i b
    proof (cases "i = fst p")
      case True
      then have "b = ?b\<lparr>tuple_value := v\<rparr> \<or> b \<in> set (buckets t ! i)" "?b \<in> set (buckets t ! i)"
        using that p set_update_subset_insert [of "buckets t ! i" "snd p" "?b\<lparr>tuple_value := v\<rparr>"]
        by (auto simp: write_value_def points_def bucket_at_def)
      then show ?thesis using placed that(1) by (auto simp: placed_def)
    next
      case False
      then show ?thesis using that placed by (simp add: write_value_def placed_def)
    qed
    then show ?thesis by (simp add: placed_def write_value_def)
  qed
  moreover have d: "distinct_keys eq (mset (entries ?u))"
    using for_keys_distinct [OF t] unfolding m(2) by (subst (asm) m(1)) (erule distinct_keys_replace, simp)
  ultimately show u: "for_keys ?u"
    using t s len f unfolding for_keys_def table_ok_def by (auto simp: write_value_def)
  show "table_map ?u = (\<lambda>l. if eq (tuple_key ?b) l then Some v else table_map t l)"
  proof
    fix l
    have "table_map ?u l = Some w \<longleftrightarrow> (if eq (tuple_key ?b) l then Some v else table_map t l) = Some w" for w
    proof (cases "eq (tuple_key ?b) l")
      case True
      have "\<not> eq (tuple_key b) l" if "b \<in># ?M" for b
        using distinct_keys_rest [of eq ?b ?M l b] for_keys_distinct [OF t] True that unfolding m(1) [symmetric] by blast
      then show ?thesis unfolding for_keys_Some [OF u] s(2) using True by simp
    next
      case False
      then show ?thesis unfolding for_keys_Some [OF u] s(2) using for_keys_Some [OF t, of l w] unfolding s(1) by simp
    qed
    then show "table_map ?u l = (if eq (tuple_key ?b) l then Some v else table_map t l)" by (metis option.exhaust)
  qed
qed

end

subsection \<open>A walk over the table\<close>

lemma next_chain_step:
  assumes "i < length (buckets t)"
  shows "next_chain t i = (if buckets t ! i = [] then next_chain t (Suc i) else (i, Some 0))"
proof -
  have "drop i (buckets t) = buckets t ! i # drop (Suc i) (buckets t)" using assms by (rule Cons_nth_drop_Suc [symmetric])
  then show ?thesis using assms by (auto simp: next_chain_def split: option.splits)
qed

lemma visit_chain:
  assumes "visit t (next_chain t (Suc i)) = Some bs" and "j < length (buckets t ! i)"
  shows "visit t (i, Some j) = Some (drop j (buckets t ! i) @ bs)"
  using assms(2)
proof (induction "length (buckets t ! i) - j" arbitrary: j)
  case (Suc n)
  have d: "drop j (buckets t ! i) = buckets t ! i ! j # drop (Suc j) (buckets t ! i)"
    using Suc.prems by (rule Cons_nth_drop_Suc [symmetric])
  have step: "visit t (i, Some j) = Option.bind (visit t (advance t (i, Some j))) (\<lambda>bs. Some (bucket_at (i, j) t # bs))"
    by (subst visit.simps) simp
  show ?case
  proof (cases "Suc j < length (buckets t ! i)")
    case True
    then have "visit t (i, Some (Suc j)) = Some (drop (Suc j) (buckets t ! i) @ bs)" using Suc by (intro Suc.hyps(1)) simp_all
    then show ?thesis using True by (simp add: step d advance_def bucket_at_def)
  next
    case False
    then show ?thesis using assms(1) by (simp add: step d advance_def bucket_at_def)
  qed
qed simp

lemma visit_from: "visit t (next_chain t i) = Some (concat (drop i (buckets t)))"
proof (induction "length (buckets t) - i" arbitrary: i)
  case 0
  then show ?case by (simp add: next_chain_def visit.simps)
next
  case (Suc n)
  then have i: "i < length (buckets t)" by simp
  have d: "drop i (buckets t) = buckets t ! i # drop (Suc i) (buckets t)" using i by (rule Cons_nth_drop_Suc [symmetric])
  have "visit t (next_chain t (Suc i)) = Some (concat (drop (Suc i) (buckets t)))" using Suc by (intro Suc.hyps(1)) simp
  then show ?case using visit_chain [of t i _ 0] by (simp add: next_chain_step [OF i] d)
qed

lemma visit_table: "visit t (begin_table t) = Some (entries t)"
  using visit_from [of t 0] by (simp add: begin_table_def entries_def)

subsection \<open>Runs of insertions\<close>

fun insert_all :: "('k \<times> 'v) list \<Rightarrow> ('k, 'v) HashTable \<Rightarrow> ('k, 'v) HashTable option" where
  "insert_all [] t = Some t"
| "insert_all ((k, v) # kvs) t = (case Find_insert k v t of None \<Rightarrow> None | Some (t, p) \<Rightarrow> insert_all kvs t)"

definition first_value :: "('k \<Rightarrow> 'k \<Rightarrow> bool) \<Rightarrow> ('k \<times> 'v) list \<Rightarrow> 'k \<Rightarrow> 'v option" where
  "first_value eq kvs k = map_option snd (find (\<lambda>p. eq (fst p) k) kvs)"

context hash_keys
begin

lemma insert_all_spec:
  "for_keys t \<Longrightarrow> \<exists>u. insert_all kvs t = Some u \<and> for_keys u
     \<and> (\<forall>k. table_map u k = (case table_map t k of None \<Rightarrow> first_value eq kvs k | Some v \<Rightarrow> Some v))"
proof (induction kvs arbitrary: t)
  case Nil
  then show ?case by (auto simp: first_value_def split: option.splits)
next
  case (Cons kv kvs)
  obtain k v where kv: "kv = (k, v)" by (cases kv)
  obtain t1 p where t1: "Find_insert k v t = Some (t1, p)" "for_keys t1"
    "table_map t1 = (\<lambda>l. if eq k l \<and> table_map t k = None then Some v else table_map t l)"
    using Find_insert_spec [OF Cons.prems, of k v] by auto
  obtain u where u: "insert_all kvs t1 = Some u" "for_keys u"
    "\<forall>k. table_map u k = (case table_map t1 k of None \<Rightarrow> first_value eq kvs k | Some v \<Rightarrow> Some v)"
    using Cons.IH [OF t1(2)] by blast
  have "table_map t k = table_map t l" if "eq k l" for l
  proof -
    have "eq x k \<longleftrightarrow> eq x l" for x using that eq_trans eq_sym by blast
    then have "table_map t k = Some w \<longleftrightarrow> table_map t l = Some w" for w using for_keys_Some [OF Cons.prems] by simp
    then show ?thesis by (metis option.exhaust)
  qed
  then have "table_map u l = (case table_map t l of None \<Rightarrow> first_value eq (kv # kvs) l | Some v \<Rightarrow> Some v)" for l
    using u(3) t1(3) by (cases "eq k l") (auto simp: first_value_def kv split: option.splits)
  then show ?case using t1(1) u(1,2) by (simp add: kv)
qed

lemma table_map_new: "table_map (new_table eq h n) k = None"
  by (simp add: table_map_def entries_def new_table_def Let_def)

lemma insert_all_new:
  "\<exists>t. insert_all kvs (new_table eq h n) = Some t \<and> for_keys t \<and> table_map t = first_value eq kvs"
  using insert_all_spec [OF for_keys_new, of kvs n] by (auto simp: table_map_new)

end

text \<open>C14. A table is a map, whatever the number of its chains and however often it has grown: after any insertions
  into a new one, a search finds the value that was given first for an equal key and nothing for another key, a walk
  meets as many entries as the table counts, and the chains are at least one and a half times as many as the
  entries but one.\<close>

theorem table_is_map:
  assumes "hash_keys h eq"
  shows "\<exists>t bs. insert_all kvs (new_table eq h n) = Some t
    \<and> (\<forall>k. \<exists>r. Find k t = Some r \<and> map_option (\<lambda>p. tuple_value (bucket_at p t)) r = first_value eq kvs k)
    \<and> visit t (begin_table t) = Some bs \<and> length bs = uniqueKeys t
    \<and> (\<forall>k. length (filter (\<lambda>b. eq (tuple_key b) k) bs) = (if first_value eq kvs k = None then 0 else 1))
    \<and> (uniqueKeys t - 1) * 3 div 2 \<le> length (buckets t)"
proof -
  obtain t where t: "insert_all kvs (new_table eq h n) = Some t" "hash_keys.for_keys h eq t" "table_map t = first_value eq kvs"
    using hash_keys.insert_all_new [OF assms] by blast
  have ok: "table_ok t" "compareEqual t = eq" using t(2) by (simp_all add: hash_keys.for_keys_def [OF assms])
  have "\<exists>r. Find k t = Some r \<and> map_option (\<lambda>p. tuple_value (bucket_at p t)) r = first_value eq kvs k" for k
  proof -
    obtain r where r: "Find k t = Some r" "case r of None \<Rightarrow> table_map t k = None
      | Some p \<Rightarrow> points p t \<and> eq (tuple_key (bucket_at p t)) k \<and> table_map t k = Some (tuple_value (bucket_at p t))"
      using hash_keys.Find_spec [OF assms t(2), of k] by blast
    then show ?thesis unfolding t(3) [symmetric] by (cases r) (auto simp: split_paired_all)
  qed
  moreover have "length (filter (\<lambda>b. eq (tuple_key b) k) (entries t)) = (if first_value eq kvs k = None then 0 else 1)" for k
  proof -
    have "length (filter (\<lambda>b. eq (tuple_key b) k) (entries t)) \<le> 1"
      using hash_keys.for_keys_distinct [OF assms t(2)] by (metis distinct_keys_def mset_filter size_mset)
    moreover have "filter (\<lambda>b. eq (tuple_key b) k) (entries t) = [] \<longleftrightarrow> first_value eq kvs k = None"
      unfolding t(3) [symmetric] table_map_None ok(2) by (simp add: filter_empty_conv)
    ultimately show ?thesis by (auto simp: le_Suc_eq)
  qed
  ultimately show ?thesis using t(1) ok(1) by (auto simp: visit_table table_ok_def)
qed

text \<open>Numbers as keys, two of them in one chain at first.\<close>

lemma number_keys: "hash_keys (\<lambda>k. of_nat k) ((=) :: nat \<Rightarrow> nat \<Rightarrow> bool)"
  by unfold_locales auto

theorem table_is_map_witness:
  "\<exists>t :: (nat, nat) HashTable. insert_all [(1, 10), (2, 20), (1, 30)] (new_table (=) (\<lambda>k. of_nat k) 1) = Some t
     \<and> (\<exists>r. Find 1 t = Some r \<and> map_option (\<lambda>p. tuple_value (bucket_at p t)) r = Some 10) \<and> Find 3 t = Some None"
proof -
  obtain t :: "(nat, nat) HashTable" where t: "insert_all [(1, 10), (2, 20), (1, 30)] (new_table (=) (\<lambda>k. of_nat k) 1) = Some t"
    "\<And>k. \<exists>r. Find k t = Some r \<and> map_option (\<lambda>p. tuple_value (bucket_at p t)) r = first_value (=) [(1, 10), (2, 20), (1, 30)] k"
    using table_is_map [OF number_keys, of "[(1, 10), (2, 20), (1, 30)]" 1] by blast
  have "first_value (=) [(1, 10), (2, 20), (1, 30)] (1 :: nat) = Some (10 :: nat)"
    "first_value (=) [(1, 10), (2, 20), (1, 30)] (3 :: nat) = (None :: nat option)"
    by (simp_all add: first_value_def)
  moreover from this(2) have "Find 3 t = Some None" using t(2) [of 3] by (metis option.map_disc_iff)
  ultimately show ?thesis using t(1) t(2) [of 1] by metis
qed

end
