(* ===== verification/AnchorIndex.thy ===== *)
theory AnchorIndex
  imports HashTable ChunkWriter LineFile
begin

text \<open>
  The anchor index of \<open>src/main_distributed.cpp\<close>: the words of the links to an address, collected in a hash table
  while pages are crawled and written out as text files. A flush takes the table away under its lock and writes it
  without it; when the file cannot be written the words go back. The theorem says that no word is lost or moved
  on this way as long as one flush ends before the next begins, the last lemma that two at once may lose a file.
\<close>

subsection \<open>The keys\<close>

definition anchorKeyEqual :: "string \<Rightarrow> string \<Rightarrow> bool" where
  "anchorKeyEqual a b \<longleftrightarrow> str_eq a b"

definition anchorKeyHash :: "string \<Rightarrow> u64" where
  "anchorKeyHash key = hashString key"

text \<open>Two strings are equal for the program when they have the same size and the same characters up to a NUL.\<close>

lemma compareStrings_prefix:
  "length s = length t \<Longrightarrow>
     compareStrings s t = 0 \<longleftrightarrow> takeWhile (\<lambda>c. code c \<noteq> 0) s = takeWhile (\<lambda>c. code c \<noteq> 0) t"
proof (induction s t rule: compareStrings.induct)
  case (4 a as b bs)
  then show ?case by (cases "code a = 0"; cases "code b = 0"; cases "a = b") auto
qed auto

lemma str_eq_prefix:
  "str_eq s t \<longleftrightarrow> length s = length t \<and> takeWhile (\<lambda>c. code c \<noteq> 0) s = takeWhile (\<lambda>c. code c \<noteq> 0) t"
  using compareStrings_prefix by (auto simp: str_eq_def)

interpretation anchor: hash_keys anchorKeyHash anchorKeyEqual
  by unfold_locales (auto simp: anchorKeyEqual_def anchorKeyHash_def hashString_def str_eq_prefix)

subsection \<open>Collecting words\<close>

record WordPosting =
  p_words :: "string list"
  referring_count :: nat

record WordSnapshot =
  s_url :: string
  s_words :: "string list"
  s_count :: nat

text \<open>Quotes, backslashes and control characters become blanks.\<close>

definition sanitize_char :: "char \<Rightarrow> char" where
  "sanitize_char c =
     (if code c = 9 \<or> code c = 10 \<or> code c = 13 then CHR '' ''
      else let is_ctrl = code c < 32 \<or> code c = 127; is_quote = code c = 34 \<or> code c = 39; is_backslash = code c = 92
           in if is_ctrl \<or> is_quote \<or> is_backslash then CHR '' '' else c)"

definition sanitizeText :: "string \<Rightarrow> string" where
  "sanitizeText s = map sanitize_char s"

record AnchorStore =
  anchorIndex :: "(string, WordPosting) HashTable"
  anchorIndexEdited :: bool
  anchorFlushFileCount :: nat

definition empty_posting :: WordPosting where
  "empty_posting = \<lparr>p_words = [], referring_count = 0\<rparr>"

definition new_anchor_table :: "(string, WordPosting) HashTable" where
  "new_anchor_table = new_table anchorKeyEqual anchorKeyHash INITIAL_BUCKET_COUNT"

definition new_store :: AnchorStore where
  "new_store = \<lparr>anchorIndex = new_anchor_table, anchorIndexEdited = False, anchorFlushFileCount = 0\<rparr>"

text \<open>The words of one record and its count go to the entry of its address.\<close>

definition add_words :: "string \<Rightarrow> string list \<Rightarrow> nat \<Rightarrow> (string, WordPosting) HashTable \<Rightarrow> (string, WordPosting) HashTable option" where
  "add_words url ws n t =
     (case Find_insert url empty_posting t of
        None \<Rightarrow> None
      | Some (t, p) \<Rightarrow>
          let v = tuple_value (bucket_at p t)
          in Some (write_value p (v\<lparr>p_words := p_words v @ ws, referring_count := referring_count v + n\<rparr>) t))"

definition appendAnchorTerms :: "string \<Rightarrow> string list \<Rightarrow> AnchorStore \<Rightarrow> AnchorStore option" where
  "appendAnchorTerms url ws st =
     (if length ws = 0 then Some st
      else case add_words url (map sanitizeText ws) 1 (anchorIndex st) of
             None \<Rightarrow> None
           | Some t \<Rightarrow> Some (st\<lparr>anchorIndex := t, anchorIndexEdited := True\<rparr>))"

subsection \<open>Flushing\<close>

fun restore_records :: "WordSnapshot list \<Rightarrow> (string, WordPosting) HashTable \<Rightarrow> (string, WordPosting) HashTable option" where
  "restore_records [] t = Some t"
| "restore_records (r # snapshot) t =
     (case add_words (s_url r) (s_words r) (s_count r) t of None \<Rightarrow> None | Some t \<Rightarrow> restore_records snapshot t)"

definition restoreWordSnapshot :: "WordSnapshot list \<Rightarrow> AnchorStore \<Rightarrow> AnchorStore option" where
  "restoreWordSnapshot snapshot st =
     (case restore_records snapshot (anchorIndex st) of
        None \<Rightarrow> None
      | Some t \<Rightarrow> Some (st\<lparr>anchorIndex := t, anchorIndexEdited := True\<rparr>))"

definition tab :: char where
  "tab = char_of (9 :: nat)"

definition record_line :: "WordSnapshot \<Rightarrow> string" where
  "record_line r =
     c_str (s_url r) @ [tab] @ show_nat (s_count r) @ [tab] @ show_nat (length (s_words r)) @ [tab]
       @ concat (map (\<lambda>word. c_str word @ '' '') (s_words r)) @ [newline]"

definition snapshot_file :: "WordSnapshot list \<Rightarrow> string" where
  "snapshot_file snapshot =
     ''[HEADER]'' @ [newline] @ ''version=1'' @ [newline] @ ''record_count='' @ show_nat (length snapshot) @ [newline]
       @ ''[Words]'' @ [newline] @ concat (map record_line snapshot)"

text \<open>The first part of a flush, under the lock: the snapshot, when there is something to write.\<close>

definition take_snapshot :: "bool \<Rightarrow> AnchorStore \<Rightarrow> (AnchorStore \<times> WordSnapshot list) option" where
  "take_snapshot force st =
     (if \<not> force \<and> \<not> anchorIndexEdited st then Some (st, [])
      else case visit (anchorIndex st) (begin_table (anchorIndex st)) of
             None \<Rightarrow> None
           | Some bs \<Rightarrow>
               Some (st\<lparr>anchorIndex := new_anchor_table, anchorIndexEdited := False\<rparr>,
                 map (\<lambda>b. \<lparr>s_url = tuple_key b, s_words = p_words (tuple_value b), s_count = referring_count (tuple_value b)\<rparr>) bs))"

definition index_path :: "nat \<Rightarrow> string" where
  "index_path fileCount = ''data/anchor_index/anchor_'' @ show_nat fileCount @ ''.idx''"

text \<open>The second part: the file, or the words back into the table when it cannot be opened or renamed.\<close>

definition flushWordSnapshotToDisk :: "WordSnapshot list \<Rightarrow> nat \<Rightarrow> bool \<Rightarrow> AnchorStore \<Rightarrow> (AnchorStore \<times> (string \<times> string) list \<times> bool) option" where
  "flushWordSnapshotToDisk snapshot fileCount disk_ok st =
     (if length snapshot = 0 then Some (st, [], True)
      else if disk_ok then Some (st, [(index_path fileCount, snapshot_file snapshot)], True)
      else map_option (\<lambda>st. (st, [], False)) (restoreWordSnapshot snapshot st))"

definition write_snapshot :: "WordSnapshot list \<Rightarrow> nat \<Rightarrow> bool \<Rightarrow> AnchorStore \<Rightarrow> (AnchorStore \<times> (string \<times> string) list) option" where
  "write_snapshot snapshot fileCount disk_ok st =
     (case flushWordSnapshotToDisk snapshot fileCount disk_ok st of
        None \<Rightarrow> None
      | Some (st, files, done) \<Rightarrow> Some (if done then st\<lparr>anchorFlushFileCount := anchorFlushFileCount st + 1\<rparr> else st, files))"

definition flushAnchorIndexToDisk :: "bool \<Rightarrow> bool \<Rightarrow> AnchorStore \<Rightarrow> (AnchorStore \<times> (string \<times> string) list) option" where
  "flushAnchorIndexToDisk force disk_ok st =
     (case take_snapshot force st of
        None \<Rightarrow> None
      | Some (st, snapshot) \<Rightarrow>
          if length snapshot = 0 then Some (st, []) else write_snapshot snapshot (anchorFlushFileCount st) disk_ok st)"

subsection \<open>The words of an address\<close>

definition table_words :: "(string, WordPosting) HashTable \<Rightarrow> string \<Rightarrow> string list" where
  "table_words t url = (case table_map t url of None \<Rightarrow> [] | Some v \<Rightarrow> p_words v)"

definition snapshot_words :: "WordSnapshot list \<Rightarrow> string \<Rightarrow> string list" where
  "snapshot_words snapshot url = concat (map s_words (filter (\<lambda>r. anchorKeyEqual (s_url r) url) snapshot))"

lemma anchor_table_new [simp]: "anchor.for_keys new_anchor_table" "table_words new_anchor_table url = []"
  by (simp_all add: new_anchor_table_def anchor.for_keys_new table_words_def)
    (simp add: table_map_def entries_def new_table_def INITIAL_BUCKET_COUNT_def)

lemma table_map_cong:
  assumes "anchor.for_keys t" and "anchorKeyEqual k l"
  shows "table_map t k = table_map t l"
proof -
  have "anchorKeyEqual x k \<longleftrightarrow> anchorKeyEqual x l" for x
    using assms(2) anchor.eq_trans anchor.eq_sym by blast
  then have "table_map t k = Some v \<longleftrightarrow> table_map t l = Some v" for v
    using anchor.for_keys_Some [OF assms(1)] by simp
  then show ?thesis by (metis option.exhaust)
qed

lemma add_words_spec:
  assumes t: "anchor.for_keys t"
  shows "\<exists>t'. add_words url ws n t = Some t' \<and> anchor.for_keys t'
    \<and> (\<forall>u. table_words t' u = table_words t u @ (if anchorKeyEqual url u then ws else []))"
proof -
  obtain t1 p where f: "Find_insert url empty_posting t = Some (t1, p)" "anchor.for_keys t1" "points p t1"
    "anchorKeyEqual (tuple_key (bucket_at p t1)) url"
    "table_map t1 = (\<lambda>l. if anchorKeyEqual url l \<and> table_map t url = None then Some empty_posting else table_map t l)"
    using anchor.Find_insert_spec [OF t, of url empty_posting] by auto
  define v where "v = tuple_value (bucket_at p t1)"
  define v' where "v' = v\<lparr>p_words := p_words v @ ws, referring_count := referring_count v + n\<rparr>"
  have v: "table_map t1 url = Some v" unfolding v_def by (rule anchor.table_map_at [OF f(2-4)])
  have "anchorKeyEqual (tuple_key (bucket_at p t1)) u \<longleftrightarrow> anchorKeyEqual url u" for u
    using f(4) anchor.eq_trans anchor.eq_sym by blast
  then have w: "anchor.for_keys (write_value p v' t1)"
    "table_map (write_value p v' t1) = (\<lambda>l. if anchorKeyEqual url l then Some v' else table_map t1 l)"
    using anchor.write_value_spec [OF f(2,3), of v'] by simp_all
  have old: "p_words v = table_words t url"
    using v by (auto simp: f(5) table_words_def empty_posting_def anchor.eq_refl split: if_splits option.splits)
  have "table_words (write_value p v' t1) u = table_words t u @ (if anchorKeyEqual url u then ws else [])" for u
  proof (cases "anchorKeyEqual url u")
    case True
    then have "table_words t url = table_words t u" using table_map_cong [OF t] by (simp add: table_words_def)
    moreover have "table_words (write_value p v' t1) u = p_words v @ ws" using True by (simp add: table_words_def w(2)) (simp add: v'_def)
    ultimately show ?thesis using True old by simp
  next
    case False
    then show ?thesis by (simp add: table_words_def w(2) f(5))
  qed
  moreover have "add_words url ws n t = Some (write_value p v' t1)"
    by (simp add: add_words_def f(1) v_def [symmetric] v'_def Let_def)
  ultimately show ?thesis using w(1) by blast
qed

lemma restore_spec:
  "anchor.for_keys t \<Longrightarrow> \<exists>t'. restore_records snapshot t = Some t' \<and> anchor.for_keys t'
     \<and> (\<forall>u. table_words t' u = table_words t u @ snapshot_words snapshot u)"
proof (induction snapshot arbitrary: t)
  case (Cons r snapshot)
  obtain t1 where t1: "add_words (s_url r) (s_words r) (s_count r) t = Some t1" "anchor.for_keys t1"
    "\<forall>u. table_words t1 u = table_words t u @ (if anchorKeyEqual (s_url r) u then s_words r else [])"
    using add_words_spec [OF Cons.prems] by blast
  then show ?case using Cons.IH [OF t1(2)] by (fastforce simp: snapshot_words_def)
qed (simp add: snapshot_words_def)

lemma concat_filter_unique:
  "distinct_keys eq (mset bs) \<Longrightarrow>
     concat (map f (filter (\<lambda>b. eq (tuple_key b) k) bs)) = (case find (\<lambda>b. eq (tuple_key b) k) bs of None \<Rightarrow> [] | Some b \<Rightarrow> f b)"
proof (induction bs)
  case (Cons b bs)
  show ?case
  proof (cases "eq (tuple_key b) k")
    case True
    have "\<not> eq (tuple_key c) k" if "c \<in> set bs" for c
      using distinct_keys_rest [of eq b "mset bs" k c] Cons.prems True that by simp
    then have "filter (\<lambda>b. eq (tuple_key b) k) bs = []" by simp
    then show ?thesis using True by simp
  next
    case False
    have "size (filter_mset (\<lambda>b. eq (tuple_key b) l) (mset bs)) \<le> 1" for l
    proof -
      have "filter_mset (\<lambda>b. eq (tuple_key b) l) (mset bs) \<subseteq># filter_mset (\<lambda>b. eq (tuple_key b) l) (mset (b # bs))"
        by (intro multiset_filter_mono) simp
      then show ?thesis using Cons.prems unfolding distinct_keys_def by (meson size_mset_mono le_trans)
    qed
    then have "distinct_keys eq (mset bs)" by (simp add: distinct_keys_def)
    then show ?thesis using Cons.IH False by simp
  qed
qed simp

lemma take_snapshot_spec:
  assumes "anchor.for_keys (anchorIndex st)"
  shows "\<exists>st' snapshot. take_snapshot force st = Some (st', snapshot) \<and> anchor.for_keys (anchorIndex st')
    \<and> (\<forall>u. snapshot_words snapshot u @ table_words (anchorIndex st') u = table_words (anchorIndex st) u)
    \<and> anchorFlushFileCount st' = anchorFlushFileCount st"
proof (cases "\<not> force \<and> \<not> anchorIndexEdited st")
  case True
  then show ?thesis using assms by (simp add: take_snapshot_def snapshot_words_def)
next
  case False
  let ?t = "anchorIndex st"
  let ?s = "map (\<lambda>b. \<lparr>s_url = tuple_key b, s_words = p_words (tuple_value b), s_count = referring_count (tuple_value b)\<rparr>) (entries ?t)"
  have "snapshot_words ?s u = table_words ?t u" for u
    using concat_filter_unique [OF anchor.for_keys_distinct [OF assms], of "p_words \<circ> tuple_value" u] assms
    by (simp add: snapshot_words_def table_words_def table_map_def filter_map comp_def anchor.for_keys_def split: option.splits)
  then show ?thesis using False by (auto simp: take_snapshot_def visit_table)
qed

lemma write_snapshot_spec:
  assumes "anchor.for_keys (anchorIndex st)" and "snapshot \<noteq> []"
  shows "\<exists>st' files. write_snapshot snapshot n disk_ok st = Some (st', files) \<and> anchor.for_keys (anchorIndex st')
    \<and> (if disk_ok then files = [(index_path n, snapshot_file snapshot)] \<and> anchorIndex st' = anchorIndex st
           \<and> anchorFlushFileCount st' = anchorFlushFileCount st + 1
       else files = [] \<and> anchorFlushFileCount st' = anchorFlushFileCount st
         \<and> (\<forall>u. table_words (anchorIndex st') u = table_words (anchorIndex st) u @ snapshot_words snapshot u))"
  using assms restore_spec [OF assms(1), of snapshot]
  by (auto simp: write_snapshot_def flushWordSnapshotToDisk_def restoreWordSnapshot_def)

subsection \<open>A run of the store\<close>

datatype AnchorCall =
    Append string "string list"
  | Flush bool bool

definition anchor_call :: "AnchorCall \<Rightarrow> AnchorStore \<Rightarrow> (AnchorStore \<times> (string \<times> string) list) option" where
  "anchor_call c st =
     (case c of
        Append url ws \<Rightarrow> map_option (\<lambda>st. (st, [])) (appendAnchorTerms url ws st)
      | Flush force disk_ok \<Rightarrow> flushAnchorIndexToDisk force disk_ok st)"

fun anchor_run :: "AnchorCall list \<Rightarrow> AnchorStore \<Rightarrow> (AnchorStore \<times> (string \<times> string) list) option" where
  "anchor_run [] st = Some (st, [])"
| "anchor_run (c # cs) st =
     (case anchor_call c st of
        None \<Rightarrow> None
      | Some (st, files) \<Rightarrow> map_option (\<lambda>(st, files'). (st, files @ files')) (anchor_run cs st))"

fun appended :: "AnchorCall list \<Rightarrow> string \<Rightarrow> string list" where
  "appended [] u = []"
| "appended (Append url ws # cs) u = (if anchorKeyEqual url u then map sanitizeText ws else []) @ appended cs u"
| "appended (Flush force disk_ok # cs) u = appended cs u"

lemma anchor_call_spec:
  assumes "anchor.for_keys (anchorIndex st)"
  shows "\<exists>st' files snaps. anchor_call c st = Some (st', files) \<and> anchor.for_keys (anchorIndex st')
    \<and> map snd files = map snapshot_file snaps
    \<and> map fst files = map index_path [anchorFlushFileCount st ..< anchorFlushFileCount st']
    \<and> anchorFlushFileCount st' = anchorFlushFileCount st + length snaps
    \<and> (\<forall>u. concat (map (\<lambda>s. snapshot_words s u) snaps) @ table_words (anchorIndex st') u
          = table_words (anchorIndex st) u @ appended [c] u)"
proof (cases c)
  case (Append url ws)
  show ?thesis
  proof (cases "ws = []")
    case True
    then show ?thesis using assms Append by (auto simp: anchor_call_def appendAnchorTerms_def intro!: exI [of _ "[]"])
  next
    case False
    then show ?thesis using add_words_spec [OF assms, of url "map sanitizeText ws" 1] Append
      by (fastforce simp: anchor_call_def appendAnchorTerms_def intro!: exI [of _ "[]"])
  qed
next
  case (Flush force disk_ok)
  obtain st1 snapshot where t: "take_snapshot force st = Some (st1, snapshot)" "anchor.for_keys (anchorIndex st1)"
    "\<forall>u. snapshot_words snapshot u @ table_words (anchorIndex st1) u = table_words (anchorIndex st) u"
    "anchorFlushFileCount st1 = anchorFlushFileCount st"
    using take_snapshot_spec [OF assms] by blast
  show ?thesis
  proof (cases "snapshot = []")
    case True
    then show ?thesis using t Flush
      by (auto simp: anchor_call_def flushAnchorIndexToDisk_def snapshot_words_def intro!: exI [of _ "[]"])
  next
    case False
    have empty: "table_words (anchorIndex st1) u = []" for u
      using t(1) False by (auto simp: take_snapshot_def split: if_splits option.splits)
    obtain st2 files where w: "write_snapshot snapshot (anchorFlushFileCount st1) disk_ok st1 = Some (st2, files)"
      "anchor.for_keys (anchorIndex st2)"
      "if disk_ok then files = [(index_path (anchorFlushFileCount st1), snapshot_file snapshot)] \<and> anchorIndex st2 = anchorIndex st1
           \<and> anchorFlushFileCount st2 = anchorFlushFileCount st1 + 1
       else files = [] \<and> anchorFlushFileCount st2 = anchorFlushFileCount st1
         \<and> (\<forall>u. table_words (anchorIndex st2) u = table_words (anchorIndex st1) u @ snapshot_words snapshot u)"
      using write_snapshot_spec [OF t(2) False] by blast
    show ?thesis using False t w Flush empty
      by (auto simp: anchor_call_def flushAnchorIndexToDisk_def split: if_splits
          intro!: exI [of _ "if disk_ok then [snapshot] else []"])
  qed
qed

lemma anchor_run_spec:
  assumes "anchor.for_keys (anchorIndex st)"
  shows "\<exists>st' files snaps. anchor_run cs st = Some (st', files) \<and> anchor.for_keys (anchorIndex st')
    \<and> map snd files = map snapshot_file snaps
    \<and> map fst files = map index_path [anchorFlushFileCount st ..< anchorFlushFileCount st']
    \<and> anchorFlushFileCount st' = anchorFlushFileCount st + length snaps
    \<and> (\<forall>u. concat (map (\<lambda>s. snapshot_words s u) snaps) @ table_words (anchorIndex st') u
          = table_words (anchorIndex st) u @ appended cs u)"
  using assms
proof (induction cs arbitrary: st)
  case Nil
  then show ?case by (auto intro!: exI [of _ "[]"])
next
  case (Cons c cs)
  obtain st1 files1 snaps1 where a: "anchor_call c st = Some (st1, files1)" "anchor.for_keys (anchorIndex st1)"
    "map snd files1 = map snapshot_file snaps1" "map fst files1 = map index_path [anchorFlushFileCount st ..< anchorFlushFileCount st1]"
    "anchorFlushFileCount st1 = anchorFlushFileCount st + length snaps1"
    "\<forall>u. concat (map (\<lambda>s. snapshot_words s u) snaps1) @ table_words (anchorIndex st1) u = table_words (anchorIndex st) u @ appended [c] u"
    using anchor_call_spec [OF Cons.prems] by blast
  obtain st2 files2 snaps2 where b: "anchor_run cs st1 = Some (st2, files2)" "anchor.for_keys (anchorIndex st2)"
    "map snd files2 = map snapshot_file snaps2" "map fst files2 = map index_path [anchorFlushFileCount st1 ..< anchorFlushFileCount st2]"
    "anchorFlushFileCount st2 = anchorFlushFileCount st1 + length snaps2"
    "\<forall>u. concat (map (\<lambda>s. snapshot_words s u) snaps2) @ table_words (anchorIndex st2) u = table_words (anchorIndex st1) u @ appended cs u"
    using Cons.IH [OF a(2)] by blast
  have "appended (c # cs) u = appended [c] u @ appended cs u" for u by (cases c) auto
  then have "concat (map (\<lambda>s. snapshot_words s u) (snaps1 @ snaps2)) @ table_words (anchorIndex st2) u
      = table_words (anchorIndex st) u @ appended (c # cs) u" for u
    using a(6) b(6) by (metis append.assoc concat_append map_append)
  moreover have "[anchorFlushFileCount st ..< anchorFlushFileCount st2]
      = [anchorFlushFileCount st ..< anchorFlushFileCount st1] @ [anchorFlushFileCount st1 ..< anchorFlushFileCount st2]"
    unfolding b(5) by (rule upt_add_eq_append) (simp add: a(5))
  ultimately show ?case using a(1,3-5) b(1-5) by (intro exI [of _ st2] exI [of _ "files1 @ files2"] exI [of _ "snaps1 @ snaps2"]) simp
qed

lemma index_path_inject: "index_path m = index_path n \<longleftrightarrow> m = n"
proof -
  have "show_nat m = show_nat n \<Longrightarrow> m = n" by (metis digits_value_show of_nat_eq_iff)
  then show ?thesis by (auto simp: index_path_def)
qed


text \<open>The number of the next file is read outside of the lock: when a second worker takes its snapshot before the first
  has written its own, both read the same number, and the second file replaces the first one.\<close>

lemma parallel_flushes_one_file:
  assumes "anchor.for_keys (anchorIndex st)" and "table_words (anchorIndex st) u \<noteq> []" and "ws \<noteq> []"
  shows "\<exists>st1 s1 st2 st3 s2 st4 f1 st5 f2. take_snapshot True st = Some (st1, s1) \<and> snapshot_words s1 u = table_words (anchorIndex st) u
    \<and> appendAnchorTerms url ws st1 = Some st2 \<and> take_snapshot False st2 = Some (st3, s2)
    \<and> write_snapshot s1 (anchorFlushFileCount st3) True st3 = Some (st4, f1)
    \<and> write_snapshot s2 (anchorFlushFileCount st3) True st4 = Some (st5, f2)
    \<and> f1 = [(index_path (anchorFlushFileCount st3), snapshot_file s1)] \<and> f2 = [(index_path (anchorFlushFileCount st3), snapshot_file s2)]"
proof -
  obtain st1 s1 where t1: "take_snapshot True st = Some (st1, s1)" "anchor.for_keys (anchorIndex st1)"
    "\<forall>u. snapshot_words s1 u @ table_words (anchorIndex st1) u = table_words (anchorIndex st) u"
    using take_snapshot_spec [OF assms(1)] by blast
  have "anchorIndex st1 = new_anchor_table" using t1(1) by (auto simp: take_snapshot_def visit_table)
  then have w1: "snapshot_words s1 u = table_words (anchorIndex st) u" using t1(3) by (metis anchor_table_new(2) append_Nil2)
  then have s1: "s1 \<noteq> []" using assms(2) by (auto simp: snapshot_words_def)
  obtain t where t: "add_words url (map sanitizeText ws) 1 (anchorIndex st1) = Some t" "anchor.for_keys t"
    "\<forall>u. table_words t u = table_words (anchorIndex st1) u @ (if anchorKeyEqual url u then map sanitizeText ws else [])"
    using add_words_spec [OF t1(2)] by blast
  let ?st2 = "st1\<lparr>anchorIndex := t, anchorIndexEdited := True\<rparr>"
  have a: "appendAnchorTerms url ws st1 = Some ?st2" using assms(3) t(1) by (simp add: appendAnchorTerms_def)
  obtain st3 s2 where t2: "take_snapshot False ?st2 = Some (st3, s2)" "anchor.for_keys (anchorIndex st3)"
    "\<forall>u. snapshot_words s2 u @ table_words (anchorIndex st3) u = table_words t u"
    using take_snapshot_spec [of ?st2 False] t(2) by auto
  have "anchorIndex st3 = new_anchor_table" using t2(1) by (auto simp: take_snapshot_def visit_table)
  then have "snapshot_words s2 url = table_words t url" using t2(3) by (metis anchor_table_new(2) append_Nil2)
  then have s2: "s2 \<noteq> []" using t(3) assms(3) by (auto simp: snapshot_words_def anchor.eq_refl)
  show ?thesis using t1(1) w1 a t2(1) s1 s2
    by (simp add: write_snapshot_def flushWordSnapshotToDisk_def)
qed

end
