(* ===== verification/Peers.thy ===== *)
theory Peers
  imports UrlFilter AnchorIndex BloomFilter UrlFeatures
begin

text \<open>
  The exchange of links between the machines of the crawler, from \<open>src/main_distributed.cpp\<close>: a machine owns the URLs whose
  hash is its number, a link to a URL of another machine is put in the batch for that machine, and a batch travels as one
  frame over a connection. A socket is what \<open>recv\<close> will deliver: segments that the network has cut in any way, interrupted
  calls and failures; the end of the list is the end of the connection.
\<close>

subsection \<open>Frames\<close>

datatype Event =
    Segment char string
  | Interrupted
  | Failure

text \<open>\<open>recv\<close> in a loop, for at most \<open>chunk\<close> characters a call; \<open>None\<close> when the connection fails or ends before all has
  come.\<close>

function recv_loop :: "nat \<Rightarrow> Event list \<Rightarrow> nat \<Rightarrow> (string \<times> Event list) option" where
  "recv_loop chunk evs 0 = Some ([], evs)"
| "recv_loop chunk [] (Suc n) = None"
| "recv_loop chunk (Failure # evs) (Suc n) = None"
| "recv_loop chunk (Interrupted # evs) (Suc n) = recv_loop chunk evs (Suc n)"
| "recv_loop chunk (Segment c cs # evs) (Suc n) =
     (let received = take (min (Suc n) (max 1 chunk)) (c # cs); left = drop (length received) (c # cs)
      in map_option (\<lambda>(s, rest). (received @ s, rest))
           (recv_loop chunk (case left of [] \<Rightarrow> evs | d # ds \<Rightarrow> Segment d ds # evs) (Suc n - length received)))"
  by pat_completeness auto
termination
  by (relation "measures [\<lambda>(chunk, evs, n). n, \<lambda>(chunk, evs, n). length evs]") (auto simp: Let_def min_def max_def split: list.splits)

declare recv_loop.simps(5) [simp del]

text \<open>The size of the payload, the highest byte first.\<close>

fun header_loop :: "nat \<Rightarrow> u64 \<Rightarrow> string" where
  "header_loop 0 v = []"
| "header_loop (Suc i) v = header_loop i (drop_bit 8 v) @ [char_of (unat (v AND 0xFF))]"

definition sendFrame :: "string \<Rightarrow> string" where
  "sendFrame payload = header_loop 8 (of_nat (length payload)) @ payload"

definition frame_bytes :: "string \<Rightarrow> u64" where
  "frame_bytes header = fold (\<lambda>c v. push_bit 8 v OR of_nat (code c)) header 0"

definition recvFrame :: "Event list \<Rightarrow> (string \<times> Event list) option" where
  "recvFrame evs =
     (case recv_loop 8 evs 8 of
        None \<Rightarrow> None
      | Some (header, evs') \<Rightarrow> recv_loop 4096 evs' (unat (frame_bytes header)))"

subsection \<open>Batches\<close>

record RoutedLink =
  r_url :: string
  r_anchor :: "string list"
  r_seed :: nat

text \<open>The text before the first \<open>c\<close>, and the text behind it when there is one.\<close>

definition cut :: "char \<Rightarrow> string \<Rightarrow> string \<times> string option" where
  "cut c s = (case find_char c s of None \<Rightarrow> (s, None) | Some i \<Rightarrow> (take i s, Some (drop (i + 1) s)))"

lemma cut_simps [simp]: "c \<notin> set a \<Longrightarrow> cut c (a @ c # b) = (a, Some b)" "c \<notin> set a \<Longrightarrow> cut c a = (a, None)"
proof -
  assume a: "c \<notin> set a"
  show "cut c (a @ c # b) = (a, Some b)" using a by (simp add: cut_def find_char_append)
  have "find_char c a = None" using a by (auto simp: find_char_def find_if_None)
  then show "cut c a = (a, None)" by (simp add: cut_def)
qed

lemma length_cut: "cut c s = (a, Some b) \<Longrightarrow> length b < length s"
  by (auto simp: cut_def dest: find_char_Some split: option.splits)

definition routed_line :: "RoutedLink \<Rightarrow> string" where
  "routed_line l = r_url l @ [tab] @ show_nat (r_seed l) @ concat (map (\<lambda>word. tab # word) (r_anchor l)) @ [newline]"

definition batch_payload :: "RoutedLink list \<Rightarrow> string" where
  "batch_payload batch = concat (map routed_line batch)"

text \<open>\<open>strtoul\<close> with base 10: white space, a sign, digits; a value that is too large becomes the largest one.\<close>

definition parseSizeField :: "string \<Rightarrow> nat option" where
  "parseSizeField raw =
     (if raw = [] then None
      else let s = dropWhile isSpace (c_str raw);
               negative = s \<noteq> [] \<and> hd s = CHR ''-'';
               s = (if s \<noteq> [] \<and> hd s \<in> {CHR ''-'', CHR ''+''} then tl s else s);
               digits = takeWhile isAsciiDigit s;
               v = nat (digits_value digits)
           in if digits = [] \<or> dropWhile isAsciiDigit s \<noteq> [] then None
              else if v \<ge> 2 ^ 64 then Some (2 ^ 64 - 1)
              else Some (if negative then unat (- of_nat v :: u64) else v))"

function received_lines :: "string \<Rightarrow> string list" where
  "received_lines payload =
     (if payload = [] then []
      else case cut newline payload of
             (line, None) \<Rightarrow> [line]
           | (line, Some rest) \<Rightarrow> line # received_lines rest)"
  by pat_completeness auto
termination by (relation "measure length") (auto dest: length_cut [OF sym])

declare received_lines.simps [simp del]

text \<open>The fields behind a tab, without the empty ones.\<close>

function anchor_fields :: "string option \<Rightarrow> string list" where
  "anchor_fields None = []"
| "anchor_fields (Some s) = (let (field, rest) = cut tab s in (if field \<noteq> [] then [field] else []) @ anchor_fields rest)"
  by pat_completeness auto
termination
  by (relation "measure (\<lambda>s. case s of None \<Rightarrow> 0 | Some s \<Rightarrow> Suc (length s))")
    (auto dest: length_cut [OF sym] split: option.splits)

declare anchor_fields.simps(2) [simp del]

text \<open>The URL, the words and the distance of a line. A second field that is no number is a word.\<close>

definition parse_line :: "string \<Rightarrow> string \<times> string list \<times> nat" where
  "parse_line line =
     (case cut tab line of
        (rawUrl, None) \<Rightarrow> (rawUrl, [], 0)
      | (rawUrl, Some rest) \<Rightarrow>
          (case parseSizeField (fst (cut tab rest)) of
             Some d \<Rightarrow> (rawUrl, anchor_fields (snd (cut tab rest)), d)
           | None \<Rightarrow> (rawUrl, anchor_fields (Some rest), 0)))"

subsection \<open>A frame arrives as it was sent\<close>

definition event_text :: "Event \<Rightarrow> string" where
  "event_text e = (case e of Segment c cs \<Rightarrow> c # cs | _ \<Rightarrow> [])"

definition delivers :: "Event list \<Rightarrow> string \<Rightarrow> bool" where
  "delivers evs s \<longleftrightarrow> Failure \<notin> set evs \<and> concat (map event_text evs) = s"

lemma recv_loop_delivers:
  "delivers evs (a @ b) \<Longrightarrow> length a = n \<Longrightarrow> \<exists>evs'. recv_loop chunk evs n = Some (a, evs') \<and> delivers evs' b"
proof (induction chunk evs n arbitrary: a rule: recv_loop.induct)
  case (5 chunk c cs evs n)
  define received where "received = take (min (Suc n) (max 1 chunk)) (c # cs)"
  define left where "left = drop (length received) (c # cs)"
  define evs' where "evs' = (case left of [] \<Rightarrow> evs | d # ds \<Rightarrow> Segment d ds # evs)"
  have split: "c # cs = received @ left" by (simp add: received_def left_def min_def)
  have "length received \<le> Suc n" by (simp add: received_def)
  moreover have s: "received @ left @ concat (map event_text evs) = a @ b" "Failure \<notin> set evs"
    using 5(2) split by (simp_all add: delivers_def event_text_def)
  moreover have "delivers evs' (left @ concat (map event_text evs))"
    using s(2) by (auto simp: evs'_def delivers_def event_text_def split: list.splits)
  moreover obtain a' where a': "a = received @ a'"
    using s(1) \<open>length received \<le> Suc n\<close> 5(3) by (metis append_eq_append_conv_if append_take_drop_id)
  ultimately have "delivers evs' (a' @ b)" "length a' = Suc n - length received" using 5(3) by auto
  then obtain e where "recv_loop chunk evs' (Suc n - length received) = Some (a', e)" "delivers e b"
    using 5(1) [OF received_def left_def, folded evs'_def] by blast
  moreover have "recv_loop chunk (Segment c cs # evs) (Suc n)
      = map_option (\<lambda>(s, rest). (received @ s, rest)) (recv_loop chunk evs' (Suc n - length received))"
    unfolding received_def left_def evs'_def by (subst recv_loop.simps(5)) (simp only: Let_def)
  ultimately show ?case using a' by simp
qed (auto simp: delivers_def event_text_def)

lemma code_byte: "(of_nat (code (char_of (unat (v AND 0xFF :: u64)))) :: u64) = v AND 0xFF"
proof -
  have m: "v AND 0xFF = take_bit 8 v" by (simp add: take_bit_eq_mask mask_eq_exp_minus_1)
  have "unat (take_bit 8 v) = take_bit 8 (unat v)" by (rule unsigned_take_bit_eq)
  moreover have "take_bit 8 (unat v) < 2 ^ 8" by (rule take_bit_nat_less_exp)
  ultimately have "unat (v AND 0xFF) < 256" unfolding m by simp
  then show ?thesis by simp
qed

lemma length_header [simp]: "length (header_loop k v) = k"
  by (induction k arbitrary: v) simp_all

lemma take_bit_step: "push_bit 8 (take_bit k (drop_bit 8 v)) OR (v AND 0xFF) = take_bit (k + 8) (v :: u64)"
proof -
  have m: "v AND 0xFF = take_bit 8 v" by (simp add: take_bit_eq_mask mask_eq_exp_minus_1)
  show ?thesis unfolding m
    by (rule bit_word_eqI) (auto simp: bit_or_iff bit_push_bit_iff bit_take_bit_iff bit_drop_bit_eq)
qed

lemma frame_bytes_header: "frame_bytes (header_loop k v) = take_bit (8 * k) v"
proof (induction k arbitrary: v)
  case (Suc k)
  have "frame_bytes (header_loop (Suc k) v) = push_bit 8 (frame_bytes (header_loop k (drop_bit 8 v))) OR (v AND 0xFF)"
    by (simp only: frame_bytes_def header_loop.simps fold_append fold.simps comp_apply id_apply code_byte)
  also have "\<dots> = take_bit (8 * Suc k) v"
    unfolding Suc.IH take_bit_step by (simp add: add.commute)
  finally show ?case .
qed (simp add: frame_bytes_def)

text \<open>C0. A frame is received as it was sent, however the network cuts it into segments and joins it with what
  follows, and however often the calls are interrupted; what follows it is left for the next call.\<close>

theorem frame_received:
  assumes "delivers evs (sendFrame payload @ rest)" and "length payload < 2 ^ 64"
  shows "\<exists>evs'. recvFrame evs = Some (payload, evs') \<and> delivers evs' rest"
proof -
  let ?h = "header_loop 8 (of_nat (length payload))"
  obtain evs1 where 1: "recv_loop 8 evs 8 = Some (?h, evs1)" "delivers evs1 (payload @ rest)"
    using recv_loop_delivers [of evs ?h "payload @ rest" 8 8] assms(1) by (auto simp: sendFrame_def)
  have "unat (frame_bytes ?h) = length payload"
    using assms(2) by (simp add: frame_bytes_header unat_of_nat take_bit_word_eq_self)
  then show ?thesis using recv_loop_delivers [OF 1(2), of "length payload" 4096] 1(1) by (simp add: recvFrame_def)
qed

lemma header_small: "header_loop k 0 = replicate k (char_of (0 :: nat))" "header_loop (Suc k) 2 = replicate k (char_of (0 :: nat)) @ [char_of (2 :: nat)]"
proof -
  show zero: "header_loop k 0 = replicate k (char_of (0 :: nat))" for k
    by (induction k) (simp_all add: replicate_append_same)
  have "drop_bit 8 (2 :: u64) = 0" by (simp add: drop_bit_eq_div word_div_def)
  then show "header_loop (Suc k) 2 = replicate k (char_of (0 :: nat)) @ [char_of (2 :: nat)]" by (simp add: zero)
qed

theorem frame_received_witness:
  "\<exists>evs'. recvFrame [Segment (char_of (0 :: nat)) (replicate 5 (char_of (0 :: nat))), Interrupted,
       Segment (char_of (0 :: nat)) [char_of (2 :: nat), CHR ''o''], Segment (CHR ''k'') ''!''] = Some (''ok'', evs')
     \<and> delivers evs' ''!''"
proof -
  define z where "z = char_of (0 :: nat)"
  define two where "two = char_of (2 :: nat)"
  have "sendFrame ''ok'' = replicate 7 z @ [two] @ ''ok''"
    using header_small(2) [of 7] by (simp add: sendFrame_def z_def [symmetric] two_def [symmetric])
  also have "replicate 7 z = z # replicate 5 z @ [z]" by (simp add: numeral_eq_Suc)
  finally have "delivers [Segment z (replicate 5 z), Interrupted, Segment z [two, CHR ''o''], Segment (CHR ''k'') ''!'']
      (sendFrame ''ok'' @ ''!'')" by (simp add: delivers_def event_text_def)
  then show ?thesis unfolding z_def two_def by (rule frame_received) simp
qed

subsection \<open>A batch is read as it was written\<close>

definition plain_field :: "string \<Rightarrow> bool" where
  "plain_field s \<longleftrightarrow> tab \<notin> set s \<and> newline \<notin> set s"

definition good_link :: "RoutedLink \<Rightarrow> bool" where
  "good_link l \<longleftrightarrow> plain_field (r_url l) \<and> list_all plain_field (r_anchor l) \<and> r_seed l < 2 ^ 64"

lemma tab_newline: "tab \<noteq> newline"
  by (simp add: tab_def newline_def)

lemma digit_facts: "isAsciiDigit c \<Longrightarrow> \<not> isSpace c \<and> c \<noteq> CHR ''-'' \<and> c \<noteq> CHR ''+'' \<and> c \<noteq> nul \<and> c \<noteq> tab \<and> c \<noteq> newline"
  by (auto simp: isAsciiDigit_def isSpace_def code_def nul_def tab_def newline_def)

lemma plain_digits: "plain_field (show_nat n)"
  using show_nat_digits digit_facts by (metis plain_field_def)

lemma parseSizeField_show [simp]: "d < 2 ^ 64 \<Longrightarrow> parseSizeField (show_nat d) = Some d"
proof -
  assume d: "d < 2 ^ 64"
  have all: "\<forall>c \<in> set (show_nat d). isAsciiDigit c" using show_nat_digits by blast
  obtain x xs where x: "show_nat d = x # xs" using show_nat_ne by (cases "show_nat d") auto
  then have xd: "\<not> isSpace x" "x \<noteq> CHR ''-''" "x \<noteq> CHR ''+''" using all digit_facts [of x] by auto
  have "c_str (show_nat d) = show_nat d" unfolding c_str_def takeWhile_eq_all_conv using all digit_facts by blast
  moreover have "dropWhile isSpace (show_nat d) = show_nat d" using x xd(1) by simp
  moreover have tw: "takeWhile isAsciiDigit (show_nat d) = show_nat d" unfolding takeWhile_eq_all_conv using all by blast
  moreover have dw: "dropWhile isAsciiDigit (show_nat d) = []" unfolding dropWhile_eq_Nil_conv using all by blast
  moreover have "hd (show_nat d) \<noteq> CHR ''-''" "hd (show_nat d) \<noteq> CHR ''+''" using x xd by simp_all
  ultimately show ?thesis using d all by (simp add: parseSizeField_def Let_def tw dw)
qed

lemma anchor_fields_words:
  "list_all (\<lambda>w. tab \<notin> set w) ws \<Longrightarrow>
     anchor_fields (case concat (map (\<lambda>word. tab # word) ws) of [] \<Rightarrow> None | c # s \<Rightarrow> Some s) = filter (\<lambda>w. w \<noteq> []) ws"
proof (induction ws)
  case (Cons w ws)
  let ?rest = "concat (map (\<lambda>word. tab # word) ws)"
  have w: "tab \<notin> set w" using Cons.prems by simp
  have "cut tab (w @ ?rest) = (w, case ?rest of [] \<Rightarrow> None | c # s \<Rightarrow> Some s)"
    using w by (cases ws) simp_all
  then have "anchor_fields (Some (w @ ?rest)) = (if w \<noteq> [] then [w] else []) @ filter (\<lambda>w. w \<noteq> []) ws"
    using Cons by (simp add: anchor_fields.simps(2))
  then show ?case by simp
qed simp

definition routed_fields :: "RoutedLink \<Rightarrow> string" where
  "routed_fields l = r_url l @ tab # show_nat (r_seed l) @ concat (map (\<lambda>word. tab # word) (r_anchor l))"

lemma parse_routed:
  assumes "good_link l"
  shows "parse_line (routed_fields l) = (r_url l, filter (\<lambda>w. w \<noteq> []) (r_anchor l), r_seed l)"
proof -
  let ?rest = "concat (map (\<lambda>word. tab # word) (r_anchor l))"
  have n: "tab \<notin> set (show_nat (r_seed l))" using plain_digits by (simp add: plain_field_def)
  have "cut tab (show_nat (r_seed l) @ ?rest) = (show_nat (r_seed l), case ?rest of [] \<Rightarrow> None | c # s \<Rightarrow> Some s)"
    using n by (cases "r_anchor l") simp_all
  moreover have "list_all (\<lambda>w. tab \<notin> set w) (r_anchor l)"
    using assms by (auto simp: good_link_def plain_field_def list_all_iff)
  moreover have "tab \<notin> set (r_url l)" "r_seed l < 2 ^ 64" using assms by (simp_all add: good_link_def plain_field_def)
  ultimately show ?thesis by (simp add: parse_line_def routed_fields_def anchor_fields_words)
qed

lemma received_lines_cons:
  "newline \<notin> set line \<Longrightarrow> received_lines (line @ newline # rest) = line # received_lines rest"
  by (subst received_lines.simps) simp

lemma routed_no_newline: "good_link l \<Longrightarrow> newline \<notin> set (routed_fields l)"
  using tab_newline plain_digits by (auto simp: good_link_def plain_field_def routed_fields_def list_all_iff)

lemma received_batch: "list_all good_link batch \<Longrightarrow> received_lines (batch_payload batch) = map routed_fields batch"
proof (induction batch)
  case (Cons l batch)
  have "batch_payload (l # batch) = routed_fields l @ newline # batch_payload batch"
    by (simp add: batch_payload_def routed_line_def routed_fields_def)
  then show ?case using Cons routed_no_newline by (simp add: received_lines_cons)
qed (simp add: batch_payload_def received_lines.simps)

subsection \<open>The handshake\<close>

definition handshake_prefix :: string where
  "handshake_prefix = ''machine_id'' @ [tab]"

definition buildHandshakePayload :: "nat \<Rightarrow> string" where
  "buildHandshakePayload machine = handshake_prefix @ show_nat machine @ [newline]"

text \<open>\<open>pop_back\<close> of a character at the end.\<close>

definition pop_char :: "char \<Rightarrow> string \<Rightarrow> string" where
  "pop_char c s = (if s \<noteq> [] \<and> last s = c then butlast s else s)"

definition parseHandshakePeerIndex :: "nat \<Rightarrow> nat \<Rightarrow> string \<Rightarrow> nat option" where
  "parseHandshakePeerIndex machines machine payload =
     (if length payload \<le> length handshake_prefix \<or> \<not> str_eq (take (length handshake_prefix) payload) handshake_prefix then None
      else let raw = pop_char (char_of (13 :: nat)) (pop_char newline (drop (length handshake_prefix) payload))
           in case parseSizeField raw of
                None \<Rightarrow> None
              | Some peerIndex \<Rightarrow> if peerIndex \<ge> machines \<or> peerIndex = machine then None else Some peerIndex)"

text \<open>C0. The handshake of a machine is accepted by another one under its number; a machine that is not among the
  peers, or has the number of the receiver, is refused.\<close>

theorem handshake_accepted:
  "sender < 2 ^ 64 \<Longrightarrow> parseHandshakePeerIndex machines receiver (buildHandshakePayload sender)
     = (if sender < machines \<and> sender \<noteq> receiver then Some sender else None)"
proof -
  assume s: "sender < 2 ^ 64"
  have "isAsciiDigit (last (show_nat sender))" using show_nat_digits [of _ sender] by simp
  then have "last (show_nat sender) \<noteq> char_of (13 :: nat)" by (auto simp: isAsciiDigit_def)
  then have "pop_char (char_of (13 :: nat)) (pop_char newline (show_nat sender @ [newline])) = show_nat sender"
    by (simp add: pop_char_def)
  moreover have "str_eq handshake_prefix handshake_prefix" by (simp add: str_eq_def)
  ultimately show ?thesis using s by (simp add: parseHandshakePeerIndex_def buildHandshakePayload_def)
qed

theorem handshake_accepted_witness:
  "parseHandshakePeerIndex 3 0 (buildHandshakePayload 2) = Some 2 \<and> parseHandshakePeerIndex 3 0 (buildHandshakePayload 7) = None"
  using handshake_accepted [of 2 3 0] handshake_accepted [of 7 3 0] by simp

subsection \<open>Who takes a link\<close>

definition owner :: "nat \<Rightarrow> string \<Rightarrow> nat" where
  "owner machines url = unat (hashString url) mod machines"

definition shouldOwnUrl :: "nat \<Rightarrow> nat \<Rightarrow> string \<Rightarrow> bool" where
  "shouldOwnUrl machines machine url = (if machines \<le> 1 then True else owner machines url = machine)"

text \<open>A URL that belongs to the machine: its words, and an item when the filter has not seen it.\<close>

definition take_link :: "key_hash \<Rightarrow> string \<Rightarrow> string list \<Rightarrow> FrontierItem \<Rightarrow> AnchorStore \<times> UrlBloomFilter
    \<Rightarrow> ((AnchorStore \<times> UrlBloomFilter) \<times> FrontierItem list) option" where
  "take_link kh canonicalOut anchorWords item = (\<lambda>(st, bloom).
     case appendAnchorTerms canonicalOut anchorWords st of
       None \<Rightarrow> None
     | Some st' \<Rightarrow>
         (case checkAndInsert kh bloom canonicalOut of
            None \<Rightarrow> None
          | Some (fresh, bloom') \<Rightarrow> Some ((st', bloom'), if fresh then [item] else [])))"

text \<open>The links of a page: \<open>batches\<close> has one list for each machine.\<close>

definition route_link :: "key_hash \<Rightarrow> UrlFilter \<Rightarrow> nat \<Rightarrow> nat \<Rightarrow> FrontierItem \<Rightarrow> string \<Rightarrow> Link
    \<Rightarrow> (AnchorStore \<times> UrlBloomFilter) \<times> RoutedLink list list
    \<Rightarrow> (((AnchorStore \<times> UrlBloomFilter) \<times> RoutedLink list list) \<times> FrontierItem list) option" where
  "route_link kh urlFilter machines machine item pageBase l = (\<lambda>(seen, batches).
     case passesUrlQualityChecks (absolutizeUrl (link_url l) (link item) pageBase) of
       None \<Rightarrow> Some ((seen, batches), [])
     | Some canonicalOut \<Rightarrow>
         if \<not> isAllowed urlFilter canonicalOut then Some ((seen, batches), [])
         else let destination = owner machines canonicalOut
              in if destination \<noteq> machine
                 then (let routed = \<lparr>r_url = canonicalOut, r_anchor = anchorText l, r_seed = seedDistance item + 1\<rparr>
                       in Some ((seen, batches[destination := batches ! destination @ [routed]]), []))
                 else (case take_link kh canonicalOut (anchorText l) (child_item canonicalOut item) seen of
                         None \<Rightarrow> None
                       | Some (seen', found) \<Rightarrow> Some ((seen', batches), found)))"

fun route_links :: "key_hash \<Rightarrow> UrlFilter \<Rightarrow> nat \<Rightarrow> nat \<Rightarrow> FrontierItem \<Rightarrow> string \<Rightarrow> Link list
    \<Rightarrow> (AnchorStore \<times> UrlBloomFilter) \<times> RoutedLink list list
    \<Rightarrow> (((AnchorStore \<times> UrlBloomFilter) \<times> RoutedLink list list) \<times> FrontierItem list) option" where
  "route_links kh urlFilter machines machine item pageBase [] s = Some (s, [])"
| "route_links kh urlFilter machines machine item pageBase (l # ls) s =
     (case route_link kh urlFilter machines machine item pageBase l s of
        None \<Rightarrow> None
      | Some (s', found) \<Rightarrow>
          map_option (\<lambda>(s'', more). (s'', found @ more)) (route_links kh urlFilter machines machine item pageBase ls s'))"

definition process_line :: "key_hash \<Rightarrow> UrlFilter \<Rightarrow> nat \<Rightarrow> nat \<Rightarrow> string \<Rightarrow> AnchorStore \<times> UrlBloomFilter
    \<Rightarrow> ((AnchorStore \<times> UrlBloomFilter) \<times> FrontierItem list) option" where
  "process_line kh urlFilter machines machine line seen =
     (let (rawUrl, anchorWords, receivedSeedDistance) = parse_line line
      in case passesUrlQualityChecks rawUrl of
           None \<Rightarrow> Some (seen, [])
         | Some canonicalOut \<Rightarrow>
             if isAllowed urlFilter canonicalOut \<and> shouldOwnUrl machines machine canonicalOut
             then take_link kh canonicalOut anchorWords (withSeedDistance canonicalOut receivedSeedDistance) seen
             else Some (seen, []))"

fun process_lines :: "key_hash \<Rightarrow> UrlFilter \<Rightarrow> nat \<Rightarrow> nat \<Rightarrow> string list \<Rightarrow> AnchorStore \<times> UrlBloomFilter
    \<Rightarrow> ((AnchorStore \<times> UrlBloomFilter) \<times> FrontierItem list) option" where
  "process_lines kh urlFilter machines machine [] seen = Some (seen, [])"
| "process_lines kh urlFilter machines machine (line # ls) seen =
     (if line = [] then process_lines kh urlFilter machines machine ls seen
      else case process_line kh urlFilter machines machine line seen of
             None \<Rightarrow> None
           | Some (seen', found) \<Rightarrow> map_option (\<lambda>(s, more). (s, found @ more)) (process_lines kh urlFilter machines machine ls seen'))"

text \<open>The items go to \<open>pushMany\<close>.\<close>

definition processReceivedBatch :: "key_hash \<Rightarrow> UrlFilter \<Rightarrow> nat \<Rightarrow> nat \<Rightarrow> string \<Rightarrow> AnchorStore \<times> UrlBloomFilter
    \<Rightarrow> ((AnchorStore \<times> UrlBloomFilter) \<times> FrontierItem list) option" where
  "processReceivedBatch kh urlFilter machines machine payload seen =
     (if payload = [] then Some (seen, []) else process_lines kh urlFilter machines machine (received_lines payload) seen)"

subsection \<open>A link has the same effect wherever it is found\<close>

definition link_target :: "UrlFilter \<Rightarrow> FrontierItem \<Rightarrow> string \<Rightarrow> Link \<Rightarrow> string option" where
  "link_target urlFilter item pageBase l =
     (case passesUrlQualityChecks (absolutizeUrl (link_url l) (link item) pageBase) of
        None \<Rightarrow> None
      | Some c \<Rightarrow> if isAllowed urlFilter c then Some c else None)"

definition sent_to :: "UrlFilter \<Rightarrow> nat \<Rightarrow> nat \<Rightarrow> FrontierItem \<Rightarrow> string \<Rightarrow> Link \<Rightarrow> RoutedLink option" where
  "sent_to urlFilter machines b item pageBase l =
     (case link_target urlFilter item pageBase l of
        None \<Rightarrow> None
      | Some c \<Rightarrow> if owner machines c = b then Some \<lparr>r_url = c, r_anchor = anchorText l, r_seed = seedDistance item + 1\<rparr> else None)"

definition routable :: "UrlFilter \<Rightarrow> FrontierItem \<Rightarrow> string \<Rightarrow> Link \<Rightarrow> bool" where
  "routable urlFilter item pageBase l \<longleftrightarrow>
     list_all (\<lambda>w. w \<noteq> [] \<and> plain_field w) (anchorText l)
     \<and> (case link_target urlFilter item pageBase l of
          None \<Rightarrow> True
        | Some c \<Rightarrow> plain_field c \<and> passesUrlQualityChecks c = Some c)"

lemma route_link_target:
  "route_link kh urlFilter machines machine item pageBase l (seen, bs) =
     (case link_target urlFilter item pageBase l of
        None \<Rightarrow> Some ((seen, bs), [])
      | Some c \<Rightarrow>
          if owner machines c \<noteq> machine
          then Some ((seen, bs[owner machines c := bs ! owner machines c
                 @ [\<lparr>r_url = c, r_anchor = anchorText l, r_seed = seedDistance item + 1\<rparr>]]), [])
          else map_option (\<lambda>(seen', found). ((seen', bs), found)) (take_link kh c (anchorText l) (child_item c item) seen))"
  by (auto simp: route_link_def link_target_def Let_def split: option.splits)

lemma route_batches:
  assumes "route_links kh urlFilter machines a item pageBase ls (seen, bs) = Some ((seen', bs'), found)"
    and "b \<noteq> a" and "b < length bs"
  shows "bs' ! b = bs ! b @ List.map_filter (sent_to urlFilter machines b item pageBase) ls \<and> length bs' = length bs"
  using assms
proof (induction ls arbitrary: seen bs found)
  case Nil
  then show ?case by (simp add: map_filter_simps)
next
  case (Cons l ls)
  obtain seen1 bs1 found1 where l: "route_link kh urlFilter machines a item pageBase l (seen, bs) = Some ((seen1, bs1), found1)"
    using Cons.prems(1) by (auto split: option.splits)
  have "length bs1 = length bs \<and> bs1 ! b = bs ! b @ (case sent_to urlFilter machines b item pageBase l of None \<Rightarrow> [] | Some r \<Rightarrow> [r])"
    using l Cons.prems(2,3) by (auto simp: route_link_target sent_to_def nth_list_update split: option.splits if_splits)
  moreover obtain found2 where "route_links kh urlFilter machines a item pageBase ls (seen1, bs1) = Some ((seen', bs'), found2)"
    using Cons.prems(1) l by auto
  ultimately show ?case using Cons.IH [of seen1 bs1 found2] Cons.prems(2,3)
    by (auto simp: map_filter_simps split: option.splits)
qed

lemma process_routed:
  assumes "routable urlFilter item pageBase l" and "sent_to urlFilter machines b item pageBase l = Some r" and "seedDistance item + 1 < 2 ^ 64"
  shows "good_link r" and "routed_fields r \<noteq> []"
    and "map_option (\<lambda>(s, found). ((s, bs), found)) (process_line kh urlFilter machines b (routed_fields r) seen)
      = route_link kh urlFilter machines b item pageBase l (seen, bs)"
proof -
  obtain c where c: "link_target urlFilter item pageBase l = Some c" "owner machines c = b"
    "r = \<lparr>r_url = c, r_anchor = anchorText l, r_seed = seedDistance item + 1\<rparr>"
    using assms(2) by (auto simp: sent_to_def split: option.splits if_splits)
  have words: "list_all (\<lambda>w. w \<noteq> [] \<and> plain_field w) (anchorText l)" and url: "plain_field c" "passesUrlQualityChecks c = Some c"
    using assms(1) c(1) by (simp_all add: routable_def)
  show good: "good_link r" using words url(1) assms(3) by (auto simp: good_link_def c(3) list_all_iff)
  show "routed_fields r \<noteq> []" by (simp add: routed_fields_def)
  have "filter (\<lambda>w. w \<noteq> []) (anchorText l) = anchorText l" using words by (simp add: filter_id_conv list_all_iff)
  then have "parse_line (routed_fields r) = (c, anchorText l, seedDistance item + 1)" using parse_routed [OF good] by (simp add: c(3))
  moreover have "isAllowed urlFilter c" using c(1) by (auto simp: link_target_def split: option.splits if_splits)
  moreover have "withSeedDistance c (seedDistance item + 1) = child_item c item" by (simp add: withSeedDistance_def child_item_def)
  ultimately show "map_option (\<lambda>(s, found). ((s, bs), found)) (process_line kh urlFilter machines b (routed_fields r) seen)
      = route_link kh urlFilter machines b item pageBase l (seen, bs)"
    using url(2) c(1,2) by (simp add: process_line_def route_link_target shouldOwnUrl_def)
qed

lemma process_routed_all:
  assumes "list_all (routable urlFilter item pageBase) ls" and "seedDistance item + 1 < 2 ^ 64"
  shows "process_lines kh urlFilter machines b (map routed_fields (List.map_filter (sent_to urlFilter machines b item pageBase) ls)) seen
    = map_option (\<lambda>((s, bs), found). (s, found))
        (route_links kh urlFilter machines b item pageBase (filter (\<lambda>l. sent_to urlFilter machines b item pageBase l \<noteq> None) ls) (seen, bs))"
  using assms(1)
proof (induction ls arbitrary: seen)
  case Nil
  then show ?case by (simp add: map_filter_simps)
next
  case (Cons l ls)
  show ?case
  proof (cases "sent_to urlFilter machines b item pageBase l")
    case None
    then show ?thesis using Cons by (simp add: map_filter_simps)
  next
    case (Some r)
    have l: "routable urlFilter item pageBase l" using Cons.prems by simp
    note r = process_routed [OF l Some assms(2)]
    show ?thesis
    proof (cases "process_line kh urlFilter machines b (routed_fields r) seen")
      case None
      then show ?thesis using Some r(2) r(3) [of bs kh seen] by (simp add: map_filter_simps)
    next
      case p: (Some sf)
      obtain s f where "sf = (s, f)" by (cases sf)
      then have "route_link kh urlFilter machines b item pageBase l (seen, bs) = Some ((s, bs), f)"
        using r(3) [of bs kh seen] p by simp
      then show ?thesis using Some r(2) p \<open>sf = (s, f)\<close> Cons
        by (simp add: map_filter_simps option.map_comp comp_def case_prod_unfold)
    qed
  qed
qed

text \<open>C0. A machine that gets the batch of another one does what it had done if it had found the links on the page
  itself: the same words for the same addresses, the same answers of the filter, the same items in the same order. The
  links must be free of tabs and line breaks and have addresses that the checks leave as they are.\<close>

theorem routed_links_arrive:
  assumes "route_links kh urlFilter machines a item pageBase ls (seen, replicate machines []) = Some ((seen', batches), found)"
    and "list_all (routable urlFilter item pageBase) ls" and "seedDistance item + 1 < 2 ^ 64" and "b < machines" and "b \<noteq> a"
  shows "processReceivedBatch kh urlFilter machines b (batch_payload (batches ! b)) seenb =
    map_option (\<lambda>((s, bs), new). (s, new))
      (route_links kh urlFilter machines b item pageBase
         (filter (\<lambda>l. sent_to urlFilter machines b item pageBase l \<noteq> None) ls) (seenb, replicate machines []))"
proof -
  let ?rs = "List.map_filter (sent_to urlFilter machines b item pageBase) ls"
  have b: "batches ! b = ?rs" using route_batches [OF assms(1,5)] assms(4) by simp
  have "list_all good_link ?rs"
    using assms(2,3) process_routed(1) by (auto simp: list_all_iff map_filter_def)
  then have lines: "received_lines (batch_payload ?rs) = map routed_fields ?rs" by (rule received_batch)
  have "batch_payload ?rs = [] \<Longrightarrow> ?rs = []" by (cases ?rs) (simp_all add: batch_payload_def routed_line_def)
  then show ?thesis
    using process_routed_all [OF assms(2,3), of kh machines b seenb "replicate machines []"] lines b
    by (auto simp: processReceivedBatch_def batch_payload_def)
qed

definition found_link :: Link where
  "found_link = \<lparr>link_url = ''/b'', anchorText = [''see'']\<rparr>"

definition found_on :: FrontierItem where
  "found_on = frontier_item ''http://a.com/x''"

lemma found_owner: "owner 2 ''http://a.com/b'' = 1"
  by (simp add: owner_def hashString_def schar_def code_def)

lemma found_target: "link_target \<lparr>blockedHosts = []\<rparr> found_on [] found_link = Some ''http://a.com/b''"
  "passesUrlQualityChecks ''http://a.com/b'' = Some ''http://a.com/b''" "seedDistance found_on = 0"
  "anchorText found_link = [''see'']"
  by code_simp+

theorem routed_links_arrive_witness:
  "\<exists>seen' batches found. route_links kh \<lparr>blockedHosts = []\<rparr> 2 0 found_on [] [found_link] (seen, replicate 2 []) = Some ((seen', batches), found)
     \<and> batch_payload (batches ! 1) = ''http://a.com/b'' @ [tab] @ ''1'' @ [tab] @ ''see'' @ [newline]
     \<and> processReceivedBatch kh \<lparr>blockedHosts = []\<rparr> 2 1 (batch_payload (batches ! 1)) seenb
         = take_link kh ''http://a.com/b'' [''see''] (child_item ''http://a.com/b'' found_on) seenb"
proof -
  let ?r = "\<lparr>r_url = ''http://a.com/b'', r_anchor = [''see''], r_seed = 1\<rparr>"
  have s: "sent_to \<lparr>blockedHosts = []\<rparr> 2 1 found_on [] found_link = Some ?r"
    by (simp add: sent_to_def found_target found_owner)
  have plain: "plain_field ''http://a.com/b''" "plain_field ''see''" by code_simp+
  have one: "show_nat 1 = ''1''" by code_simp
  have two: "replicate 2 x = [x, x]" for x :: "RoutedLink list" by (simp add: numeral_2_eq_2)
  have run: "route_links kh \<lparr>blockedHosts = []\<rparr> 2 0 found_on [] [found_link] (seen, replicate 2 []) = Some ((seen, [[], [?r]]), [])"
    by (simp add: route_link_target found_target found_owner two)
  have "list_all (routable \<lparr>blockedHosts = []\<rparr> found_on []) [found_link]"
    by (simp add: routable_def found_target plain)
  then have "processReceivedBatch kh \<lparr>blockedHosts = []\<rparr> 2 1 (batch_payload ([[], [?r]] ! 1)) seenb =
      map_option (\<lambda>((s, bs), new). (s, new)) (route_links kh \<lparr>blockedHosts = []\<rparr> 2 1 found_on [] [found_link] (seenb, replicate 2 []))"
    using routed_links_arrive [OF run, of 1 seenb] found_target(3) s by simp
  also have "\<dots> = take_link kh ''http://a.com/b'' [''see''] (child_item ''http://a.com/b'' found_on) seenb"
    by (cases seenb; cases "take_link kh ''http://a.com/b'' [''see''] (child_item ''http://a.com/b'' found_on) seenb")
      (auto simp: route_link_target found_target found_owner)
  finally show ?thesis using run
    by (intro exI [of _ seen] exI [of _ "[[], [?r]]"] exI [of _ "[]"])
      (simp add: batch_payload_def routed_line_def one [unfolded One_nat_def] del: show_nat.simps route_links.simps)
qed

end
