(* ===== verification/Spec2Isabelle.thy ===== *)
theory Spec2Isabelle
  imports IsrAnd IsrContainer IsrPhrase IsrOr Indexing QueryTokenizer ChunkReader
    StaticRank TopK QueryCompiler IndexQueue
    BloomFilter DelayedQueue CrawlWorker Checkpoint RobotsTxt Language UrlFilter Peers
begin

text \<open>
  A verification library for the core of the search engine under \<open>src/\<close>: how pages become terms with
  locations, how these become a chunk file, how the file is read back, and how a query walks over the
  posting lists in it. This theory imports all others and holds what spans several of them.

  \<^bold>\<open>From a page to an index.\<close> \<open>HtmlParser\<close> is \<open>HtmlParser.h\<close>, the constructor that runs over the bytes of a page and leaves
  its words, title words and links (\<open>HtmlDoc\<close> in \<open>UrlFeatures\<close>); \<open>HtmlTags\<close> is the table of tags it looks up. A pointer
  into the page is an index, and \<open>currentLink\<close>, which the source keeps across the growth of a vector, is an index with the
  capacity of the vector beside it, so that its use after the vector has moved is a value of its own (\<open>ninth_link_dangles\<close>).
  \<open>Utf8\<close> is the coding of \<open>Utf8.cpp\<close> and \<open>Language\<close> the filter that keeps the pages in English. \<open>Tokenizer::processDocument\<close> (\<open>Tokenizer\<close>) gives each word a location, turns
  it into terms with the stemmer (\<open>Stemmer\<close>) and takes one location more for the end of the page;
  \<open>extractDocumentFeatures\<close> and the URL functions are in \<open>UrlFeatures\<close>, the comparisons and searches of the
  program's own \<open>string\<close> in \<open>Strings\<close>. \<open>InMemoryIndex::addToken\<close> and \<open>finishDocument\<close> (\<open>InMemoryIndex\<close>)
  collect the posting lists; \<open>Indexing\<close> has the loops of the index workers of both programs.

  \<^bold>\<open>The chunk file.\<close> \<open>VByte\<close> is the variable-byte coding of \<open>vbyte.cpp\<close>, \<open>ByteCodec\<close> the little-endian copies,
  \<open>SeekTable\<close> the jump table of a posting list, \<open>Types\<close> the structures of \<open>types.h\<close>. \<open>ChunkWriter\<close> is
  \<open>flushIndexChunk\<close> with \<open>DiskChunkWriter\<close> and \<open>BinaryWriter\<close>, byte by byte; \<open>ChunkReader\<close> is \<open>DiskChunkReader\<close>
  with \<open>BufferReader\<close>.

  \<^bold>\<open>Queries.\<close> \<open>QueryTokenizer\<close> splits a query. The posting list readers share the interface \<open>ISR\<close>, a record of
  operations over a state: \<open>Isr\<close> states what such a reader promises (locale \<open>isr_contract\<close>: any sequence of
  calls to \<open>next\<close> and \<open>seek\<close> is answered as by a list of locations) and proves it of \<open>ISRWord\<close>; \<open>IsrOr\<close>,
  \<open>IsrAnd\<close>, \<open>IsrContainer\<close> and \<open>IsrPhrase\<close> prove it of the other readers for parts that keep the contract, with the
  document table that \<open>IsrDoc\<close> specifies. \<open>QueryCompiler\<close> is the recursive descent that says which reader is built
  over which parts; \<open>StaticRank\<close> is the score of a document before the query is looked at, and \<open>TopK\<close> the heap that
  keeps the best results, on the \<open>PriorityQueue\<close> that the crawler uses as well (locale \<open>strict_priority\<close>).

  \<^bold>\<open>The crawler.\<close> \<open>UrlNormalize\<close> is \<open>url_dedup.cpp\<close> without its filter: canonical URLs, links against the URL of their page,
  and the checks a page must pass; \<open>BloomFilter\<close> is the filter of the URLs that were seen. \<open>FrontierItem\<close> is an URL in the
  frontier with its score and its line in a file, \<open>LineFile\<close> the files of such lines. The frontier of \<open>frontier.cpp\<close> is
  built up from \<open>BufferedQueue\<close> (a list with both ends), \<open>Reservoir\<close> (a round of the promotion) and the heap of
  \<open>PriorityQueue\<close>: \<open>Frontier\<close> has its state and each of its operations as a function from state to state;
  \<open>FrontierConserve\<close> shows what each of them does to the multiset of the waiting URLs, \<open>FrontierSchedule\<close> that every
  host with URLs is ready, asleep with an entry in the heap, or handed out. \<open>Crawl\<close> is the step relation of the workers over
  these operations, with the invariants of all its reachable states: no URL is lost, a host serves one worker at a time, the
  crawl ends when its work is done, and a worker never waits for nobody. \<open>CrawlWorker\<close> is the body of
  \<open>WorkerThread\<close>, whose turns are made of these steps, \<open>RobotsCache\<close> the reservation of an origin by the workers (whether the
  rules allow a URL is its parameter), \<open>RobotsWildcard\<close> and \<open>RobotsTxt\<close> these rules: the patterns of a \<open>robots.txt\<close> against the
  specification of their language, its parser, and the verdict on a URL as a function of the set of its rules, \<open>Checkpoint\<close> the saved state of the crawl and the restart from it. \<open>DelayedQueue\<close> is the
  queue of that name. \<open>UrlFilter\<close> is the list of blocked domains and extensions. \<open>HashTable\<close> is the table of chains (locale \<open>hash_keys\<close>) and
  \<open>AnchorIndex\<close> the words of links that \<open>main_distributed.cpp\<close> collects in one and writes to files. The theorems about the end of a crawl ask for a limit of at least 4 items, since smaller ones round
  the refill of a reservoir down to nothing (\<open>limit_of_one_strands\<close>); they speak of calls that return, as a round of the
  promotion can leave its vector (\<open>promote_chunk_runs_off\<close>).

  \<^bold>\<open>Between the parts.\<close> \<open>Deque\<close> is the ring buffer of \<open>deque.hpp\<close> (locale \<open>fifo\<close>) and \<open>IndexQueue\<close> the bounded
  queue between the crawler and the index workers, as a step relation over the calls under its lock.

  \<^bold>\<open>Conventions.\<close> Fixed-width integers are words, sizes and offsets in memory are natural numbers, a string is
  the list of its characters, a hash map is an association list with one entry for each key (its order is
  left open where it reaches a file). An exception or a read outside of a buffer is a value: \<open>Inl\<close> of an
  error, or \<open>None\<close>. A loop that may not end is a partial function whose result is then \<open>None\<close>
  (\<open>tokenize_loop\<close>, \<open>match_loop\<close>, \<open>and_advance\<close>, \<open>con_advance\<close>, \<open>phrase_advance\<close>); that the loops of the readers end is part of
  their theorems, when the tokenizer's ends is one of its own. Keys of a hash map are compared as lists of characters,
  which is what the program does for strings without NUL.

  \<^bold>\<open>Not modelled.\<close> Sockets, TLS, the web front end and the crawler's downloads; threads other than as interleavings of
  calls under a lock; the file system (a file is its bytes; failing calls are left out); the
  exercises under \<open>homeworks/\<close>.
\<close>

subsection \<open>From the pages to the reader of a term\<close>

text \<open>The index is written in the order in which the hash map is walked, which may be any.\<close>

definition walked :: "(string \<times> PostingList) list \<Rightarrow> InMemoryIndex \<Rightarrow> InMemoryIndex" where
  "walked order idx = idx\<lparr>index := order\<rparr>"

lemma map_of_walked:
  assumes "index_ok idx" and "distinct order \<and> set order = set (index idx)"
  shows "map_of order = map_of (index idx)"
proof (rule map_of_inject_set [THEN iffD2])
  have "inj_on fst (set order)" using assms by (simp add: index_ok_def distinct_map)
  then show "distinct (map fst order)" using assms(2) by (simp add: distinct_map)
qed (use assms in \<open>auto simp: index_ok_def\<close>)


text \<open>A page with two words.\<close>

definition short_page :: HtmlDoc where
  "short_page = \<lparr>words = [''A'', ''go''], titleWords = [], links = [], base = [], sourceUrl = [],
     seedDistance = 1, openSections = [], sawBodyTag = True, sawCloseHtml = True, truncated = False\<rparr>"

lemma short_page_terms: "processToken ''A'' = [''a'']" "processToken ''go'' = [''go'']"
  by code_simp+

lemma short_page_index:
  "index (snd (index_documents [short_page] (0, empty_index))) =
     [(''a'', \<lparr>locations = [0], doc_frequency = 1, collection_frequency = 1\<rparr>),
      (''go'', \<lparr>locations = [1], doc_frequency = 1, collection_frequency = 1\<rparr>),
      (''#DocEnd'', \<lparr>locations = [2], doc_frequency = 1, collection_frequency = 1\<rparr>)]"
  by (simp add: processDocument_eq short_page_def short_page_terms doc_span_def index_document_eq doc_tokens_def
      addToken_def Let_def empty_index_def empty_posting_list_def docEndToken_def)

lemma short_page_document:
  "\<exists>d. documents (snd (index_documents [short_page] (0, empty_index))) = [d] \<and> short_document d
     \<and> length (document_bytes d) \<le> 40"
  by (simp add: processDocument_eq short_page_def index_document_eq doc_tokens_def Let_def empty_index_def
      document_record_def documentUrl_def document_bytes_def string16_bytes_def disk_record_bytes_def
      short_document_def extractDocumentFeatures_def parseUrl_def empty_parsed_url_def)

lemma length_concat_le: "(\<And>x. x \<in> set xs \<Longrightarrow> length (f x) \<le> k) \<Longrightarrow> length (concat (map f xs)) \<le> k * length xs"
  by (induction xs) (fastforce intro: add_mono)+

lemma short_page_ok: "chunk_ok (snd (index_documents [short_page] (0, empty_index)))"
proof -
  let ?idx = "snd (index_documents [short_page] (0, empty_index))"
  obtain d where d: "documents ?idx = [d]" "short_document d" "length (document_bytes d) \<le> 40"
    using short_page_document by blast
  have one: "posting_list [l]" if "l < 3" for l
    using that by (intro posting_listI) (auto simp: ISRSentinel_def)
  have p: "length (posting_bytes [l]) \<le> 12 + 5" for l
    using length_encodeDeltaList [of "[l]"]
    by (simp add: posting_bytes_def shouldBuild_def BuildThreshold_def posting_header_bytes_def pad_def)
  have n: "num_buckets_for (Suc (Suc (Suc 0))) = 4" by (simp add: num_buckets_for_def)
  have c: "length (chain_bytes (in_bucket 4 i (posting_entries FileHeaderSize (index ?idx)))) \<le> 200" for i
    unfolding short_page_index
    by (simp add: in_bucket_def chain_bytes_def entry_bytes_def Let_def dictionary_entry_def
        bucket_bytes_def pad_def)
  have b: "length (chunk_buckets ?idx) = 4" "chunk_buckets ?idx
      = map (\<lambda>i. in_bucket 4 i (posting_entries FileHeaderSize (index ?idx))) [0..<4]"
    unfolding chunk_buckets_def short_page_index by (simp_all add: n Let_def)
  have "length (concat (map chain_bytes (chunk_buckets ?idx))) \<le> 200 * length (chunk_buckets ?idx)"
    by (rule length_concat_le) (use b(2) c in auto)
  then have "length (dictionary_bytes (chunk_buckets ?idx)) \<le> 840"
    by (simp add: dictionary_bytes_def b(1) del: index_documents.simps)
  then have "length (chunk_bytes ?idx) < 2 ^ 64"
    using p [of 0] p [of 1] p [of 2] d
    unfolding chunk_bytes_def postings_bytes_def short_page_index doctable_bytes_def d(1) doctable_offsets_def
    by (simp add: FileHeaderSize_def)
  then show ?thesis using d one unfolding chunk_ok_def short_page_index d(1) by (simp add: code_def)
qed


end
